(* ===== verification/Prelude.thy ===== *)
theory Prelude
  imports Main "HOL-Library.Word" "HOL-Library.Monad_Syntax"
begin

text \<open>
  Shared vocabulary of the development: the machine types of the Go sources
  (\<open>byte\<close>, \<open>uint32\<close>, \<open>uint64\<close>), the primitives of \<open>math/bits\<close> and
  \<open>encoding/binary\<close> that the sources call, base-\<open>2^64\<close> and base-256 readings of
  limb and byte lists, and the generic lemmas on words and lists the components use.
\<close>

unbundle bit_operations_syntax

type_synonym byte = "8 word"
type_synonym u32 = "32 word"
type_synonym u64 = "64 word"
type_synonym bytes = "byte list"

named_theorems limb_simps \<open>facts that read limbs and carries as natural numbers\<close>
named_theorems word_refine \<open>refinement of limb operations by 256-bit words\<close>

section \<open>Errors as values\<close>

text \<open>A fallible function returns \<open>error + result\<close>; \<open>andThen\<close> is \<open>if err != nil { return err }\<close>
  and \<open>guard\<close> an early return on a condition.\<close>

definition andThen :: "'e + 'a \<Rightarrow> ('a \<Rightarrow> 'e + 'b) \<Rightarrow> 'e + 'b" where
  "andThen r k = (case r of Inl e \<Rightarrow> Inl e | Inr x \<Rightarrow> k x)"

definition guard :: "bool \<Rightarrow> 'e \<Rightarrow> 'e + 'b \<Rightarrow> 'e + 'b" where
  "guard ok e k = (if ok then k else Inl e)"

lemma andThen_simps [simp]: "andThen (Inl e) k = Inl e" "andThen (Inr x) k = k x"
  by (simp_all add: andThen_def)

lemma guard_simps [simp]: "guard True e k = k" "guard False e k = Inl e"
  by (simp_all add: guard_def)

lemma andThen_Inr: "andThen r k = Inr y \<longleftrightarrow> (\<exists>x. r = Inr x \<and> k x = Inr y)"
  by (cases r) simp_all

lemma guard_Inr: "guard ok e k = Inr y \<longleftrightarrow> ok \<and> k = Inr y"
  by (simp add: guard_def)

text \<open>A computation that may panic or, in the model, run out of fuel. \<open>lift\<close> reads the \<open>None\<close> of a
  function that only panics or returns.\<close>

datatype 'a outcome = Done 'a | Panic | NoFuel

fun seq :: "'a outcome \<Rightarrow> ('a \<Rightarrow> 'b outcome) \<Rightarrow> 'b outcome" where
  "seq (Done x) k = k x"
| "seq Panic k = Panic"
| "seq NoFuel k = NoFuel"

fun lift :: "'a option \<Rightarrow> 'a outcome" where
  "lift (Some x) = Done x"
| "lift None = Panic"

section \<open>Limbs\<close>

text \<open>The base of the limb arithmetic, kept opaque so that proofs do not unfold it.\<close>

definition B64 :: nat where
  "B64 = 2 ^ 64"

lemma B64_pos [simp]: "0 < B64" "B64 \<noteq> 0" "1 < B64" "Suc 0 < B64"
  by (simp_all add: B64_def)

section \<open>The primitives of math/bits\<close>

text \<open>
  \<open>bits.Add64\<close>, \<open>bits.Sub64\<close>, \<open>bits.Mul64\<close>, as the Go standard library documents
  them: the carry (borrow) input is 0 or 1 and so is the carry (borrow) output.
\<close>

definition Add64 :: "u64 \<Rightarrow> u64 \<Rightarrow> u64 \<Rightarrow> u64 \<times> u64" where
  "Add64 x y carry = (x + y + carry, if B64 \<le> unat x + unat y + unat carry then 1 else 0)"

definition Sub64 :: "u64 \<Rightarrow> u64 \<Rightarrow> u64 \<Rightarrow> u64 \<times> u64" where
  "Sub64 x y borrow = (x - y - borrow, if unat x < unat y + unat borrow then 1 else 0)"

definition Mul64 :: "u64 \<Rightarrow> u64 \<Rightarrow> u64 \<times> u64" where
  "Mul64 x y = (of_nat (unat x * unat y div B64), x * y)"

lemma unat_lt_B64 [simp]: "unat (x :: u64) < B64"
  using unsigned_less [of x, where ?'a = nat] by (simp add: B64_def)

lemma unat_lt_literal:
  "unat (x :: u64) mod 18446744073709551616 = unat x" "unat x < 18446744073709551616"
  using unat_lt_B64 [of x] by (simp_all add: B64_def)

lemma unat_u64_arith:
  "unat (x + y :: u64) = (unat x + unat y) mod B64"
  "unat (x * y :: u64) = (unat x * unat y) mod B64"
  "unat (of_nat n :: u64) = n mod B64"
  by (simp_all add: unat_word_ariths unat_of_nat B64_def)

lemma Add64_spec:
  assumes "Add64 x y c = (s, c')" and "unat c \<le> 1"
  shows "unat s + B64 * unat c' = unat x + unat y + unat c" and "unat c' \<le> 1"
proof -
  have s: "unat s = (unat x + unat y + unat c) mod B64"
    using assms(1) by (auto simp: Add64_def unat_u64_arith mod_simps)
  have lt: "unat x + unat y + unat c < 2 * B64"
    using unat_lt_B64 [of x] unat_lt_B64 [of y] assms(2) by linarith
  show "unat s + B64 * unat c' = unat x + unat y + unat c"
    using assms(1) s lt by (auto simp: Add64_def le_mod_geq)
  show "unat c' \<le> 1"
    using assms(1) by (auto simp: Add64_def)
qed

lemma Sub64_spec:
  assumes "Sub64 x y b = (d, b')" and "unat b \<le> 1"
  shows "unat d + unat y + unat b = unat x + B64 * unat b'" and "unat b' \<le> 1"
proof -
  have "uint d = (uint x - uint y - uint b) mod 2 ^ 64"
    using assms(1) by (auto simp: Sub64_def uint_word_ariths mod_simps)
  then have d: "int (unat d) = (int (unat x) - int (unat y) - int (unat b)) mod 2 ^ 64"
    by simp
  have x: "int (unat x) < 2 ^ 64" and y: "int (unat y) < 2 ^ 64"
    using unsigned_less [of x, where ?'a = int] unsigned_less [of y, where ?'a = int]
    by simp_all
  have B: "int B64 = 2 ^ 64" by (simp add: B64_def)
  show "unat d + unat y + unat b = unat x + B64 * unat b'"
  proof (cases "unat x < unat y + unat b")
    case True
    have "(int (unat x) - int (unat y) - int (unat b)) mod 2 ^ 64 =
        int (unat x) - int (unat y) - int (unat b) + 2 ^ 64"
      using True x y assms(2)
      by (subst mod_add_self2 [symmetric], intro mod_pos_pos_trivial) linarith+
    then have "unat d + unat y + unat b = unat x + B64"
      using d B by linarith
    then show ?thesis using True assms(1) by (auto simp: Sub64_def)
  next
    case False
    then have "(int (unat x) - int (unat y) - int (unat b)) mod 2 ^ 64 =
        int (unat x) - int (unat y) - int (unat b)"
      using x by (intro mod_pos_pos_trivial) linarith+
    then have "unat d + unat y + unat b = unat x"
      using d by linarith
    then show ?thesis using False assms(1) by (auto simp: Sub64_def)
  qed
  show "unat b' \<le> 1"
    using assms(1) by (auto simp: Sub64_def)
qed

lemma Mul64_spec:
  assumes "Mul64 x y = (hi, lo)"
  shows "unat lo + B64 * unat hi = unat x * unat y"
proof -
  have "unat x * unat y < B64 * B64"
    by (intro mult_strict_mono) simp_all
  then have "unat x * unat y div B64 < B64"
    by (simp add: less_mult_imp_div_less)
  moreover have "hi = of_nat (unat x * unat y div B64)" and "lo = x * y"
    using assms by (auto simp: Mul64_def)
  ultimately have "unat hi = unat x * unat y div B64" and "unat lo = unat x * unat y mod B64"
    by (simp_all add: unat_u64_arith)
  then show ?thesis by simp
qed

section \<open>Little-endian limb lists\<close>

fun lval :: "u64 list \<Rightarrow> nat" where
  "lval [] = 0"
| "lval (x # xs) = unat x + B64 * lval xs"

lemma lval_append: "lval (xs @ ys) = lval xs + B64 ^ length xs * lval ys"
  by (induction xs) (simp_all add: algebra_simps)

lemma lval_bound: "lval xs < B64 ^ length xs"
proof (induction xs)
  case (Cons x xs)
  have "unat x + B64 * lval xs < B64 + B64 * lval xs" by simp
  also have "\<dots> = B64 * Suc (lval xs)" by simp
  also have "\<dots> \<le> B64 * B64 ^ length xs" using Cons by (intro mult_le_mono2) simp
  finally show ?case by simp
qed simp

lemma lval_update:
  "k < length xs \<Longrightarrow> lval (xs[k := v]) + B64 ^ k * unat (xs ! k) = lval xs + B64 ^ k * unat v"
proof (induction xs arbitrary: k)
  case (Cons x xs)
  show ?case
  proof (cases k)
    case (Suc m)
    then have "lval (xs[m := v]) + B64 ^ m * unat (xs ! m) = lval xs + B64 ^ m * unat v"
      using Cons by simp
    then have "B64 * (lval (xs[m := v]) + B64 ^ m * unat (xs ! m)) =
        B64 * (lval xs + B64 ^ m * unat v)" by simp
    then show ?thesis using Suc by (simp add: algebra_simps)
  qed simp
qed simp

lemma lval_replicate_0 [simp]: "lval (replicate n 0) = 0"
  by (induction n) simp_all

section \<open>Big-endian byte lists\<close>

fun be_val :: "bytes \<Rightarrow> nat" where
  "be_val [] = 0"
| "be_val (b # bs) = unat b * 256 ^ length bs + be_val bs"

lemma unat_byte_lt [simp]: "unat (b :: byte) < 256"
  using unsigned_less [of b, where ?'a = nat] by simp

lemma be_val_append: "be_val (xs @ ys) = be_val xs * 256 ^ length ys + be_val ys"
  by (induction xs) (simp_all add: algebra_simps power_add)

lemma be_val_bound: "be_val bs < 256 ^ length bs"
proof (induction bs)
  case (Cons b bs)
  have "unat b * 256 ^ length bs + be_val bs < Suc (unat b) * 256 ^ length bs"
    using Cons by simp
  also have "\<dots> \<le> 256 * 256 ^ length bs"
    using unat_byte_lt [of b] by (intro mult_le_mono1) linarith
  finally show ?case by simp
qed simp

lemma be_val_zeros [simp]: "be_val (replicate n 0) = 0"
  by (induction n) simp_all

lemma be_val_inj: "length xs = length ys \<Longrightarrow> be_val xs = be_val ys \<Longrightarrow> xs = ys"
proof (induction xs ys rule: list_induct2)
  case (Cons x xs y ys)
  have d: "unat x = unat y"
  proof -
    have "unat x = be_val (x # xs) div 256 ^ length xs"
      using be_val_bound [of xs] by simp
    also have "\<dots> = be_val (y # ys) div 256 ^ length ys"
      using Cons.prems Cons.hyps by simp
    also have "\<dots> = unat y"
      using be_val_bound [of ys] by simp
    finally show ?thesis .
  qed
  then have "be_val xs = be_val ys" using Cons.prems Cons.hyps by simp
  then show ?case using Cons.IH d by (simp add: word_unat_eq_iff)
qed simp

text \<open>
  \<open>binary.BigEndian.Uint64\<close> and \<open>binary.BigEndian.PutUint64\<close>: the eight bytes of a
  64-bit word, most significant first.
\<close>

definition Uint64_BE :: "bytes \<Rightarrow> u64" where
  "Uint64_BE bs = foldl (\<lambda>n c. push_bit 8 n OR ucast c) 0 bs"

definition PutUint64_BE :: "u64 \<Rightarrow> bytes" where
  "PutUint64_BE x = map (\<lambda>i. ucast (drop_bit (8 * (7 - i)) x)) [0..<8]"

lemma length_PutUint64_BE [simp]: "length (PutUint64_BE x) = 8"
  by (simp add: PutUint64_BE_def)

lemma unat_ucast_byte [simp]: "unat (ucast (c :: byte) :: u64) = unat c"
  using unat_byte_lt [of c]
  by (simp add: unsigned_ucast_eq take_bit_nat_eq_self del: unat_byte_lt)

lemma shift_or_byte:
  assumes "unat n < 2 ^ 56"
  shows "unat (push_bit 8 (n :: u64) OR ucast (c :: byte)) = unat n * 256 + unat c"
proof -
  have "push_bit 8 n AND (ucast c :: u64) = 0"
    by (rule bit_eqI) (auto simp: bit_simps dest: bit_imp_le_length)
  then have "push_bit 8 n OR (ucast c :: u64) = push_bit 8 n + ucast c"
    by (simp add: disjunctive_add_eq_or)
  moreover have "unat (push_bit 8 n) = unat n * 256"
    using assms by (simp add: push_bit_eq_mult unat_word_ariths)
  moreover have "unat (ucast c :: u64) = unat c"
    by (rule unat_ucast_byte)
  ultimately show ?thesis
    using assms unat_byte_lt [of c] by (simp add: unat_word_ariths del: unat_byte_lt)
qed


lemma Uint64_BE_snoc: "Uint64_BE (bs @ [c]) = push_bit 8 (Uint64_BE bs) OR ucast c"
  by (simp add: Uint64_BE_def)

lemma unat_Uint64_BE: "length bs \<le> 8 \<Longrightarrow> unat (Uint64_BE bs) = be_val bs"
proof (induction bs rule: rev_induct)
  case Nil
  then show ?case by (simp add: Uint64_BE_def)
next
  case (snoc c bs)
  then have IH: "unat (Uint64_BE bs) = be_val bs" and "length bs \<le> 7" by simp_all
  have "be_val bs < 256 ^ length bs" by (rule be_val_bound)
  also have "(256::nat) ^ length bs \<le> 256 ^ 7"
    using \<open>length bs \<le> 7\<close> by (intro power_increasing) simp_all
  finally have "unat (Uint64_BE bs) < 2 ^ 56" using IH by simp
  from shift_or_byte [OF this, of c] IH show ?case
    by (simp add: Uint64_BE_snoc be_val_append)
qed

text \<open>The \<open>n\<close> low-order bytes of a natural number, most significant first.\<close>

fun be_bytes :: "nat \<Rightarrow> nat \<Rightarrow> bytes" where
  "be_bytes 0 m = []"
| "be_bytes (Suc n) m = of_nat (m div 256 ^ n) # be_bytes n m"

lemma length_be_bytes [simp]: "length (be_bytes n m) = n"
  by (induction n) simp_all

lemma unat_of_nat_byte: "unat (of_nat m :: byte) = m mod 256"
  by (simp add: unat_of_nat)

lemma be_val_be_bytes: "be_val (be_bytes n m) = m mod 256 ^ n"
proof (induction n)
  case (Suc n)
  then show ?case
    using mod_mult2_eq [of m "256 ^ n" 256] by (simp add: unat_of_nat_byte mult.commute)
qed simp

lemma be_bytes_be_val: "length bs = n \<Longrightarrow> be_bytes n (be_val bs) = bs"
  using be_val_bound [of bs] by (intro be_val_inj) (simp_all add: be_val_be_bytes)

lemma PutUint64_BE_be_bytes: "PutUint64_BE x = be_bytes 8 (unat x)"
proof -
  have b: "ucast (drop_bit n x) = (of_nat (unat x div 2 ^ n) :: byte)" for n
    by (simp add: word_unat_eq_iff unsigned_ucast_eq unsigned_drop_bit_eq unat_of_nat
        take_bit_eq_mod [where ?'a = nat] drop_bit_eq_div [where ?'a = nat] unat_lt_literal)
  have u: "[0..<8] = [0, 1, 2, 3, 4, 5, 6, 7 :: nat]" by (simp add: upt_rec)
  have n: "8 = Suc (Suc (Suc (Suc (Suc (Suc (Suc (Suc 0)))))))" by simp
  show ?thesis unfolding PutUint64_BE_def u by (subst n) (simp add: b)
qed

lemma be_val_PutUint64_BE: "be_val (PutUint64_BE x) = unat x"
  by (simp add: PutUint64_BE_be_bytes be_val_be_bytes unat_lt_literal)

lemma Uint64_BE_Put [simp]: "Uint64_BE (PutUint64_BE x) = x"
  by (simp add: word_unat_eq_iff unat_Uint64_BE be_val_PutUint64_BE)

lemma PutUint64_BE_get: "length bs = 8 \<Longrightarrow> PutUint64_BE (Uint64_BE bs) = bs"
  by (rule be_val_inj) (simp_all add: be_val_PutUint64_BE unat_Uint64_BE)

end
