(* ===== verification/Uint256.thy ===== *)
theory Uint256
  imports Prelude
begin

text \<open>
  Package \<open>evm256\<close> without its division: the four-limb integer \<open>Uint256\<close> of
  \<open>uint256.go\<close>, addition, subtraction, multiplication, negation, exponentiation and
  sign extension of \<open>arith.go\<close>, and the comparisons, bitwise operations and shifts of
  \<open>bitwise.go\<close>. Every Go operation reads its operands into local copies before it
  writes \<open>out\<close>, so that aliased arguments are harmless and the model returns the
  value written to \<open>out\<close>. The reference is the ring of 256-bit words: \<open>word_of\<close>
  reads a \<open>Uint256\<close> as a \<open>256 word\<close>, and each operation is proved to compute the
  library's operation on words.
\<close>

section \<open>Data: uint256.go\<close>

datatype Uint256 = U256 (w0: u64) (w1: u64) (w2: u64) (w3: u64)

text \<open>Array indexing \<open>z[i]\<close>; the sources only index with \<open>i < 4\<close>.\<close>

definition limb :: "Uint256 \<Rightarrow> nat \<Rightarrow> u64" where
  "limb z i = [w0 z, w1 z, w2 z, w3 z] ! i"

definition zero256 :: Uint256 where
  "zero256 = U256 0 0 0 0"

definition FromU64 :: "u64 \<Rightarrow> Uint256" where
  "FromU64 v = U256 v 0 0 0"

definition FromBytesBE :: "bytes \<Rightarrow> Uint256" where
  "FromBytesBE b =
     (let n = length b;
          buf = (if 32 \<le> n then drop (n - 32) b else replicate (32 - n) 0 @ b)
      in U256 (Uint64_BE (take 8 (drop 24 buf))) (Uint64_BE (take 8 (drop 16 buf)))
              (Uint64_BE (take 8 (drop 8 buf))) (Uint64_BE (take 8 buf)))"

definition BytesBE :: "Uint256 \<Rightarrow> bytes" where
  "BytesBE z = PutUint64_BE (w3 z) @ PutUint64_BE (w2 z) @ PutUint64_BE (w1 z) @ PutUint64_BE (w0 z)"

definition IsZero :: "Uint256 \<Rightarrow> bool" where
  "IsZero z \<longleftrightarrow> (w0 z OR w1 z OR w2 z OR w3 z) = 0"

definition Eq :: "Uint256 \<Rightarrow> Uint256 \<Rightarrow> bool" where
  "Eq a b \<longleftrightarrow> w0 a = w0 b \<and> w1 a = w1 b \<and> w2 a = w2 b \<and> w3 a = w3 b"

text \<open>The loop of \<open>Cmp\<close> runs the index down from 3; \<open>Suc i\<close> stands for index \<open>i\<close>.\<close>

fun Cmp_loop :: "nat \<Rightarrow> Uint256 \<Rightarrow> Uint256 \<Rightarrow> int" where
  "Cmp_loop 0 a b = 0"
| "Cmp_loop (Suc i) a b =
     (if limb a i < limb b i then -1
      else if limb a i > limb b i then 1
      else Cmp_loop i a b)"

definition Cmp :: "Uint256 \<Rightarrow> Uint256 \<Rightarrow> int" where
  "Cmp a b = Cmp_loop 4 a b"

definition isNeg :: "Uint256 \<Rightarrow> bool" where
  "isNeg z \<longleftrightarrow> drop_bit 63 (w3 z) \<noteq> 0"

section \<open>Operations: arith.go\<close>

definition addCarry :: "Uint256 \<Rightarrow> Uint256 \<Rightarrow> Uint256 \<times> u64" where
  "addCarry a b =
     (let (r0, c) = Add64 (w0 a) (w0 b) 0;
          (r1, c) = Add64 (w1 a) (w1 b) c;
          (r2, c) = Add64 (w2 a) (w2 b) c;
          (r3, c) = Add64 (w3 a) (w3 b) c
      in (U256 r0 r1 r2 r3, c))"

definition Add256 :: "Uint256 \<Rightarrow> Uint256 \<Rightarrow> Uint256" where
  "Add256 a b = fst (addCarry a b)"

definition Sub256 :: "Uint256 \<Rightarrow> Uint256 \<Rightarrow> Uint256" where
  "Sub256 a b =
     (let (r0, br) = Sub64 (w0 a) (w0 b) 0;
          (r1, br) = Sub64 (w1 a) (w1 b) br;
          (r2, br) = Sub64 (w2 a) (w2 b) br;
          (r3, _) = Sub64 (w3 a) (w3 b) br
      in U256 r0 r1 r2 r3)"

text \<open>
  The two loops of \<open>mul512\<close> recurse over the limbs still to visit, \<open>b[j..]\<close> and
  \<open>a[i..]\<close>; \<open>k\<close> is the index \<open>i+j\<close> of the limb of \<open>p\<close> written next. The inner
  loop returns the limbs and the last carry, which the outer loop stores in \<open>p[i+4]\<close>.
\<close>

fun mul512_inner :: "u64 \<Rightarrow> u64 list \<Rightarrow> nat \<Rightarrow> u64 list \<Rightarrow> u64 \<Rightarrow> u64 list \<times> u64" where
  "mul512_inner ai [] k p carry = (p, carry)"
| "mul512_inner ai (bj # bs) k p carry =
     (let (hi, lo) = Mul64 ai bj;
          (s, c1) = Add64 (p ! k) lo 0;
          (s2, c2) = Add64 s carry 0;
          (carry', _) = Add64 hi c1 c2
      in mul512_inner ai bs (Suc k) (p[k := s2]) carry')"

fun mul512_outer :: "u64 list \<Rightarrow> u64 list \<Rightarrow> nat \<Rightarrow> u64 list \<Rightarrow> u64 list" where
  "mul512_outer [] bs i p = p"
| "mul512_outer (ai # as) bs i p =
     (let (p', carry) = mul512_inner ai bs i p 0
      in mul512_outer as bs (Suc i) (p'[i + 4 := carry]))"

definition limbs :: "Uint256 \<Rightarrow> u64 list" where
  "limbs z = [w0 z, w1 z, w2 z, w3 z]"

definition mul512 :: "Uint256 \<Rightarrow> Uint256 \<Rightarrow> u64 list" where
  "mul512 a b = mul512_outer (limbs a) (limbs b) 0 (replicate 8 0)"

definition Mul256 :: "Uint256 \<Rightarrow> Uint256 \<Rightarrow> Uint256" where
  "Mul256 a b = (let p = mul512 a b in U256 (p ! 0) (p ! 1) (p ! 2) (p ! 3))"

definition shr1 :: "Uint256 \<Rightarrow> Uint256" where
  "shr1 x = U256 (drop_bit 1 (w0 x) OR push_bit 63 (w1 x))
                 (drop_bit 1 (w1 x) OR push_bit 63 (w2 x))
                 (drop_bit 1 (w2 x) OR push_bit 63 (w3 x))
                 (drop_bit 1 (w3 x))"

definition neg256 :: "Uint256 \<Rightarrow> Uint256" where
  "neg256 x =
     (let (r0, c) = Add64 (NOT (w0 x)) 0 1;
          (r1, c) = Add64 (NOT (w1 x)) 0 c;
          (r2, c) = Add64 (NOT (w2 x)) 0 c;
          (r3, _) = Add64 (NOT (w3 x)) 0 c
      in U256 r0 r1 r2 r3)"

definition abs256 :: "Uint256 \<Rightarrow> Uint256" where
  "abs256 x = (if isNeg x then neg256 x else x)"

text \<open>
  The body of the loop of \<open>SignExtend256\<close>: the limb \<open>r[i]\<close>, where the sign bit is bit
  \<open>bi\<close> of limb \<open>wi\<close>.
\<close>

definition signext_limb :: "Uint256 \<Rightarrow> nat \<Rightarrow> nat \<Rightarrow> nat \<Rightarrow> u64" where
  "signext_limb x wi bi i =
     (let sign = drop_bit bi (limb x wi) AND 1;
          keep = (if bi = 63 then NOT 0 else push_bit (bi + 1) 1 - 1)
      in if i < wi then limb x i
         else if i = wi then
           (if sign \<noteq> 0 then limb x i OR NOT keep else limb x i AND keep)
         else if sign \<noteq> 0 then NOT 0 else 0)"

definition SignExtend256 :: "u64 \<Rightarrow> Uint256 \<Rightarrow> Uint256" where
  "SignExtend256 b x =
     (if 31 \<le> b then x
      else
        (let t = unat (b * 8 + 7); wi = t div 64; bi = t mod 64
         in U256 (signext_limb x wi bi 0) (signext_limb x wi bi 1)
                 (signext_limb x wi bi 2) (signext_limb x wi bi 3)))"

section \<open>Operations: bitwise.go\<close>

definition Lt256 :: "Uint256 \<Rightarrow> Uint256 \<Rightarrow> bool" where
  "Lt256 a b \<longleftrightarrow> Cmp a b < 0"

definition Gt256 :: "Uint256 \<Rightarrow> Uint256 \<Rightarrow> bool" where
  "Gt256 a b \<longleftrightarrow> Cmp a b > 0"

definition Slt256 :: "Uint256 \<Rightarrow> Uint256 \<Rightarrow> bool" where
  "Slt256 a b = (let na = isNeg a; nb = isNeg b in if na \<noteq> nb then na else Cmp a b < 0)"

definition Sgt256 :: "Uint256 \<Rightarrow> Uint256 \<Rightarrow> bool" where
  "Sgt256 a b = (let na = isNeg a; nb = isNeg b in if na \<noteq> nb then nb else Cmp a b > 0)"

definition And256 :: "Uint256 \<Rightarrow> Uint256 \<Rightarrow> Uint256" where
  "And256 a b = U256 (w0 a AND w0 b) (w1 a AND w1 b) (w2 a AND w2 b) (w3 a AND w3 b)"

definition Or256 :: "Uint256 \<Rightarrow> Uint256 \<Rightarrow> Uint256" where
  "Or256 a b = U256 (w0 a OR w0 b) (w1 a OR w1 b) (w2 a OR w2 b) (w3 a OR w3 b)"

definition Xor256 :: "Uint256 \<Rightarrow> Uint256 \<Rightarrow> Uint256" where
  "Xor256 a b = U256 (w0 a XOR w0 b) (w1 a XOR w1 b) (w2 a XOR w2 b) (w3 a XOR w3 b)"

definition Not256 :: "Uint256 \<Rightarrow> Uint256" where
  "Not256 a = U256 (NOT (w0 a)) (NOT (w1 a)) (NOT (w2 a)) (NOT (w3 a))"

definition Byte256 :: "u64 \<Rightarrow> Uint256 \<Rightarrow> Uint256" where
  "Byte256 i x =
     (if i < 32 then
        (let idx = 31 - unat i; wi = idx div 8; sh = (idx mod 8) * 8
         in U256 (drop_bit sh (limb x wi) AND 0xff) 0 0 0)
      else zero256)"

definition shiftGE256 :: "Uint256 \<Rightarrow> bool" where
  "shiftGE256 shift \<longleftrightarrow> (w1 shift OR w2 shift OR w3 shift) \<noteq> 0 \<or> 256 \<le> w0 shift"

text \<open>
  The guarded read of the shift loops: \<open>v[src]\<close> when \<open>0 \<le> src < 4\<close> and the value
  \<open>fill\<close> the variable was initialised with otherwise.
\<close>

definition limb_or :: "u64 \<Rightarrow> Uint256 \<Rightarrow> int \<Rightarrow> u64" where
  "limb_or fill v src = (if 0 \<le> src \<and> src < 4 then limb v (nat src) else fill)"

text \<open>The bodies of the shift loops: the limb \<open>r[i]\<close> of the result.\<close>

definition shl_limb :: "Uint256 \<Rightarrow> nat \<Rightarrow> nat \<Rightarrow> nat \<Rightarrow> u64" where
  "shl_limb v wsh bsh i =
     (let lo = limb_or 0 v (int i - int wsh);
          hi = limb_or 0 v (int i - int wsh - 1)
      in if bsh = 0 then lo else push_bit bsh lo OR drop_bit (64 - bsh) hi)"

definition shr_limb :: "u64 \<Rightarrow> Uint256 \<Rightarrow> nat \<Rightarrow> nat \<Rightarrow> nat \<Rightarrow> u64" where
  "shr_limb fill v wsh bsh i =
     (let lo = limb_or fill v (int i + int wsh);
          hi = limb_or fill v (int i + int wsh + 1)
      in if bsh = 0 then lo else drop_bit bsh lo OR push_bit (64 - bsh) hi)"

definition Shl256 :: "Uint256 \<Rightarrow> Uint256 \<Rightarrow> Uint256" where
  "Shl256 s v =
     (if shiftGE256 s then zero256
      else
        (let wsh = unat (w0 s) div 64; bsh = unat (w0 s) mod 64
         in U256 (shl_limb v wsh bsh 0) (shl_limb v wsh bsh 1)
                 (shl_limb v wsh bsh 2) (shl_limb v wsh bsh 3)))"

definition Shr256 :: "Uint256 \<Rightarrow> Uint256 \<Rightarrow> Uint256" where
  "Shr256 s v =
     (if shiftGE256 s then zero256
      else
        (let wsh = unat (w0 s) div 64; bsh = unat (w0 s) mod 64
         in U256 (shr_limb 0 v wsh bsh 0) (shr_limb 0 v wsh bsh 1)
                 (shr_limb 0 v wsh bsh 2) (shr_limb 0 v wsh bsh 3)))"

definition Sar256 :: "Uint256 \<Rightarrow> Uint256 \<Rightarrow> Uint256" where
  "Sar256 s v =
     (let fill = (if isNeg v then NOT 0 else 0)
      in if shiftGE256 s then U256 fill fill fill fill
         else
           (let wsh = unat (w0 s) div 64; bsh = unat (w0 s) mod 64
            in U256 (shr_limb fill v wsh bsh 0) (shr_limb fill v wsh bsh 1)
                    (shr_limb fill v wsh bsh 2) (shr_limb fill v wsh bsh 3)))"

section \<open>The value of a Uint256\<close>

definition uval :: "Uint256 \<Rightarrow> nat" where
  "uval z = lval (limbs z)"

definition word_of :: "Uint256 \<Rightarrow> 256 word" where
  "word_of z = of_nat (uval z)"

lemma uval_U256: "uval (U256 a b c d) = unat a + B64 * (unat b + B64 * (unat c + B64 * unat d))"
  by (simp add: uval_def limbs_def)

lemma uval_bound: "uval z < B64 ^ 4"
  using lval_bound [of "limbs z"] by (simp add: uval_def limbs_def eval_nat_numeral)

lemma B64_4: "B64 ^ 4 = 2 ^ 256"
  by (simp add: B64_def)

lemma uval_lt [simp]: "uval z < 2 ^ 256"
  using uval_bound [of z] by (simp only: B64_4)

lemma unat_word_of [simp]: "unat (word_of z) = uval z"
  using uval_lt [of z] by (simp add: word_of_def unat_of_nat)

lemma limb_eq_of_sum:
  assumes "unat (x :: u64) + B64 * m = unat y + B64 * n"
  shows "x = y \<and> m = n"
proof -
  have "(unat x + B64 * m) mod B64 = (unat y + B64 * n) mod B64"
    and "(unat x + B64 * m) div B64 = (unat y + B64 * n) div B64"
    using assms by simp_all
  then show ?thesis by (simp add: word_unat_eq_iff)
qed

lemma uval_inj: "uval a = uval b \<longleftrightarrow> a = b"
  by (cases a; cases b) (auto simp: uval_U256 word_unat_eq_iff dest!: limb_eq_of_sum)

lemma word_of_inj: "word_of a = word_of b \<longleftrightarrow> a = b"
  by (metis unat_word_of uval_inj)

lemma uval_zero256 [simp]: "uval zero256 = 0"
  by (simp add: zero256_def uval_U256)

lemma uval_FromU64 [simp]: "uval (FromU64 v) = unat v"
  by (simp add: FromU64_def uval_U256)


lemma uval_cases: "uval z = unat (w0 z) + B64 * (unat (w1 z) + B64 * (unat (w2 z) + B64 * unat (w3 z)))"
  by (cases z) (simp add: uval_U256)

lemma word_of_wrap: "uval z + B64 ^ 4 * k = n \<Longrightarrow> word_of z = of_nat n"
proof -
  assume n: "uval z + B64 ^ 4 * k = n"
  have "(of_nat (2 ^ 256) :: 256 word) = 0"
    by (simp add: word_unat_eq_iff unat_of_nat)
  then have "(of_nat (B64 ^ 4 * k) :: 256 word) = 0"
    by (simp only: B64_4 of_nat_mult mult_zero_left)
  then show ?thesis by (simp add: word_of_def flip: n)
qed

lemma of_nat_uval: "of_nat (uval z) = word_of z"
  by (simp add: word_of_def)

section \<open>Arithmetic refines 256-bit words\<close>

lemma addCarry_uval:
  assumes "addCarry a b = (r, c)"
  shows "uval r + B64 ^ 4 * unat c = uval a + uval b" and "unat c \<le> 1"
proof -
  obtain r0 c0 r1 c1 r2 c2 r3 c3
    where e: "Add64 (w0 a) (w0 b) 0 = (r0, c0)" "Add64 (w1 a) (w1 b) c0 = (r1, c1)"
      "Add64 (w2 a) (w2 b) c1 = (r2, c2)" "Add64 (w3 a) (w3 b) c2 = (r3, c3)"
    by (metis surj_pair)
  have rc: "r = U256 r0 r1 r2 r3" "c = c3"
    using assms e by (simp_all add: addCarry_def)
  note s0 = Add64_spec [OF e(1)] and s1 = Add64_spec [OF e(2)]
    and s2 = Add64_spec [OF e(3)] and s3 = Add64_spec [OF e(4)]
  have "unat r0 + B64 * unat c0 = unat (w0 a) + unat (w0 b)"
    "unat r1 + B64 * unat c1 = unat (w1 a) + unat (w1 b) + unat c0"
    "unat r2 + B64 * unat c2 = unat (w2 a) + unat (w2 b) + unat c1"
    "unat r3 + B64 * unat c3 = unat (w3 a) + unat (w3 b) + unat c2"
    using s0 s1 s2 s3 by simp_all
  then show "uval r + B64 ^ 4 * unat c = uval a + uval b"
    unfolding rc uval_cases Uint256.sel eval_nat_numeral by (simp add: algebra_simps) algebra
  show "unat c \<le> 1" using s0 s1 s2 s3 rc by simp
qed

lemma word_of_Add256 [word_refine]: "word_of (Add256 a b) = word_of a + word_of b"
proof -
  obtain r c where e: "addCarry a b = (r, c)" by fastforce
  show ?thesis
    using word_of_wrap [OF addCarry_uval(1) [OF e]] e by (simp add: Add256_def of_nat_uval)
qed

lemma uval_Add256: "uval (Add256 a b) = (uval a + uval b) mod 2 ^ 256"
proof -
  have "unat (word_of (Add256 a b)) = (unat (word_of a) + unat (word_of b)) mod 2 ^ LENGTH(256)"
    by (simp only: word_of_Add256 unat_word_ariths(1))
  then show ?thesis by (simp only: unat_word_of) simp
qed

lemma Sub256_uval: "\<exists>k \<le> 1. uval (Sub256 a b) + uval b = uval a + B64 ^ 4 * k"
proof -
  obtain r0 c0 r1 c1 r2 c2 r3 c3
    where e: "Sub64 (w0 a) (w0 b) 0 = (r0, c0)" "Sub64 (w1 a) (w1 b) c0 = (r1, c1)"
      "Sub64 (w2 a) (w2 b) c1 = (r2, c2)" "Sub64 (w3 a) (w3 b) c2 = (r3, c3)"
    by (metis surj_pair)
  have r: "Sub256 a b = U256 r0 r1 r2 r3"
    using e by (simp add: Sub256_def)
  note s0 = Sub64_spec [OF e(1)] and s1 = Sub64_spec [OF e(2)]
    and s2 = Sub64_spec [OF e(3)] and s3 = Sub64_spec [OF e(4)]
  have "unat r0 + unat (w0 b) = unat (w0 a) + B64 * unat c0"
    "unat r1 + unat (w1 b) + unat c0 = unat (w1 a) + B64 * unat c1"
    "unat r2 + unat (w2 b) + unat c1 = unat (w2 a) + B64 * unat c2"
    "unat r3 + unat (w3 b) + unat c2 = unat (w3 a) + B64 * unat c3"
    using s0 s1 s2 s3 by simp_all
  then have "uval (U256 r0 r1 r2 r3) + uval b = uval a + B64 ^ 4 * unat c3"
    unfolding uval_cases Uint256.sel eval_nat_numeral by (simp add: algebra_simps) algebra
  moreover have "unat c3 \<le> 1" using s0 s1 s2 s3 by simp
  ultimately show ?thesis unfolding r by blast
qed

lemma word_of_Sub256 [word_refine]: "word_of (Sub256 a b) = word_of a - word_of b"
proof -
  obtain k where "uval (Sub256 a b) + uval b = uval a + B64 ^ 4 * k"
    using Sub256_uval by blast
  then have "(of_nat (uval (Sub256 a b) + uval b) :: 256 word) = of_nat (uval a + B64 ^ 4 * k)"
    by simp
  also have "\<dots> = word_of a"
    by (rule word_of_wrap [OF refl, symmetric])
  finally show ?thesis by (simp add: of_nat_uval algebra_simps)
qed

lemma unat_not64: "unat (NOT (x :: u64)) + unat x + 1 = B64"
proof -
  have "x + NOT x = - 1" by (simp add: word_add_not)
  then have "(unat x + unat (NOT x)) mod B64 = unat (- 1 :: u64)"
    by (simp flip: unat_u64_arith)
  also have "unat (- 1 :: u64) = B64 - 1" by (simp add: unsigned_minus_1_eq_mask mask_eq_exp_minus_1 B64_def)
  finally have m: "(unat x + unat (NOT x)) mod B64 = B64 - 1" .
  have lt: "unat x < B64" "unat (NOT x) < B64" by simp_all
  show ?thesis
  proof (cases "unat x + unat (NOT x) < B64")
    case True
    with m have "unat x + unat (NOT x) = B64 - 1" by simp
    then show ?thesis using B64_pos(1) by linarith
  next
    case False
    then have "(unat x + unat (NOT x)) mod B64 = unat x + unat (NOT x) - B64"
      using lt by (subst le_mod_geq) (linarith, rule mod_less, linarith)
    then show ?thesis using m lt by linarith
  qed
qed

lemma mac_bound: "0 < b \<Longrightarrow> (b - 1) + (b - 1) * (b - 1) + (b - 1) < b * (b :: nat)"
  by (cases b) simp_all

lemma mul512_step:
  assumes "Mul64 ai bj = (hi, lo)" "Add64 pk lo 0 = (s, c1)" "Add64 s carry 0 = (s2, c2)"
    "Add64 hi c1 c2 = (carry', over)"
  shows "unat s2 + B64 * unat carry' = unat pk + unat ai * unat bj + unat carry"
proof -
  have eq: "unat lo + B64 * unat hi = unat ai * unat bj"
    "unat s + B64 * unat c1 = unat pk + unat lo" "unat s2 + B64 * unat c2 = unat s + unat carry"
    and c: "unat c1 \<le> 1" "unat c2 \<le> 1"
    using Mul64_spec [OF assms(1)] Add64_spec [OF assms(2)] Add64_spec [OF assms(3)] by simp_all
  have sum: "unat s2 + B64 * (unat hi + unat c1 + unat c2) =
      unat pk + unat ai * unat bj + unat carry"
    using eq by (simp add: algebra_simps)
  have le: "unat y \<le> B64 - 1" for y :: u64
    using unat_lt_B64 [of y] by linarith
  have "unat pk + unat ai * unat bj + unat carry \<le> (B64 - 1) + (B64 - 1) * (B64 - 1) + (B64 - 1)"
    by (intro add_mono mult_le_mono le)
  also have "\<dots> < B64 * B64"
    by (rule mac_bound) simp
  finally have "B64 * (unat hi + unat c1 + unat c2) < B64 * B64"
    using sum by linarith
  then have "unat hi + unat c1 + unat c2 < B64" by simp
  moreover have "unat carry' + B64 * unat over = unat hi + unat c1 + unat c2"
    using Add64_spec [OF assms(4) c(2)] by simp
  ultimately have "unat carry' = unat hi + unat c1 + unat c2"
    by (cases "unat over = 0") (simp, cases "unat over", simp_all)
  then show ?thesis using sum by simp
qed

lemma mul512_inner_spec:
  assumes "mul512_inner ai bs k p carry = (p', c')" and "k + length bs \<le> length p"
  shows "length p' = length p \<and> (\<forall>m. m < k \<or> k + length bs \<le> m \<longrightarrow> p' ! m = p ! m) \<and>
    lval p' + B64 ^ (k + length bs) * unat c' = lval p + B64 ^ k * (unat ai * lval bs + unat carry)"
  using assms
proof (induction ai bs k p carry rule: mul512_inner.induct)
  case (2 ai bj bs k p carry)
  obtain hi lo s c1 s2 c2 carry' over
    where e: "Mul64 ai bj = (hi, lo)" "Add64 (p ! k) lo 0 = (s, c1)" "Add64 s carry 0 = (s2, c2)"
      "Add64 hi c1 c2 = (carry', over)" by (metis surj_pair)
  have rec: "mul512_inner ai bs (Suc k) (p[k := s2]) carry' = (p', c')"
    using "2.prems" e by simp
  have k: "k < length p" using "2.prems"(2) by simp
  have IH: "length p' = length (p[k := s2])"
    "\<forall>m. m < Suc k \<or> Suc k + length bs \<le> m \<longrightarrow> p' ! m = p[k := s2] ! m"
    "lval p' + B64 ^ (Suc k + length bs) * unat c' =
      lval (p[k := s2]) + B64 ^ Suc k * (unat ai * lval bs + unat carry')"
    using "2.IH" [OF e(1) [symmetric] refl e(2) [symmetric] refl e(3) [symmetric] refl
        e(4) [symmetric] refl rec] "2.prems"(2) by auto
  have step: "unat s2 + B64 * unat carry' = unat (p ! k) + unat ai * unat bj + unat carry"
    by (rule mul512_step [OF e])
  have "lval (p[k := s2]) + B64 ^ k * unat (p ! k) = lval p + B64 ^ k * unat s2"
    by (rule lval_update [OF k])
  moreover have "B64 ^ k * (unat s2 + B64 * unat carry') =
      B64 ^ k * (unat (p ! k) + unat ai * unat bj + unat carry)" using step by simp
  ultimately have "lval p' + B64 ^ (k + length (bj # bs)) * unat c' =
      lval p + B64 ^ k * (unat ai * lval (bj # bs) + unat carry)"
    using IH(3) by (simp add: algebra_simps)
  then show ?case using IH(1,2) by auto
qed simp

lemma mul512_outer_spec:
  assumes "length p = 8" and "length bs = 4" and "i + length as \<le> 4"
    and "\<forall>m. i + 4 \<le> m \<and> m < 8 \<longrightarrow> p ! m = 0"
  shows "length (mul512_outer as bs i p) = 8 \<and>
    lval (mul512_outer as bs i p) = lval p + B64 ^ i * (lval as * lval bs)"
  using assms
proof (induction as bs i p rule: mul512_outer.induct)
  case (2 ai as bs i p)
  obtain p' c where e: "mul512_inner ai bs i p 0 = (p', c)" by fastforce
  have inner: "length p' = 8" "\<forall>m. i + 4 \<le> m \<longrightarrow> p' ! m = p ! m"
    "lval p' + B64 ^ (i + 4) * unat c = lval p + B64 ^ i * (unat ai * lval bs)"
    using mul512_inner_spec [OF e] "2.prems" by auto
  have lt: "i + 4 < length p'" using "2.prems"(3) inner(1) by simp
  have "p' ! (i + 4) = 0" using inner(2) "2.prems"(3,4) by simp
  then have upd: "lval (p'[i + 4 := c]) = lval p' + B64 ^ (i + 4) * unat c"
    using lval_update [OF lt, of c] by simp
  have "\<forall>m. Suc i + 4 \<le> m \<and> m < 8 \<longrightarrow> p'[i + 4 := c] ! m = 0"
    using inner "2.prems"(4) by simp
  then have "length (mul512_outer as bs (Suc i) (p'[i + 4 := c])) = 8 \<and>
      lval (mul512_outer as bs (Suc i) (p'[i + 4 := c])) =
        lval (p'[i + 4 := c]) + B64 ^ Suc i * (lval as * lval bs)"
    using "2.IH" [OF e [symmetric] refl] "2.prems" inner(1) by simp
  then show ?case using e upd inner(3) by (simp add: algebra_simps)
qed simp

lemma mul512_lval: "lval (mul512 a b) = uval a * uval b" and length_mul512: "length (mul512 a b) = 8"
proof -
  have "length (mul512_outer (limbs a) (limbs b) 0 (replicate 8 0)) = 8 \<and>
    lval (mul512_outer (limbs a) (limbs b) 0 (replicate 8 0)) =
      lval (replicate 8 0) + B64 ^ 0 * (lval (limbs a) * lval (limbs b))"
    by (rule mul512_outer_spec) (simp_all add: limbs_def)
  then show "lval (mul512 a b) = uval a * uval b" and "length (mul512 a b) = 8"
    by (simp_all only: mul512_def uval_def lval_replicate_0) simp_all
qed

lemma word_of_Mul256 [word_refine]: "word_of (Mul256 a b) = word_of a * word_of b"
proof -
  obtain p0 p1 p2 p3 ps where p: "mul512 a b = p0 # p1 # p2 # p3 # ps"
    using length_mul512 [of a b] by (auto simp: numeral_eq_Suc length_Suc_conv)
  have "uval (Mul256 a b) + B64 ^ 4 * lval ps = lval (mul512 a b)"
    by (simp add: Mul256_def p uval_U256 eval_nat_numeral algebra_simps)
  from word_of_wrap [OF this] show ?thesis by (simp add: mul512_lval of_nat_uval)
qed

section \<open>Bits\<close>

lemma bit_nat_add_shift:
  assumes "(a :: nat) < 2 ^ k"
  shows "bit (a + 2 ^ k * b) n \<longleftrightarrow> (if n < k then bit a n else bit b (n - k))"
proof (cases "n < k")
  case True
  have "take_bit k (a + 2 ^ k * b) = a" using assms by (simp add: take_bit_eq_mod)
  then show ?thesis using True bit_take_bit_iff [of k "a + 2 ^ k * b" n] by simp
next
  case False
  have "drop_bit k (a + 2 ^ k * b) = b" using assms by (simp add: drop_bit_eq_div)
  then show ?thesis using False bit_drop_bit_eq [of k "a + 2 ^ k * b"] by (metis comp_apply le_add_diff_inverse linorder_not_less)
qed

lemma bit_limb_sum: "bit (unat (x :: u64) + B64 * m) n \<longleftrightarrow> (if n < 64 then bit x n else bit m (n - 64))"
proof -
  have "unat x < 2 ^ 64" using unat_lt_B64 [of x] by (simp only: B64_def)
  then show ?thesis
    using bit_nat_add_shift [of "unat x" 64 m n] by (auto simp: B64_def bit_unsigned_iff)
qed

lemma bit_word_of:
  "bit (word_of z) n \<longleftrightarrow> n < 256 \<and> bit (limb z (n div 64)) (n mod 64)"
proof -
  have "bit (word_of z) n \<longleftrightarrow> n < 256 \<and> bit (uval z) n"
    by (simp add: word_of_def bit_simps)
  also have "bit (uval z) n \<longleftrightarrow>
    (if n < 64 then bit (w0 z) n else if n - 64 < 64 then bit (w1 z) (n - 64)
     else if n - 128 < 64 then bit (w2 z) (n - 128) else bit (w3 z) (n - 192))"
    unfolding uval_cases bit_limb_sum by (auto simp: bit_unsigned_iff dest: bit_imp_le_length)
  also have "n < 256 \<and> \<dots> \<longleftrightarrow> n < 256 \<and> bit (limb z (n div 64)) (n mod 64)"
  proof -
    consider "n < 64" | "64 \<le> n" "n < 128" | "128 \<le> n" "n < 192" | "192 \<le> n" "n < 256" | "256 \<le> n"
      by linarith
    then show ?thesis
    proof cases
      case 2
      then have "n div 64 = 1" "n mod 64 = n - 64" by (simp_all add: div_nat_eqI mod_nat_eqI)
      with 2 show ?thesis by (auto simp: limb_def)
    next
      case 3
      then have "n div 64 = 2" "n mod 64 = n - 128" by (simp_all add: div_nat_eqI mod_nat_eqI)
      with 3 show ?thesis by (auto simp: limb_def)
    next
      case 4
      then have "n div 64 = 3" "n mod 64 = n - 192" by (simp_all add: div_nat_eqI mod_nat_eqI)
      with 4 show ?thesis by (auto simp: limb_def)
    qed (simp_all add: limb_def)
  qed
  finally show ?thesis .
qed

lemma limb_U256 [simp]:
  "limb (U256 a b c d) 0 = a" "limb (U256 a b c d) (Suc 0) = b"
  "limb (U256 a b c d) 2 = c" "limb (U256 a b c d) 3 = d"
  by (simp_all add: limb_def)

lemma less_4_cases: "i < 4 \<Longrightarrow> i = 0 \<or> i = Suc 0 \<or> i = 2 \<or> i = (3 :: nat)"
  by auto

lemma limb_of_fun: "i < 4 \<Longrightarrow> limb (U256 (f 0) (f 1) (f 2) (f 3)) i = f i"
  by (auto dest!: less_4_cases)

lemma limb_shl_limb: "i < 4 \<Longrightarrow> limb (U256 (shl_limb v wsh bsh 0) (shl_limb v wsh bsh (Suc 0))
    (shl_limb v wsh bsh 2) (shl_limb v wsh bsh 3)) i = shl_limb v wsh bsh i"
  using limb_of_fun [of i "shl_limb v wsh bsh"] by simp

lemma limb_shr_limb: "i < 4 \<Longrightarrow> limb (U256 (shr_limb f v wsh bsh 0) (shr_limb f v wsh bsh (Suc 0))
    (shr_limb f v wsh bsh 2) (shr_limb f v wsh bsh 3)) i = shr_limb f v wsh bsh i"
  using limb_of_fun [of i "shr_limb f v wsh bsh"] by simp

lemma word_of_bitI:
  assumes "\<And>i k. i < 4 \<Longrightarrow> k < 64 \<Longrightarrow> bit (limb z i) k \<longleftrightarrow> bit w (64 * i + k)"
  shows "word_of z = w"
proof (rule bit_eqI)
  fix n assume "possible_bit TYPE(256 word) n"
  then have n: "n < 256" by simp
  then have "bit (word_of z) n \<longleftrightarrow> bit w (64 * (n div 64) + n mod 64)"
    by (simp add: bit_word_of assms)
  then show "bit (word_of z) n \<longleftrightarrow> bit w n" by simp
qed

lemma bit_word_of_limb: "i < 4 \<Longrightarrow> k < 64 \<Longrightarrow> bit (word_of z) (64 * i + k) \<longleftrightarrow> bit (limb z i) k"
  by (simp add: bit_word_of)

lemma limb_bitwise:
  "i < 4 \<Longrightarrow> limb (And256 a b) i = limb a i AND limb b i"
  "i < 4 \<Longrightarrow> limb (Or256 a b) i = limb a i OR limb b i"
  "i < 4 \<Longrightarrow> limb (Xor256 a b) i = limb a i XOR limb b i"
  "i < 4 \<Longrightarrow> limb (Not256 a) i = NOT (limb a i)"
  by (auto simp: And256_def Or256_def Xor256_def Not256_def limb_def dest!: less_4_cases)

lemma word_of_And256 [word_refine]: "word_of (And256 a b) = word_of a AND word_of b"
  by (rule word_of_bitI) (simp add: limb_bitwise bit_simps bit_word_of_limb)

lemma word_of_Or256 [word_refine]: "word_of (Or256 a b) = word_of a OR word_of b"
  by (rule word_of_bitI) (simp add: limb_bitwise bit_simps bit_word_of_limb)

lemma word_of_Xor256 [word_refine]: "word_of (Xor256 a b) = word_of a XOR word_of b"
  by (rule word_of_bitI) (simp add: limb_bitwise bit_simps bit_word_of_limb)

lemma word_of_Not256 [word_refine]: "word_of (Not256 a) = NOT (word_of a)"
  by (rule word_of_bitI) (simp add: limb_bitwise bit_simps bit_word_of_limb)

lemma neg256_eq: "neg256 x = Add256 (Not256 x) (FromU64 1)"
  by (simp add: neg256_def Add256_def addCarry_def Not256_def FromU64_def Add64_def split_def Let_def)

lemma word_of_FromU64: "word_of (FromU64 v) = of_nat (unat v)"
  by (simp add: word_of_def)

lemma word_of_neg256 [word_refine]: "word_of (neg256 x) = - word_of x"
  by (simp add: neg256_eq word_of_Add256 word_of_Not256 word_of_FromU64 minus_eq_not_plus_1)

lemma isNeg_bit: "isNeg z \<longleftrightarrow> bit (word_of z) 255"
proof -
  have h: "bit (w3 z) (63 + n) \<longleftrightarrow> n = 0 \<and> bit (w3 z) 63" for n
    using bit_imp_le_length [of "w3 z" "63 + n"] by (cases n) auto
  have "drop_bit 63 (w3 z) = (if bit (w3 z) 63 then 1 else 0)"
    by (rule bit_eqI) (auto simp: bit_drop_bit_eq h bit_1_iff)
  then show ?thesis by (auto simp: isNeg_def bit_word_of limb_def)
qed

lemma isNeg_sint: "isNeg z \<longleftrightarrow> sint (word_of z) < 0"
  by (simp add: isNeg_bit flip: bit_last_iff)

section \<open>Comparisons\<close>

lemma Cmp_loop_lval:
  assumes "i \<le> 4"
  shows "Cmp_loop i a b =
    (if lval (take i (limbs a)) < lval (take i (limbs b)) then -1
     else if lval (take i (limbs a)) > lval (take i (limbs b)) then 1 else 0)"
  using assms
proof (induction i)
  case (Suc i)
  have t: "lval (take (Suc i) (limbs z)) = lval (take i (limbs z)) + B64 ^ i * unat (limb z i)" for z
    using Suc.prems take_Suc_conv_app_nth [of i "limbs z"]
    by (simp only: limbs_def limb_def) (simp add: lval_append)
  have bnd: "lval (take i (limbs z)) < B64 ^ i" for z
    using lval_bound [of "take i (limbs z)"] Suc.prems by (simp add: limbs_def)
  have lt: "lval (take (Suc i) (limbs x)) < lval (take (Suc i) (limbs y))" if "limb x i < limb y i" for x y
  proof -
    have "Suc (unat (limb x i)) \<le> unat (limb y i)" using that by (simp add: word_less_nat_alt)
    then have "B64 ^ i * Suc (unat (limb x i)) \<le> B64 ^ i * unat (limb y i)" by (rule mult_le_mono2)
    then show ?thesis using bnd [of x] unfolding t by simp
  qed
  show ?case
    using lt [of a b] lt [of b a] Suc.IH Suc.prems by (auto simp: t not_less order.antisym)
qed simp

lemma Cmp_uval: "Cmp a b = (if uval a < uval b then -1 else if uval a > uval b then 1 else 0)"
  using Cmp_loop_lval [of 4 a b] by (simp add: Cmp_def uval_def limbs_def)

lemma Cmp_iff [simp]:
  "Cmp a b < 0 \<longleftrightarrow> uval a < uval b" "Cmp a b > 0 \<longleftrightarrow> uval b < uval a"
  "Cmp a b \<le> 0 \<longleftrightarrow> uval a \<le> uval b" "Cmp a b \<ge> 0 \<longleftrightarrow> uval b \<le> uval a"
  "Cmp a b = 0 \<longleftrightarrow> a = b"
  by (auto simp: Cmp_uval simp flip: uval_inj)

lemma Eq_iff [simp]: "Eq a b \<longleftrightarrow> a = b"
  by (cases a; cases b) (simp add: Eq_def)

lemma word_or_eq_0: "(x OR y :: 'a::len word) = 0 \<longleftrightarrow> x = 0 \<and> y = 0"
  by (fact or_eq_0_iff)

lemma IsZero_iff [simp]: "IsZero z \<longleftrightarrow> z = zero256"
  by (cases z) (auto simp: IsZero_def zero256_def or_eq_0_iff)

lemma Lt256_word [word_refine]: "Lt256 a b \<longleftrightarrow> word_of a < word_of b"
  by (simp add: Lt256_def word_less_nat_alt)

lemma Gt256_word [word_refine]: "Gt256 a b \<longleftrightarrow> word_of b < word_of a"
  by (simp add: Gt256_def word_less_nat_alt)

lemma sint_uval: "sint (word_of z) = int (uval z) - (if isNeg z then 2 ^ 256 else 0)"
proof -
  have "sint (word_of z) = signed_take_bit 255 (int (uval z))"
    by (simp add: word_of_def signed_of_nat)
  also have "\<dots> = take_bit 256 (int (uval z)) - 2 ^ 256 * of_bool (bit (int (uval z)) 255)"
    using signed_take_bit_eq_take_bit_minus [of 255 "int (uval z)"] by simp
  also have "take_bit 256 (int (uval z)) = int (uval z)"
    by (rule take_bit_int_eq_self) (use uval_lt [of z] in \<open>simp_all add: zless_nat_eq_int_zless\<close>)
  also have "bit (int (uval z)) 255 \<longleftrightarrow> isNeg z"
    by (simp add: isNeg_bit word_of_def bit_simps)
  finally show ?thesis by simp
qed

lemma Slt256_word [word_refine]: "Slt256 a b \<longleftrightarrow> word_of a <s word_of b"
proof -
  have "int (uval a) < 2 ^ 256" "int (uval b) < 2 ^ 256"
    using uval_lt [of a] uval_lt [of b] by (simp_all only: of_nat_power_less_of_nat_cancel_iff of_nat_less_numeral_power_cancel_iff)
  then show ?thesis
    by (auto simp: Slt256_def word_sless_alt sint_uval Let_def)
qed

lemma Sgt256_word [word_refine]: "Sgt256 a b \<longleftrightarrow> word_of b <s word_of a"
proof -
  have "Sgt256 a b = Slt256 b a" by (auto simp: Sgt256_def Slt256_def Let_def)
  then show ?thesis by (simp add: Slt256_word)
qed

text \<open>\<open>Uint256\<close> is linearly ordered by value; \<open>Cmp\<close> decides this order.\<close>

instantiation Uint256 :: linorder
begin

definition less_eq_Uint256 :: "Uint256 \<Rightarrow> Uint256 \<Rightarrow> bool" where
  "a \<le> b \<longleftrightarrow> uval a \<le> uval b"

definition less_Uint256 :: "Uint256 \<Rightarrow> Uint256 \<Rightarrow> bool" where
  "a < b \<longleftrightarrow> uval a < uval b"

instance
  by standard (auto simp: less_eq_Uint256_def less_Uint256_def uval_inj)

end

section \<open>Shifts\<close>

lemma shiftGE256_iff: "shiftGE256 s \<longleftrightarrow> 256 \<le> uval s"
proof (cases "w1 s = 0 \<and> w2 s = 0 \<and> w3 s = 0")
  case True
  then show ?thesis by (simp add: shiftGE256_def uval_cases word_le_nat_alt)
next
  case False
  then have "unat (w1 s) + B64 * (unat (w2 s) + B64 * unat (w3 s)) \<noteq> 0"
    by (auto simp: unat_eq_0)
  then have "B64 * 1 \<le> B64 * (unat (w1 s) + B64 * (unat (w2 s) + B64 * unat (w3 s)))"
    by (intro mult_le_mono2) linarith
  moreover have "256 \<le> B64" by (simp add: B64_def)
  ultimately have "256 \<le> uval s" unfolding uval_cases by linarith
  then show ?thesis using False by (auto simp: shiftGE256_def or_eq_0_iff)
qed

lemma shift_amount: "\<not> shiftGE256 s \<Longrightarrow> unat (w0 s) = uval s"
  by (auto simp: shiftGE256_def or_eq_0_iff uval_cases)

lemma limb_or_bit:
  "k < 64 \<Longrightarrow> bit (limb_or 0 v j) k \<longleftrightarrow> 0 \<le> j \<and> bit (word_of v) (64 * nat j + k)"
  by (auto simp: limb_or_def bit_word_of_limb bit_word_of)

lemma Shl_index:
  assumes "i < 4" "k < 64"
  shows "bit (push_bit (64 * wsh + bsh) (word_of v)) (64 * i + k) \<longleftrightarrow>
    64 * wsh + bsh \<le> 64 * i + k \<and> bit (word_of v) (64 * i + k - (64 * wsh + bsh))"
  using assms by (simp add: bit_push_bit_iff)

lemma shl_limb_bit:
  assumes i: "i < 4" and k: "k < 64" and b: "bsh < 64"
  shows "bit (shl_limb v wsh bsh i) k \<longleftrightarrow> bit (push_bit (64 * wsh + bsh) (word_of v)) (64 * i + k)"
proof (cases "bsh \<le> k")
  case True
  have "bit (shl_limb v wsh bsh i) k \<longleftrightarrow> bit (limb_or 0 v (int i - int wsh)) (k - bsh)"
    using True k b by (auto simp: shl_limb_def Let_def bit_simps dest: bit_imp_le_length)
  also have "\<dots> \<longleftrightarrow> wsh \<le> i \<and> bit (word_of v) (64 * (i - wsh) + (k - bsh))"
    using k by (subst limb_or_bit) (auto simp: nat_diff_distrib)
  also have "\<dots> \<longleftrightarrow> bit (push_bit (64 * wsh + bsh) (word_of v)) (64 * i + k)"
  proof (cases "wsh \<le> i")
    case True
    then have "64 * (i - wsh) + (k - bsh) = 64 * i + k - (64 * wsh + bsh)"
      and "64 * wsh + bsh \<le> 64 * i + k" using \<open>bsh \<le> k\<close> by simp_all
    then show ?thesis using True i k by (simp add: Shl_index)
  next
    case False
    then have "\<not> 64 * wsh + bsh \<le> 64 * i + k" using k by simp
    then show ?thesis using False i k by (simp add: Shl_index)
  qed
  finally show ?thesis .
next
  case False
  have "bit (shl_limb v wsh bsh i) k \<longleftrightarrow> bit (limb_or 0 v (int i - int wsh - 1)) (k + 64 - bsh)"
    using False k b by (auto simp: shl_limb_def Let_def bit_simps dest: bit_imp_le_length)
      (simp_all add: add.commute)
  also have "\<dots> \<longleftrightarrow> Suc wsh \<le> i \<and> bit (word_of v) (64 * (i - Suc wsh) + (k + 64 - bsh))"
    using False k b by (subst limb_or_bit) (auto simp: nat_diff_distrib)
  also have "\<dots> \<longleftrightarrow> bit (push_bit (64 * wsh + bsh) (word_of v)) (64 * i + k)"
  proof (cases "Suc wsh \<le> i")
    case True
    then have "64 * (i - Suc wsh) + (k + 64 - bsh) = 64 * i + k - (64 * wsh + bsh)"
      and "64 * wsh + bsh \<le> 64 * i + k" using b by simp_all
    then show ?thesis using True i k by (simp add: Shl_index)
  next
    case False
    then have "\<not> 64 * wsh + bsh \<le> 64 * i + k" using \<open>\<not> bsh \<le> k\<close> by simp
    then show ?thesis using False i k by (simp add: Shl_index)
  qed
  finally show ?thesis .
qed

lemma word_of_Shl256 [word_refine]: "word_of (Shl256 s v) = push_bit (uval s) (word_of v)"
proof (cases "shiftGE256 s")
  case True
  then have "push_bit (uval s) (word_of v) = 0"
    by (intro bit_eqI) (auto simp: bit_simps shiftGE256_iff)
  then show ?thesis using True by (simp add: Shl256_def word_of_def)
next
  case False
  have n: "uval s = 64 * (unat (w0 s) div 64) + unat (w0 s) mod 64"
    using shift_amount [OF False] by simp
  show ?thesis
    unfolding n using False
    by (intro word_of_bitI) (simp add: Shl256_def Let_def limb_shl_limb shl_limb_bit)
qed

lemma shr_limb_bit:
  assumes i: "i < 4" and k: "k < 64" and b: "bsh < 64"
    and f: "\<And>j k. 0 \<le> j \<Longrightarrow> k < 64 \<Longrightarrow> bit (limb_or fill v j) k \<longleftrightarrow> P (64 * nat j + k)"
  shows "bit (shr_limb fill v wsh bsh i) k \<longleftrightarrow> P (64 * wsh + bsh + (64 * i + k))"
proof (cases "bsh + k < 64")
  case True
  have "bit (shr_limb fill v wsh bsh i) k \<longleftrightarrow> bit (limb_or fill v (int i + int wsh)) (bsh + k)"
    using True k b by (auto simp: shr_limb_def Let_def bit_simps dest: bit_imp_le_length)
  also have "\<dots> \<longleftrightarrow> P (64 * (i + wsh) + (bsh + k))"
    using True by (subst f) (auto simp: nat_add_distrib)
  finally show ?thesis by (simp add: algebra_simps)
next
  case False
  have "\<not> bit (limb_or fill v (int i + int wsh)) (bsh + k)"
    using False by (auto dest: bit_imp_le_length)
  then have "bit (shr_limb fill v wsh bsh i) k \<longleftrightarrow>
      bit (limb_or fill v (int i + int wsh + 1)) (k - (64 - bsh))"
    using False k b by (auto simp: shr_limb_def Let_def bit_simps)
  also have "\<dots> \<longleftrightarrow> P (64 * (i + wsh + 1) + (k - (64 - bsh)))"
    using False k b by (subst f) (auto simp: nat_add_distrib)
  also have "64 * (i + wsh + 1) + (k - (64 - bsh)) = 64 * wsh + bsh + (64 * i + k)"
    using False b by simp
  finally show ?thesis .
qed

lemma word_of_Shr256 [word_refine]: "word_of (Shr256 s v) = drop_bit (uval s) (word_of v)"
proof (cases "shiftGE256 s")
  case True
  then have "drop_bit (uval s) (word_of v) = 0"
    by (intro bit_eqI) (auto simp: bit_simps shiftGE256_iff dest: bit_imp_le_length)
  then show ?thesis using True by (simp add: Shr256_def word_of_def)
next
  case False
  have n: "uval s = 64 * (unat (w0 s) div 64) + unat (w0 s) mod 64"
    using shift_amount [OF False] by simp
  have b: "bit (shr_limb 0 v wsh bsh i) k \<longleftrightarrow> bit (word_of v) (64 * wsh + bsh + (64 * i + k))"
    if "i < 4" "k < 64" "bsh < 64" for wsh bsh i k
    using that by (intro shr_limb_bit [where P = "bit (word_of v)"]) (auto simp: limb_or_bit)
  show ?thesis
    unfolding n using False
    by (intro word_of_bitI) (simp add: Shr256_def Let_def limb_shr_limb b bit_simps)
qed

lemma word_of_Sar256 [word_refine]: "word_of (Sar256 s v) = signed_drop_bit (uval s) (word_of v)"
proof -
  define fill :: u64 where "fill = (if isNeg v then NOT 0 else 0)"
  define P where "P = (\<lambda>n. if n < 256 then bit (word_of v) n else isNeg v)"
  have sd: "bit (signed_drop_bit m (word_of v)) n \<longleftrightarrow> P (m + n)" if "n < 256" for m n
    using that by (auto simp: bit_signed_drop_bit_iff P_def isNeg_bit)
  have fillb: "k < 64 \<Longrightarrow> bit fill k \<longleftrightarrow> isNeg v" for k
    by (simp add: fill_def bit_simps)
  show ?thesis
  proof (cases "shiftGE256 s")
    case True
    then have "P (uval s + n) \<longleftrightarrow> isNeg v" for n by (simp add: P_def shiftGE256_iff)
    then show ?thesis using True
      by (intro word_of_bitI)
        (auto simp: Sar256_def Let_def sd fillb simp flip: fill_def dest!: less_4_cases)
  next
    case False
    have n: "uval s = 64 * (unat (w0 s) div 64) + unat (w0 s) mod 64"
      using shift_amount [OF False] by simp
    have b: "bit (shr_limb fill v wsh bsh i) k \<longleftrightarrow> P (64 * wsh + bsh + (64 * i + k))"
      if "i < 4" "k < 64" "bsh < 64" for wsh bsh i k
      using that by (intro shr_limb_bit)
        (auto simp: limb_or_def P_def fillb bit_word_of_limb)
    show ?thesis
      unfolding n using False
      by (intro word_of_bitI) (simp add: Sar256_def Let_def limb_shr_limb b sd flip: fill_def)
  qed
qed

section \<open>Bytes, sign extension, byte extraction\<close>

lemma length_BytesBE [simp]: "length (BytesBE z) = 32"
  by (simp add: BytesBE_def)

lemma be_val_BytesBE: "be_val (BytesBE z) = uval z"
  by (simp add: BytesBE_def be_val_append be_val_PutUint64_BE uval_cases B64_def)

lemma uval_FromBytesBE:
  assumes "length b \<le> 32"
  shows "uval (FromBytesBE b) = be_val b"
proof -
  define buf where "buf = replicate (32 - length b) 0 @ b"
  have len: "length buf = 32" using assms by (simp add: buf_def)
  have z: "FromBytesBE b = U256 (Uint64_BE (take 8 (drop 24 buf))) (Uint64_BE (take 8 (drop 16 buf)))
              (Uint64_BE (take 8 (drop 8 buf))) (Uint64_BE (take 8 buf))"
    using assms by (auto simp: FromBytesBE_def Let_def buf_def)
  have split: "buf = take 8 buf @ take 8 (drop 8 buf) @ take 8 (drop 16 buf) @ take 8 (drop 24 buf)"
  proof -
    have "buf = take 8 buf @ drop 8 buf" by simp
    also have "drop 8 buf = take 8 (drop 8 buf) @ drop 16 buf"
      using append_take_drop_id [of 8 "drop 8 buf"] by simp
    also have "drop 16 buf = take 8 (drop 16 buf) @ drop 24 buf"
      using append_take_drop_id [of 8 "drop 16 buf"] by simp
    also have "drop 24 buf = take 8 (drop 24 buf)" using len by simp
    finally show ?thesis .
  qed
  have "be_val buf = uval (FromBytesBE b)"
    unfolding z by (subst split)
      (simp add: be_val_append uval_U256 unat_Uint64_BE len B64_def)
  moreover have "be_val buf = be_val b" by (simp add: buf_def be_val_append)
  ultimately show ?thesis by simp
qed

lemma FromBytesBE_BytesBE [simp]: "FromBytesBE (BytesBE z) = z"
  by (simp add: uval_FromBytesBE be_val_BytesBE flip: uval_inj)

lemma BytesBE_FromBytesBE: "length b = 32 \<Longrightarrow> BytesBE (FromBytesBE b) = b"
  by (rule be_val_inj) (simp_all add: be_val_BytesBE uval_FromBytesBE)

lemma BytesBE_inj: "BytesBE a = BytesBE b \<longleftrightarrow> a = b"
  by (metis FromBytesBE_BytesBE)

lemma and_one_odd: "(v :: u64) AND 1 \<noteq> 0 \<longleftrightarrow> odd v"
  by (simp add: and_one_eq odd_iff_mod_2_eq_one)

lemma bit_keep: "k < 64 \<Longrightarrow> bi < 64 \<Longrightarrow>
  bit (if bi = 63 then NOT 0 else push_bit (bi + 1) 1 - 1 :: u64) k \<longleftrightarrow> k \<le> bi"
proof -
  assume k: "k < 64" "bi < 64"
  have "push_bit (bi + 1) 1 - 1 = (mask (bi + 1) :: u64)"
    by (simp add: mask_eq_exp_minus_1 push_bit_eq_mult)
  then show ?thesis using k by (auto simp: bit_simps)
qed

lemma word_of_SignExtend256 [word_refine]:
  "word_of (SignExtend256 b x) =
    (if b < 31 then signed_take_bit (8 * unat b + 7) (word_of x) else word_of x)"
proof (cases "b < 31")
  case True
  define t where "t = 8 * unat b + 7"
  define wi where "wi = t div 64"
  define bi where "bi = t mod 64"
  define keep :: u64 where "keep = (if bi = 63 then NOT 0 else push_bit (bi + 1) 1 - 1)"
  define sign where "sign \<longleftrightarrow> drop_bit bi (limb x wi) AND 1 \<noteq> (0 :: u64)"
  define r where "r = signext_limb x wi bi"
  have r_def': "r i = (if i < wi then limb x i
      else if i = wi then (if sign then limb x i OR NOT keep else limb x i AND keep)
      else if sign then NOT 0 else 0)" for i
    by (simp only: r_def signext_limb_def Let_def keep_def sign_def)
  have b31: "unat b < 31" using True by (simp add: word_less_nat_alt)
  then have "unat (b * 8 + 7) = t" by (simp add: t_def unat_word_ariths)
  then have eq: "SignExtend256 b x = U256 (r 0) (r 1) (r 2) (r 3)"
    using True by (simp add: SignExtend256_def Let_def r_def wi_def bi_def not_le [symmetric])
  have t: "t = 64 * wi + bi" "bi < 64" "wi < 4" using b31 by (auto simp: wi_def bi_def t_def)
  have sg: "sign \<longleftrightarrow> bit (word_of x) t"
    unfolding sign_def and_one_odd t(1) bit_word_of_limb [OF t(3,2)]
    by (simp only: bit_iff_odd_drop_bit)
  have "bit (r i) k \<longleftrightarrow> bit (signed_take_bit t (word_of x)) (64 * i + k)" if "i < 4" "k < 64" for i k
  proof -
    have m: "bit (signed_take_bit t (word_of x)) (64 * i + k) \<longleftrightarrow> bit (word_of x) (min t (64 * i + k))"
      using that by (simp add: bit_signed_take_bit_iff)
    have kp: "bit keep k \<longleftrightarrow> k \<le> bi" using that t bit_keep by (simp add: keep_def)
    consider "i < wi" | "i = wi" | "wi < i" by linarith
    then show ?thesis
    proof cases
      case 1
      then have "min t (64 * i + k) = 64 * i + k" using t that by simp
      then show ?thesis using 1 that m by (simp add: r_def' bit_word_of_limb)
    next
      case 2
      then have "min t (64 * i + k) = 64 * i + min bi k" using t by simp
      then show ?thesis using 2 that m t sg
        by (auto simp: r_def' bit_simps kp bit_word_of_limb min_def)
    next
      case 3
      then have "64 * wi + 64 \<le> 64 * i" by simp
      then have "min t (64 * i + k) = t" using t by simp
      then show ?thesis using 3 that m sg by (auto simp: r_def' bit_simps)
    qed
  qed
  then have "word_of (SignExtend256 b x) = signed_take_bit t (word_of x)"
    unfolding eq by (intro word_of_bitI) (simp add: limb_of_fun [of _ r, simplified])
  then show ?thesis using True by (simp add: t_def)
next
  case False
  then have "31 \<le> b" by simp
  then show ?thesis using False by (simp only: SignExtend256_def if_True if_False)
qed

lemma word_of_Byte256 [word_refine]:
  "word_of (Byte256 i x) =
    (if i < 32 then drop_bit (8 * (31 - unat i)) (word_of x) AND 0xff else 0)"
proof (cases "i < 32")
  case True
  define idx where "idx = 31 - unat i"
  have m64: "(0xff :: u64) = mask 8" and m256: "(0xff :: 256 word) = mask 8"
    by (simp_all add: mask_eq_exp_minus_1)
  have b64: "bit (y AND 0xff :: u64) k \<longleftrightarrow> k < 8 \<and> bit y k"
    and b256: "bit (z AND 0xff :: 256 word) k \<longleftrightarrow> k < 8 \<and> bit z k" for y z k
    unfolding m64 m256 bit_and_iff bit_mask_iff by auto
  have eight: "8 * n = 64 * (n div 8) + (n mod 8) * 8" for n :: nat
    using div_mult_mod_eq [of n 8] by linarith
  have idx: "idx div 8 < 4" "8 * idx = 64 * (idx div 8) + (idx mod 8) * 8" "(idx mod 8) * 8 \<le> 56"
    using eight [of idx] by (auto simp: idx_def)
  have "bit (limb (U256 (drop_bit ((idx mod 8) * 8) (limb x (idx div 8)) AND 0xff) 0 0 0) j) k \<longleftrightarrow>
      bit (drop_bit (8 * idx) (word_of x) AND 0xff) (64 * j + k)" if "j < 4" "k < 64" for j k
  proof (cases "j = 0 \<and> k < 8")
    case True
    then have "bit (word_of x) (8 * idx + k) \<longleftrightarrow> bit (limb x (idx div 8)) ((idx mod 8) * 8 + k)"
      using idx by (simp add: bit_word_of_limb add.assoc)
    then show ?thesis using True by (simp add: bit_drop_bit_eq b64 b256)
  next
    case False
    then show ?thesis using that by (auto simp: b64 b256 dest!: less_4_cases)
  qed
  then have "word_of (U256 (drop_bit ((idx mod 8) * 8) (limb x (idx div 8)) AND 0xff) 0 0 0) =
      drop_bit (8 * idx) (word_of x) AND 0xff" by (rule word_of_bitI)
  then show ?thesis using True by (simp add: Byte256_def Let_def idx_def)
qed (simp add: Byte256_def word_of_def)

section \<open>Exponentiation\<close>

lemma word_of_shr1: "word_of (shr1 x) = drop_bit 1 (word_of x)"
proof (rule word_of_bitI)
  fix i k :: nat
  assume ik: "i < 4" "k < 64"
  have nx: "limb (shr1 x) i = drop_bit 1 (limb x i) OR (if i < 3 then push_bit 63 (limb x (Suc i)) else 0)"
    using ik(1) by (auto simp: shr1_def limb_def dest!: less_4_cases)
  show "bit (limb (shr1 x) i) k \<longleftrightarrow> bit (drop_bit 1 (word_of x)) (64 * i + k)"
  proof (cases "k = 63")
    case False
    then have "bit (word_of x) (64 * i + Suc k) \<longleftrightarrow> bit (limb x i) (Suc k)"
      using ik by (intro bit_word_of_limb) simp_all
    then show ?thesis using False ik by (auto simp: nx bit_simps)
  next
    case True
    have "\<not> bit (limb x i) 64" by (auto dest: bit_imp_le_length)
    moreover have "i < 3 \<Longrightarrow> bit (word_of x) (64 * Suc i + 0) \<longleftrightarrow> bit (limb x (Suc i)) 0"
      by (rule bit_word_of_limb) simp_all
    moreover have "\<not> i < 3 \<Longrightarrow> \<not> bit (word_of x) (64 * Suc i)"
      by (simp add: bit_word_of)
    ultimately show ?thesis using True ik by (auto simp: nx bit_simps add.commute)
  qed
qed

lemma uval_shr1: "uval (shr1 x) = uval x div 2"
proof -
  have "uval (shr1 x) = unat (drop_bit 1 (word_of x))"
    using arg_cong [OF word_of_shr1, of unat] by simp
  also have "\<dots> = uval x div 2"
    using uval_lt [of x] by (simp add: unsigned_drop_bit_eq drop_bit_eq_div [where ?'a = nat]
        take_bit_nat_eq_self del: uval_lt)
  finally show ?thesis .
qed

text \<open>The loop of \<open>Exp256\<close>, which ends because \<open>shr1\<close> halves the exponent.\<close>

function Exp256_loop :: "Uint256 \<Rightarrow> Uint256 \<Rightarrow> Uint256 \<Rightarrow> Uint256" where
  "Exp256_loop r b e =
     (if IsZero e then r
      else Exp256_loop (if w0 e AND 1 \<noteq> 0 then Mul256 r b else r) (Mul256 b b) (shr1 e))"
  by pat_completeness auto
termination
  by (relation "measure (\<lambda>(r, b, e). uval e)") (auto simp: uval_shr1 simp flip: uval_inj)

declare Exp256_loop.simps [simp del]

definition Exp256 :: "Uint256 \<Rightarrow> Uint256 \<Rightarrow> Uint256" where
  "Exp256 base exp = Exp256_loop (FromU64 1) base exp"

lemma odd_uval: "w0 e AND 1 \<noteq> 0 \<longleftrightarrow> odd (uval e)"
proof -
  have "odd (uval e) \<longleftrightarrow> bit (word_of e) 0" by (simp add: word_of_def bit_simps bit_0)
  also have "\<dots> \<longleftrightarrow> odd (w0 e)" by (simp only: bit_word_of) (simp add: limb_def bit_0)
  finally show ?thesis by (simp only: and_one_odd)
qed

lemma word_of_Exp256_loop: "word_of (Exp256_loop r b e) = word_of r * word_of b ^ uval e"
proof (induction r b e rule: Exp256_loop.induct)
  case (1 r b e)
  show ?case
  proof (cases "IsZero e")
    case True
    then show ?thesis by (subst Exp256_loop.simps) simp
  next
    case False
    have "word_of (Exp256_loop r b e) =
      word_of (if w0 e AND 1 \<noteq> 0 then Mul256 r b else r) * word_of (Mul256 b b) ^ (uval e div 2)"
      using False 1 by (subst Exp256_loop.simps) (simp add: uval_shr1)
    also have "word_of (Mul256 b b) ^ (uval e div 2) = word_of b ^ (2 * (uval e div 2))"
      by (simp add: word_of_Mul256 power_mult power2_eq_square)
    also have "word_of (if w0 e AND 1 \<noteq> 0 then Mul256 r b else r) =
        word_of r * word_of b ^ (uval e mod 2)"
      unfolding odd_uval by (simp add: word_of_Mul256 odd_iff_mod_2_eq_one)
    also have "word_of r * word_of b ^ (uval e mod 2) * word_of b ^ (2 * (uval e div 2)) =
        word_of r * word_of b ^ (uval e mod 2 + 2 * (uval e div 2))"
      by (simp only: mult.assoc power_add)
    finally show ?thesis by simp
  qed
qed

lemma word_of_Exp256 [word_refine]: "word_of (Exp256 base exp) = word_of base ^ uval exp"
  by (simp add: Exp256_def word_of_Exp256_loop word_of_FromU64)

end
