(* ===== verification/Division.thy ===== *)
theory Division
  imports Uint256
begin

text \<open>
  The division of \<open>evm256/arith.go\<close>: Knuth's algorithm D on 64-bit limbs with the
  reciprocal-based 2-by-1 division of Moeller and Granlund, and the operations built on
  it (\<open>Div256\<close>, \<open>Mod256\<close>, \<open>SDiv256\<close>, \<open>SMod256\<close>, \<open>AddMod256\<close>, \<open>MulMod256\<close>).
  The quotient and the remainder are proved exact for every dividend of at most eight
  limbs and every divisor, and each operation is proved to compute the EVM's operation
  on 256-bit words.
\<close>

section \<open>Definitions\<close>

text \<open>\<open>bits.LeadingZeros64\<close>, and the quotient of \<open>bits.Div64\<close>, which panics unless
  \<open>hi < y\<close>; \<open>reciprocal2by1\<close> only calls it with a normalised divisor.\<close>

definition LeadingZeros64 :: "u64 \<Rightarrow> nat" where
  "LeadingZeros64 x = length (takeWhile (\<lambda>i. \<not> bit x i) (rev [0..<64]))"

definition Div64_quo :: "u64 \<Rightarrow> u64 \<Rightarrow> u64 \<Rightarrow> u64" where
  "Div64_quo hi lo y = of_nat ((unat hi * B64 + unat lo) div unat y)"

text \<open>
  The loops of \<open>addToUn\<close> and \<open>subMulToUn\<close> recurse over the limbs \<open>dn[i..n-1]\<close> still to
  visit; \<open>k\<close> is the index \<open>j+i\<close> into \<open>un\<close>.
\<close>

fun addToUn :: "u64 list \<Rightarrow> nat \<Rightarrow> u64 list \<Rightarrow> u64 \<Rightarrow> u64 list \<times> u64" where
  "addToUn un k [] carry = (un, carry)"
| "addToUn un k (di # ds) carry =
     (let (s, c) = Add64 (un ! k) di carry
      in addToUn (un[k := s]) (Suc k) ds c)"

fun subMulToUn :: "u64 list \<Rightarrow> nat \<Rightarrow> u64 list \<Rightarrow> u64 \<Rightarrow> u64 \<Rightarrow> u64 list \<times> u64" where
  "subMulToUn un k [] m borrow = (un, borrow)"
| "subMulToUn un k (di # ds) m borrow =
     (let (s, c1) = Sub64 (un ! k) borrow 0;
          (ph, pl) = Mul64 di m;
          (t, c2) = Sub64 s pl 0
      in subMulToUn (un[k := t]) (Suc k) ds m (ph + c1 + c2))"

definition reciprocal2by1 :: "u64 \<Rightarrow> u64" where
  "reciprocal2by1 d = Div64_quo (NOT d) (NOT 0) d"

definition udivrem2by1 :: "u64 \<Rightarrow> u64 \<Rightarrow> u64 \<Rightarrow> u64 \<Rightarrow> u64 \<times> u64" where
  "udivrem2by1 uh ul d reciprocal =
     (let (qh, ql) = Mul64 reciprocal uh;
          (ql, carry) = Add64 ql ul 0;
          (qh, _) = Add64 qh uh carry;
          qh = qh + 1;
          r = ul - qh * d;
          (qh, r) = (if r > ql then (qh - 1, r + d) else (qh, r));
          (qh, r) = (if r \<ge> d then (qh + 1, r - d) else (qh, r))
      in (qh, r))"

text \<open>\<open>for n > 0 && xs[n-1] == 0 { n-- }\<close>\<close>

fun sigLen :: "u64 list \<Rightarrow> nat \<Rightarrow> nat" where
  "sigLen xs 0 = 0"
| "sigLen xs (Suc n) = (if xs ! n = 0 then sigLen xs n else Suc n)"

text \<open>Normalisation by a shift of \<open>s\<close> bits, \<open>0 < s < 64\<close>, and its inverse.\<close>

fun shl_from :: "nat \<Rightarrow> u64 \<Rightarrow> u64 list \<Rightarrow> u64 list" where
  "shl_from s prev [] = []"
| "shl_from s prev (x # xs) = (push_bit s x OR drop_bit (64 - s) prev) # shl_from s x xs"

fun shl_limbs :: "nat \<Rightarrow> u64 list \<Rightarrow> u64 list" where
  "shl_limbs s [] = []"
| "shl_limbs s (x # xs) = push_bit s x # shl_from s x xs"

fun shr_limbs :: "nat \<Rightarrow> u64 list \<Rightarrow> u64 list" where
  "shr_limbs s [] = []"
| "shr_limbs s [x] = [drop_bit s x]"
| "shr_limbs s (x # y # ys) = (drop_bit s x OR push_bit (64 - s) y) # shr_limbs s (y # ys)"

text \<open>A zero \<open>Uint256\<close> whose first limbs are overwritten.\<close>

definition of_limbs :: "u64 list \<Rightarrow> Uint256" where
  "of_limbs xs = (let ys = xs @ replicate 4 0 in U256 (ys ! 0) (ys ! 1) (ys ! 2) (ys ! 3))"

text \<open>The loop of the one-limb divisor; the argument \<open>Suc j\<close> is iteration \<open>j\<close>.\<close>

fun udivrem_by1 :: "u64 \<Rightarrow> u64 \<Rightarrow> u64 list \<Rightarrow> nat \<Rightarrow> u64 list \<Rightarrow> u64 \<Rightarrow> u64 list \<times> u64" where
  "udivrem_by1 d rec un 0 quot r = (quot, r)"
| "udivrem_by1 d rec un (Suc j) quot r =
     (let (q, r') = udivrem2by1 r (un ! j) d rec
      in udivrem_by1 d rec un j (quot[j := q]) r')"

text \<open>The estimate of a quotient digit and one iteration of the loop of algorithm D.\<close>

definition qhat_est :: "u64 \<Rightarrow> u64 \<Rightarrow> u64 \<Rightarrow> u64 \<Rightarrow> u64 \<Rightarrow> u64 \<Rightarrow> u64" where
  "qhat_est u2 u1 u0 dh dl rec =
     (if u2 \<ge> dh then NOT 0
      else
        (let (qhat, rhat) = udivrem2by1 u2 u1 dh rec;
             (ph, pl) = Mul64 qhat dl
         in if ph > rhat \<or> (ph = rhat \<and> pl > u0) then qhat - 1 else qhat))"

definition udivrem_step :: "u64 list \<Rightarrow> u64 \<Rightarrow> nat \<Rightarrow> u64 list \<Rightarrow> u64 list \<times> u64" where
  "udivrem_step dn rec j un =
     (let n = length dn;
          dh = dn ! (n - 1);
          dl = dn ! (n - 2);
          u2 = un ! (j + n);
          u1 = un ! (j + n - 1);
          u0 = un ! (j + n - 2);
          qhat = qhat_est u2 u1 u0 dh dl rec;
          (un, borrow) = subMulToUn un j dn qhat 0;
          un = un[j + n := u2 - borrow]
      in if u2 < borrow then
           (let (un', carry) = addToUn un j dn 0
            in (un'[j + n := un' ! (j + n) + carry], qhat - 1))
         else (un, qhat))"

fun udivrem_loop :: "u64 list \<Rightarrow> u64 \<Rightarrow> nat \<Rightarrow> u64 list \<Rightarrow> u64 list \<Rightarrow> u64 list \<times> u64 list" where
  "udivrem_loop dn rec 0 un quot = (un, quot)"
| "udivrem_loop dn rec (Suc j) un quot =
     (let (un', q) = udivrem_step dn rec j un
      in udivrem_loop dn rec j un' (quot[j := q]))"

text \<open>
  \<open>udivrem\<close> itself. \<open>un\<close> is the array of nine limbs; of the array \<open>dn\<close> only the first
  \<open>dLen\<close> limbs are ever read, and the model keeps those.
\<close>

definition udivrem :: "u64 list \<Rightarrow> u64 list \<Rightarrow> nat \<Rightarrow> Uint256 \<Rightarrow> u64 list \<times> Uint256" where
  "udivrem quot u uLenIn d =
     (let dLen = sigLen (limbs d) 4
      in if dLen = 0 then (quot, zero256)
      else
        (let uLen = sigLen u (min uLenIn 8)
         in if uLen = 0 then (quot, zero256)
         else if uLen < dLen then (quot, of_limbs (take uLen u))
         else
           (let shift = LeadingZeros64 (limbs d ! (dLen - 1));
                dn = (if shift = 0 then take dLen (limbs d) else shl_limbs shift (take dLen (limbs d)));
                un = (if shift = 0 then take uLen u @ replicate (9 - uLen) 0
                      else shl_limbs shift (take uLen u) @ [drop_bit (64 - shift) (u ! (uLen - 1))]
                             @ replicate (8 - uLen) 0);
                rec = reciprocal2by1 (dn ! (dLen - 1))
            in if dLen = 1 then
                 (let (quot, r) = udivrem_by1 (dn ! 0) rec un uLen quot (un ! uLen)
                  in (quot, of_limbs [drop_bit shift r]))
               else
                 (let (un, quot) = udivrem_loop dn rec (uLen - dLen + 1) un quot
                  in (quot, of_limbs (if shift = 0 then take dLen un
                                      else shr_limbs shift (take dLen un)))))))"

definition remLimbs :: "u64 list \<Rightarrow> nat \<Rightarrow> Uint256 \<Rightarrow> Uint256" where
  "remLimbs num nlimbs m = snd (udivrem (replicate 8 0) num nlimbs m)"

definition divmod256 :: "Uint256 \<Rightarrow> Uint256 \<Rightarrow> Uint256 \<times> Uint256" where
  "divmod256 n d =
     (let (quot, r) = udivrem (replicate 8 0) (limbs n @ replicate 4 0) 4 d
      in (U256 (quot ! 0) (quot ! 1) (quot ! 2) (quot ! 3), r))"

definition Div256 :: "Uint256 \<Rightarrow> Uint256 \<Rightarrow> Uint256" where
  "Div256 a b = (if IsZero b then zero256 else fst (divmod256 a b))"

definition Mod256 :: "Uint256 \<Rightarrow> Uint256 \<Rightarrow> Uint256" where
  "Mod256 a b = (if IsZero b then zero256 else snd (divmod256 a b))"

definition SDiv256 :: "Uint256 \<Rightarrow> Uint256 \<Rightarrow> Uint256" where
  "SDiv256 a b =
     (if IsZero b then zero256
      else
        (let na = isNeg a; nb = isNeg b;
             (q, _) = divmod256 (abs256 a) (abs256 b)
         in if na \<noteq> nb then neg256 q else q))"

definition SMod256 :: "Uint256 \<Rightarrow> Uint256 \<Rightarrow> Uint256" where
  "SMod256 a b =
     (if IsZero b then zero256
      else
        (let (_, r) = divmod256 (abs256 a) (abs256 b)
         in if isNeg a then neg256 r else r))"

definition AddMod256 :: "Uint256 \<Rightarrow> Uint256 \<Rightarrow> Uint256 \<Rightarrow> Uint256" where
  "AddMod256 a b m =
     (if IsZero m then zero256
      else
        (let (sum, c) = addCarry a b
         in remLimbs (limbs sum @ [c] @ replicate 3 0) 5 m))"

definition MulMod256 :: "Uint256 \<Rightarrow> Uint256 \<Rightarrow> Uint256 \<Rightarrow> Uint256" where
  "MulMod256 a b m = (if IsZero m then zero256 else remLimbs (mul512 a b) 8 m)"

section \<open>Two-by-one division\<close>

text \<open>The arithmetic of Moeller and Granlund's theorem, over the integers.\<close>

lemma mg_bounds:
  fixes B v d uh ul q1 q0 :: int
  assumes d: "B \<le> 2 * d" "d < B" and uh: "0 \<le> uh" "uh < d" and ul: "0 \<le> ul" "ul < B"
    and k: "1 \<le> B * B - (B + v) * d" "B * B - (B + v) * d \<le> d"
    and q: "q1 * B + q0 = (B + v) * uh + ul" "0 \<le> q0" "q0 < B"
  defines "R \<equiv> uh * B + ul - (q1 + 1) * d"
  shows "- d \<le> R" "q0 - B < R" "R < max (B - d) q0"
proof -
  define k where "k = B * B - (B + v) * d"
  have kk: "1 \<le> k" "k \<le> d" using k by (simp_all add: k_def)
  have dpos: "0 < d" using d by linarith
  have B: "0 < B" using d dpos by linarith
  have BR: "B * R = ul * (B - d) + k * uh + d * q0 - B * d"
  proof -
    have "d * (q1 * B + q0) = d * ((B + v) * uh + ul)" by (simp only: q(1))
    then show ?thesis unfolding R_def k_def by (simp add: algebra_simps)
  qed
  have nn: "0 \<le> ul * (B - d)" "0 \<le> k * uh" "0 \<le> d * q0"
    using ul d uh kk q dpos by simp_all
  have "B * (- d) \<le> B * R" using BR nn by (simp add: algebra_simps)
  then show "- d \<le> R" using B by (simp only: mult_le_cancel_left_pos)
  have "B * (q0 - B) < d * (q0 - B)"
    using d q(3) by (intro mult_strict_right_mono_neg) simp_all
  also have "\<dots> \<le> B * R" using BR nn by (simp add: algebra_simps)
  finally show "q0 - B < R" using B by (simp only: mult_less_cancel_left_pos)
  have "ul * (B - d) \<le> (B - 1) * (B - d)"
    using ul d by (intro mult_right_mono) simp_all
  moreover have "k * uh \<le> d * (d - 1)"
    using kk uh by (intro mult_mono) simp_all
  ultimately have "B * R \<le> (B - d) * (B - d) + d * q0 - B"
    using BR by (simp add: algebra_simps)
  also have "\<dots> \<le> (B - d) * max (B - d) q0 + d * max (B - d) q0 - B"
    using d dpos by (intro diff_mono add_mono mult_left_mono) simp_all
  also have "\<dots> = B * (max (B - d) q0 - 1)" by (simp add: algebra_simps)
  finally have "R \<le> max (B - d) q0 - 1" using B by (simp only: mult_le_cancel_left_pos)
  then show "R < max (B - d) q0" by simp
qed

lemma reciprocal2by1_spec:
  assumes "B64 \<le> 2 * unat d"
  shows "1 \<le> int B64 * int B64 - (int B64 + int (unat (reciprocal2by1 d))) * int (unat d)"
    and "int B64 * int B64 - (int B64 + int (unat (reciprocal2by1 d))) * int (unat d) \<le> int (unat d)"
proof -
  define D where "D = unat d"
  define N where "N = unat (NOT d) * B64 + unat (NOT 0 :: u64)"
  have D: "D < B64" "0 < D" "B64 \<le> 2 * D"
    using assms unat_lt_B64 [of d] B64_pos(1) unfolding D_def by linarith+
  have nd: "unat (NOT d) + D + 1 = B64" using unat_not64 [of d] by (simp add: D_def)
  have n0: "unat (NOT 0 :: u64) + 1 = B64" using unat_not64 [of 0] by simp
  have N: "N + D * B64 + 1 = B64 * B64"
  proof -
    have "N + D * B64 + 1 = unat (NOT d) * B64 + D * B64 + (unat (NOT 0 :: u64) + 1)"
      by (simp only: N_def)
    also have "\<dots> = (unat (NOT d) + D + 1) * B64" by (simp only: n0) (simp add: algebra_simps)
    finally show ?thesis by (simp only: nd)
  qed
  have "N < D * B64"
  proof -
    have "B64 * B64 \<le> 2 * D * B64" using D(3) by (rule mult_le_mono1)
    then show ?thesis using N by linarith
  qed
  then have "N div D < B64" by (simp add: less_mult_imp_div_less mult.commute)
  then have v: "unat (reciprocal2by1 d) = N div D"
    by (simp add: reciprocal2by1_def Div64_quo_def N_def D_def unat_u64_arith)
  have m: "N = D * (N div D) + N mod D" "N mod D < D" using D(2) by simp_all
  have N': "int N + int D * int B64 + 1 = int B64 * int B64"
    using N by (metis of_nat_1 of_nat_add of_nat_mult)
  have m': "int N = int D * int (N div D) + int (N mod D)"
    using m(1) by (metis of_nat_add of_nat_mult)
  show "1 \<le> int B64 * int B64 - (int B64 + int (unat (reciprocal2by1 d))) * int (unat d)"
    and "int B64 * int B64 - (int B64 + int (unat (reciprocal2by1 d))) * int (unat d) \<le> int (unat d)"
    using N' m' m(2) unfolding v D_def [symmetric] by (simp_all add: algebra_simps)
qed

lemma unat_of_int_u64: "0 \<le> x \<Longrightarrow> x < int B64 \<Longrightarrow> int (unat (word_of_int x :: u64)) = x"
  by (simp add: B64_def unsigned_of_int take_bit_int_eq_self)

lemma of_int_B64: "(word_of_int (int B64) :: u64) = 0"
  by (simp add: B64_def)

lemma of_int_unat: "word_of_int (int (unat x)) = (x :: u64)"
  by simp

lemma udivrem2by1_spec:
  assumes norm: "B64 \<le> 2 * unat d" and uh: "unat uh < unat d"
    and res: "udivrem2by1 uh ul d (reciprocal2by1 d) = (q, r)"
  shows "unat q * unat d + unat r = unat uh * B64 + unat ul" and "unat r < unat d"
proof -
  note of_nat_unat [simp del]
  define B where "B = int B64"
  define D where "D = int (unat d)"
  define v where "v = int (unat (reciprocal2by1 d))"
  obtain h l ql c qh over where e: "Mul64 (reciprocal2by1 d) uh = (h, l)" "Add64 l ul 0 = (ql, c)"
    "Add64 h uh c = (qh, over)" by (metis surj_pair)
  define q1 where "q1 = int (unat qh)"
  define q0 where "q0 = int (unat ql)"
  define U where "U = int (unat uh) * B + int (unat ul)"
  define R where "R = U - (q1 + 1) * D"
  have bnd: "0 \<le> int (unat x)" "int (unat x) < B" for x :: u64
    using unat_lt_B64 [of x] by (simp_all only: B_def of_nat_less_iff of_nat_0_le_iff)
  have k: "1 \<le> B * B - (B + v) * D" "B * B - (B + v) * D \<le> D"
    using reciprocal2by1_spec [OF norm] unfolding B_def D_def v_def by simp_all
  have d: "B \<le> 2 * D" "D < B" using norm bnd(2) [of d] by (simp_all add: B_def D_def)
  have uhd: "int (unat uh) \<le> D - 1" using uh by (simp add: D_def)
  have c: "unat c \<le> 1" using Add64_spec(2) [OF e(2)] by simp
  have "unat l + B64 * unat h = unat (reciprocal2by1 d) * unat uh"
    "unat ql + B64 * unat c = unat l + unat ul" "unat qh + B64 * unat over = unat h + unat uh + unat c"
    using Mul64_spec [OF e(1)] Add64_spec(1) [OF e(2)] Add64_spec(1) [OF e(3) c] by simp_all
  then have i: "int (unat l) + B * int (unat h) = v * int (unat uh)"
    "q0 + B * int (unat c) = int (unat l) + int (unat ul)"
    "q1 + B * int (unat over) = int (unat h) + int (unat uh) + int (unat c)"
    unfolding B_def v_def q0_def q1_def by (metis of_nat_add of_nat_mult)+
  have sum: "(q1 + B * int (unat over)) * B + q0 = (B + v) * int (unat uh) + int (unat ul)"
    using i by algebra
  have "(B + v) * int (unat uh) \<le> (B + v) * (D - 1)"
    using uhd bnd(1) [of "reciprocal2by1 d"] d by (intro mult_left_mono) (simp_all add: v_def B_def)
  then have "(B + v) * int (unat uh) + int (unat ul) < B * B"
    using k(1) bnd(2) [of ul] bnd(1) [of "reciprocal2by1 d"] unfolding v_def [symmetric]
    by (simp add: algebra_simps)
  then have "(q1 + B * int (unat over)) * B < B * B"
    using sum bnd(1) [of ql] by (simp add: q0_def)
  then have "q1 + B * int (unat over) < B" using d by (simp add: mult_less_cancel_right)
  moreover have "0 \<le> q1" by (simp add: q1_def)
  ultimately have "B * int (unat over) < B * 1" by linarith
  then have "int (unat over) = 0" using d by (simp add: mult_less_cancel_left)
  then have q: "q1 * B + q0 = (B + v) * int (unat uh) + int (unat ul)" using sum by simp
  have mg: "- D \<le> R" "q0 - B < R" "R < max (B - D) q0"
    using mg_bounds [of B D "int (unat uh)" "int (unat ul)" v q1 q0] d uhd bnd [of ul] bnd(1) [of uh]
      k q bnd [of ql] unfolding R_def U_def q0_def by simp_all
  have wr: "ul - (qh + 1) * d = word_of_int R"
  proof -
    have "(word_of_int R :: u64) = word_of_int (int (unat uh)) * word_of_int B +
        word_of_int (int (unat ul)) - (word_of_int q1 + 1) * word_of_int D"
      by (simp only: R_def U_def of_int_add of_int_diff of_int_mult of_int_1)
    then show ?thesis by (simp only: B_def q1_def D_def of_int_B64 of_int_unat) simp
  qed
  have "int (unat uh) * B \<le> (D - 1) * B" using uhd d by (intro mult_right_mono) simp_all
  then have UB: "U < B * D" using bnd(2) [of ul] unfolding U_def by (simp add: algebra_simps)
  have D0: "0 < D" using d by linarith
  have fin: "unat q * unat d + unat r = unat uh * B64 + unat ul \<and> unat r < unat d"
    if "q = word_of_int Q" "r = word_of_int S" "Q * D + S = U" "0 \<le> Q" "0 \<le> S" "S < D" for Q S
  proof -
    have "Q * D < B * D" using that(3,5) UB by linarith
    then have "Q < B" using D0 by (simp add: mult_less_cancel_right)
    then have "int (unat q) = Q" "int (unat r) = S"
      using that d by (simp_all only: B_def unat_of_int_u64)
    then have "int (unat q * unat d + unat r) = int (unat uh * B64 + unat ul)"
      and "int (unat r) < int (unat d)"
      using that by (simp_all only: of_nat_add of_nat_mult flip: U_def B_def D_def)
    then show ?thesis by (simp only: of_nat_eq_iff of_nat_less_iff)
  qed
  have wD: "word_of_int D = d" and wq: "word_of_int q1 = qh"
    by (simp_all only: D_def q1_def of_int_unat)
  define b1 where "b1 \<longleftrightarrow> ul - (qh + 1) * d > ql"
  define Q1 where "Q1 = (if b1 then q1 else q1 + 1)"
  define R1 where "R1 = (if b1 then R + D else R)"
  have w1: "(if b1 then (qh + 1 - 1, ul - (qh + 1) * d + d) else (qh + 1, ul - (qh + 1) * d)) =
      (word_of_int Q1, word_of_int R1)"
    by (auto simp: Q1_def R1_def wr wD wq)
  have b1_iff: "b1 \<longleftrightarrow> R < 0 \<or> q0 < R"
  proof (cases "R < 0")
    case True
    have "word_of_int R = (word_of_int (R + B) :: u64)"
      by (simp only: of_int_add B_def of_int_B64 add_0_right)
    moreover have "int (unat (word_of_int (R + B) :: u64)) = R + B"
      using True mg(2) bnd(1) [of ql] unfolding B_def q0_def by (intro unat_of_int_u64) linarith+
    ultimately have "int (unat (word_of_int R :: u64)) = R + B" by (simp only:)
    then have "unat ql < unat (ul - (qh + 1) * d)"
      using mg(2) unfolding wr q0_def by linarith
    then show ?thesis using True by (simp add: b1_def word_less_nat_alt)
  next
    case False
    have "R < B" using mg(3) D0 bnd(2) [of ql] by (simp add: q0_def)
    then have "int (unat (word_of_int R :: u64)) = R"
      using False by (intro unat_of_int_u64) (simp_all add: B_def)
    then have "unat ql < unat (ul - (qh + 1) * d) \<longleftrightarrow> q0 < R"
      unfolding wr q0_def by linarith
    then show ?thesis using False by (simp add: b1_def word_less_nat_alt)
  qed
  have q1R: "(q1 + 1) * D + R = U" by (simp add: R_def)
  have R1: "0 \<le> R1" "R1 < B" "Q1 * D + R1 = U" "0 \<le> Q1" "R1 < 2 * D"
    using mg d b1_iff q1R bnd [of ql] \<open>0 \<le> q1\<close> D0
    by (auto simp: R1_def Q1_def q0_def algebra_simps max_def split: if_splits)
  have "int (unat (word_of_int R1 :: u64)) = R1" using R1 by (simp add: unat_of_int_u64 B_def)
  then have ge: "d \<le> word_of_int R1 \<longleftrightarrow> D \<le> R1"
    unfolding word_le_nat_alt D_def by linarith
  have qr: "(q, r) = (if D \<le> R1 then (word_of_int (Q1 + 1), word_of_int (R1 - D))
      else (word_of_int Q1, word_of_int R1))"
    using res e w1 ge unfolding udivrem2by1_def b1_def
    by (cases "D \<le> R1") (simp_all add: Let_def wD)
  show "unat q * unat d + unat r = unat uh * B64 + unat ul" and "unat r < unat d"
    using fin [of "Q1 + 1" "R1 - D"] fin [of Q1 R1] qr R1
    by (auto split: if_splits simp: algebra_simps)
qed

section \<open>Multi-limb steps\<close>

lemma addToUn_spec:
  assumes "addToUn un k ds carry = (un', c')" and "unat carry \<le> 1" and "k + length ds \<le> length un"
  shows "length un' = length un \<and> (\<forall>m. m < k \<or> k + length ds \<le> m \<longrightarrow> un' ! m = un ! m) \<and>
    unat c' \<le> 1 \<and> lval un' + B64 ^ (k + length ds) * unat c' =
      lval un + B64 ^ k * (lval ds + unat carry)"
  using assms
proof (induction un k ds carry rule: addToUn.induct)
  case (2 un k di ds carry)
  obtain s c where e: "Add64 (un ! k) di carry = (s, c)" by fastforce
  have rec: "addToUn (un[k := s]) (Suc k) ds c = (un', c')" using "2.prems"(1) e by simp
  have sp: "unat s + B64 * unat c = unat (un ! k) + unat di + unat carry" "unat c \<le> 1"
    using Add64_spec [OF e "2.prems"(2)] .
  have k: "k < length un" using "2.prems"(3) by simp
  have IH: "length un' = length un"
    "\<forall>m. m < Suc k \<or> Suc k + length ds \<le> m \<longrightarrow> un' ! m = un[k := s] ! m" "unat c' \<le> 1"
    "lval un' + B64 ^ (Suc k + length ds) * unat c' =
      lval (un[k := s]) + B64 ^ Suc k * (lval ds + unat c)"
    using "2.IH" [OF e [symmetric] refl rec sp(2)] "2.prems"(3) by auto
  have "lval (un[k := s]) + B64 ^ k * unat (un ! k) = lval un + B64 ^ k * unat s"
    by (rule lval_update [OF k])
  moreover have "B64 ^ k * (unat s + B64 * unat c) =
      B64 ^ k * (unat (un ! k) + unat di + unat carry)" using sp by simp
  ultimately have "lval un' + B64 ^ (k + length (di # ds)) * unat c' =
      lval un + B64 ^ k * (lval (di # ds) + unat carry)"
    using IH(4) by (simp add: algebra_simps)
  then show ?case using IH(1-3) by auto
qed simp

lemma subMul_step:
  assumes "Sub64 uk borrow 0 = (s, c1)" "Mul64 di m = (ph, pl)" "Sub64 s pl 0 = (t, c2)"
  shows "unat t + unat di * unat m + unat borrow = unat uk + B64 * unat (ph + c1 + c2)"
proof -
  have eq: "unat s + unat borrow = unat uk + B64 * unat c1" "unat pl + B64 * unat ph = unat di * unat m"
    "unat t + unat pl = unat s + B64 * unat c2"
    using Sub64_spec [OF assms(1)] Mul64_spec [OF assms(2)] Sub64_spec [OF assms(3)] by simp_all
  have sum: "unat t + unat di * unat m + unat borrow =
      unat uk + B64 * (unat ph + unat c1 + unat c2)"
    using eq by (simp add: algebra_simps)
  have le: "unat y \<le> B64 - 1" for y :: u64
    using unat_lt_B64 [of y] by linarith
  have "unat t + unat di * unat m + unat borrow \<le> (B64 - 1) + (B64 - 1) * (B64 - 1) + (B64 - 1)"
    by (intro add_mono mult_le_mono le)
  also have "\<dots> < B64 * B64" by (rule mac_bound) simp
  finally have "B64 * (unat ph + unat c1 + unat c2) < B64 * B64" using sum by linarith
  then have "unat ph + unat c1 + unat c2 < B64" by simp
  then have "unat (ph + c1 + c2) = unat ph + unat c1 + unat c2"
    by (simp add: unat_u64_arith mod_simps)
  then show ?thesis using sum by simp
qed

lemma subMulToUn_spec:
  assumes "subMulToUn un k ds m borrow = (un', b')" and "k + length ds \<le> length un"
  shows "length un' = length un \<and> (\<forall>i. i < k \<or> k + length ds \<le> i \<longrightarrow> un' ! i = un ! i) \<and>
    lval un' + B64 ^ k * (unat m * lval ds + unat borrow) =
      lval un + B64 ^ (k + length ds) * unat b'"
  using assms
proof (induction un k ds m borrow rule: subMulToUn.induct)
  case (2 un k di ds m borrow)
  obtain s c1 ph pl t c2 where e: "Sub64 (un ! k) borrow 0 = (s, c1)" "Mul64 di m = (ph, pl)"
    "Sub64 s pl 0 = (t, c2)" by (metis surj_pair)
  have rec: "subMulToUn (un[k := t]) (Suc k) ds m (ph + c1 + c2) = (un', b')"
    using "2.prems"(1) e by simp
  have k: "k < length un" using "2.prems"(2) by simp
  have IH: "length un' = length un"
    "\<forall>i. i < Suc k \<or> Suc k + length ds \<le> i \<longrightarrow> un' ! i = un[k := t] ! i"
    "lval un' + B64 ^ Suc k * (unat m * lval ds + unat (ph + c1 + c2)) =
      lval (un[k := t]) + B64 ^ (Suc k + length ds) * unat b'"
    using "2.IH" [OF e(1) [symmetric] refl e(2) [symmetric] refl e(3) [symmetric] refl rec]
      "2.prems"(2) by auto
  have "lval (un[k := t]) + B64 ^ k * unat (un ! k) = lval un + B64 ^ k * unat t"
    by (rule lval_update [OF k])
  moreover have "B64 ^ k * (unat t + unat di * unat m + unat borrow) =
      B64 ^ k * (unat (un ! k) + B64 * unat (ph + c1 + c2))"
    using subMul_step [OF e] by simp
  ultimately have "lval un' + B64 ^ k * (unat m * lval (di # ds) + unat borrow) =
      lval un + B64 ^ (k + length (di # ds)) * unat b'"
    using IH(3) by (simp add: algebra_simps)
  then show ?case using IH(1,2) by auto
qed simp

section \<open>The quotient digit\<close>

text \<open>
  The estimate is the digit or the digit plus one. \<open>P\<close> is the weight of the limbs below
  the two (three) leading ones.
\<close>

lemma knuth_top:
  fixes B P u2 W D dh :: int
  assumes "0 < B" "0 < P" "B \<le> 2 * dh" "dh \<le> u2"
    and "u2 * (B * B * P) \<le> W" "D < (dh + 1) * (B * P)" "0 < D" "W < D * B" "2 \<le> B"
  shows "W < (B - 1 + 1) * D" "(B - 1 - 1) * D \<le> W"
proof -
  show "W < (B - 1 + 1) * D" using assms(8) by (simp add: mult.commute)
  have BP: "0 < B * P" using assms(1,2) by simp
  have "(B - 1 - 1) * D \<le> (B - 2) * ((dh + 1) * (B * P))"
    using assms(6,9) by (simp add: mult_left_mono)
  also have "\<dots> = ((B - 2) * (dh + 1)) * (B * P)" by (simp add: algebra_simps)
  also have "\<dots> \<le> (dh * B) * (B * P)"
    using BP assms(3) by (intro mult_right_mono) (simp_all add: algebra_simps)
  also have "\<dots> = dh * (B * B * P)" by (simp add: algebra_simps)
  also have "\<dots> \<le> u2 * (B * B * P)"
    using assms(1,2,4) by (intro mult_right_mono) simp_all
  finally show "(B - 1 - 1) * D \<le> W" using assms(5) by linarith
qed

lemma knuth_est:
  fixes B P U2 u0 W D dh dl q r w e :: int
  assumes B: "2 \<le> B" and P: "0 < P" and dh: "B \<le> 2 * dh" and dl: "0 \<le> dl" "dl < B"
    and u0: "0 \<le> u0" "u0 < B" and w: "0 \<le> w" "w < P" and e: "0 \<le> e" "e < P"
    and W: "W = (U2 * B + u0) * P + w" and D: "D = (dh * B + dl) * P + e"
    and q: "q * dh + r = U2" "0 \<le> r" "r < dh" "0 \<le> q" "q < B"
  shows "\<lbrakk>q * dl \<le> r * B + u0\<rbrakk> \<Longrightarrow> W < (q + 1) * D \<and> (q - 1) * D \<le> W"
    and "\<lbrakk>r * B + u0 < q * dl\<rbrakk> \<Longrightarrow> W < q * D \<and> (q - 2) * D \<le> W"
proof -
  define U3 where "U3 = U2 * B + u0"
  define D2 where "D2 = dh * B + dl"
  have W': "W = U3 * P + w" and D': "D = D2 * P + e" using W D by (simp_all add: U3_def D2_def)
  have diff: "U3 - q * D2 = r * B + u0 - q * dl"
    using q(1) by (simp add: U3_def D2_def algebra_simps) (metis distrib_left mult.commute mult.left_commute)
  have dhpos: "1 \<le> dh" using dh B by linarith
  have D2: "B \<le> D2"
  proof -
    have "1 * B \<le> dh * B" using dhpos B by (intro mult_right_mono) simp_all
    then show ?thesis using dl unfolding D2_def by linarith
  qed
  have upto: "W < c * D" if "U3 < c * D2" "0 \<le> c" for c
  proof -
    have "(U3 + 1) * P \<le> (c * D2) * P" using that P by (intro mult_right_mono) simp_all
    moreover have "0 \<le> c * e" using that e by simp
    ultimately show ?thesis using w unfolding W' D' by (simp add: algebra_simps)
  qed
  have ce: "c * e \<le> (B - 1) * P" if "c \<le> B - 1" for c
  proof (cases "0 \<le> c")
    case True
    then have "c * e \<le> (B - 1) * P" using that e by (intro mult_mono) simp_all
    then show ?thesis .
  next
    case False
    then have "c * e \<le> 0" using e by (simp add: mult_le_0_iff)
    moreover have "0 \<le> (B - 1) * P" using B P by simp
    ultimately show ?thesis by linarith
  qed
  have low: "c * D \<le> W" if "c * D2 + (B - 1) \<le> U3" "c \<le> B - 1" for c
  proof -
    have "(c * D2 + (B - 1)) * P \<le> U3 * P" using that P by (intro mult_right_mono) simp_all
    then show ?thesis using ce [OF that(2)] w unfolding W' D' by (simp add: algebra_simps)
  qed
  show "W < (q + 1) * D \<and> (q - 1) * D \<le> W" if t: "q * dl \<le> r * B + u0"
  proof
    have "U2 + 1 \<le> (q + 1) * dh" using q by (simp add: algebra_simps)
    then have "(U2 + 1) * B \<le> (q + 1) * dh * B" using B by (intro mult_right_mono) simp_all
    moreover have "0 \<le> (q + 1) * dl" using q dl by simp
    ultimately have "U3 < (q + 1) * D2" using u0 by (simp add: U3_def D2_def algebra_simps)
    then show "W < (q + 1) * D" using q by (intro upto) simp_all
    have "(q - 1) * D2 + (B - 1) \<le> U3" using diff t D2 by (simp add: algebra_simps)
    then show "(q - 1) * D \<le> W" using q by (intro low) simp_all
  qed
  show "W < q * D \<and> (q - 2) * D \<le> W" if t: "r * B + u0 < q * dl"
  proof
    have "U3 < q * D2" using diff t by simp
    then show "W < q * D" using q by (intro upto) simp_all
    have "q * dl \<le> (B - 1) * (B - 1)" using q dl by (intro mult_mono) simp_all
    moreover have "0 \<le> r * B" using q B by simp
    moreover have "B * B \<le> 2 * dh * B" using dh B by (intro mult_right_mono) simp_all
    moreover have "(q - 2) * D2 = q * D2 - 2 * dh * B - 2 * dl"
      and "(B - 1) * (B - 1) = B * B - 2 * B + 1"
      by (simp_all add: D2_def algebra_simps)
    ultimately have "(q - 2) * D2 + (B - 1) \<le> U3"
      using diff u0(1) dl(1) B by linarith
    then show "(q - 2) * D \<le> W" using q by (intro low) simp_all
  qed
qed

lemma B64_ge_2: "2 \<le> B64"
  by (simp add: B64_def)

lemma lex_less_iff: "c < B64 \<Longrightarrow> d < B64 \<Longrightarrow> a * B64 + c < b * B64 + d \<longleftrightarrow> a < b \<or> (a = b \<and> c < (d :: nat))"
proof (cases "a < b")
  case True
  assume "c < B64"
  moreover have "Suc a * B64 \<le> b * B64" using True by (intro mult_le_mono1) simp
  ultimately show ?thesis using True by simp
next
  case False
  assume "d < B64"
  moreover have "a \<noteq> b \<Longrightarrow> Suc b * B64 \<le> a * B64" using False by (intro mult_le_mono1) simp
  ultimately show ?thesis using False by (cases "a = b") simp_all
qed

lemma unat_minus_one: "(0 :: nat) < unat (q :: u64) \<Longrightarrow> unat (q - 1) = unat q - 1"
  by (subst unat_sub) (simp_all add: word_le_nat_alt)

lemma qhat_est_spec:
  assumes norm: "B64 \<le> 2 * unat dh" and P: "0 < P"
    and W: "W = ((unat u2 * B64 + unat u1) * B64 + unat u0) * P + w" "w < P"
    and D: "D = (unat dh * B64 + unat dl) * P + e" "e < P"
    and WD: "W < D * B64"
  defines "q \<equiv> unat (qhat_est u2 u1 u0 dh dl (reciprocal2by1 dh))"
  shows "W < (q + 1) * D \<and> q * D \<le> W + D"
proof (cases "dh \<le> u2")
  case True
  have q: "q + 1 = B64" using True unat_not64 [of 0] by (simp add: q_def qhat_est_def)
  have "unat u2 * (B64 * B64 * P) \<le> W" unfolding W(1) by (simp add: algebra_simps)
  then have p1: "int (unat u2) * (int B64 * int B64 * int P) \<le> int W"
    by (metis of_nat_le_iff of_nat_mult)
  have "unat dl * P + e < (unat dl + 1) * P" using D(2) by simp
  also have "\<dots> \<le> B64 * P" using unat_lt_B64 [of dl] by (intro mult_le_mono1) linarith
  finally have "D < (unat dh + 1) * (B64 * P)" unfolding D(1) by (simp add: algebra_simps)
  then have "int D < int ((unat dh + 1) * (B64 * P))" by (simp only: of_nat_less_iff)
  then have p2: "int D < (int (unat dh) + 1) * (int B64 * int P)"
    by (simp only: of_nat_mult of_nat_add of_nat_1)
  have p3: "0 < int D" using WD by (cases D) simp_all
  have p4: "int W < int D * int B64" using WD by (metis of_nat_less_iff of_nat_mult)
  have "int B64 \<le> int (2 * unat dh)" using norm by (simp only: of_nat_le_iff)
  then have p5: "int B64 \<le> 2 * int (unat dh)" by (simp only: of_nat_mult of_nat_numeral)
  have p6: "int (unat dh) \<le> int (unat u2)" using True by (simp only: of_nat_le_iff word_le_nat_alt)
  have p7: "0 < int B64" "0 < int P" "2 \<le> int B64" using P B64_ge_2 by simp_all
  note kt = knuth_top [OF p7(1,2) p5 p6 p1 p2 p3 p4 p7(3)]
  have "int W < (int B64 - 1 + 1) * int D \<and> (int B64 - 1 - 1) * int D \<le> int W"
    using kt by (rule conjI)
  moreover have qi: "int B64 = int q + 1" using q by linarith
  ultimately have "int W < int ((q + 1) * D) \<and> int (q * D) \<le> int (W + D)"
    by (simp add: algebra_simps)
  then show ?thesis by (simp only: of_nat_less_iff of_nat_le_iff)
next
  case False
  obtain qh rh where e1: "udivrem2by1 u2 u1 dh (reciprocal2by1 dh) = (qh, rh)" by fastforce
  obtain ph pl where e2: "Mul64 qh dl = (ph, pl)" by fastforce
  have u2: "unat u2 < unat dh" using False by (simp add: word_le_nat_alt)
  have s: "unat qh * unat dh + unat rh = unat u2 * B64 + unat u1" "unat rh < unat dh"
    using udivrem2by1_spec [OF norm u2 e1] by simp_all
  have m: "unat pl + B64 * unat ph = unat qh * unat dl" using Mul64_spec [OF e2] .
  have test: "(ph > rh \<or> (ph = rh \<and> pl > u0)) \<longleftrightarrow> unat rh * B64 + unat u0 < unat qh * unat dl"
    using lex_less_iff [of "unat u0" "unat pl" "unat rh" "unat ph"] m
    by (auto simp: word_less_nat_alt word_unat_eq_iff algebra_simps)
  have ints: "2 \<le> int B64" "0 < int P" "int B64 \<le> 2 * int (unat dh)" "0 \<le> int (unat dl)"
    "int (unat dl) < int B64" "0 \<le> int (unat u0)" "int (unat u0) < int B64" "0 \<le> int w"
    "int w < int P" "0 \<le> int e" "int e < int P"
    "int W = ((int (unat u2 * B64 + unat u1)) * int B64 + int (unat u0)) * int P + int w"
    "int D = (int (unat dh) * int B64 + int (unat dl)) * int P + int e"
    "int (unat qh) * int (unat dh) + int (unat rh) = int (unat u2 * B64 + unat u1)"
    "0 \<le> int (unat rh)" "int (unat rh) < int (unat dh)" "0 \<le> int (unat qh)" "int (unat qh) < int B64"
    using B64_ge_2 P norm W D s unat_lt_B64 [of dl] unat_lt_B64 [of u0] unat_lt_B64 [of qh]
    by (simp_all only: of_nat_0_le_iff of_nat_less_iff of_nat_0_less_iff flip: of_nat_mult of_nat_add)
  note est = knuth_est [OF ints]
  show ?thesis
  proof (cases "unat rh * B64 + unat u0 < unat qh * unat dl")
    case True
    then have "0 < unat qh" by (cases "unat qh") simp_all
    then have q: "unat qh = q + 1"
      using False True test e1 e2 unat_minus_one [of qh]
      by (simp add: q_def qhat_est_def split_def)
    have "int W < int (unat qh) * int D \<and> (int (unat qh) - 2) * int D \<le> int W"
      by (rule est(2)) (use True in \<open>simp only: of_nat_less_iff flip: of_nat_mult of_nat_add\<close>)
    then have "int W < int ((q + 1) * D) \<and> int (q * D) \<le> int (W + D)"
      unfolding q by (simp add: algebra_simps)
    then show ?thesis by (simp only: of_nat_less_iff of_nat_le_iff)
  next
    case False2: False
    then have q: "q = unat qh"
      using False test e1 e2 by (auto simp: q_def qhat_est_def Let_def)
    have "int W < (int (unat qh) + 1) * int D \<and> (int (unat qh) - 1) * int D \<le> int W"
      by (rule est(1)) (use False2 in \<open>simp only: of_nat_le_iff not_less flip: of_nat_mult of_nat_add\<close>)
    then have "int W < int ((q + 1) * D) \<and> int (q * D) \<le> int (W + D)"
      unfolding q by (simp add: algebra_simps)
    then show ?thesis by (simp only: of_nat_less_iff of_nat_le_iff)
  qed
qed

end
