(* ===== verification/Division_Correct.thy ===== *)
theory Division_Correct
  imports Division "HOL-Library.Signed_Division"
begin

text \<open>
  Correctness of algorithm D as \<open>evm256/arith.go\<close> writes it: one iteration keeps
  \<open>un + q * B^j * dn\<close>, the loops compute the exact quotient and remainder, and each
  256-bit operation built on \<open>udivrem\<close> computes the EVM's operation on words.
\<close>

lemma set_drop_conv: "set (drop k xs) = {xs ! i | i. k \<le> i \<and> i < length xs}"
proof -
  have "set (drop k xs) = {xs ! (k + i) | i. i < length xs - k}" by (force simp: set_conv_nth)
  also have "\<dots> = {xs ! i | i. k \<le> i \<and> i < length xs}"
  proof (intro equalityI subsetI; clarify)
    fix i assume "i < length xs - k"
    then show "\<exists>m. xs ! (k + i) = xs ! m \<and> k \<le> m \<and> m < length xs" by (intro exI [of _ "k + i"]) simp
  next
    fix i assume "k \<le> i" "i < length xs"
    then show "\<exists>m. xs ! i = xs ! (k + m) \<and> m < length xs - k" by (intro exI [of _ "i - k"]) simp
  qed
  finally show ?thesis .
qed

section \<open>Limb vectors below a power of the base\<close>

lemma lval_eq_0_iff: "lval xs = 0 \<longleftrightarrow> (\<forall>x \<in> set xs. x = 0)"
  by (induction xs) (auto simp: unat_eq_zero)

lemma lval_take_drop: "k \<le> length xs \<Longrightarrow> lval xs = lval (take k xs) + B64 ^ k * lval (drop k xs)"
  using lval_append [of "take k xs" "drop k xs"] by (simp add: min_def)

lemma lval_take_bound: "k \<le> length xs \<Longrightarrow> lval (take k xs) < B64 ^ k"
  using lval_bound [of "take k xs"] by (simp add: min_absorb2)

lemma lval_less_pow_iff:
  assumes "k \<le> length xs"
  shows "lval xs < B64 ^ k \<longleftrightarrow> (\<forall>i < length xs. k \<le> i \<longrightarrow> xs ! i = 0)"
proof -
  have "lval xs < B64 ^ k \<longleftrightarrow> lval (drop k xs) = 0"
  proof (cases "lval (drop k xs)")
    case 0
    then show ?thesis using lval_take_drop [OF assms] lval_take_bound [OF assms] by simp
  next
    case (Suc m)
    then have "B64 ^ k \<le> lval xs" using lval_take_drop [OF assms] by simp
    then show ?thesis using Suc by simp
  qed
  also have "\<dots> \<longleftrightarrow> (\<forall>i < length xs. k \<le> i \<longrightarrow> xs ! i = 0)"
  proof -
    have "set (drop k xs) = {xs ! i | i. k \<le> i \<and> i < length xs}"
      by (rule set_drop_conv)
    then show ?thesis by (auto simp: lval_eq_0_iff)
  qed
  finally show ?thesis .
qed

lemma lval_split3:
  assumes "k + 3 = length xs"
  shows "lval xs = ((unat (xs ! (k + 2)) * B64 + unat (xs ! (k + 1))) * B64 + unat (xs ! k)) * B64 ^ k
    + lval (take k xs)"
proof -
  have "drop k xs = [xs ! k, xs ! (k + 1), xs ! (k + 2)]"
    using assms by (simp add: Cons_nth_drop_Suc [symmetric])
  then show ?thesis using lval_take_drop [of k xs] assms by (simp add: algebra_simps)
qed

lemma lval_split2:
  assumes "k + 2 = length xs"
  shows "lval xs = (unat (xs ! (k + 1)) * B64 + unat (xs ! k)) * B64 ^ k + lval (take k xs)"
proof -
  have "drop k xs = [xs ! k, xs ! (k + 1)]"
    using assms by (simp add: Cons_nth_drop_Suc [symmetric])
  then show ?thesis using lval_take_drop [of k xs] assms by (simp add: algebra_simps)
qed

section \<open>One iteration\<close>

lemma udivrem_digit:
  fixes un dn :: "u64 list"
  assumes n: "2 \<le> length dn" "j + length dn < length un"
    and norm: "B64 \<le> 2 * unat (dn ! (length dn - 1))"
    and lt: "lval un < lval dn * B64 ^ (j + 1)"
  defines "q \<equiv> unat (qhat_est (un ! (j + length dn)) (un ! (j + length dn - 1)) (un ! (j + length dn - 2))
      (dn ! (length dn - 1)) (dn ! (length dn - 2)) (reciprocal2by1 (dn ! (length dn - 1))))"
  shows "lval un < B64 ^ j * (q * lval dn + lval dn)" and "B64 ^ j * (q * lval dn) \<le> lval un + B64 ^ j * lval dn"
proof -
  obtain k where k: "length dn = k + 2" using n(1) by (metis add.commute le_Suc_ex)
  define W where "W = lval (drop j un)"
  have un: "lval un = lval (take j un) + B64 ^ j * W" "lval (take j un) < B64 ^ j"
    using lval_take_drop [of j un] lval_take_bound [of j un] n by (simp_all add: W_def)
  have "B64 ^ j * W < lval dn * B64 ^ (j + 1)" using un(1) lt by linarith
  also have "\<dots> = B64 ^ j * (lval dn * B64)" by simp
  finally have WD: "W < lval dn * B64" by simp
  also have "\<dots> \<le> B64 ^ (k + 3)" using lval_bound [of dn] k
    by (simp add: numeral_3_eq_3 mult.commute less_imp_le)
  finally have Wb: "W < B64 ^ (k + 3)" .
  have "W = lval (take (k + 3) (drop j un)) + B64 ^ (k + 3) * lval (drop (k + 3) (drop j un))"
    unfolding W_def using k n by (intro lval_take_drop) simp
  then have W: "W = lval (take (k + 3) (drop j un))"
    using Wb by (cases "lval (drop (k + 3) (drop j un))") simp_all
  have W3: "W = ((unat (un ! (j + length dn)) * B64 + unat (un ! (j + length dn - 1))) * B64
      + unat (un ! (j + length dn - 2))) * B64 ^ k + lval (take k (take (k + 3) (drop j un)))"
    using lval_split3 [of k "take (k + 3) (drop j un)"] k n unfolding W
    by (simp add: add.assoc [symmetric])
  have D2: "lval dn = (unat (dn ! (length dn - 1)) * B64 + unat (dn ! (length dn - 2))) * B64 ^ k
      + lval (take k dn)"
    using lval_split2 [of k dn] k by simp
  have "W < (q + 1) * lval dn \<and> q * lval dn \<le> W + lval dn"
    unfolding q_def
    by (rule qhat_est_spec [OF norm _ W3 _ D2])
      (use k n WD lval_take_bound in \<open>simp_all add: min_def\<close>)
  then have q: "W + 1 \<le> q * lval dn + lval dn" "q * lval dn \<le> W + lval dn" by simp_all
  have "lval un < B64 ^ j * (W + 1)" using un by simp
  also have "\<dots> \<le> B64 ^ j * (q * lval dn + lval dn)" using q(1) by (rule mult_le_mono2)
  finally show "lval un < B64 ^ j * (q * lval dn + lval dn)" .
  have "B64 ^ j * (q * lval dn) \<le> B64 ^ j * (W + lval dn)" using q(2) by (rule mult_le_mono2)
  then show "B64 ^ j * (q * lval dn) \<le> lval un + B64 ^ j * lval dn"
    using un(1) by (simp add: algebra_simps)
qed

lemma sub_u64:
  "unat (u - b) + unat b = (if u < b then unat u + B64 else unat (u :: u64))"
  using unat_lt_B64 [of b] by (simp add: unat_sub_if' word_less_nat_alt B64_def)

lemma add_u64:
  "unat (x + c) + (if unat x + unat c < B64 then 0 else B64) = unat x + unat (c :: u64)"
proof (cases "unat x + unat c < B64")
  case False
  have "unat x + unat c - B64 < B64" using unat_lt_B64 [of x] unat_lt_B64 [of c] by linarith
  then have "(unat x + unat c) mod B64 = unat x + unat c - B64"
    using False by (simp add: mod_if)
  then show ?thesis using False by (simp add: unat_u64_arith)
qed (simp add: unat_u64_arith)

text \<open>The multiply-and-subtract of an iteration, top limb included.\<close>

lemma udivrem_sub:
  assumes e: "subMulToUn un j dn qh 0 = (un1, b)" and jn: "j + length dn < length un"
  defines "t \<equiv> j + length dn"
  defines "un2 \<equiv> un1[t := un ! t - b]"
  shows "length un2 = length un" and "\<forall>i. t < i \<longrightarrow> un2 ! i = un ! i"
    and "lval un2 + B64 ^ j * (unat qh * lval dn) = lval un + (if un ! t < b then B64 ^ (t + 1) else 0)"
proof -
  have s1: "length un1 = length un" "\<forall>i. i < j \<or> t \<le> i \<longrightarrow> un1 ! i = un ! i"
    "lval un1 + B64 ^ j * (unat qh * lval dn) = lval un + B64 ^ t * unat b"
    using subMulToUn_spec [OF e] jn by (simp_all add: t_def)
  show "length un2 = length un" and "\<forall>i. t < i \<longrightarrow> un2 ! i = un ! i"
    using s1 by (simp_all add: un2_def)
  have s2: "lval un2 + B64 ^ t * unat (un ! t) = lval un1 + B64 ^ t * unat (un ! t - b)"
    using lval_update [of t un1 "un ! t - b"] s1 jn by (simp add: un2_def t_def)
  have "B64 ^ t * (unat (un ! t - b) + unat b)
      = B64 ^ t * (if un ! t < b then unat (un ! t) + B64 else unat (un ! t))"
    by (simp only: sub_u64)
  then show "lval un2 + B64 ^ j * (unat qh * lval dn)
      = lval un + (if un ! t < b then B64 ^ (t + 1) else 0)"
    using s1(3) s2 by (simp add: distrib_left mult.commute split: if_splits)
qed

text \<open>The add-back of an iteration whose estimate was one too large: its carry leaves the
  top limb, because every value stays below \<open>B64 ^ (t + 1)\<close>.\<close>

lemma udivrem_addback:
  assumes e: "addToUn un2 j dn 0 = (un3, c)" and jn: "j + length dn < length un2"
  defines "t \<equiv> j + length dn"
  defines "un4 \<equiv> un3[t := un3 ! t + c]"
  assumes z: "\<forall>i < length un2. t < i \<longrightarrow> un2 ! i = 0"
    and ge: "B64 ^ (t + 1) \<le> lval un2 + B64 ^ j * lval dn"
  shows "length un4 = length un2" and "lval un4 + B64 ^ (t + 1) = lval un2 + B64 ^ j * lval dn"
proof -
  have s3: "length un3 = length un2" "\<forall>i. i < j \<or> t \<le> i \<longrightarrow> un3 ! i = un2 ! i"
    "lval un3 + B64 ^ t * unat c = lval un2 + B64 ^ j * lval dn"
    using addToUn_spec [OF e] jn by (simp_all add: t_def)
  show len: "length un4 = length un2" using s3 by (simp add: un4_def)
  have s4: "lval un4 + B64 ^ t * unat (un3 ! t) = lval un3 + B64 ^ t * unat (un3 ! t + c)"
    using lval_update [of t un3 "un3 ! t + c"] s3(1) jn by (simp add: un4_def t_def)
  have "\<forall>i < length un4. t + 1 \<le> i \<longrightarrow> un4 ! i = 0" using s3 z len by (simp add: un4_def)
  then have b4: "lval un4 < B64 ^ (t + 1)" using lval_less_pow_iff [of "t + 1" un4] len jn
    by (simp add: t_def)
  have "B64 ^ t * (unat (un3 ! t + c) + (if unat (un3 ! t) + unat c < B64 then 0 else B64))
      = B64 ^ t * (unat (un3 ! t) + unat c)"
    by (simp only: add_u64)
  then have "lval un4 + (if unat (un3 ! t) + unat c < B64 then 0 else B64 ^ (t + 1))
      = lval un2 + B64 ^ j * lval dn"
    using s4 s3(3) by (simp add: distrib_left mult.commute split: if_splits)
  then show "lval un4 + B64 ^ (t + 1) = lval un2 + B64 ^ j * lval dn"
    using b4 ge by (simp split: if_splits)
qed

lemma udivrem_step_spec:
  assumes n: "2 \<le> length dn" "j + length dn < length un"
    and norm: "B64 \<le> 2 * unat (dn ! (length dn - 1))"
    and lt: "lval un < lval dn * B64 ^ (j + 1)"
    and st: "udivrem_step dn (reciprocal2by1 (dn ! (length dn - 1))) j un = (un', q)"
  shows "length un' = length un \<and> lval un' + B64 ^ j * (unat q * lval dn) = lval un \<and>
    lval un' < B64 ^ j * lval dn"
proof -
  define t where "t = j + length dn"
  define D where "D = lval dn"
  define qh where "qh = qhat_est (un ! t) (un ! (t - 1)) (un ! (t - 2)) (dn ! (length dn - 1))
      (dn ! (length dn - 2)) (reciprocal2by1 (dn ! (length dn - 1)))"
  obtain un1 b where e1: "subMulToUn un j dn qh 0 = (un1, b)" by fastforce
  define un2 where "un2 = un1[t := un ! t - b]"
  obtain un3 c where e2: "addToUn un2 j dn 0 = (un3, c)" by fastforce
  have dig: "lval un < B64 ^ j * (unat qh * D) + B64 ^ j * D"
    "B64 ^ j * (unat qh * D) \<le> lval un + B64 ^ j * D"
    using udivrem_digit [OF n norm lt] by (simp_all only: qh_def t_def D_def distrib_left)
  have s: "length un2 = length un" "\<forall>i. t < i \<longrightarrow> un2 ! i = un ! i"
    "lval un2 + B64 ^ j * (unat qh * D) = lval un + (if un ! t < b then B64 ^ (t + 1) else 0)"
    using udivrem_sub [OF e1 n(2)] by (simp_all add: un2_def t_def D_def)
  have r: "un' = (if un ! t < b then un3[t := un3 ! t + c] else un2) \<and> q = (if un ! t < b then qh - 1 else qh)"
    using st e1 e2 by (simp add: udivrem_step_def Let_def qh_def t_def un2_def split: if_splits)
  have "lval un < B64 ^ (t + 1)"
  proof -
    have "lval un < D * B64 ^ (j + 1)" using lt by (simp add: D_def)
    also have "\<dots> \<le> B64 ^ length dn * B64 ^ (j + 1)"
      using lval_bound [of dn] by (intro mult_le_mono1) (simp add: D_def)
    finally show ?thesis by (simp add: power_add t_def algebra_simps)
  qed
  then have z: "\<forall>i < length un. t + 1 \<le> i \<longrightarrow> un ! i = 0"
    using lval_less_pow_iff [of "t + 1" un] n by (simp add: t_def)
  show ?thesis
  proof (cases "un ! t < b")
    case False
    then show ?thesis using s r dig unfolding D_def by simp
  next
    case True
    have z2: "\<forall>i < length un2. t < i \<longrightarrow> un2 ! i = 0" using s z by simp
    then have "lval un2 < B64 ^ (t + 1)" using lval_less_pow_iff [of "t + 1" un2] s(1) n by (simp add: t_def)
    then have small: "lval un < B64 ^ j * (unat qh * D)" using s(3) True by simp
    then have "0 < unat qh" by (cases "unat qh") simp_all
    then have Dq: "B64 ^ j * (unat qh * D) = B64 ^ j * (unat (qh - 1) * D) + B64 ^ j * D"
      using unat_minus_one [of qh] by (cases "unat qh") (simp_all add: algebra_simps)
    have ge: "B64 ^ (t + 1) \<le> lval un2 + B64 ^ j * D" using s(3) True dig(2) by simp
    have "length un' = length un" "lval un' + B64 ^ (t + 1) = lval un2 + B64 ^ j * D"
      using udivrem_addback [OF e2] s(1) n(2) z2 ge r True by (simp_all add: t_def D_def)
    then show ?thesis using s(3) True Dq small r unfolding D_def by simp
  qed
qed

section \<open>The loops\<close>

lemma lval_take_Suc: "j < length xs \<Longrightarrow> lval (take (Suc j) xs) = lval (take j xs) + B64 ^ j * unat (xs ! j)"
  by (simp add: take_Suc_conv_app_nth lval_append min_def)

lemma udivrem_loop_spec:
  assumes "2 \<le> length dn" "j + length dn \<le> length un" "j \<le> length quot"
    and "B64 \<le> 2 * unat (dn ! (length dn - 1))" "lval un < B64 ^ j * lval dn"
    and "udivrem_loop dn (reciprocal2by1 (dn ! (length dn - 1))) j un quot = (un', quot')"
  shows "length un' = length un \<and> length quot' = length quot \<and> (\<forall>i \<ge> j. quot' ! i = quot ! i) \<and>
    lval un' + lval (take j quot') * lval dn = lval un \<and> lval un' < lval dn"
  using assms
proof (induction j arbitrary: un quot)
  case (Suc j)
  obtain un1 q where e: "udivrem_step dn (reciprocal2by1 (dn ! (length dn - 1))) j un = (un1, q)"
    by fastforce
  have s: "length un1 = length un" "lval un1 + B64 ^ j * (unat q * lval dn) = lval un"
    "lval un1 < B64 ^ j * lval dn"
    using udivrem_step_spec [OF Suc.prems(1) _ Suc.prems(4) _ e] Suc.prems(2,5)
    by (simp_all add: algebra_simps)
  have IH: "length un' = length un1" "length quot' = length quot" "\<forall>i \<ge> j. quot' ! i = quot[j := q] ! i"
    "lval un' + lval (take j quot') * lval dn = lval un1" "lval un' < lval dn"
    using Suc.IH [of un1 "quot[j := q]"] Suc.prems s e by simp_all
  have "lval (take (Suc j) quot') = lval (take j quot') + B64 ^ j * unat q"
    using lval_take_Suc [of j quot'] IH(2,3) Suc.prems(3) by simp
  then show ?case using IH s by (simp add: algebra_simps)
qed simp

lemma udivrem_by1_spec:
  assumes "B64 \<le> 2 * unat d" "unat r < unat d" "j \<le> length un" "j \<le> length quot"
    and "udivrem_by1 d (reciprocal2by1 d) un j quot r = (quot', r')"
  shows "length quot' = length quot \<and> (\<forall>i \<ge> j. quot' ! i = quot ! i) \<and> unat r' < unat d \<and>
    lval (take j quot') * unat d + unat r' = unat r * B64 ^ j + lval (take j un)"
  using assms
proof (induction j arbitrary: r quot)
  case (Suc j)
  obtain q r1 where e: "udivrem2by1 r (un ! j) d (reciprocal2by1 d) = (q, r1)" by fastforce
  have s: "unat q * unat d + unat r1 = unat r * B64 + unat (un ! j)" "unat r1 < unat d"
    using udivrem2by1_spec [OF Suc.prems(1,2) e] by simp_all
  have IH: "length quot' = length quot" "\<forall>i \<ge> j. quot' ! i = quot[j := q] ! i" "unat r' < unat d"
    "lval (take j quot') * unat d + unat r' = unat r1 * B64 ^ j + lval (take j un)"
    using Suc.IH [of r1 "quot[j := q]"] Suc.prems s e by simp_all
  have t: "lval (take (Suc j) quot') = lval (take j quot') + B64 ^ j * unat q"
    "lval (take (Suc j) un) = lval (take j un) + B64 ^ j * unat (un ! j)"
    using lval_take_Suc [of j quot'] lval_take_Suc [of j un] IH(1,2) Suc.prems(3,4) by simp_all
  have "B64 ^ j * (unat q * unat d + unat r1) = B64 ^ j * (unat r * B64 + unat (un ! j))"
    by (simp only: s)
  then have "lval (take (Suc j) quot') * unat d + unat r' = unat r * B64 ^ Suc j + lval (take (Suc j) un)"
    using IH(4) t by (simp add: algebra_simps)
  then show ?case using IH(1-3) by simp
qed simp

section \<open>Normalisation\<close>

lemma B64_split: "s \<le> 64 \<Longrightarrow> 2 ^ s * 2 ^ (64 - s) = B64"
  by (simp add: B64_def flip: power_add)

lemma unat_push_bit64: "unat (push_bit s (x :: u64)) = (unat x * 2 ^ s) mod B64"
  by (simp only: unsigned_push_bit_eq) (simp add: B64_def push_bit_eq_mult take_bit_eq_mod)

lemma unat_drop_bit64: "unat (drop_bit s (x :: u64)) = unat x div 2 ^ s"
  by (simp only: unsigned_drop_bit_eq) (simp add: drop_bit_eq_div take_bit_eq_mod unat_lt_literal)

lemma unat_push_or_drop:
  assumes "0 < s" "s < 64"
  shows "unat (push_bit s x OR drop_bit (64 - s) (y :: u64)) = (unat x * 2 ^ s) mod B64 + unat y div 2 ^ (64 - s)"
proof -
  have "push_bit s x AND drop_bit (64 - s) y = 0"
    using assms by (auto simp: bit_eq_iff bit_simps dest: bit_imp_le_length)
  then have "unat (push_bit s x) AND unat (drop_bit (64 - s) y) = 0"
    by (simp flip: unsigned_and_eq)
  then have "unat (push_bit s x OR drop_bit (64 - s) y) = unat (push_bit s x) + unat (drop_bit (64 - s) y)"
    by (simp add: unsigned_or_eq disjunctive_add_eq_or)
  then show ?thesis by (simp add: unat_push_bit64 unat_drop_bit64)
qed

lemma shl_limb_val:
  assumes "s \<le> 64"
  shows "(unat x * 2 ^ s) mod B64 + B64 * (unat x div 2 ^ (64 - s)) = unat (x :: u64) * 2 ^ s"
proof -
  have "unat x * 2 ^ s div B64 = unat x div 2 ^ (64 - s)"
    using B64_split [OF assms] div_mult2_eq [of "unat x * 2 ^ s" "2 ^ s" "2 ^ (64 - s)"] by simp
  then show ?thesis using mod_mult_div_eq [of "unat x * 2 ^ s" B64] by simp
qed

lemma shl_from_spec:
  assumes "0 < s" "s < 64"
  shows "length (shl_from s prev xs) = length xs \<and>
    lval (shl_from s prev xs) + B64 ^ length xs * (unat (last (prev # xs)) div 2 ^ (64 - s)) =
      lval xs * 2 ^ s + unat prev div 2 ^ (64 - s)"
proof (induction xs arbitrary: prev)
  case (Cons x xs)
  have IH: "lval (shl_from s x xs) + B64 ^ length xs * (unat (last (x # xs)) div 2 ^ (64 - s)) =
      lval xs * 2 ^ s + unat x div 2 ^ (64 - s)" "length (shl_from s x xs) = length xs"
    using Cons.IH [of x] by simp_all
  have "B64 * (lval (shl_from s x xs) + B64 ^ length xs * (unat (last (x # xs)) div 2 ^ (64 - s))) =
      B64 * (lval xs * 2 ^ s + unat x div 2 ^ (64 - s))" by (simp only: IH)
  then show ?case
    using shl_limb_val [of s x] assms IH(2) by (simp add: unat_push_or_drop distrib_left algebra_simps)
qed simp

lemma shl_limbs_spec:
  assumes "0 < s" "s < 64" "xs \<noteq> []"
  shows "length (shl_limbs s xs) = length xs"
    and "lval (shl_limbs s xs) + B64 ^ length xs * (unat (last xs) div 2 ^ (64 - s)) = lval xs * 2 ^ s"
proof -
  have "shl_limbs s xs = shl_from s 0 xs" using assms by (cases xs) simp_all
  then show "length (shl_limbs s xs) = length xs"
    "lval (shl_limbs s xs) + B64 ^ length xs * (unat (last xs) div 2 ^ (64 - s)) = lval xs * 2 ^ s"
    using shl_from_spec [OF assms(1,2), of 0 xs] assms(3) by simp_all
qed

lemma shr_limbs_spec:
  assumes "0 < s" "s < 64"
  shows "length (shr_limbs s xs) = length xs \<and> lval (shr_limbs s xs) = lval xs div 2 ^ s"
proof (induction xs rule: induct_list012)
  case (3 x y ys)
  define Y where "Y = lval (y # ys)"
  have P: "2 ^ s * 2 ^ (64 - s) = B64" "2 ^ (64 - s) * 2 ^ s = B64"
    using B64_split [of s] assms by (simp_all add: mult.commute)
  have "(unat x + B64 * Y) div 2 ^ s = unat x div 2 ^ s + 2 ^ (64 - s) * Y"
    unfolding P(1) [symmetric] mult.assoc by simp
  also have "2 ^ (64 - s) * Y = (2 ^ (64 - s) * Y) mod B64 + B64 * (2 ^ (64 - s) * Y div B64)" by simp
  also have "(2 ^ (64 - s) * Y) mod B64 = (unat y * 2 ^ (64 - s)) mod B64"
    unfolding Y_def by (metis lval.simps(2) mod_mult_left_eq mod_mult_self2 mult.commute)
  also have "2 ^ (64 - s) * Y div B64 = Y div 2 ^ s"
    unfolding P(2) [symmetric] by simp
  finally show ?case
    using "3.IH"(2) assms unat_push_or_drop [of "64 - s" y x] by (simp add: Y_def or.commute)
qed (simp_all add: unat_drop_bit64)

lemma LeadingZeros64_spec:
  assumes "x \<noteq> 0"
  shows "LeadingZeros64 x < 64" and "unat x * 2 ^ LeadingZeros64 x < B64"
    and "B64 \<le> 2 * (unat x * 2 ^ LeadingZeros64 x)"
proof -
  let ?P = "\<lambda>i. \<not> bit x i"
  define s where "s = LeadingZeros64 x"
  have s: "s = length (takeWhile ?P (rev [0..<64]))" by (simp add: s_def LeadingZeros64_def)
  obtain m where m: "m < 64" "bit x m"
    using assms bit_imp_le_length [of x] by (auto simp: bit_eq_iff)
  then have ne: "takeWhile ?P (rev [0..<64]) \<noteq> rev [0..<64]"
    by (metis atLeastLessThan_iff bot_nat_0.extremum set_rev set_takeWhileD set_upt)
  then have lt: "s < 64" unfolding s
    by (metis diff_zero length_rev length_upt length_takeWhile_le linorder_not_less nth_take_lemma order.antisym takeWhile_eq_take take_all)
  have nth: "rev [0..<64] ! i = 63 - i" if "i < 64" for i :: nat
    using that by (simp add: rev_nth)
  have top: "bit x (63 - s)"
    using nth_length_takeWhile [of ?P "rev [0..<64]"] lt nth [of s] unfolding s by simp
  have hi: "\<not> bit x i" if "64 - s \<le> i" for i
  proof (cases "i < 64")
    case True
    then have "63 - i < s" using that lt by simp
    then have "?P (rev [0..<64] ! (63 - i))"
      using takeWhile_nth [of "63 - i" ?P "rev [0..<64]"] nth_mem [of "63 - i" "takeWhile ?P (rev [0..<64])"]
        set_takeWhileD [of _ ?P] unfolding s by metis
    then show ?thesis using True nth [of "63 - i"] by simp
  qed (auto dest: bit_imp_le_length)
  have "take_bit (64 - s) x = x" using hi by (auto simp: bit_eq_iff bit_simps) (meson linorder_not_le)
  then have "take_bit (64 - s) (unat x) = unat x" by (metis unsigned_take_bit_eq)
  then have ub: "unat x < 2 ^ (64 - s)" by (metis take_bit_nat_less_exp)
  have "bit (unat x) (63 - s)" using top lt by (simp add: bit_unsigned_iff)
  then have "unat x div 2 ^ (63 - s) \<noteq> 0" by (metis bit_iff_odd even_zero)
  then have lb: "2 ^ (63 - s) \<le> unat x" by (simp add: div_eq_0_iff)
  have p: "2 ^ (64 - s) * 2 ^ s = B64" "2 * (2 ^ (63 - s) * 2 ^ s) = B64"
    using lt by (simp_all add: B64_def flip: power_add power_Suc)
  show "LeadingZeros64 x < 64" using lt by (simp add: s_def)
  have "unat x * 2 ^ s < 2 ^ (64 - s) * 2 ^ s" using ub by simp
  then show "unat x * 2 ^ LeadingZeros64 x < B64" by (simp only: p(1) p(2) flip: s_def)
  have "2 * (2 ^ (63 - s) * 2 ^ s) \<le> 2 * (unat x * 2 ^ s)" using lb by (intro mult_le_mono2 mult_le_mono1)
  then show "B64 \<le> 2 * (unat x * 2 ^ LeadingZeros64 x)" by (simp only: p(1) p(2) flip: s_def)
qed

lemma sigLen_spec:
  "sigLen xs n \<le> n" "sigLen xs n \<le> i \<Longrightarrow> i < n \<Longrightarrow> xs ! i = 0"
  "0 < sigLen xs n \<Longrightarrow> xs ! (sigLen xs n - 1) \<noteq> 0"
  by (induction n) (auto simp: le_Suc_eq less_Suc_eq split: if_splits)

lemma lval_sigLen:
  assumes "n \<le> length xs"
  shows "lval (take (sigLen xs n) xs) = lval (take n xs)"
  using assms by (induction n) (simp_all add: lval_take_Suc)

lemma lval_sigLen_ge:
  assumes "n \<le> length xs" "0 < sigLen xs n"
  shows "B64 ^ (sigLen xs n - 1) \<le> lval (take n xs)"
proof -
  obtain m where m: "sigLen xs n = Suc m" using assms(2) by (cases "sigLen xs n") simp_all
  then have "m < length xs" using sigLen_spec(1) [of xs n] assms(1) by simp
  then have "lval (take n xs) = lval (take m xs) + B64 ^ m * unat (xs ! m)"
    using lval_sigLen [OF assms(1)] m by (simp add: lval_take_Suc)
  moreover have "0 < unat (xs ! m)" using sigLen_spec(3) [of xs n] m by (simp add: unat_gt_0)
  ultimately show ?thesis using m by (cases "unat (xs ! m)") simp_all
qed

section \<open>Exactness of udivrem\<close>

lemma uval_of_limbs:
  assumes "length xs \<le> 4"
  shows "uval (of_limbs xs) = lval xs"
proof -
  from assms consider "xs = []" | a where "xs = [a]" | a b where "xs = [a, b]"
    | a b c where "xs = [a, b, c]" | a b c d where "xs = [a, b, c, d]"
    by (auto simp: le_Suc_eq length_Suc_conv numeral_eq_Suc)
  then show ?thesis
    by cases (simp_all add: of_limbs_def uval_U256 Let_def numeral_eq_Suc)
qed

lemma scaled_div_mod:
  fixes U D Q X p :: nat
  assumes "X + Q * (D * p) = U * p" "X < D * p"
  shows "Q = U div D" and "X div p = U mod D"
proof -
  have p: "0 < p" using assms(2) by (cases p) simp_all
  have "Q * D * p \<le> U * p" using assms(1) by (metis le_add2 mult.assoc)
  then have le: "Q * D \<le> U" using p by simp
  define r where "r = U - Q * D"
  have U: "U = Q * D + r" using le by (simp add: r_def)
  then have X: "X = r * p" using assms(1) by (simp add: algebra_simps)
  then have r: "r < D" using assms(2) p by simp
  show "Q = U div D" using U r by simp
  show "X div p = U mod D" using U r X p by simp
qed

text \<open>The two limb vectors after normalisation, for a shift of zero and for the others.\<close>

lemma normalise_divisor:
  assumes ds: "ds \<noteq> []" "last ds \<noteq> 0"
  defines "s \<equiv> LeadingZeros64 (last ds)"
  defines "dn \<equiv> (if s = 0 then ds else shl_limbs s ds)"
  shows "length dn = length ds" and "lval dn = lval ds * 2 ^ s"
    and "B64 \<le> 2 * unat (dn ! (length ds - 1))"
proof -
  have s: "s < 64" "unat (last ds) * 2 ^ s < B64" "B64 \<le> 2 * (unat (last ds) * 2 ^ s)"
    using LeadingZeros64_spec [OF ds(2)] by (simp_all add: s_def)
  have "unat (last ds) div 2 ^ (64 - s) = 0"
  proof -
    have "unat (last ds) * 2 ^ s < 2 ^ (64 - s) * 2 ^ s"
      using s(2) B64_split [of s] s(1) by (simp add: mult.commute)
    then show ?thesis by simp
  qed
  then show dn: "length dn = length ds" "lval dn = lval ds * 2 ^ s"
    using shl_limbs_spec [of s ds] s(1) ds(1) by (simp_all add: dn_def)
  define m where "m = length ds - 1"
  have m: "length ds = Suc m" using ds(1) by (cases ds) (simp_all add: m_def)
  have "lval ds = lval (take m ds) + B64 ^ m * unat (last ds)"
    using lval_take_Suc [of m ds] m ds(1) by (simp add: last_conv_nth)
  then have "B64 ^ m * unat (last ds) * 2 ^ s \<le> lval dn" by (simp add: dn(2))
  also have "lval dn = lval (take m dn) + B64 ^ m * unat (dn ! m)"
    using lval_take_Suc [of m dn] m dn(1) by simp
  also have "\<dots> < B64 ^ m * (unat (dn ! m) + 1)"
    using lval_take_bound [of m dn] m dn(1) by simp
  finally have "unat (last ds) * 2 ^ s < unat (dn ! m) + 1" by (simp only: mult.assoc mult_less_cancel1)
  then show "B64 \<le> 2 * unat (dn ! (length ds - 1))" using s(3) by (simp add: m)
qed

lemma normalise_dividend:
  assumes us: "us \<noteq> []" "length us \<le> 8" and s: "s < 64"
  defines "un \<equiv> (if s = 0 then us @ replicate (9 - length us) 0
      else shl_limbs s us @ [drop_bit (64 - s) (last us)] @ replicate (8 - length us) 0)"
  shows "length un = 9" and "lval un = lval us * 2 ^ s"
  using us s shl_limbs_spec [of s us]
  by (simp_all add: un_def lval_append unat_drop_bit64)

lemma lval_take_zeros:
  assumes "j \<le> length xs" "\<forall>i < length xs. j \<le> i \<longrightarrow> xs ! i = 0"
  shows "lval (take j xs) = lval xs"
  using assms lval_take_drop [of j xs] lval_eq_0_iff [of "drop j xs"] by (auto simp: set_drop_conv)

lemma core_by1:
  assumes res: "udivrem_by1 d (reciprocal2by1 d) un m (replicate 8 0) (un ! m) = (quot', r')"
    and m: "m \<le> 8" "length un = 9" and norm: "B64 \<le> 2 * unat d"
    and lt: "lval un < B64 ^ m * unat d"
  shows "length quot' = 8 \<and> unat r' + lval quot' * unat d = lval un \<and> unat r' < unat d"
proof -
  have "B64 ^ m * unat d < B64 ^ (m + 1)" by simp
  with lt have "lval un < B64 ^ (m + 1)" by (rule less_trans)
  then have z: "\<forall>i < length un. m + 1 \<le> i \<longrightarrow> un ! i = 0"
    using lval_less_pow_iff [of "m + 1" un] m by simp
  then have un: "lval un = lval (take m un) + B64 ^ m * unat (un ! m)"
    using lval_take_zeros [of "m + 1" un] lval_take_Suc [of m un] m by simp
  then have "B64 ^ m * unat (un ! m) < B64 ^ m * unat d" using lt by linarith
  then have top: "unat (un ! m) < unat d" by simp
  have s: "length quot' = 8" "\<forall>i \<ge> m. quot' ! i = replicate 8 0 ! i" "unat r' < unat d"
    "lval (take m quot') * unat d + unat r' = unat (un ! m) * B64 ^ m + lval (take m un)"
    using udivrem_by1_spec [OF norm top _ _ res] m by simp_all
  then have "lval (take m quot') = lval quot'" using m by (intro lval_take_zeros) simp_all
  then show ?thesis using s un by (simp add: algebra_simps)
qed

lemma core_loop:
  assumes res: "udivrem_loop dn (reciprocal2by1 (dn ! (length dn - 1))) m un (replicate 8 0) = (un', quot')"
    and m: "m \<le> 8" "length un = 9" "2 \<le> length dn" "m + length dn \<le> 9"
    and norm: "B64 \<le> 2 * unat (dn ! (length dn - 1))" and lt: "lval un < B64 ^ m * lval dn"
  shows "length quot' = 8 \<and> lval (take (length dn) un') + lval quot' * lval dn = lval un \<and>
    lval (take (length dn) un') < lval dn"
proof -
  have s: "length un' = 9" "length quot' = 8" "\<forall>i \<ge> m. quot' ! i = replicate 8 0 ! i"
    "lval un' + lval (take m quot') * lval dn = lval un" "lval un' < lval dn"
    using udivrem_loop_spec [OF m(3) _ _ norm lt res] m by simp_all
  have "lval un' < B64 ^ length dn" using s(5) lval_bound [of dn] by linarith
  then have "lval (take (length dn) un') = lval un'"
    using lval_less_pow_iff [of "length dn" un'] s(1) m by (intro lval_take_zeros) simp_all
  moreover have "lval (take m quot') = lval quot'" using m s by (intro lval_take_zeros) simp_all
  ultimately show ?thesis using s by simp
qed

lemma udivrem_main:
  fixes us ds :: "u64 list"
  defines "s \<equiv> LeadingZeros64 (last ds)"
  defines "dn \<equiv> (if s = 0 then ds else shl_limbs s ds)"
  defines "un \<equiv> (if s = 0 then us @ replicate (9 - length us) 0
      else shl_limbs s us @ [drop_bit (64 - s) (last us)] @ replicate (8 - length us) 0)"
  assumes ds: "ds \<noteq> []" "last ds \<noteq> 0" "length ds \<le> 4" and us: "length us \<le> 8" "length ds \<le> length us"
  shows "length ds = 1 \<Longrightarrow>
      udivrem_by1 (dn ! 0) (reciprocal2by1 (dn ! 0)) un (length us) (replicate 8 0) (un ! length us) = (quot', r') \<Longrightarrow>
      length quot' = 8 \<and> lval quot' = lval us div lval ds \<and> unat r' div 2 ^ s = lval us mod lval ds"
    and "length ds \<noteq> 1 \<Longrightarrow>
      udivrem_loop dn (reciprocal2by1 (dn ! (length ds - 1))) (length us - length ds + 1) un (replicate 8 0)
        = (un', quot') \<Longrightarrow>
      length quot' = 8 \<and> lval quot' = lval us div lval ds \<and>
        lval (take (length ds) un') div 2 ^ s = lval us mod lval ds"
proof -
  have s: "s < 64" using LeadingZeros64_spec(1) [OF ds(2)] by (simp add: s_def)
  have une: "us \<noteq> []" using ds us by auto
  have dn: "length dn = length ds" "lval dn = lval ds * 2 ^ s" "B64 \<le> 2 * unat (dn ! (length ds - 1))"
    using normalise_divisor [OF ds(1,2)] by (simp_all only: dn_def s_def)
  have un: "length un = 9" "lval un = lval us * 2 ^ s"
    using normalise_dividend [OF une us(1) s] by (simp_all only: un_def)
  have "lval us < B64 ^ (length us - length ds + 1) * lval ds"
  proof -
    obtain n where n: "length ds = Suc n" using ds(1) by (cases ds) simp_all
    have "0 < unat (ds ! n)" using ds n by (simp add: last_conv_nth unat_gt_0)
    then have "B64 ^ n \<le> lval ds"
      using lval_take_Suc [of n ds] n by (cases "unat (ds ! n)") simp_all
    then have "B64 ^ (length us - length ds + 1) * B64 ^ n \<le> B64 ^ (length us - length ds + 1) * lval ds"
      by (rule mult_le_mono2)
    moreover have "B64 ^ (length us - length ds + 1) * B64 ^ n = B64 ^ length us"
      using n us by (simp flip: power_add power_Suc)
    ultimately show ?thesis using lval_bound [of us] by linarith
  qed
  then have lt: "lval un < B64 ^ (length us - length ds + 1) * lval dn" by (simp add: un dn flip: mult.assoc)
  { assume l: "length ds = 1" and r: "udivrem_by1 (dn ! 0) (reciprocal2by1 (dn ! 0)) un (length us) (replicate 8 0)
      (un ! length us) = (quot', r')"
    have dn0: "lval dn = unat (dn ! 0)" using l dn(1) by (cases dn) simp_all
    moreover have "length us - length ds + 1 = length us" using l us by simp
    then have "lval un < B64 ^ length us * unat (dn ! 0)" using lt dn0 by (simp only:)
    ultimately have "length quot' = 8 \<and> unat r' + lval quot' * (lval ds * 2 ^ s) = lval us * 2 ^ s \<and> unat r' < lval ds * 2 ^ s"
      using core_by1 [OF r us(1) un(1)] dn l un by simp
    then show "length quot' = 8 \<and> lval quot' = lval us div lval ds \<and> unat r' div 2 ^ s = lval us mod lval ds"
      using scaled_div_mod by blast }
  { assume l: "length ds \<noteq> 1" and r: "udivrem_loop dn (reciprocal2by1 (dn ! (length ds - 1)))
      (length us - length ds + 1) un (replicate 8 0) = (un', quot')"
    have "2 \<le> length ds" using l ds(1) by (cases ds; cases "tl ds") simp_all
    then have "length quot' = 8 \<and> lval (take (length ds) un') + lval quot' * (lval ds * 2 ^ s) = lval us * 2 ^ s \<and>
      lval (take (length ds) un') < lval ds * 2 ^ s"
      using core_loop [of dn "length us - length ds + 1" un un' quot'] r dn lt us un by simp
    then show "length quot' = 8 \<and> lval quot' = lval us div lval ds \<and>
        lval (take (length ds) un') div 2 ^ s = lval us mod lval ds"
      using scaled_div_mod by blast }
qed

text \<open>The part of \<open>udivrem\<close> behind the early returns, on normalised vectors.\<close>

definition udivrem_norm :: "nat \<Rightarrow> u64 list \<Rightarrow> u64 list \<Rightarrow> nat \<Rightarrow> nat \<Rightarrow> u64 list \<times> Uint256" where
  "udivrem_norm s dn un m n =
     (if n = 1 then
        (let (quot, r) = udivrem_by1 (dn ! 0) (reciprocal2by1 (dn ! 0)) un m (replicate 8 0) (un ! m)
         in (quot, of_limbs [drop_bit s r]))
      else
        (let (un, quot) = udivrem_loop dn (reciprocal2by1 (dn ! (n - 1))) (m - n + 1) un (replicate 8 0)
         in (quot, of_limbs (if s = 0 then take n un else shr_limbs s (take n un)))))"

lemma udivrem_exact:
  assumes u: "length u = 8" "k \<le> 8" and d: "d \<noteq> zero256"
    and res: "udivrem (replicate 8 0) u k d = (quot', r)"
  shows "length quot' = 8 \<and> lval quot' = lval (take k u) div uval d \<and> uval r = lval (take k u) mod uval d"
proof -
  define ds where "ds = take (sigLen (limbs d) 4) (limbs d)"
  define us where "us = take (sigLen u k) u"
  have ll: "length (limbs d) = 4" by (cases d) (simp add: limbs_def)
  have us: "length us = sigLen u k" "lval us = lval (take k u)" "length us \<le> 8"
    using sigLen_spec(1) [of u k] lval_sigLen [of k u] u by (simp_all add: us_def)
  have dl: "length ds = sigLen (limbs d) 4" "lval ds = uval d" "length ds \<le> 4"
    using sigLen_spec(1) [of "limbs d" 4] lval_sigLen [of 4 "limbs d"] ll
    by (simp_all add: ds_def uval_def)
  have "uval d \<noteq> 0" using d uval_inj [of d zero256] by simp
  then have dne: "ds \<noteq> []" using dl(2) by auto
  have dlast: "last ds = limbs d ! (length ds - 1)" "last ds \<noteq> 0"
    using dne sigLen_spec(3) [of "limbs d" 4] dl(1) by (simp_all add: last_conv_nth ds_def)
  have dpos: "0 < sigLen (limbs d) 4" using dne dl(1) by (metis length_greater_0_conv)
  have Dge: "B64 ^ (length ds - 1) \<le> uval d"
    using lval_sigLen_ge [of 4 "limbs d"] ll dpos dl(1) by (simp add: uval_def)
  show ?thesis
  proof (cases "length us < length ds")
    case True
    have "lval us < B64 ^ length us" by (rule lval_bound)
    also have "\<dots> \<le> B64 ^ (length ds - 1)" using True B64_ge_2 by (intro power_increasing) simp_all
    finally have "lval us < uval d" using Dge by simp
    moreover have "quot' = replicate 8 0" "uval r = lval us"
      using res True dl(3) us dne dl(1) u(2)
      by (auto simp: udivrem_def Let_def min_absorb1 uval_of_limbs us_def split: if_splits)
    ultimately show ?thesis using us(2) by simp
  next
    case False
    define s where "s = LeadingZeros64 (last ds)"
    define dn where "dn = (if s = 0 then ds else shl_limbs s ds)"
    define un where "un = (if s = 0 then us @ replicate (9 - length us) 0
      else shl_limbs s us @ [drop_bit (64 - s) (last us)] @ replicate (8 - length us) 0)"
    have une: "us \<noteq> []" and le: "length ds \<le> length us" using False dne by auto
    have lastu: "last us = u ! (length us - 1)" using une us(1) by (simp add: last_conv_nth us_def)
    note main = udivrem_main [OF dne dlast(2) dl(3) us(3) le, folded s_def, folded dn_def un_def]
    have unf: "udivrem (replicate 8 0) u k d = udivrem_norm s dn un (length us) (length ds)"
    proof -
      have f: "sigLen (limbs d) 4 = length ds" "sigLen u (min k 8) = length us" "limbs d ! (length ds - 1) = last ds"
        "take (length ds) (limbs d) = ds" "take (length us) u = us" "u ! (length us - 1) = last us"
        using dl(1) us(1) u(2) dlast(1) lastu by (simp_all add: min_absorb1 ds_def us_def)
      show ?thesis
        unfolding udivrem_def Let_def f s_def [symmetric] dn_def [symmetric] un_def [symmetric]
        using False une dne by (cases "length ds = 1") (simp_all add: udivrem_norm_def Let_def)
    qed
    show ?thesis
    proof (cases "length ds = 1")
      case True
      obtain q0 r0 where e: "udivrem_by1 (dn ! 0) (reciprocal2by1 (dn ! 0)) un (length us) (replicate 8 0)
          (un ! length us) = (q0, r0)" by fastforce
      then have "quot' = q0" "uval r = unat r0 div 2 ^ s"
        using res True by (auto simp: unf udivrem_norm_def uval_of_limbs unat_drop_bit64)
      then show ?thesis using main(1) [OF True e] us(2) dl(2) by simp
    next
      case n1: False
      obtain un1 q0 where e: "udivrem_loop dn (reciprocal2by1 (dn ! (length ds - 1)))
          (length us - length ds + 1) un (replicate 8 0) = (un1, q0)" by fastforce
      have s: "s < 64" using LeadingZeros64_spec(1) [OF dlast(2)] by (simp add: s_def)
      have "quot' = q0" "uval r = lval (take (length ds) un1) div 2 ^ s"
        using res n1 e dl(3) s shr_limbs_spec [of s "take (length ds) un1"]
        by (auto simp: unf udivrem_norm_def uval_of_limbs split: if_splits)
      then show ?thesis using main(2) [OF n1 e] us(2) dl(2) by simp
    qed
  qed
qed

section \<open>The 256-bit operations\<close>

lemma lval_limbs [simp]: "lval (limbs z) = uval z" "length (limbs z) = 4"
  by (cases z; simp add: uval_def limbs_def)+

lemma divmod256_exact:
  assumes "d \<noteq> zero256"
  shows "uval (fst (divmod256 n d)) = uval n div uval d" and "uval (snd (divmod256 n d)) = uval n mod uval d"
proof -
  obtain quot r where e: "udivrem (replicate 8 0) (limbs n @ replicate 4 0) 4 d = (quot, r)" by fastforce
  have x: "length quot = 8" "lval quot = uval n div uval d" "uval r = uval n mod uval d"
    using udivrem_exact [OF _ _ assms e] by simp_all
  obtain q0 q1 q2 q3 qs where q: "quot = q0 # q1 # q2 # q3 # qs"
    using x(1) by (auto simp: numeral_eq_Suc length_Suc_conv)
  have "uval n div uval d < B64 ^ 4"
    using uval_bound [of n] div_le_dividend [of "uval n" "uval d"] by linarith
  then have "uval (U256 q0 q1 q2 q3) + B64 ^ 4 * lval qs < B64 ^ 4"
    using x(2) by (simp add: q uval_U256 eval_nat_numeral algebra_simps)
  then have "lval qs = 0" by (cases "lval qs") simp_all
  then have "uval (U256 q0 q1 q2 q3) = uval n div uval d" using x(2) by (simp add: q uval_U256)
  then show "uval (fst (divmod256 n d)) = uval n div uval d"
    "uval (snd (divmod256 n d)) = uval n mod uval d"
    using e x(3) by (simp_all add: divmod256_def q)
qed

lemma remLimbs_exact:
  "length num = 8 \<Longrightarrow> k \<le> 8 \<Longrightarrow> m \<noteq> zero256 \<Longrightarrow> uval (remLimbs num k m) = lval (take k num) mod uval m"
  using udivrem_exact [of num k m] by (cases "udivrem (replicate 8 0) num k m") (simp add: remLimbs_def)

lemma uval_eq_0_iff [simp]: "uval b = 0 \<longleftrightarrow> b = zero256"
  by (metis uval_inj uval_zero256)

lemma word_of_eq_0_iff [simp]: "word_of b = 0 \<longleftrightarrow> b = zero256"
  by (metis unat_eq_zero unat_word_of uval_eq_0_iff)

lemma word_of_zero256 [simp]: "word_of zero256 = 0"
  by simp

lemma sint_word_of_eq_0_iff [simp]: "sint (word_of b) = 0 \<longleftrightarrow> b = zero256"
  by (metis word_of_eq_0_iff signed_0 signed_word_eqI)

lemma uval_Div256: "uval (Div256 a b) = uval a div uval b"
  by (simp add: Div256_def divmod256_exact)

lemma uval_Mod256: "uval (Mod256 a b) = (if b = zero256 then 0 else uval a mod uval b)"
  by (simp add: Mod256_def divmod256_exact)

lemma word_of_Div256 [word_refine]: "word_of (Div256 a b) = word_of a div word_of b"
  by (simp add: word_unat_eq_iff uval_Div256 unat_div_distrib)

lemma word_of_Mod256 [word_refine]:
  "word_of (Mod256 a b) = (if word_of b = 0 then 0 else word_of a mod word_of b)"
  by (simp add: word_unat_eq_iff uval_Mod256 unat_mod_distrib)

lemma uval_AddMod256: "uval (AddMod256 a b m) = (if m = zero256 then 0 else (uval a + uval b) mod uval m)"
proof -
  obtain r c where e: "addCarry a b = (r, c)" by fastforce
  have "lval (take 5 (limbs r @ [c] @ replicate 3 0)) = uval a + uval b"
    using addCarry_uval [OF e] by (simp add: lval_append)
  then show ?thesis
    using e remLimbs_exact [of "limbs r @ [c] @ replicate 3 0" 5 m] by (simp add: AddMod256_def)
qed

lemma uval_MulMod256: "uval (MulMod256 a b m) = (if m = zero256 then 0 else (uval a * uval b) mod uval m)"
  using remLimbs_exact [of "mul512 a b" 8 m] by (simp add: MulMod256_def mul512_lval length_mul512)

lemma uval_neg256:
  assumes "x \<noteq> zero256"
  shows "uval (neg256 x) + uval x = 2 ^ 256"
proof -
  have "(unat (- word_of x) + unat (word_of x)) mod 2 ^ 256 = 0"
    using unat_word_ariths(1) [of "- word_of x" "word_of x"] by simp
  then have "(uval (neg256 x) + uval x) mod 2 ^ 256 = 0"
    by (simp only: unat_word_of flip: word_of_neg256)
  then obtain k where k: "uval (neg256 x) + uval x = 2 ^ 256 * k" by (auto simp: mod_eq_0_iff_dvd)
  have "uval (neg256 x) + uval x < 2 ^ 256 * 2"
    using uval_lt [of x] uval_lt [of "neg256 x"] by linarith
  then have "k < 2" unfolding k by (simp only: mult_less_cancel1)
  moreover have "k \<noteq> 0" using k assms uval_inj [of x zero256] by (cases k) simp_all
  ultimately have "k = 1" by linarith
  then show ?thesis using k by (simp only: mult_1_right)
qed

lemma uval_abs256: "int (uval (abs256 x)) = \<bar>sint (word_of x)\<bar>"
proof (cases "isNeg x")
  case True
  then have neg: "sint (word_of x) < 0" and "x \<noteq> zero256"
    using isNeg_sint [of x] sint_word_of_eq_0_iff [of x] by (simp_all, linarith)
  then have "int (uval (neg256 x)) + int (uval x) = int (2 ^ 256)"
    using uval_neg256 [OF \<open>x \<noteq> zero256\<close>] by (simp only: flip: of_nat_add)
  moreover have "sint (word_of x) = int (uval x) - int (2 ^ 256)"
    using True by (simp add: sint_uval)
  ultimately have "int (uval (neg256 x)) = \<bar>sint (word_of x)\<bar>" using neg by linarith
  then show ?thesis using True by (simp add: abs256_def)
next
  case False
  then show ?thesis by (simp add: abs256_def sint_uval)
qed

lemma abs256_eq_zero [simp]: "abs256 x = zero256 \<longleftrightarrow> x = zero256"
proof -
  have "abs256 x = zero256 \<longleftrightarrow> int (uval (abs256 x)) = 0"
    using uval_inj [of "abs256 x" zero256] by simp
  also have "\<dots> \<longleftrightarrow> x = zero256" by (simp only: uval_abs256) simp
  finally show ?thesis .
qed

lemma word_of_uval_int: "word_of z = word_of_int (int (uval z))"
  by (simp add: word_of_def)

lemma word_of_SDiv256 [word_refine]:
  "word_of (SDiv256 a b) = word_of_int (sint (word_of a) sdiv sint (word_of b))"
proof (cases "b = zero256")
  case False
  define q where "q = fst (divmod256 (abs256 a) (abs256 b))"
  have q: "int (uval q) = \<bar>sint (word_of a)\<bar> div \<bar>sint (word_of b)\<bar>"
    using divmod256_exact(1) [of "abs256 b" "abs256 a"] False
    by (simp add: q_def zdiv_int uval_abs256)
  have "SDiv256 a b = (if isNeg a \<noteq> isNeg b then neg256 q else q)"
    using False by (simp add: SDiv256_def Let_def q_def split_beta)
  moreover have "word_of q = word_of_int (\<bar>sint (word_of a)\<bar> div \<bar>sint (word_of b)\<bar>)"
    using word_of_uval_int [of q] by (simp only: q)
  ultimately show ?thesis
    using False by (auto simp: signed_divide_int_def isNeg_sint word_of_neg256 sgn_if)
qed (simp add: SDiv256_def)

lemma word_of_SMod256 [word_refine]:
  "word_of (SMod256 a b) =
     (if word_of b = 0 then 0 else word_of_int (sint (word_of a) smod sint (word_of b)))"
proof (cases "b = zero256")
  case False
  define r where "r = snd (divmod256 (abs256 a) (abs256 b))"
  have r: "int (uval r) = \<bar>sint (word_of a)\<bar> mod \<bar>sint (word_of b)\<bar>"
    using divmod256_exact(2) [of "abs256 b" "abs256 a"] False
    by (simp add: r_def zmod_int uval_abs256)
  have "SMod256 a b = (if isNeg a then neg256 r else r)"
    using False by (simp add: SMod256_def Let_def r_def split_beta)
  moreover have "word_of r = word_of_int (\<bar>sint (word_of a)\<bar> mod \<bar>sint (word_of b)\<bar>)"
    using word_of_uval_int [of r] by (simp only: r)
  ultimately show ?thesis
    using False by (auto simp: signed_modulo_int_def isNeg_sint word_of_neg256 sgn_if)
qed (simp add: SMod256_def)

end
