(* ===== verification/Keccak.thy ===== *)
theory Keccak
  imports Prelude
begin

text \<open>
  \<open>c2crypto/keccak.go\<close>: the permutation \<open>KeccakF1600\<close>, written in the source with two
  rounds unrolled per iteration over 25 local variables, and the sponge of rate \<open>rate\<close>
  that \<open>Keccak256\<close> and \<open>Keccak512\<close> instantiate. The unrolled round is proved equal to the
  composition of the five steps of the Keccak reference on a five by five array of
  lanes, the table of round constants to the output of the reference's shift register,
  and the sponge's in-place padding to absorbing an explicitly padded message.
\<close>

section \<open>The permutation\<close>

definition RotateLeft64 :: "u64 \<Rightarrow> nat \<Rightarrow> u64" where
  "RotateLeft64 x k = push_bit (k mod 64) x OR drop_bit (64 - k mod 64) x"

definition keccakRC :: "u64 list" where
  "keccakRC =
     [0x0000000000000001, 0x0000000000008082, 0x800000000000808A,
      0x8000000080008000, 0x000000000000808B, 0x0000000080000001,
      0x8000000080008081, 0x8000000000008009, 0x000000000000008A,
      0x0000000000000088, 0x0000000080008009, 0x000000008000000A,
      0x000000008000808B, 0x800000000000008B, 0x8000000000008089,
      0x8000000000008003, 0x8000000000008002, 0x8000000000000080,
      0x000000000000800A, 0x800000008000000A, 0x8000000080008081,
      0x8000000000008080, 0x0000000080000001, 0x8000000080008008]"

text \<open>
  Half of the body of the round loop: one round, from the lanes \<open>aba \<dots> asu\<close> to the lanes
  \<open>eba \<dots> esu\<close>. The other half is the same code with the letters \<open>a\<close> and \<open>e\<close> exchanged and
  the next round constant. (\<open>d_a \<dots> d_u\<close> are the source's \<open>da \<dots> du\<close>.)
\<close>

definition keccak_half :: "u64 \<Rightarrow> u64 list \<Rightarrow> u64 list" where
  "keccak_half rc st =
     (let aba = st ! 0; abe = st ! 1; abi = st ! 2; abo = st ! 3; abu = st ! 4; aga = st ! 5;
          age = st ! 6; agi = st ! 7; ago = st ! 8; agu = st ! 9; aka = st ! 10; ake = st ! 11;
          aki = st ! 12; ako = st ! 13; aku = st ! 14; ama = st ! 15; ame = st ! 16;
          ami = st ! 17; amo = st ! 18; amu = st ! 19; asa = st ! 20; ase = st ! 21;
          asi = st ! 22; aso = st ! 23; asu = st ! 24;
          bca = aba XOR aga XOR aka XOR ama XOR asa; bce = abe XOR age XOR ake XOR ame XOR ase;
          bci = abi XOR agi XOR aki XOR ami XOR asi; bco = abo XOR ago XOR ako XOR amo XOR aso;
          bcu = abu XOR agu XOR aku XOR amu XOR asu; d_a = bcu XOR RotateLeft64 bce 1;
          d_e = bca XOR RotateLeft64 bci 1; d_i = bce XOR RotateLeft64 bco 1;
          d_o = bci XOR RotateLeft64 bcu 1; d_u = bco XOR RotateLeft64 bca 1;
          aba = aba XOR d_a; bca = aba; age = age XOR d_e; bce = RotateLeft64 age 44;
          aki = aki XOR d_i; bci = RotateLeft64 aki 43; amo = amo XOR d_o;
          bco = RotateLeft64 amo 21; asu = asu XOR d_u; bcu = RotateLeft64 asu 14;
          eba = bca XOR (NOT bce AND bci) XOR rc; ebe = bce XOR (NOT bci AND bco);
          ebi = bci XOR (NOT bco AND bcu); ebo = bco XOR (NOT bcu AND bca);
          ebu = bcu XOR (NOT bca AND bce);
          abo = abo XOR d_o; bca = RotateLeft64 abo 28; agu = agu XOR d_u;
          bce = RotateLeft64 agu 20; aka = aka XOR d_a; bci = RotateLeft64 aka 3;
          ame = ame XOR d_e; bco = RotateLeft64 ame 45; asi = asi XOR d_i;
          bcu = RotateLeft64 asi 61; ega = bca XOR (NOT bce AND bci);
          ege = bce XOR (NOT bci AND bco); egi = bci XOR (NOT bco AND bcu);
          ego = bco XOR (NOT bcu AND bca); egu = bcu XOR (NOT bca AND bce);
          abe = abe XOR d_e; bca = RotateLeft64 abe 1; agi = agi XOR d_i;
          bce = RotateLeft64 agi 6; ako = ako XOR d_o; bci = RotateLeft64 ako 25;
          amu = amu XOR d_u; bco = RotateLeft64 amu 8; asa = asa XOR d_a;
          bcu = RotateLeft64 asa 18; eka = bca XOR (NOT bce AND bci);
          eke = bce XOR (NOT bci AND bco); eki = bci XOR (NOT bco AND bcu);
          eko = bco XOR (NOT bcu AND bca); eku = bcu XOR (NOT bca AND bce);
          abu = abu XOR d_u; bca = RotateLeft64 abu 27; aga = aga XOR d_a;
          bce = RotateLeft64 aga 36; ake = ake XOR d_e; bci = RotateLeft64 ake 10;
          ami = ami XOR d_i; bco = RotateLeft64 ami 15; aso = aso XOR d_o;
          bcu = RotateLeft64 aso 56; ema = bca XOR (NOT bce AND bci);
          eme = bce XOR (NOT bci AND bco); emi = bci XOR (NOT bco AND bcu);
          emo = bco XOR (NOT bcu AND bca); emu = bcu XOR (NOT bca AND bce);
          abi = abi XOR d_i; bca = RotateLeft64 abi 62; ago = ago XOR d_o;
          bce = RotateLeft64 ago 55; aku = aku XOR d_u; bci = RotateLeft64 aku 39;
          ama = ama XOR d_a; bco = RotateLeft64 ama 41; ase = ase XOR d_e;
          bcu = RotateLeft64 ase 2; esa = bca XOR (NOT bce AND bci);
          ese = bce XOR (NOT bci AND bco); esi = bci XOR (NOT bco AND bcu);
          eso = bco XOR (NOT bcu AND bca); esu = bcu XOR (NOT bca AND bce)
      in [eba, ebe, ebi, ebo, ebu, ega, ege, egi, ego, egu,
          eka, eke, eki, eko, eku, ema, eme, emi, emo, emu,
          esa, ese, esi, eso, esu])"

fun KeccakF1600_loop :: "nat \<Rightarrow> u64 list \<Rightarrow> u64 list" where
  "KeccakF1600_loop 0 st = st"
| "KeccakF1600_loop (Suc n) st =
     (let round = 24 - 2 * Suc n;
          e = keccak_half (keccakRC ! round) st
      in KeccakF1600_loop n (keccak_half (keccakRC ! (round + 1)) e))"

definition KeccakF1600 :: "u64 list \<Rightarrow> u64 list" where
  "KeccakF1600 st = KeccakF1600_loop 12 st"

section \<open>The sponge\<close>

text \<open>\<open>xorBytes\<close>: whole little-endian lanes first, then the bytes of a last partial lane.\<close>

definition le_lane :: "bytes \<Rightarrow> u64" where
  "le_lane b = ucast (b ! 0) OR push_bit 8 (ucast (b ! 1)) OR push_bit 16 (ucast (b ! 2))
     OR push_bit 24 (ucast (b ! 3)) OR push_bit 32 (ucast (b ! 4)) OR push_bit 40 (ucast (b ! 5))
     OR push_bit 48 (ucast (b ! 6)) OR push_bit 56 (ucast (b ! 7))"

fun xorTail :: "u64 list \<Rightarrow> nat \<Rightarrow> nat \<Rightarrow> bytes \<Rightarrow> u64 list" where
  "xorTail st i j [] = st"
| "xorTail st i j (b # bs) = xorTail (st[i := st ! i XOR push_bit (j * 8) (ucast b)]) i (Suc j) bs"

function xorBytes_loop :: "u64 list \<Rightarrow> nat \<Rightarrow> bytes \<Rightarrow> nat \<Rightarrow> u64 list" where
  "xorBytes_loop st i inp n =
     (if n \<ge> 8 then xorBytes_loop (st[i := st ! i XOR le_lane inp]) (Suc i) (drop 8 inp) (n - 8)
      else xorTail st i 0 (take n inp))"
  by pat_completeness auto
termination by (relation "measure (\<lambda>(st, i, inp, n). n)") auto

definition xorBytes :: "u64 list \<Rightarrow> bytes \<Rightarrow> nat \<Rightarrow> u64 list" where
  "xorBytes st inp n = xorBytes_loop st 0 inp n"

text \<open>\<open>extractBytes\<close> returns the bytes it writes to \<open>out[0..n-1]\<close>.\<close>

function extractBytes_loop :: "u64 list \<Rightarrow> nat \<Rightarrow> nat \<Rightarrow> bytes" where
  "extractBytes_loop st i n =
     (if n \<ge> 8 then map (\<lambda>k. ucast (drop_bit (8 * k) (st ! i))) [0..<8] @ extractBytes_loop st (Suc i) (n - 8)
      else map (\<lambda>j. ucast (drop_bit (j * 8) (st ! i))) [0..<n])"
  by pat_completeness auto
termination by (relation "measure (\<lambda>(st, i, n). n)") auto

definition extractBytes :: "u64 list \<Rightarrow> nat \<Rightarrow> bytes" where
  "extractBytes st n = extractBytes_loop st 0 n"

text \<open>
  \<open>keccakSponge\<close>: absorbing whole blocks (the slice \<open>in[off:]\<close> is the list argument), the
  padding bits XORed in place, then squeezing. A rate of zero would not terminate; both
  callers pass a positive constant.
\<close>

function absorb_blocks :: "nat \<Rightarrow> u64 list \<Rightarrow> bytes \<Rightarrow> u64 list \<times> bytes" where
  "absorb_blocks rate st inp =
     (if 0 < rate \<and> rate \<le> length inp
      then absorb_blocks rate (KeccakF1600 (xorBytes st (take rate inp) rate)) (drop rate inp)
      else (st, inp))"
  by pat_completeness auto
termination by (relation "measure (\<lambda>(rate, st, inp). length inp)") auto

function squeeze :: "nat \<Rightarrow> u64 list \<Rightarrow> nat \<Rightarrow> bytes" where
  "squeeze rate st outLen =
     (if 0 < rate \<and> rate \<le> outLen
      then extractBytes st rate @ squeeze rate (KeccakF1600 st) (outLen - rate)
      else extractBytes st outLen)"
  by pat_completeness auto
termination by (relation "measure (\<lambda>(rate, st, outLen). outLen)") auto

definition keccakSponge :: "bytes \<Rightarrow> nat \<Rightarrow> nat \<Rightarrow> bytes option" where
  "keccakSponge inp outLen rate =
     (if rate = 0 then None
      else
        (let (st, rest) = absorb_blocks rate (replicate 25 0) inp;
             inLen = length rest;
             st = (if inLen \<noteq> 0 then xorBytes st rest inLen else st);
             st = st[inLen div 8 := st ! (inLen div 8) XOR push_bit (inLen mod 8 * 8) 1]
         in if \<not> (rate - 1) div 8 < 25 then None
            else
              (let st = st[(rate - 1) div 8 := st ! ((rate - 1) div 8) XOR push_bit ((rate - 1) mod 8 * 8) 0x80];
                   st = KeccakF1600 st
               in Some (squeeze rate st outLen))))"

text \<open>The rates of the two callers have a result (\<open>keccakSponge_ref\<close>), so the last branch is never taken.\<close>

definition Keccak256 :: "bytes \<Rightarrow> bytes" where
  "Keccak256 inp = (case keccakSponge inp 32 136 of Some out \<Rightarrow> out | None \<Rightarrow> [])"

definition Keccak512 :: "bytes \<Rightarrow> bytes" where
  "Keccak512 inp = (case keccakSponge inp 64 72 of Some out \<Rightarrow> out | None \<Rightarrow> [])"

declare xorBytes_loop.simps [simp del] extractBytes_loop.simps [simp del]
  absorb_blocks.simps [simp del] squeeze.simps [simp del]

section \<open>Reference\<close>

text \<open>The Keccak reference on an array \<open>A x y\<close> of lanes.\<close>

type_synonym lanes = "nat \<Rightarrow> nat \<Rightarrow> u64"

definition theta_C :: "lanes \<Rightarrow> nat \<Rightarrow> u64" where
  "theta_C A x = A x 0 XOR A x 1 XOR A x 2 XOR A x 3 XOR A x 4"

definition theta_D :: "lanes \<Rightarrow> nat \<Rightarrow> u64" where
  "theta_D A x = theta_C A ((x + 4) mod 5) XOR RotateLeft64 (theta_C A ((x + 1) mod 5)) 1"

definition theta :: "lanes \<Rightarrow> lanes" where
  "theta A = (\<lambda>x y. A x y XOR theta_D A x)"

fun rho_walk :: "nat \<Rightarrow> nat \<times> nat" where
  "rho_walk 0 = (1, 0)"
| "rho_walk (Suc t) = (let (x, y) = rho_walk t in (y, (2 * x + 3 * y) mod 5))"

definition rho_offset :: "nat \<Rightarrow> nat \<Rightarrow> nat" where
  "rho_offset x y =
     (case find (\<lambda>t. rho_walk t = (x, y)) [0..<24] of
        None \<Rightarrow> 0
      | Some t \<Rightarrow> ((t + 1) * (t + 2) div 2) mod 64)"

definition rho :: "lanes \<Rightarrow> lanes" where
  "rho A = (\<lambda>x y. RotateLeft64 (A x y) (rho_offset x y))"

definition pi_step :: "lanes \<Rightarrow> lanes" where
  "pi_step A = (\<lambda>x y. A ((x + 3 * y) mod 5) x)"

definition chi :: "lanes \<Rightarrow> lanes" where
  "chi A = (\<lambda>x y. A x y XOR (NOT (A ((x + 1) mod 5) y) AND A ((x + 2) mod 5) y))"

definition iota :: "u64 \<Rightarrow> lanes \<Rightarrow> lanes" where
  "iota rc A = (\<lambda>x y. if x = 0 \<and> y = 0 then A x y XOR rc else A x y)"

definition ref_round :: "u64 \<Rightarrow> lanes \<Rightarrow> lanes" where
  "ref_round rc A = iota rc (chi (pi_step (rho (theta A))))"

text \<open>The round constants from the degree-8 shift register of the reference.\<close>

fun lfsr :: "bool list \<Rightarrow> bool list" where
  "lfsr R =
     (let c = R ! 7
      in [c, R ! 0, R ! 1, R ! 2, R ! 3 \<noteq> c, R ! 4 \<noteq> c, R ! 5 \<noteq> c, R ! 6])"

fun lfsr_out :: "nat \<Rightarrow> bool list \<Rightarrow> bool list" where
  "lfsr_out 0 R = []"
| "lfsr_out (Suc t) R = R ! 0 # lfsr_out t (lfsr R)"

definition rc_bits :: "bool list" where
  "rc_bits = lfsr_out 168 [True, False, False, False, False, False, False, False]"

definition ref_RC :: "nat \<Rightarrow> u64" where
  "ref_RC r = foldr (\<lambda>j w. if rc_bits ! (j + 7 * r) then w OR push_bit (2 ^ j - 1) 1 else w) [0..<7] 0"

definition ref_permutation :: "lanes \<Rightarrow> lanes" where
  "ref_permutation A = fold (\<lambda>r. ref_round (ref_RC r)) [0..<24] A"

definition flat :: "lanes \<Rightarrow> u64 list" where
  "flat A = map (\<lambda>i. A (i mod 5) (i div 5)) [0..<25]"

text \<open>The sponge of the reference, on the same arrays. The message is extended by the bits \<open>1 0* 1\<close> to a multiple of the
  rate. Bit \<open>n\<close> of lane \<open>i\<close> of a block is the bit \<open>n mod 8\<close> of its byte \<open>8 i + n div 8\<close>. Byte \<open>i\<close> of the output is byte
  \<open>i mod rate\<close> of the state after \<open>i div rate\<close> more permutations.\<close>

definition keccak_pad :: "nat \<Rightarrow> bytes \<Rightarrow> bytes" where
  "keccak_pad rate m =
     (let k = rate - length m mod rate
      in m @ (if k = 1 then [0x81] else [0x01] @ replicate (k - 2) 0 @ [0x80]))"

definition block_lane :: "bytes \<Rightarrow> nat \<Rightarrow> u64" where
  "block_lane bs i =
     horner_sum of_bool 2 (map (\<lambda>n. 8 * i + n div 8 < length bs \<and> bit (bs ! (8 * i + n div 8)) (n mod 8)) [0..<64])"

definition add_block :: "bytes \<Rightarrow> lanes \<Rightarrow> lanes" where
  "add_block bs A = (\<lambda>x y. A x y XOR block_lane bs (x + 5 * y))"

function ref_absorb :: "nat \<Rightarrow> lanes \<Rightarrow> bytes \<Rightarrow> lanes" where
  "ref_absorb rate A m =
     (if 0 < rate \<and> rate \<le> length m
      then ref_absorb rate (ref_permutation (add_block (take rate m) A)) (drop rate m)
      else A)"
  by pat_completeness auto
termination by (relation "measure (\<lambda>(rate, A, m). length m)") auto

definition lanes_byte :: "lanes \<Rightarrow> nat \<Rightarrow> byte" where
  "lanes_byte A k = ucast (drop_bit (8 * (k mod 8)) (A (k div 8 mod 5) (k div 8 div 5)))"

definition ref_sponge :: "bytes \<Rightarrow> nat \<Rightarrow> nat \<Rightarrow> bytes" where
  "ref_sponge m outLen rate =
     (let A = ref_absorb rate (\<lambda>x y. 0) (keccak_pad rate m)
      in map (\<lambda>i. lanes_byte ((ref_permutation ^^ (i div rate)) A) (i mod rate)) [0..<outLen])"

text \<open>Between the two: blocks of bytes absorbed into the list of lanes, one byte at a time.\<close>

definition xor_byte :: "u64 list \<Rightarrow> nat \<Rightarrow> byte \<Rightarrow> u64 list" where
  "xor_byte st k b = st[k div 8 := st ! (k div 8) XOR push_bit (k mod 8 * 8) (ucast b)]"

fun xor_bytes :: "u64 list \<Rightarrow> nat \<Rightarrow> bytes \<Rightarrow> u64 list" where
  "xor_bytes st k [] = st"
| "xor_bytes st k (b # bs) = xor_bytes (xor_byte st k b) (Suc k) bs"

function bytes_absorb :: "nat \<Rightarrow> u64 list \<Rightarrow> bytes \<Rightarrow> u64 list" where
  "bytes_absorb rate st m =
     (if 0 < rate \<and> rate \<le> length m
      then bytes_absorb rate (KeccakF1600 (xor_bytes st 0 (take rate m))) (drop rate m)
      else st)"
  by pat_completeness auto
termination by (relation "measure (\<lambda>(rate, st, m). length m)") auto

declare ref_absorb.simps [simp del] bytes_absorb.simps [simp del]

section \<open>The permutation is the reference's\<close>

lemma upt_25: "[0..<25] = [0, 1, 2, 3, 4, 5, 6, 7, 8, 9, 10, 11, 12, 13, 14, 15, 16, 17, 18, 19, 20, 21, 22, 23, 24]"
  by code_simp

lemma rho_offsets:
  "map (\<lambda>i. rho_offset (i mod 5) (i div 5)) [0..<25] =
     [0, 1, 62, 28, 27, 36, 44, 6, 55, 20, 3, 10, 43, 25, 39, 41, 45, 15, 21, 8, 18, 2, 61, 56, 14]"
  by code_simp

lemma rho_offset_values:
  "rho_offset 0 0 = 0" "rho_offset (Suc 0) 0 = 1" "rho_offset 2 0 = 62" "rho_offset 3 0 = 28" "rho_offset 4 0 = 27"
  "rho_offset 0 (Suc 0) = 36" "rho_offset (Suc 0) (Suc 0) = 44" "rho_offset 2 (Suc 0) = 6"
  "rho_offset 3 (Suc 0) = 55" "rho_offset 4 (Suc 0) = 20"
  "rho_offset 0 2 = 3" "rho_offset (Suc 0) 2 = 10" "rho_offset 2 2 = 43" "rho_offset 3 2 = 25" "rho_offset 4 2 = 39"
  "rho_offset 0 3 = 41" "rho_offset (Suc 0) 3 = 45" "rho_offset 2 3 = 15" "rho_offset 3 3 = 21" "rho_offset 4 3 = 8"
  "rho_offset 0 4 = 18" "rho_offset (Suc 0) 4 = 2" "rho_offset 2 4 = 61" "rho_offset 3 4 = 56" "rho_offset 4 4 = 14"
  using rho_offsets unfolding upt_25 by simp_all

lemma RotateLeft64_0 [simp]: "RotateLeft64 x 0 = x"
  by (simp add: RotateLeft64_def) 

lemma flat_nth:
  "flat A ! 0 = A 0 0" "flat A ! 1 = A 1 0" "flat A ! 2 = A 2 0" "flat A ! 3 = A 3 0" "flat A ! 4 = A 4 0"
  "flat A ! 5 = A 0 1" "flat A ! 6 = A 1 1" "flat A ! 7 = A 2 1" "flat A ! 8 = A 3 1" "flat A ! 9 = A 4 1"
  "flat A ! 10 = A 0 2" "flat A ! 11 = A 1 2" "flat A ! 12 = A 2 2" "flat A ! 13 = A 3 2" "flat A ! 14 = A 4 2"
  "flat A ! 15 = A 0 3" "flat A ! 16 = A 1 3" "flat A ! 17 = A 2 3" "flat A ! 18 = A 3 3" "flat A ! 19 = A 4 3"
  "flat A ! 20 = A 0 4" "flat A ! 21 = A 1 4" "flat A ! 22 = A 2 4" "flat A ! 23 = A 3 4" "flat A ! 24 = A 4 4"
  by (simp_all add: flat_def numeral_2_eq_2 [symmetric])

lemma flat_list: "flat A = [A 0 0, A 1 0, A 2 0, A 3 0, A 4 0, A 0 1, A 1 1, A 2 1, A 3 1, A 4 1,
   A 0 2, A 1 2, A 2 2, A 3 2, A 4 2, A 0 3, A 1 3, A 2 3, A 3 3, A 4 3, A 0 4, A 1 4, A 2 4, A 3 4, A 4 4]"
  unfolding flat_def upt_25 by (simp add: numeral_2_eq_2 [symmetric])

lemma theta_D_values:
  "theta_D A 0 = theta_C A 4 XOR RotateLeft64 (theta_C A 1) 1"
  "theta_D A 1 = theta_C A 0 XOR RotateLeft64 (theta_C A 2) 1"
  "theta_D A 2 = theta_C A 1 XOR RotateLeft64 (theta_C A 3) 1"
  "theta_D A 3 = theta_C A 2 XOR RotateLeft64 (theta_C A 4) 1"
  "theta_D A 4 = theta_C A 3 XOR RotateLeft64 (theta_C A 0) 1"
  by (simp_all add: theta_D_def numeral_2_eq_2)

lemma keccak_half_theta:
  "keccak_half rc (flat A) = flat (iota rc (chi (pi_step (rho (\<lambda>x y. A x y XOR theta_D A x)))))"
  unfolding keccak_half_def Let_def flat_nth theta_C_def [of A, symmetric] theta_D_values [symmetric]
  by (simp add: flat_list rho_def pi_step_def chi_def iota_def rho_offset_values xor.assoc numeral_2_eq_2 [symmetric])

lemma keccak_half_ref: "keccak_half rc (flat A) = flat (ref_round rc A)"
  by (simp add: keccak_half_theta ref_round_def theta_def)

lemma rc_bits_list:
  "rc_bits =
     [True, False, False, False, False, False, False, False, True, False, True, True,
      False, False, False, True, True, True, True, False, True, False, False, False,
      False, True, True, True, True, True, True, True, True, False, False, True,
      False, False, False, False, True, False, True, False, False, True, True, True,
      True, True, False, True, False, True, False, True, False, True, True, True,
      False, False, False, False, False, True, True, False, False, False, True, False,
      True, False, True, True, False, False, True, True, False, False, True, False,
      True, True, True, True, True, True, False, True, True, True, True, False,
      False, True, True, False, True, True, True, False, True, True, True, False,
      False, True, False, True, False, True, False, False, True, False, True, False,
      False, False, True, False, False, True, False, True, True, False, True, False,
      False, False, True, True, False, False, True, True, True, False, False, True,
      True, True, True, False, False, False, True, True, False, True, True, False,
      False, False, False, True, False, False, False, True, False, True, True, True]"
  by code_simp

lemma keccakRC_lfsr: "map ref_RC [0..<24] = keccakRC"
  unfolding ref_RC_def rc_bits_list by code_simp

lemma keccakRC_nth: "r < 24 \<Longrightarrow> keccakRC ! r = ref_RC r"
  by (simp flip: keccakRC_lfsr)

lemma KeccakF1600_loop_ref:
  "n \<le> 12 \<Longrightarrow> KeccakF1600_loop n (flat A) = flat (fold (\<lambda>r. ref_round (ref_RC r)) [24 - 2 * n..<24] A)"
proof (induction n arbitrary: A)
  case (Suc n)
  define r where "r = 24 - 2 * Suc n"
  have r: "r + 1 < 24" "24 - 2 * n = r + 2" using Suc.prems by (simp_all add: r_def)
  have "[r..<24] = r # (r + 1) # [r + 2..<24]" using r(1) by (simp add: upt_conv_Cons)
  moreover have "KeccakF1600_loop (Suc n) (flat A)
      = KeccakF1600_loop n (flat (ref_round (ref_RC (r + 1)) (ref_round (ref_RC r) A)))"
    using r(1) by (simp add: Let_def keccak_half_ref keccakRC_nth r_def)
  ultimately show ?case using Suc r(2) by (simp add: r_def [symmetric] del: KeccakF1600_loop.simps mult_Suc_right)
qed simp

lemma KeccakF1600_ref: "KeccakF1600 (flat A) = flat (ref_permutation A)"
  using KeccakF1600_loop_ref [of 12 A] by (simp add: KeccakF1600_def ref_permutation_def)

lemma length_flat [simp]: "length (flat A) = 25"
  by (simp add: flat_def)

lemma flat_surj: "length st = 25 \<Longrightarrow> flat (\<lambda>x y. st ! (x + 5 * y)) = st"
  by (simp add: flat_def list_eq_iff_nth_eq mod_mult_div_eq mod_div_mult_eq mult.commute add.commute)

lemma length_KeccakF1600 [simp]: "length st = 25 \<Longrightarrow> length (KeccakF1600 st) = 25"
  by (metis KeccakF1600_ref flat_surj length_flat)

section \<open>The sponge is the reference's\<close>

lemma xor_bytes_append: "xor_bytes st k (xs @ ys) = xor_bytes (xor_bytes st k xs) (k + length xs) ys"
  by (induction xs arbitrary: st k) simp_all

lemma xor_byte_0 [simp]: "xor_byte st k 0 = st"
  by (simp add: xor_byte_def)

lemma xor_bytes_zeros [simp]: "xor_bytes st k (replicate n 0) = st"
  by (induction n arbitrary: k) simp_all

lemma xor_byte_twice: "xor_byte (xor_byte st k a) k b = xor_byte st k (a XOR b)"
proof -
  have "ucast (a XOR b) = (ucast a XOR ucast b :: u64)"
    by (auto simp: bit_eq_iff bit_simps)
  then show ?thesis
    by (cases "k div 8 < length st") (simp_all add: xor_byte_def push_bit_xor xor.assoc not_less list_update_beyond)
qed

lemma length_xor_byte [simp]: "length (xor_byte st k b) = length st"
  by (simp add: xor_byte_def)

lemma length_xor_bytes [simp]: "length (xor_bytes st k bs) = length st"
  by (induction bs arbitrary: st k) simp_all

lemma xorTail_bytes: "j + length bs \<le> 8 \<Longrightarrow> xorTail st i j bs = xor_bytes st (8 * i + j) bs"
proof (induction bs arbitrary: st j)
  case (Cons b bs)
  then show ?case by (cases "j < 8") (simp_all add: xor_byte_def)
qed simp

lemma bit_lane_byte: "bit (push_bit (8 * k) (ucast (b :: byte)) :: u64) n \<longleftrightarrow> n < 64 \<and> n div 8 = k \<and> bit b (n mod 8)"
proof -
  have "bit b (n - 8 * k) \<longleftrightarrow> n div 8 = k \<and> bit b (n mod 8)" if "8 * k \<le> n"
  proof (cases "n div 8 = k")
    case True
    then show ?thesis by (simp add: minus_mult_div_eq_mod [of n 8, symmetric] flip: True)
  next
    case False
    then have "8 \<le> n - 8 * k" using that by linarith
    then show ?thesis using False by (auto dest: bit_imp_le_length)
  qed
  moreover have "n div 8 \<noteq> k" if "\<not> 8 * k \<le> n" using that by linarith
  ultimately show ?thesis by (cases "8 * k \<le> n") (auto simp: bit_simps)
qed

lemma le_lane_xor:
  "le_lane [a, b, c, d, e, f, g, h] =
     push_bit (8 * 0) (ucast a) XOR push_bit (8 * 1) (ucast b) XOR push_bit (8 * 2) (ucast c)
     XOR push_bit (8 * 3) (ucast d) XOR push_bit (8 * 4) (ucast e) XOR push_bit (8 * 5) (ucast f)
     XOR push_bit (8 * 6) (ucast g) XOR push_bit (8 * 7) (ucast h)"
proof -
  have "le_lane [a, b, c, d, e, f, g, h] =
     push_bit (8 * 0) (ucast a) OR push_bit (8 * 1) (ucast b) OR push_bit (8 * 2) (ucast c)
     OR push_bit (8 * 3) (ucast d) OR push_bit (8 * 4) (ucast e) OR push_bit (8 * 5) (ucast f)
     OR push_bit (8 * 6) (ucast g) OR push_bit (8 * 7) (ucast h)"
    by (simp add: le_lane_def)
  also have "\<dots> = push_bit (8 * 0) (ucast a) XOR push_bit (8 * 1) (ucast b) XOR push_bit (8 * 2) (ucast c)
     XOR push_bit (8 * 3) (ucast d) XOR push_bit (8 * 4) (ucast e) XOR push_bit (8 * 5) (ucast f)
     XOR push_bit (8 * 6) (ucast g) XOR push_bit (8 * 7) (ucast h)"
  proof (rule bit_word_eqI)
    fix n assume "n < LENGTH(64)"
    then have "n div 8 \<in> {0, 1, 2, 3, 4, 5, 6, 7}" by auto
    then show "bit (push_bit (8 * 0) (ucast a) OR push_bit (8 * 1) (ucast b) OR push_bit (8 * 2) (ucast c)
     OR push_bit (8 * 3) (ucast d) OR push_bit (8 * 4) (ucast e) OR push_bit (8 * 5) (ucast f)
     OR push_bit (8 * 6) (ucast g) OR push_bit (8 * 7) (ucast h) :: u64) n = bit (push_bit (8 * 0) (ucast a) XOR
      push_bit (8 * 1) (ucast b) XOR push_bit (8 * 2) (ucast c)
     XOR push_bit (8 * 3) (ucast d) XOR push_bit (8 * 4) (ucast e) XOR push_bit (8 * 5) (ucast f)
     XOR push_bit (8 * 6) (ucast g) XOR push_bit (8 * 7) (ucast h) :: u64) n"
      by (elim insertE emptyE) (simp_all only: bit_or_iff bit_xor_iff bit_lane_byte, simp_all)
  qed
  finally show ?thesis .
qed

lemma xor_lane_bytes:
  assumes "length bs = 8"
  shows "st[i := st ! i XOR le_lane bs] = xor_bytes st (8 * i) bs"
proof -
  obtain a b c d e f g h where bs: "bs = [a, b, c, d, e, f, g, h]"
    using assms by (auto simp: numeral_eq_Suc length_Suc_conv)
  have "(8 * i + k) div 8 = i" "(8 * i + k) mod 8 = k" if "k < 8" for k using that by simp_all
  from this [of 0] this [of 1] this [of 2] this [of 3] this [of 4] this [of 5] this [of 6] this [of 7]
  show ?thesis
    unfolding bs le_lane_xor
    by (cases "i < length st") (simp_all add: xor_byte_def xor.assoc not_less list_update_beyond)
qed

lemma xorBytes_loop_bytes:
  "n \<le> length inp \<Longrightarrow> xorBytes_loop st i inp n = xor_bytes st (8 * i) (take n inp)"
proof (induction st i inp n rule: xorBytes_loop.induct)
  case (1 st i inp n)
  show ?case
  proof (cases "8 \<le> n")
    case True
    have "le_lane inp = le_lane (take 8 inp)" by (simp add: le_lane_def)
    moreover have "take n inp = take 8 inp @ take (n - 8) (drop 8 inp)"
      using True by (metis le_add_diff_inverse take_add)
    ultimately show ?thesis
      using 1 True xor_lane_bytes [of "take 8 inp" st i]
      by (simp add: xorBytes_loop.simps [of st i inp n] xor_bytes_append min_absorb2 add.commute)
  next
    case False
    then show ?thesis using xorTail_bytes [of 0 "take n inp" st i] 1
      by (simp add: xorBytes_loop.simps [of st i inp n])
  qed
qed

lemma xorBytes_bytes: "n \<le> length inp \<Longrightarrow> xorBytes st inp n = xor_bytes st 0 (take n inp)"
  by (simp add: xorBytes_def xorBytes_loop_bytes)

lemma absorb_blocks_ref:
  assumes "0 < rate" "absorb_blocks rate st inp = (st', rest)"
  shows "length rest = length inp mod rate \<and> bytes_absorb rate st (inp @ p) = bytes_absorb rate st' (rest @ p)"
  using assms
proof (induction rate st inp rule: absorb_blocks.induct)
  case (1 rate st inp)
  show ?case
  proof (cases "rate \<le> length inp")
    case True
    then have r: "absorb_blocks rate (KeccakF1600 (xor_bytes st 0 (take rate inp))) (drop rate inp) = (st', rest)"
      using "1.prems" by (simp add: absorb_blocks.simps [of rate st inp] xorBytes_bytes)
    have IH: "length rest = length (drop rate inp) mod rate \<and>
        bytes_absorb rate (KeccakF1600 (xor_bytes st 0 (take rate inp))) (drop rate inp @ p) =
          bytes_absorb rate st' (rest @ p)"
      using "1.IH" True "1.prems"(1) r by (simp add: xorBytes_bytes)
    moreover have "bytes_absorb rate st (inp @ p) =
        bytes_absorb rate (KeccakF1600 (xor_bytes st 0 (take rate inp))) (drop rate inp @ p)"
      using True "1.prems"(1) by (subst bytes_absorb.simps) simp
    moreover have "length (drop rate inp) mod rate = length inp mod rate"
      using True by (simp add: le_mod_geq)
    ultimately show ?thesis by simp
  next
    case False
    then show ?thesis using "1.prems" by (simp add: absorb_blocks.simps [of rate st inp])
  qed
qed

lemma pad_in_place:
  assumes "length rest < rate"
  defines "k \<equiv> rate - length rest"
  shows "xor_byte (xor_byte (xor_bytes st 0 rest) (length rest) 1) (rate - 1) 0x80 =
    xor_bytes st 0 (rest @ (if k = 1 then [0x81] else [0x01] @ replicate (k - 2) 0 @ [0x80]))"
proof (cases "k = 1")
  case True
  then have "rate - 1 = length rest" using assms by simp
  then show ?thesis using True by (simp add: xor_bytes_append xor_byte_twice)
next
  case False
  then have "Suc (length rest + (k - 2)) = rate - 1" using assms by simp
  then show ?thesis using False by (simp add: xor_bytes_append)
qed

text \<open>Absorbing.\<close>

lemma bit_block_lane: "n < 64 \<Longrightarrow> bit (block_lane bs i) n \<longleftrightarrow> 8 * i + n div 8 < length bs \<and> bit (bs ! (8 * i + n div 8)) (n mod 8)"
  by (simp add: block_lane_def bit_horner_sum_bit_word_iff)

lemma bit_xor_bytes:
  "\<lbrakk>i < length st; n < 64\<rbrakk> \<Longrightarrow> bit (xor_bytes st k bs ! i) n \<longleftrightarrow>
     bit (st ! i) n \<noteq> (k \<le> 8 * i + n div 8 \<and> 8 * i + n div 8 < k + length bs \<and> bit (bs ! (8 * i + n div 8 - k)) (n mod 8))"
proof (induction bs arbitrary: st k)
  case (Cons b bs)
  let ?j = "8 * i + n div 8"
  have j: "?j = k \<longleftrightarrow> i = k div 8 \<and> n div 8 = k mod 8"
  proof
    assume "?j = k"
    moreover have "n div 8 < 8" using Cons.prems(2) by simp
    ultimately show "i = k div 8 \<and> n div 8 = k mod 8" by (metis div_mult_self4 mod_mult_self4 div_less mod_less add_0_right zero_neq_numeral)
  next
    assume "i = k div 8 \<and> n div 8 = k mod 8"
    then show "?j = k" by simp
  qed
  have "bit (xor_byte st k b ! i) n \<longleftrightarrow> bit (st ! i) n \<noteq> (?j = k \<and> bit b (n mod 8))"
    unfolding j
  proof (cases "i = k div 8")
    case True
    then have "xor_byte st k b ! i = st ! i XOR push_bit (8 * (k mod 8)) (ucast b)"
      using Cons.prems(1) by (simp add: xor_byte_def mult.commute)
    then show "bit (xor_byte st k b ! i) n \<longleftrightarrow> bit (st ! i) n \<noteq> ((i = k div 8 \<and> n div 8 = k mod 8) \<and> bit b (n mod 8))"
      using True Cons.prems(2) bit_lane_byte [of "k mod 8" b n] by (simp only: bit_xor_iff) simp
  qed (simp add: xor_byte_def)
  then show ?case using Cons.IH [of "xor_byte st k b" "Suc k"] Cons.prems
    by (cases "?j = k") (auto simp: nth_Cons' not_less_eq_eq)
qed simp

lemma xor_bytes_add_block: "xor_bytes (flat A) 0 bs = flat (add_block bs A)"
proof (rule nth_equalityI)
  fix i assume "i < length (xor_bytes (flat A) 0 bs)"
  then have i: "i < 25" by simp
  have "bit (xor_bytes (flat A) 0 bs ! i) n = bit (flat (add_block bs A) ! i) n" if "n < LENGTH(64)" for n
    using that i bit_xor_bytes [of i "flat A" n 0 bs] by (auto simp: flat_def add_block_def bit_xor_iff bit_block_lane mod_mult_div_eq)
  then show "xor_bytes (flat A) 0 bs ! i = flat (add_block bs A) ! i" by (rule bit_word_eqI)
qed simp

lemma bytes_absorb_flat: "bytes_absorb rate (flat A) m = flat (ref_absorb rate A m)"
proof (induction rate A m rule: ref_absorb.induct)
  case (1 rate A m)
  then show ?case by (subst ref_absorb.simps, subst bytes_absorb.simps) (simp add: xor_bytes_add_block KeccakF1600_ref)
qed

text \<open>Squeezing.\<close>

definition list_byte :: "u64 list \<Rightarrow> nat \<Rightarrow> byte" where
  "list_byte st k = ucast (drop_bit (8 * (k mod 8)) (st ! (k div 8)))"

lemma extractBytes_loop_bytes: "extractBytes_loop st i n = map (\<lambda>k. list_byte st (8 * i + k)) [0..<n]"
proof (induction st i n rule: extractBytes_loop.induct)
  case (1 st i n)
  have low: "map (\<lambda>k. ucast (drop_bit (8 * k) (st ! i))) [0..<m] = map (\<lambda>k. list_byte st (8 * i + k)) [0..<m]" if "m \<le> 8" for m
    using that by (simp add: list_byte_def)
  show ?case
  proof (cases "8 \<le> n")
    case True
    have "[0..<n] = [0..<8] @ [8..<n]" using upt_add_eq_append [of 0 8 "n - 8"] True by simp
    moreover have "[8..<n] = map (\<lambda>k. k + 8) [0..<n - 8]" using True by (simp add: map_add_upt)
    ultimately show ?thesis
      using 1 True low [of 8] by (subst extractBytes_loop.simps) (simp add: algebra_simps comp_def)
  next
    case False
    then show ?thesis using low [of n] by (subst extractBytes_loop.simps) (simp add: mult.commute)
  qed
qed

lemma squeeze_bytes:
  "0 < rate \<Longrightarrow> squeeze rate st n = map (\<lambda>i. list_byte ((KeccakF1600 ^^ (i div rate)) st) (i mod rate)) [0..<n]"
proof (induction rate st n rule: squeeze.induct)
  case (1 rate st n)
  let ?out = "\<lambda>st i. list_byte ((KeccakF1600 ^^ (i div rate)) st) (i mod rate)"
  have first: "extractBytes st m = map (?out st) [0..<m]" if "m \<le> rate" for m
    using that by (simp add: extractBytes_def extractBytes_loop_bytes)
  show ?case
  proof (cases "rate \<le> n")
    case True
    have "[0..<n] = [0..<rate] @ [rate..<n]" using upt_add_eq_append [of 0 rate "n - rate"] True by simp
    moreover have "[rate..<n] = map (\<lambda>i. i + rate) [0..<n - rate]" using True by (simp add: map_add_upt)
    moreover have "?out st (i + rate) = ?out (KeccakF1600 st) i" for i
      using "1.prems" by (simp add: funpow_swap1 div_add_self2)
    ultimately show ?thesis using 1 True first [of rate] by (subst squeeze.simps) (simp add: comp_def)
  next
    case False
    then show ?thesis using first [of n] by (subst squeeze.simps) simp
  qed
qed

lemma funpow_flat: "(KeccakF1600 ^^ k) (flat A) = flat ((ref_permutation ^^ k) A)"
  by (induction k) (simp_all add: KeccakF1600_ref)

lemma list_byte_flat: "k < 200 \<Longrightarrow> list_byte (flat A) k = lanes_byte A k"
  by (simp add: list_byte_def lanes_byte_def flat_def less_mult_imp_div_less)

lemma squeeze_ref:
  assumes "0 < rate" "rate \<le> 200"
  shows "squeeze rate (flat A) n = map (\<lambda>i. lanes_byte ((ref_permutation ^^ (i div rate)) A) (i mod rate)) [0..<n]"
proof -
  have "i mod rate < 200" for i using assms by (meson mod_less_divisor order.strict_trans2)
  then show ?thesis by (simp add: squeeze_bytes [OF assms(1)] funpow_flat list_byte_flat)
qed

lemma flat_zero: "replicate 25 0 = flat (\<lambda>x y. 0)"
  by (simp add: flat_def map_replicate_const)

lemma keccakSponge_ref:
  "keccakSponge inp outLen rate = (if 0 < rate \<and> rate \<le> 200 then Some (ref_sponge inp outLen rate) else None)"
proof (cases "0 < rate \<and> rate \<le> 200")
  case True
  then have rate: "0 < rate" "rate \<le> 200" by simp_all
  obtain st rest where e: "absorb_blocks rate (replicate 25 0) inp = (st, rest)" by fastforce
  define k where "k = rate - length rest"
  define p where "p = (if k = 1 then [0x81] else [0x01] @ replicate (k - 2) 0 @ [0x80 :: byte])"
  have l: "length rest = length inp mod rate"
    and ab: "bytes_absorb rate (replicate 25 0) (inp @ p) = bytes_absorb rate st (rest @ p)"
    using absorb_blocks_ref [OF rate(1) e] by simp_all
  have lt: "length rest < rate" using l rate by simp
  then have "length (rest @ p) = rate" by (auto simp: p_def k_def)
  then have "bytes_absorb rate st (rest @ p) = KeccakF1600 (xor_bytes st 0 (rest @ p))"
    using rate by (simp add: bytes_absorb.simps [of rate st] bytes_absorb.simps [of rate _ "[]"])
  moreover have "xor_bytes st 0 (rest @ p) = xor_byte (xor_byte (xor_bytes st 0 rest) (length rest) 1) (rate - 1) 0x80"
    using pad_in_place [OF lt] by (simp add: p_def k_def)
  moreover have "keccak_pad rate inp = inp @ p" by (simp add: keccak_pad_def Let_def p_def k_def l)
  ultimately have "flat (ref_absorb rate (\<lambda>x y. 0) (keccak_pad rate inp)) =
      KeccakF1600 (xor_byte (xor_byte (xor_bytes st 0 rest) (length rest) 1) (rate - 1) 0x80)"
    using ab by (simp only: flat_zero bytes_absorb_flat)
  moreover have "(rate - 1) div 8 < 25" using rate by (simp add: less_mult_imp_div_less)
  ultimately have "keccakSponge inp outLen rate = Some (squeeze rate (flat (ref_absorb rate (\<lambda>x y. 0) (keccak_pad rate inp))) outLen)"
    using e rate by (cases rest) (simp_all add: keccakSponge_def Let_def xorBytes_bytes xor_byte_def)
  then show ?thesis using True by (simp add: ref_sponge_def squeeze_ref)
next
  case False
  then have "rate = 0 \<or> 25 \<le> (rate - 1) div 8" by (auto simp: div_le_mono [of 200, THEN order.trans [rotated]])
  then show ?thesis using False by (auto simp: keccakSponge_def split_beta Let_def)
qed

lemma Keccak256_ref: "Keccak256 m = ref_sponge m 32 136"
  by (simp add: Keccak256_def keccakSponge_ref)

lemma Keccak512_ref: "Keccak512 m = ref_sponge m 64 72"
  by (simp add: Keccak512_def keccakSponge_ref)

lemma length_Keccak256 [simp]: "length (Keccak256 m) = 32"
  by (simp add: Keccak256_ref ref_sponge_def)

lemma length_Keccak512 [simp]: "length (Keccak512 m) = 64"
  by (simp add: Keccak512_ref ref_sponge_def)

end
