(* ===== verification/Stepper.thy ===== *)
theory Stepper
  imports Division_Correct Keccak
begin

text \<open>
  \<open>c2evm/frame.go\<close> and \<open>c2evm/stepper.go\<close>: the execution frame and \<open>StepOne\<close>, which
  executes one instruction. A fixed-size array is a function read and written through
  accessors that check the index; an index out of range is a Go panic, and the value
  of the whole step is then \<open>None\<close>. The interface \<open>StateAccessor\<close> is a type \<open>'db\<close> with the
  two functions \<open>get\<close> and \<open>put\<close>; the components that implement it interpret the
  locale \<open>state_accessor\<close> below. The int returned by \<open>StepOne\<close> is always the field \<open>Status\<close>
  of the frame it leaves, and is not returned separately.
\<close>

section \<open>The frame\<close>

datatype Status = StatusRunning | StatusSuccess | StatusRevert | StatusStackUnderflow
  | StatusStackOverflow | StatusOutOfGas | StatusInvalidOpcode | StatusJumpDestInvalid

record 'db ExecutionFrame =
  Stack :: "nat \<Rightarrow> Uint256"
  SP :: int
  PC :: u32
  Gas :: u64
  Refund :: u64
  Status :: Status
  Memory :: "nat \<Rightarrow> byte"
  MemorySize :: u32
  ReturnDataOffset :: u32
  ReturnDataSize :: u32
  StateDB :: "'db option"

abbreviation stackMax :: nat where "stackMax \<equiv> 1024"
abbreviation memMax :: u64 where "memMax \<equiv> 65536"

definition Reset :: "u64 \<Rightarrow> 'db ExecutionFrame \<Rightarrow> 'db ExecutionFrame" where
  "Reset gas f =
     \<lparr>Stack = (\<lambda>_. zero256), SP = 0, PC = 0, Gas = gas, Refund = 0, Status = StatusRunning,
      Memory = (\<lambda>_. 0), MemorySize = 0, ReturnDataOffset = 0, ReturnDataSize = 0,
      StateDB = StateDB f\<rparr>"

text \<open>\<open>f.Stack[i]\<close>, \<open>f.Stack[i] = v\<close>, \<open>f.Memory[lo:hi]\<close> and \<open>copy(f.Memory[lo:hi], bs)\<close>.\<close>

definition stackAt :: "'db ExecutionFrame \<Rightarrow> int \<Rightarrow> Uint256 option" where
  "stackAt f i = (if 0 \<le> i \<and> i < int stackMax then Some (Stack f (nat i)) else None)"

definition setStack :: "'db ExecutionFrame \<Rightarrow> int \<Rightarrow> Uint256 \<Rightarrow> 'db ExecutionFrame option" where
  "setStack f i v =
     (if 0 \<le> i \<and> i < int stackMax then Some (f\<lparr>Stack := (Stack f)(nat i := v)\<rparr>) else None)"

definition memSlice :: "'db ExecutionFrame \<Rightarrow> u64 \<Rightarrow> u64 \<Rightarrow> bytes option" where
  "memSlice f lo hi =
     (if lo \<le> hi \<and> hi \<le> memMax then Some (map (Memory f) [unat lo..<unat hi]) else None)"

definition memCopy :: "'db ExecutionFrame \<Rightarrow> u64 \<Rightarrow> u64 \<Rightarrow> bytes \<Rightarrow> 'db ExecutionFrame option" where
  "memCopy f lo hi bs =
     (if lo \<le> hi \<and> hi \<le> memMax
      then Some (f\<lparr>Memory := (\<lambda>i. if unat lo \<le> i \<and> i < min (unat lo + length bs) (unat hi)
                               then bs ! (i - unat lo) else Memory f i)\<rparr>)
      else None)"

section \<open>Gas\<close>

definition gasInvalid :: u64 where
  "gasInvalid = NOT 0"

definition opGas :: "byte \<Rightarrow> u64" where
  "opGas op =
     (if op = 0x00 then 0
      else if op = 0x01 then 3
      else if op = 0x02 then 5
      else if op = 0x03 then 3
      else if 0x04 \<le> op \<and> op \<le> 0x07 then 5
      else if op = 0x08 \<or> op = 0x09 then 8
      else if op = 0x0a then 10
      else if op = 0x0b then 5
      else if 0x10 \<le> op \<and> op \<le> 0x1d then 3
      else if op = 0x20 then 30
      else if op = 0x50 then 2
      else if 0x51 \<le> op \<and> op \<le> 0x53 then 3
      else if op = 0x54 then 800
      else if op = 0x55 then 5000
      else if op = 0x56 then 8
      else if op = 0x57 then 10
      else if 0x58 \<le> op \<and> op \<le> 0x5a then 2
      else if op = 0x5b then 1
      else if op = 0x5f then 2
      else if 0x60 \<le> op \<and> op \<le> 0x7f then 3
      else if 0x80 \<le> op \<and> op \<le> 0x9f then 3
      else if op = 0xfd then 0
      else gasInvalid)"

definition haltEx :: "'db ExecutionFrame \<Rightarrow> Status \<Rightarrow> 'db ExecutionFrame" where
  "haltEx f st = f\<lparr>Status := st, Gas := 0\<rparr>"

text \<open>
  \<open>requireStack\<close> and \<open>requireRoom\<close> either halt the frame and return a non-zero value, on
  which every caller returns at once (\<open>Some\<close> of the halted frame), or return 0 (\<open>None\<close>).
\<close>

definition requireStack :: "'db ExecutionFrame \<Rightarrow> int \<Rightarrow> 'db ExecutionFrame option" where
  "requireStack f n = (if SP f < n then Some (haltEx f StatusStackUnderflow) else None)"

definition requireRoom :: "'db ExecutionFrame \<Rightarrow> 'db ExecutionFrame option" where
  "requireRoom f = (if SP f \<ge> int stackMax then Some (haltEx f StatusStackOverflow) else None)"

definition orElse :: "'db ExecutionFrame option \<Rightarrow> 'db ExecutionFrame option \<Rightarrow> 'db ExecutionFrame option" where
  "orElse halted k = (case halted of Some f \<Rightarrow> Some f | None \<Rightarrow> k)"

definition u256AsU64 :: "Uint256 \<Rightarrow> u64 option" where
  "u256AsU64 x = (if (w1 x OR w2 x OR w3 x) \<noteq> 0 then None else Some (w0 x))"

text \<open>The loop of \<open>u256ByteLen\<close> from \<open>i = n - 1\<close> down.\<close>

fun u256ByteLen_from :: "Uint256 \<Rightarrow> nat \<Rightarrow> nat" where
  "u256ByteLen_from x 0 = 0"
| "u256ByteLen_from x (Suc i) =
     (if drop_bit (i mod 8 * 8) (limb x (i div 8)) AND 0xff \<noteq> 0 then Suc i else u256ByteLen_from x i)"

definition u256ByteLen :: "Uint256 \<Rightarrow> nat" where
  "u256ByteLen x = u256ByteLen_from x 32"

definition memGas :: "u64 \<Rightarrow> u64" where
  "memGas words = 3 * words + words * words div 512"

text \<open>\<open>chargeMem\<close>: \<open>None\<close> is the return value -1, which leaves the frame unchanged.\<close>

definition chargeMem :: "'db ExecutionFrame \<Rightarrow> u64 \<Rightarrow> u64 \<Rightarrow> 'db ExecutionFrame option" where
  "chargeMem f offset sz =
     (if sz = 0 then Some f
      else if offset \<ge> memMax then None
      else if sz > memMax - offset then None
      else
        (let end = offset + sz;
             words = (end + 31) div 32;
             newSize = words * 32
         in if newSize > memMax then None
            else if newSize \<le> ucast (MemorySize f) then Some f
            else
              (let oldWords = (ucast (MemorySize f) + 31) div 32;
                   oldCost = memGas oldWords;
                   newCost = memGas words
               in if newCost < oldCost then None
                  else
                    (let delta = newCost - oldCost
                     in if Gas f < delta then None
                        else Some (f\<lparr>Gas := Gas f - delta, MemorySize := ucast newSize\<rparr>)))))"

section \<open>Instructions\<close>

text \<open>The scan of \<open>jumpdestOK\<close> over the instructions before \<open>dest\<close>.\<close>

function jumpdest_scan :: "bytes \<Rightarrow> nat \<Rightarrow> nat \<Rightarrow> nat" where
  "jumpdest_scan code d i =
     (if i < d then
        (let op = code ! i
         in if 0x60 \<le> op \<and> op \<le> 0x7f then jumpdest_scan code d (i + 1 + unat (op - 0x5f))
            else jumpdest_scan code d (i + 1))
      else i)"
  by pat_completeness auto
termination by (relation "measure (\<lambda>(code, d, i). d - i)") auto

declare jumpdest_scan.simps [simp del]

definition jumpdestOK :: "bytes \<Rightarrow> u32 \<Rightarrow> bool" where
  "jumpdestOK code dest =
     (if unat dest \<ge> length code then False
      else if code ! unat dest \<noteq> 0x5b then False
      else jumpdest_scan code (unat dest) 0 = unat dest)"

definition execBinop ::
  "'db ExecutionFrame \<Rightarrow> (Uint256 \<Rightarrow> Uint256 \<Rightarrow> Uint256) \<Rightarrow> 'db ExecutionFrame option" where
  "execBinop f fn = orElse (requireStack f 2)
     (do { a \<leftarrow> stackAt f (SP f - 1);
           b \<leftarrow> stackAt f (SP f - 2);
           f \<leftarrow> setStack f (SP f - 2) (fn a b);
           Some (f\<lparr>SP := SP f - 1\<rparr>) })"

definition execCmp ::
  "'db ExecutionFrame \<Rightarrow> (Uint256 \<Rightarrow> Uint256 \<Rightarrow> bool) \<Rightarrow> 'db ExecutionFrame option" where
  "execCmp f fn = orElse (requireStack f 2)
     (do { a \<leftarrow> stackAt f (SP f - 1);
           b \<leftarrow> stackAt f (SP f - 2);
           f \<leftarrow> setStack f (SP f - 2) (FromU64 (if fn a b then 1 else 0));
           Some (f\<lparr>SP := SP f - 1\<rparr>) })"

text \<open>The loop of \<open>execPush\<close>: the bytes read (zero beyond the code) and the final \<open>PC\<close>.\<close>

fun push_bytes :: "bytes \<Rightarrow> u32 \<Rightarrow> nat \<Rightarrow> bytes \<times> u32" where
  "push_bytes code pc 0 = ([], pc)"
| "push_bytes code pc (Suc n) =
     (let b = (if unat pc < length code then code ! unat pc else 0);
          (bs, pc') = push_bytes code (pc + 1) n
      in (b # bs, pc'))"

definition execPush :: "'db ExecutionFrame \<Rightarrow> bytes \<Rightarrow> nat \<Rightarrow> 'db ExecutionFrame option" where
  "execPush f code n = orElse (requireRoom f)
     (let (bs, pc) = push_bytes code (PC f) n;
          buf = replicate (32 - n) 0 @ bs
      in do { f \<leftarrow> setStack (f\<lparr>PC := pc\<rparr>) (SP f) (FromBytesBE buf);
              Some (f\<lparr>SP := SP f + 1\<rparr>) })"

definition zeroAddr :: Uint256 where
  "zeroAddr = zero256"

text \<open>Opcodes 0x01 to 0x0b.\<close>

definition execTernop ::
  "'db ExecutionFrame \<Rightarrow> (Uint256 \<Rightarrow> Uint256 \<Rightarrow> Uint256 \<Rightarrow> Uint256) \<Rightarrow> 'db ExecutionFrame option" where
  "execTernop f fn = orElse (requireStack f 3)
     (do { a \<leftarrow> stackAt f (SP f - 1);
           b \<leftarrow> stackAt f (SP f - 2);
           m \<leftarrow> stackAt f (SP f - 3);
           f \<leftarrow> setStack f (SP f - 3) (fn a b m);
           Some (f\<lparr>SP := SP f - 2\<rparr>) })"

definition step_exp :: "'db ExecutionFrame \<Rightarrow> 'db ExecutionFrame option" where
  "step_exp f = orElse (requireStack f 2)
     (do { e \<leftarrow> stackAt f (SP f - 2);
           let extra = 50 * of_nat (u256ByteLen e) in
           if Gas f < extra then Some (haltEx f StatusOutOfGas)
           else
             (let f = f\<lparr>Gas := Gas f - extra\<rparr>
              in do { base \<leftarrow> stackAt f (SP f - 1);
                      f \<leftarrow> setStack f (SP f - 2) (Exp256 base e);
                      Some (f\<lparr>SP := SP f - 1\<rparr>) }) })"

definition step_signextend :: "'db ExecutionFrame \<Rightarrow> 'db ExecutionFrame option" where
  "step_signextend f = orElse (requireStack f 2)
     (do { i \<leftarrow> stackAt f (SP f - 1);
           x \<leftarrow> stackAt f (SP f - 2);
           let b = (case u256AsU64 i of Some b \<Rightarrow> b | None \<Rightarrow> 31) in
           do { f \<leftarrow> setStack f (SP f - 2) (SignExtend256 b x);
                Some (f\<lparr>SP := SP f - 1\<rparr>) } })"

definition step_arith :: "byte \<Rightarrow> 'db ExecutionFrame \<Rightarrow> 'db ExecutionFrame option" where
  "step_arith op f =
     (if op = 0x01 then execBinop f Add256
      else if op = 0x02 then execBinop f Mul256
      else if op = 0x03 then execBinop f Sub256
      else if op = 0x04 then execBinop f Div256
      else if op = 0x05 then execBinop f SDiv256
      else if op = 0x06 then execBinop f Mod256
      else if op = 0x07 then execBinop f SMod256
      else if op = 0x08 then execTernop f AddMod256
      else if op = 0x09 then execTernop f MulMod256
      else if op = 0x0a then step_exp f
      else step_signextend f)"

text \<open>Opcodes 0x10 to 0x1d.\<close>

definition execUnop :: "'db ExecutionFrame \<Rightarrow> (Uint256 \<Rightarrow> Uint256) \<Rightarrow> 'db ExecutionFrame option" where
  "execUnop f fn = orElse (requireStack f 1)
     (do { x \<leftarrow> stackAt f (SP f - 1);
           setStack f (SP f - 1) (fn x) })"

definition step_byte :: "'db ExecutionFrame \<Rightarrow> 'db ExecutionFrame option" where
  "step_byte f = orElse (requireStack f 2)
     (do { i \<leftarrow> stackAt f (SP f - 1);
           x \<leftarrow> stackAt f (SP f - 2);
           let i = (case u256AsU64 i of Some i \<Rightarrow> i | None \<Rightarrow> 32) in
           do { f \<leftarrow> setStack f (SP f - 2) (Byte256 i x);
                Some (f\<lparr>SP := SP f - 1\<rparr>) } })"

definition step_logic :: "byte \<Rightarrow> 'db ExecutionFrame \<Rightarrow> 'db ExecutionFrame option" where
  "step_logic op f =
     (if op = 0x10 then execCmp f Lt256
      else if op = 0x11 then execCmp f Gt256
      else if op = 0x12 then execCmp f Slt256
      else if op = 0x13 then execCmp f Sgt256
      else if op = 0x14 then execCmp f Eq
      else if op = 0x15 then execUnop f (\<lambda>x. FromU64 (if IsZero x then 1 else 0))
      else if op = 0x16 then execBinop f And256
      else if op = 0x17 then execBinop f Or256
      else if op = 0x18 then execBinop f Xor256
      else if op = 0x19 then execUnop f Not256
      else if op = 0x1a then step_byte f
      else if op = 0x1b then execBinop f Shl256
      else if op = 0x1c then execBinop f Shr256
      else execBinop f Sar256)"

text \<open>Opcode 0x20.\<close>

definition step_keccak :: "'db ExecutionFrame \<Rightarrow> 'db ExecutionFrame option" where
  "step_keccak f = orElse (requireStack f 2)
     (do { ox \<leftarrow> stackAt f (SP f - 1);
           sx \<leftarrow> stackAt f (SP f - 2);
           case u256AsU64 ox of None \<Rightarrow> Some (haltEx f StatusOutOfGas) | Some off \<Rightarrow>
           (case u256AsU64 sx of None \<Rightarrow> Some (haltEx f StatusOutOfGas) | Some sz \<Rightarrow>
           (case chargeMem f off sz of None \<Rightarrow> Some (haltEx f StatusOutOfGas) | Some f \<Rightarrow>
           (let words = (if sz = 0 then 0 else (sz + 31) div 32);
                extra = 6 * words
            in if Gas f < extra then Some (haltEx f StatusOutOfGas)
            else
              (let f = f\<lparr>Gas := Gas f - extra\<rparr>
               in do { digest \<leftarrow> (if sz = 0 then Some (Keccak256 [])
                                 else map_option Keccak256 (memSlice f off (off + sz)));
                       let f = f\<lparr>SP := SP f - 1\<rparr> in
                       setStack f (SP f - 1) (FromBytesBE digest) })))) })"

text \<open>Opcodes 0x50 to 0x53.\<close>

definition step_pop :: "'db ExecutionFrame \<Rightarrow> 'db ExecutionFrame option" where
  "step_pop f = orElse (requireStack f 1) (Some (f\<lparr>SP := SP f - 1\<rparr>))"

definition step_mload :: "'db ExecutionFrame \<Rightarrow> 'db ExecutionFrame option" where
  "step_mload f = orElse (requireStack f 1)
     (do { ox \<leftarrow> stackAt f (SP f - 1);
           case u256AsU64 ox of None \<Rightarrow> Some (haltEx f StatusOutOfGas) | Some off \<Rightarrow>
           (case chargeMem f off 32 of None \<Rightarrow> Some (haltEx f StatusOutOfGas) | Some f \<Rightarrow>
              do { bs \<leftarrow> memSlice f off (off + 32);
                   setStack f (SP f - 1) (FromBytesBE bs) }) })"

definition step_mstore :: "'db ExecutionFrame \<Rightarrow> 'db ExecutionFrame option" where
  "step_mstore f = orElse (requireStack f 2)
     (do { ox \<leftarrow> stackAt f (SP f - 1);
           case u256AsU64 ox of None \<Rightarrow> Some (haltEx f StatusOutOfGas) | Some off \<Rightarrow>
           (case chargeMem f off 32 of None \<Rightarrow> Some (haltEx f StatusOutOfGas) | Some f \<Rightarrow>
              do { v \<leftarrow> stackAt f (SP f - 2);
                   f \<leftarrow> memCopy f off (off + 32) (BytesBE v);
                   Some (f\<lparr>SP := SP f - 2\<rparr>) }) })"

definition step_mstore8 :: "'db ExecutionFrame \<Rightarrow> 'db ExecutionFrame option" where
  "step_mstore8 f = orElse (requireStack f 2)
     (do { ox \<leftarrow> stackAt f (SP f - 1);
           case u256AsU64 ox of None \<Rightarrow> Some (haltEx f StatusOutOfGas) | Some off \<Rightarrow>
           (case chargeMem f off 1 of None \<Rightarrow> Some (haltEx f StatusOutOfGas) | Some f \<Rightarrow>
              do { v \<leftarrow> stackAt f (SP f - 2);
                   f \<leftarrow> (if off < memMax
                        then Some (f\<lparr>Memory := (Memory f)(unat off := ucast (w0 v AND 0xff))\<rparr>) else None);
                   Some (f\<lparr>SP := SP f - 2\<rparr>) }) })"

text \<open>Opcodes 0x54 and 0x55; \<open>get\<close> and \<open>put\<close> are the accessor's methods.\<close>

definition step_sload ::
  "('db \<Rightarrow> Uint256 \<Rightarrow> Uint256 \<Rightarrow> Uint256) \<Rightarrow> 'db ExecutionFrame \<Rightarrow> 'db ExecutionFrame option" where
  "step_sload get f = orElse (requireStack f 1)
     (case StateDB f of
        Some db \<Rightarrow> do { k \<leftarrow> stackAt f (SP f - 1); setStack f (SP f - 1) (get db zeroAddr k) }
      | None \<Rightarrow> setStack f (SP f - 1) zero256)"

definition step_sstore ::
  "('db \<Rightarrow> Uint256 \<Rightarrow> Uint256 \<Rightarrow> Uint256) \<Rightarrow> ('db \<Rightarrow> Uint256 \<Rightarrow> Uint256 \<Rightarrow> Uint256 \<Rightarrow> 'db) \<Rightarrow>
   'db ExecutionFrame \<Rightarrow> 'db ExecutionFrame option" where
  "step_sstore get put f = orElse (requireStack f 2)
     (do { f \<leftarrow> (case StateDB f of
                  Some db \<Rightarrow>
                    do { k \<leftarrow> stackAt f (SP f - 1);
                         v \<leftarrow> stackAt f (SP f - 2);
                         let old = get db zeroAddr k;
                             f = f\<lparr>StateDB := Some (put db zeroAddr k v)\<rparr>
                         in Some (if \<not> IsZero old \<and> IsZero v then f\<lparr>Refund := Refund f + 15000\<rparr> else f) }
                | None \<Rightarrow> Some f);
           Some (f\<lparr>SP := SP f - 2\<rparr>) })"

text \<open>Opcodes 0x56 and 0x57. \<open>jumpTarget\<close> is the test both share.\<close>

definition jumpTarget :: "bytes \<Rightarrow> Uint256 \<Rightarrow> u32 option" where
  "jumpTarget code x =
     (case u256AsU64 x of
        None \<Rightarrow> None
      | Some dest \<Rightarrow>
          if dest > 0xffffffff \<or> \<not> jumpdestOK code (ucast dest) then None else Some (ucast dest))"

definition step_jump :: "bytes \<Rightarrow> 'db ExecutionFrame \<Rightarrow> 'db ExecutionFrame option" where
  "step_jump code f = orElse (requireStack f 1)
     (do { x \<leftarrow> stackAt f (SP f - 1);
           case jumpTarget code x of
             None \<Rightarrow> Some (haltEx f StatusJumpDestInvalid)
           | Some dest \<Rightarrow> Some (f\<lparr>SP := SP f - 1, PC := dest\<rparr>) })"

definition step_jumpi :: "bytes \<Rightarrow> 'db ExecutionFrame \<Rightarrow> 'db ExecutionFrame option" where
  "step_jumpi code f = orElse (requireStack f 2)
     (do { c \<leftarrow> stackAt f (SP f - 2);
           if \<not> IsZero c then
             do { x \<leftarrow> stackAt f (SP f - 1);
                  case jumpTarget code x of
                    None \<Rightarrow> Some (haltEx f StatusJumpDestInvalid)
                  | Some dest \<Rightarrow> Some (f\<lparr>PC := dest, SP := SP f - 2\<rparr>) }
           else Some (f\<lparr>SP := SP f - 2\<rparr>) })"

text \<open>Opcodes 0x58 to 0x5a and 0x5f push one value.\<close>

definition pushValue :: "'db ExecutionFrame \<Rightarrow> Uint256 \<Rightarrow> 'db ExecutionFrame option" where
  "pushValue f v = orElse (requireRoom f)
     (do { f \<leftarrow> setStack f (SP f) v; Some (f\<lparr>SP := SP f + 1\<rparr>) })"

definition step_dup :: "byte \<Rightarrow> 'db ExecutionFrame \<Rightarrow> 'db ExecutionFrame option" where
  "step_dup op f =
     (let n = int (unat (op - 0x80)) + 1
      in orElse (requireStack f n) (orElse (requireRoom f)
           (do { v \<leftarrow> stackAt f (SP f - n);
                 f \<leftarrow> setStack f (SP f) v;
                 Some (f\<lparr>SP := SP f + 1\<rparr>) })))"

definition step_swap :: "byte \<Rightarrow> 'db ExecutionFrame \<Rightarrow> 'db ExecutionFrame option" where
  "step_swap op f =
     (let n = int (unat (op - 0x90)) + 1
      in orElse (requireStack f (n + 1))
           (do { t \<leftarrow> stackAt f (SP f - 1);
                 v \<leftarrow> stackAt f (SP f - 1 - n);
                 f \<leftarrow> setStack f (SP f - 1) v;
                 setStack f (SP f - 1 - n) t }))"

definition step_revert :: "'db ExecutionFrame \<Rightarrow> 'db ExecutionFrame option" where
  "step_revert f = orElse (requireStack f 2)
     (do { ox \<leftarrow> stackAt f (SP f - 1);
           sx \<leftarrow> stackAt f (SP f - 2);
           case u256AsU64 ox of None \<Rightarrow> Some (haltEx f StatusOutOfGas) | Some off \<Rightarrow>
           (case u256AsU64 sx of None \<Rightarrow> Some (haltEx f StatusOutOfGas) | Some sz \<Rightarrow>
           (case chargeMem f off sz of None \<Rightarrow> Some (haltEx f StatusOutOfGas) | Some f \<Rightarrow>
              Some (f\<lparr>ReturnDataOffset := ucast off, ReturnDataSize := ucast sz, SP := SP f - 2,
                      Status := StatusRevert\<rparr>))) })"

definition dispatch ::
  "('db \<Rightarrow> Uint256 \<Rightarrow> Uint256 \<Rightarrow> Uint256) \<Rightarrow> ('db \<Rightarrow> Uint256 \<Rightarrow> Uint256 \<Rightarrow> Uint256 \<Rightarrow> 'db) \<Rightarrow>
   byte \<Rightarrow> bytes \<Rightarrow> 'db ExecutionFrame \<Rightarrow> 'db ExecutionFrame option" where
  "dispatch get put op code f =
     (if op = 0x00 then Some (f\<lparr>Status := StatusSuccess\<rparr>)
      else if 0x01 \<le> op \<and> op \<le> 0x0b then step_arith op f
      else if 0x10 \<le> op \<and> op \<le> 0x1d then step_logic op f
      else if op = 0x20 then step_keccak f
      else if op = 0x50 then step_pop f
      else if op = 0x51 then step_mload f
      else if op = 0x52 then step_mstore f
      else if op = 0x53 then step_mstore8 f
      else if op = 0x54 then step_sload get f
      else if op = 0x55 then step_sstore get put f
      else if op = 0x56 then step_jump code f
      else if op = 0x57 then step_jumpi code f
      else if op = 0x58 then pushValue f (FromU64 (ucast (PC f - 1)))
      else if op = 0x59 then pushValue f (FromU64 (ucast (MemorySize f)))
      else if op = 0x5a then pushValue f (FromU64 (Gas f))
      else if op = 0x5b then Some f
      else if op = 0x5f then pushValue f zero256
      else if 0x60 \<le> op \<and> op \<le> 0x7f then execPush f code (unat (op - 0x5f))
      else if 0x80 \<le> op \<and> op \<le> 0x8f then step_dup op f
      else if 0x90 \<le> op \<and> op \<le> 0x9f then step_swap op f
      else if op = 0xfd then step_revert f
      else Some (haltEx f StatusInvalidOpcode))"

definition StepOne ::
  "('db \<Rightarrow> Uint256 \<Rightarrow> Uint256 \<Rightarrow> Uint256) \<Rightarrow> ('db \<Rightarrow> Uint256 \<Rightarrow> Uint256 \<Rightarrow> Uint256 \<Rightarrow> 'db) \<Rightarrow>
   bytes \<Rightarrow> 'db ExecutionFrame \<Rightarrow> 'db ExecutionFrame option" where
  "StepOne get put code f =
     (if Status f \<noteq> StatusRunning then Some f
      else if unat (PC f) \<ge> length code then Some (f\<lparr>Status := StatusSuccess\<rparr>)
      else
        (let op = code ! unat (PC f);
             cost = opGas op
         in if cost = gasInvalid then Some (haltEx f StatusInvalidOpcode)
            else if Gas f < cost then Some (haltEx f StatusOutOfGas)
            else dispatch get put op code (f\<lparr>Gas := Gas f - cost, PC := PC f + 1\<rparr>)))"

end
