(* ===== verification/Stepper_Correct.thy ===== *)
theory Stepper_Correct
  imports Stepper
begin

text \<open>
  Properties of \<open>StepOne\<close>: a well-formed frame never panics and stays well-formed, gas
  only decreases and every instruction that keeps the frame running costs gas, memory
  expansion charges exactly the quadratic cost, jump destinations are instruction
  starts, and the stack operations compute the word operations.
\<close>

section \<open>Memory expansion\<close>

definition mem_cost :: "nat \<Rightarrow> nat" where
  "mem_cost w = 3 * w + w * w div 512"

lemma mem_cost_mono: "a \<le> b \<Longrightarrow> mem_cost a \<le> mem_cost b"
  unfolding mem_cost_def by (intro add_mono mult_le_mono div_le_mono order_refl)

lemma unat_add_small: "unat x + unat y < B64 \<Longrightarrow> unat (x + y :: u64) = unat x + unat y"
  by (simp add: unat_u64_arith)

lemma unat_mult_small: "unat x * unat y < B64 \<Longrightarrow> unat (x * y :: u64) = unat x * unat y"
  by (simp add: unat_u64_arith)

lemma unat_memGas:
  assumes "unat w \<le> 65536"
  shows "unat (memGas w) = mem_cost (unat w)"
proof -
  have ww: "unat w * unat w \<le> 65536 * 65536" using assms by (intro mult_le_mono) simp_all
  then have 1: "unat (w * w) = unat w * unat w" by (intro unat_mult_small) (simp add: B64_def)
  have 2: "unat (3 * w) = 3 * unat w"
    using assms unat_mult_small [of 3 w] by (simp add: B64_def)
  have "unat (w * w) div 512 \<le> 65536 * 65536" using 1 ww div_le_dividend [of "unat w * unat w" 512] by simp
  then have "unat (3 * w + w * w div 512) = 3 * unat w + unat (w * w) div 512"
    using 2 assms by (subst unat_add_small) (simp_all add: B64_def unat_div_distrib)
  then show ?thesis using 1 by (simp add: memGas_def mem_cost_def)
qed

lemma unat_words:
  assumes "unat e \<le> 65536"
  shows "unat ((e + 31) div 32 :: u64) = (unat e + 31) div 32"
    and "unat ((e + 31) div 32 * 32 :: u64) = (unat e + 31) div 32 * 32"
proof -
  have "unat (e + 31) = unat e + 31" using assms unat_add_small [of e 31] by (simp add: B64_def)
  then show 1: "unat ((e + 31) div 32) = (unat e + 31) div 32" by (simp add: unat_div_distrib)
  show "unat ((e + 31) div 32 * 32) = (unat e + 31) div 32 * 32"
    using assms unat_mult_small [of "(e + 31) div 32" 32] 1 by (simp add: B64_def)
qed

lemma unat_lt_u32: "unat (x :: u32) < 4294967296"
  using unsigned_less [of x, where ?'a = nat] by simp

lemma unat_ucast_u32 [simp]: "unat (ucast (x :: u32) :: u64) = unat x"
  using unat_lt_u32 [of x] by (simp add: unsigned_ucast_eq take_bit_nat_eq_self)

lemma ucast_u32_of_nat: "ucast (x :: u64) = (of_nat (unat x) :: u32)"
  by (simp add: word_unat_eq_iff unsigned_ucast_eq unat_of_nat take_bit_eq_mod del: of_nat_unat)

text \<open>\<open>chargeMem\<close> over natural numbers: no intermediate value wraps.\<close>

lemma chargeMem_eq:
  fixes off sz :: u64 and f :: "'db ExecutionFrame"
  assumes ok: "unat (MemorySize f) \<le> 65536" "32 dvd unat (MemorySize f)"
  defines "need \<equiv> (unat off + unat sz + 31) div 32" and "old \<equiv> unat (MemorySize f) div 32"
  shows "chargeMem f off sz =
    (if sz = 0 then Some f
     else if 65536 < unat off + unat sz then None
     else if need \<le> old then Some f
     else if unat (Gas f) < mem_cost need - mem_cost old then None
     else Some (f\<lparr>Gas := Gas f - of_nat (mem_cost need - mem_cost old), MemorySize := of_nat (32 * need)\<rparr>))"
proof (cases "sz = 0 \<or> 65536 < unat off + unat sz")
  case True
  moreover have "memMax \<le> off \<or> memMax - off < sz" if "65536 < unat off + unat sz"
    using that unat_sub [of off memMax]
    by (cases "memMax \<le> off") (auto simp: word_le_nat_alt word_less_nat_alt)
  ultimately show ?thesis by (auto simp: chargeMem_def)
next
  case False
  then have nz: "sz \<noteq> 0" and le: "unat off + unat sz \<le> 65536" by simp_all
  then have "0 < unat sz" by (simp add: unat_gt_0)
  then have off: "unat off < 65536" using le by simp
  have g: "\<not> memMax \<le> off" "\<not> memMax - off < sz"
    using off le by (simp_all add: word_le_nat_alt word_less_nat_alt unat_sub)
  have e: "unat (off + sz) = unat off + unat sz"
    using le by (intro unat_add_small) (simp add: B64_def)
  define w where "w = (off + sz + 31) div 32"
  have w: "unat w = need" "unat (w * 32) = need * 32"
    using unat_words [of "off + sz"] e le by (simp_all add: w_def need_def)
  have need: "need * 32 \<le> 65536"
  proof -
    have "need \<le> 2048" using le unfolding need_def by linarith
    then show ?thesis by simp
  qed
  define ow where "ow = (ucast (MemorySize f) + 31 :: u64) div 32"
  have ow: "unat ow = old"
    using unat_words(1) [of "ucast (MemorySize f)"] ok by (auto simp: ow_def old_def elim!: dvdE)
  have cost: "unat (memGas w) = mem_cost need" "unat (memGas ow) = mem_cost old"
    using unat_memGas [of w] unat_memGas [of ow] w ow need ok by (simp_all add: old_def)
  have fits: "w * 32 \<le> ucast (MemorySize f) \<longleftrightarrow> need \<le> old"
    using ok w by (auto simp: word_le_nat_alt old_def elim!: dvdE)
  have nmax: "\<not> memMax < w * 32" using w need by (simp add: word_less_nat_alt)
  have size: "ucast (w * 32) = (of_nat (32 * need) :: u32)"
    using w(2) by (simp add: ucast_u32_of_nat mult.commute)
  show ?thesis
  proof (cases "need \<le> old")
    case True
    then show ?thesis using nz g le nmax fits by (simp add: chargeMem_def Let_def w_def)
  next
    case grow: False
    then have mono: "mem_cost old \<le> mem_cost need" by (intro mem_cost_mono) simp
    have d: "unat (memGas w - memGas ow) = mem_cost need - mem_cost old" "\<not> memGas w < memGas ow"
      using mono cost by (simp_all add: unat_sub word_le_nat_alt word_less_nat_alt)
    have d': "memGas w - memGas ow = of_nat (mem_cost need - mem_cost old)"
      by (simp add: d(1) [symmetric])
    have "chargeMem f off sz =
        (if Gas f < memGas w - memGas ow then None
         else Some (f\<lparr>Gas := Gas f - (memGas w - memGas ow), MemorySize := ucast (w * 32)\<rparr>))"
      using nz g nmax grow fits d(2) by (simp add: chargeMem_def Let_def w_def ow_def)
    then show ?thesis using nz le grow d(1) by (simp add: size d' word_less_nat_alt)
  qed
qed

section \<open>Well-formed frames\<close>

definition frame_ok :: "'db ExecutionFrame \<Rightarrow> bool" where
  "frame_ok f \<longleftrightarrow> 0 \<le> SP f \<and> SP f \<le> int stackMax \<and>
     unat (MemorySize f) \<le> 65536 \<and> 32 dvd unat (MemorySize f)"

lemma unat_of_nat_u32: "n \<le> 65536 \<Longrightarrow> unat (of_nat n :: u32) = n"
  by (simp add: unat_of_nat)

lemma chargeMem_keeps:
  assumes "chargeMem f off sz = Some f'"
  shows "Stack f' = Stack f" "SP f' = SP f" "PC f' = PC f" "Status f' = Status f" "Memory f' = Memory f"
    "StateDB f' = StateDB f" "Refund f' = Refund f"
  using assms by (auto simp: chargeMem_def Let_def split: if_splits)

lemma ceil32: "(x :: nat) \<le> 32 * ((x + 31) div 32)" "x \<le> 65536 \<Longrightarrow> 32 * ((x + 31) div 32) \<le> 65536"
proof -
  show "x \<le> 32 * ((x + 31) div 32)" by linarith
  assume "x \<le> 65536"
  then have "(x + 31) div 32 \<le> 65567 div 32" by (intro div_le_mono) simp
  then show "32 * ((x + 31) div 32) \<le> 65536" by simp
qed

lemma chargeMem_ok:
  assumes ok: "frame_ok f" and c: "chargeMem f off sz = Some f'"
  shows "frame_ok f'" and "Gas f' \<le> Gas f" and "sz \<noteq> 0 \<Longrightarrow> unat off + unat sz \<le> unat (MemorySize f')"
proof -
  define need where "need = (unat off + unat sz + 31) div 32"
  define old where "old = unat (MemorySize f) div 32"
  have m: "unat (MemorySize f) \<le> 65536" "32 dvd unat (MemorySize f)" "unat (MemorySize f) = 32 * old"
    using ok by (simp_all add: frame_ok_def old_def)
  note eq = chargeMem_eq [OF m(1,2), of off sz, folded need_def old_def]
  have need: "unat off + unat sz \<le> 32 * need" "unat off + unat sz \<le> 65536 \<Longrightarrow> 32 * need \<le> 65536"
    unfolding need_def using ceil32 [of "unat off + unat sz"] by simp_all
  have "f' = f \<and> (sz = 0 \<or> need \<le> old) \<or>
      unat off + unat sz \<le> 65536 \<and> mem_cost need - mem_cost old \<le> unat (Gas f) \<and>
      f' = f\<lparr>Gas := Gas f - of_nat (mem_cost need - mem_cost old), MemorySize := of_nat (32 * need)\<rparr>"
    using c unfolding eq
    by (cases "sz = 0"; cases "65536 < unat off + unat sz"; cases "need \<le> old";
        cases "unat (Gas f) < mem_cost need - mem_cost old") simp_all
  then have "frame_ok f' \<and> Gas f' \<le> Gas f \<and> (sz \<noteq> 0 \<longrightarrow> unat off + unat sz \<le> unat (MemorySize f'))"
  proof (elim disjE conjE)
    assume 3: "unat off + unat sz \<le> 65536" "mem_cost need - mem_cost old \<le> unat (Gas f)"
      "f' = f\<lparr>Gas := Gas f - of_nat (mem_cost need - mem_cost old), MemorySize := of_nat (32 * need)\<rparr>"
    define d where "d = mem_cost need - mem_cost old"
    have "d < B64" using 3(2) unat_lt_B64 [of "Gas f"] unfolding d_def [symmetric] by linarith
    then have "unat (of_nat d :: u64) = d" by (simp add: unat_u64_arith)
    then have "Gas f - of_nat d \<le> Gas f"
      using 3(2) by (simp add: d_def [symmetric] word_le_nat_alt unat_sub)
    moreover have "unat (of_nat (32 * need) :: u32) = 32 * need"
      using need(2) [OF 3(1)] by (rule unat_of_nat_u32)
    ultimately show ?thesis
      using ok need(1) need(2) [OF 3(1)] 3(3) by (simp add: frame_ok_def d_def [symmetric] del: of_nat_mult)
  qed (use ok need(1) m(3) in \<open>auto simp: word_le_nat_alt\<close>)
  then show "frame_ok f'" "Gas f' \<le> Gas f" "sz \<noteq> 0 \<Longrightarrow> unat off + unat sz \<le> unat (MemorySize f')"
    by simp_all
qed

text \<open>What every instruction guarantees of the frame it leaves.\<close>

definition exceptional :: "Status \<Rightarrow> bool" where
  "exceptional st \<longleftrightarrow> st \<notin> {StatusRunning, StatusSuccess, StatusRevert}"

definition good_step :: "'db ExecutionFrame \<Rightarrow> 'db ExecutionFrame option \<Rightarrow> bool" where
  "good_step f r \<longleftrightarrow> (\<exists>f'. r = Some f' \<and> frame_ok f' \<and> Gas f' \<le> Gas f \<and> (exceptional (Status f') \<longrightarrow> Gas f' = 0))"

lemma good_haltEx: "frame_ok f \<Longrightarrow> Gas g \<ge> 0 \<Longrightarrow> good_step g (Some (haltEx f st))"
  by (simp add: good_step_def haltEx_def frame_ok_def)

named_theorems step_defs

lemmas [step_defs] = orElse_def requireStack_def requireRoom_def stackAt_def setStack_def

lemma good_orElse:
  "\<lbrakk>frame_ok f; requireStack f n = None \<Longrightarrow> good_step f k\<rbrakk> \<Longrightarrow> good_step f (orElse (requireStack f n) k)"
  "\<lbrakk>frame_ok f; requireRoom f = None \<Longrightarrow> good_step f k\<rbrakk> \<Longrightarrow> good_step f (orElse (requireRoom f) k)"
  by (auto simp: orElse_def requireStack_def requireRoom_def intro: good_haltEx split: option.splits)

text \<open>Instructions that touch the stack, the program counter and the accessor only.\<close>

lemmas plain_defs = step_defs good_step_def frame_ok_def exceptional_def Let_def

lemma good_binop: "frame_ok f \<Longrightarrow> Status f = StatusRunning \<Longrightarrow> good_step f (execBinop f fn)"
  unfolding execBinop_def by (rule good_orElse) (auto simp: plain_defs split: if_splits)

lemma good_cmp: "frame_ok f \<Longrightarrow> Status f = StatusRunning \<Longrightarrow> good_step f (execCmp f fn)"
  unfolding execCmp_def by (rule good_orElse) (auto simp: plain_defs split: if_splits)

lemma good_ternop: "frame_ok f \<Longrightarrow> Status f = StatusRunning \<Longrightarrow> good_step f (execTernop f fn)"
  unfolding execTernop_def by (rule good_orElse) (auto simp: plain_defs split: if_splits)

lemma good_unop: "frame_ok f \<Longrightarrow> Status f = StatusRunning \<Longrightarrow> good_step f (execUnop f fn)"
  unfolding execUnop_def by (rule good_orElse) (auto simp: plain_defs split: if_splits)

lemma good_push: "frame_ok f \<Longrightarrow> Status f = StatusRunning \<Longrightarrow> good_step f (execPush f code n)"
  unfolding execPush_def by (rule good_orElse) (auto simp: plain_defs split: if_splits prod.splits)

lemma good_pushValue: "frame_ok f \<Longrightarrow> Status f = StatusRunning \<Longrightarrow> good_step f (pushValue f v)"
  unfolding pushValue_def by (rule good_orElse) (auto simp: plain_defs split: if_splits)

lemma good_pop: "frame_ok f \<Longrightarrow> Status f = StatusRunning \<Longrightarrow> good_step f (step_pop f)"
  unfolding step_pop_def by (rule good_orElse) (auto simp: plain_defs split: if_splits)

lemma good_signextend: "frame_ok f \<Longrightarrow> Status f = StatusRunning \<Longrightarrow> good_step f (step_signextend f)"
  unfolding step_signextend_def by (rule good_orElse) (auto simp: plain_defs split: if_splits)

lemma good_byte: "frame_ok f \<Longrightarrow> Status f = StatusRunning \<Longrightarrow> good_step f (step_byte f)"
  unfolding step_byte_def by (rule good_orElse) (auto simp: plain_defs split: if_splits)

lemma good_exp: "frame_ok f \<Longrightarrow> Status f = StatusRunning \<Longrightarrow> good_step f (step_exp f)"
  unfolding step_exp_def
  by (rule good_orElse)
    (auto simp: plain_defs haltEx_def not_less word_le_nat_alt unat_sub split: if_splits)

lemma good_sload: "frame_ok f \<Longrightarrow> Status f = StatusRunning \<Longrightarrow> good_step f (step_sload get f)"
  unfolding step_sload_def by (rule good_orElse) (auto simp: plain_defs split: if_splits option.splits)

lemma good_sstore: "frame_ok f \<Longrightarrow> Status f = StatusRunning \<Longrightarrow> good_step f (step_sstore get put f)"
  unfolding step_sstore_def by (rule good_orElse) (auto simp: plain_defs split: if_splits option.splits)

lemma good_jump: "frame_ok f \<Longrightarrow> Status f = StatusRunning \<Longrightarrow> good_step f (step_jump code f)"
  unfolding step_jump_def
  by (rule good_orElse) (auto simp: plain_defs haltEx_def split: if_splits option.splits)

lemma good_jumpi: "frame_ok f \<Longrightarrow> Status f = StatusRunning \<Longrightarrow> good_step f (step_jumpi code f)"
  unfolding step_jumpi_def
  by (rule good_orElse) (auto simp: plain_defs haltEx_def split: if_splits option.splits)

lemma good_dup:
  assumes "frame_ok f" "Status f = StatusRunning"
  shows "good_step f (step_dup op f)"
proof -
  define n where "n = int (unat (op - 0x80)) + 1"
  have "1 \<le> n" by (simp add: n_def)
  then show ?thesis
    unfolding step_dup_def n_def [symmetric] Let_def using assms
    by (intro good_orElse) (auto simp: plain_defs split: if_splits)
qed

lemma good_swap:
  assumes "frame_ok f" "Status f = StatusRunning"
  shows "good_step f (step_swap op f)"
proof -
  define n where "n = int (unat (op - 0x90)) + 1"
  have "1 \<le> n" by (simp add: n_def)
  then show ?thesis
    unfolding step_swap_def n_def [symmetric] Let_def using assms
    by (intro good_orElse) (auto simp: plain_defs split: if_splits)
qed

lemma good_arith: "frame_ok f \<Longrightarrow> Status f = StatusRunning \<Longrightarrow> good_step f (step_arith op f)"
  by (simp add: step_arith_def good_binop good_ternop good_exp good_signextend)

lemma good_logic: "frame_ok f \<Longrightarrow> Status f = StatusRunning \<Longrightarrow> good_step f (step_logic op f)"
  by (simp add: step_logic_def good_binop good_cmp good_unop good_byte)

text \<open>Instructions that touch memory.\<close>

lemma frame_ok_update [simp]:
  "frame_ok (f\<lparr>Stack := s\<rparr>) = frame_ok f" "frame_ok (f\<lparr>PC := p\<rparr>) = frame_ok f"
  "frame_ok (f\<lparr>Gas := g\<rparr>) = frame_ok f" "frame_ok (f\<lparr>Status := t\<rparr>) = frame_ok f"
  "frame_ok (f\<lparr>Memory := m\<rparr>) = frame_ok f" "frame_ok (f\<lparr>ReturnDataOffset := x\<rparr>) = frame_ok f"
  "frame_ok (f\<lparr>ReturnDataSize := y\<rparr>) = frame_ok f" "frame_ok (haltEx f t) = frame_ok f"
  by (simp_all add: frame_ok_def haltEx_def)

lemma slice_bounds:
  assumes "frame_ok f" "sz \<noteq> 0" "unat off + unat sz \<le> unat (MemorySize f)"
  shows "off \<le> off + sz" "off + sz \<le> memMax" "off < memMax" "unat (off + sz) = unat off + unat sz"
proof -
  have le: "unat off + unat sz \<le> 65536" using assms by (simp add: frame_ok_def)
  then show s: "unat (off + sz) = unat off + unat sz" by (intro unat_add_small) (simp add: B64_def)
  show "off \<le> off + sz" "off + sz \<le> memMax" using le s by (simp_all add: word_le_nat_alt)
  have "0 < unat sz" using assms(2) by (simp add: unat_gt_0)
  then show "off < memMax" using le by (simp add: word_less_nat_alt)
qed

lemma good_chargeMem:
  assumes "frame_ok f" "Status f = StatusRunning"
    and "\<And>f'. \<lbrakk>chargeMem f off sz = Some f'; frame_ok f'; Status f' = StatusRunning; SP f' = SP f; Gas f' \<le> Gas f;
        sz \<noteq> 0 \<Longrightarrow> unat off + unat sz \<le> unat (MemorySize f')\<rbrakk> \<Longrightarrow> good_step f (k f')"
  shows "good_step f (case chargeMem f off sz of None \<Rightarrow> Some (haltEx f st) | Some f' \<Rightarrow> k f')"
proof (cases "chargeMem f off sz")
  case None
  then show ?thesis using assms(1) by (simp add: good_haltEx)
next
  case (Some f')
  then show ?thesis
    using assms(2) assms(3) [OF Some] chargeMem_ok [OF assms(1) Some] chargeMem_keeps [OF Some] by simp
qed

lemma good_case_u64:
  "\<lbrakk>frame_ok f; \<And>n. x = Some n \<Longrightarrow> good_step f (k n)\<rbrakk> \<Longrightarrow>
   good_step f (case x of None \<Rightarrow> Some (haltEx f st) | Some n \<Rightarrow> k n)"
  by (auto intro: good_haltEx split: option.splits)

lemma good_bind: "\<lbrakk>x = Some v; good_step f (k v)\<rbrakk> \<Longrightarrow> good_step f (x \<bind> k)"
  by simp

lemma requireStack_None: "requireStack f n = None \<longleftrightarrow> n \<le> SP f"
  by (simp add: requireStack_def)

lemma stackAt_ok: "\<lbrakk>frame_ok f; 1 \<le> k; k \<le> SP f\<rbrakk> \<Longrightarrow> stackAt f (SP f - k) = Some (Stack f (nat (SP f - k)))"
  by (simp add: stackAt_def frame_ok_def)

lemma good_setStack:
  "\<lbrakk>frame_ok f'; Status f' = StatusRunning; Gas f' \<le> Gas f; 1 \<le> SP f'\<rbrakk> \<Longrightarrow> good_step f (setStack f' (SP f' - 1) v)"
  by (simp add: setStack_def good_step_def exceptional_def frame_ok_def)

lemma good_mload:
  fixes f :: "'a ExecutionFrame"
  assumes "frame_ok f" "Status f = StatusRunning"
  shows "good_step f (step_mload f)"
  unfolding step_mload_def
proof (intro good_orElse good_bind good_case_u64 [where x = "u256AsU64 _"] good_chargeMem assms)
  assume r: "requireStack f 1 = None"
  show "stackAt f (SP f - 1) = Some (Stack f (nat (SP f - 1)))"
    using assms r by (simp add: stackAt_ok requireStack_None)
  fix off :: u64 and f' :: "'a ExecutionFrame"
  assume f': "frame_ok f'" "Status f' = StatusRunning" "SP f' = SP f" "Gas f' \<le> Gas f"
    and m: "32 \<noteq> (0 :: u64) \<Longrightarrow> unat off + unat (32 :: u64) \<le> unat (MemorySize f')"
  show "memSlice f' off (off + 32) = Some (map (Memory f') [unat off..<unat (off + 32)])"
    using slice_bounds(1,2) [OF f'(1) _ m] by (simp add: memSlice_def)
  show "good_step f (setStack f' (SP f' - 1) (FromBytesBE (map (Memory f') [unat off..<unat (off + 32)])))"
    using f' r by (intro good_setStack) (simp_all add: requireStack_None)
qed

lemma good_pop2: 
  "\<lbrakk>frame_ok f'; Status f' = StatusRunning; Gas f' \<le> Gas f; 2 \<le> SP f'\<rbrakk> \<Longrightarrow>
   good_step f (Some (f'\<lparr>Memory := m, SP := SP f' - 2\<rparr>))"
  by (simp add: good_step_def exceptional_def frame_ok_def)

lemma good_mstore:
  fixes f :: "'a ExecutionFrame"
  assumes "frame_ok f" "Status f = StatusRunning"
  shows "good_step f (step_mstore f)"
  unfolding step_mstore_def
proof (intro good_orElse good_bind [where x = "stackAt _ _"] good_case_u64 [where x = "u256AsU64 _"] good_chargeMem assms)
  assume r: "requireStack f 2 = None"
  show "stackAt f (SP f - 1) = Some (Stack f (nat (SP f - 1)))"
    using assms r by (simp add: stackAt_ok requireStack_None)
  fix off :: u64 and f' :: "'a ExecutionFrame"
  assume f': "frame_ok f'" "Status f' = StatusRunning" "SP f' = SP f" "Gas f' \<le> Gas f"
    and m: "32 \<noteq> (0 :: u64) \<Longrightarrow> unat off + unat (32 :: u64) \<le> unat (MemorySize f')"
  show "stackAt f' (SP f' - 2) = Some (Stack f' (nat (SP f' - 2)))"
    using f' r by (intro stackAt_ok) (simp_all add: requireStack_None)
  show "good_step f (memCopy f' off (off + 32) (BytesBE (Stack f' (nat (SP f' - 2)))) \<bind>
      (\<lambda>f. Some (f\<lparr>SP := SP f - 2\<rparr>)))"
    using slice_bounds(1,2) [OF f'(1) _ m] f' r good_pop2 [of f' f] by (simp add: memCopy_def requireStack_None)
qed

lemma good_mstore8:
  fixes f :: "'a ExecutionFrame"
  assumes "frame_ok f" "Status f = StatusRunning"
  shows "good_step f (step_mstore8 f)"
  unfolding step_mstore8_def
proof (intro good_orElse good_bind [where x = "stackAt _ _"] good_case_u64 [where x = "u256AsU64 _"] good_chargeMem assms)
  assume r: "requireStack f 2 = None"
  show "stackAt f (SP f - 1) = Some (Stack f (nat (SP f - 1)))"
    using assms r by (simp add: stackAt_ok requireStack_None)
  fix off :: u64 and f' :: "'a ExecutionFrame"
  assume f': "frame_ok f'" "Status f' = StatusRunning" "SP f' = SP f" "Gas f' \<le> Gas f"
    and m: "1 \<noteq> (0 :: u64) \<Longrightarrow> unat off + unat (1 :: u64) \<le> unat (MemorySize f')"
  show "stackAt f' (SP f' - 2) = Some (Stack f' (nat (SP f' - 2)))"
    using f' r by (intro stackAt_ok) (simp_all add: requireStack_None)
  show "good_step f ((if off < memMax
      then Some (f'\<lparr>Memory := (Memory f')(unat off := ucast (w0 (Stack f' (nat (SP f' - 2))) AND 0xff))\<rparr>)
      else None) \<bind> (\<lambda>f. Some (f\<lparr>SP := SP f - 2\<rparr>)))"
    using slice_bounds(3) [OF f'(1) _ m] f' r good_pop2 [of f' f] by (simp add: requireStack_None)
qed

lemma good_keccak:
  fixes f :: "'a ExecutionFrame"
  assumes "frame_ok f" "Status f = StatusRunning"
  shows "good_step f (step_keccak f)"
  unfolding step_keccak_def
proof (intro good_orElse good_bind [where x = "stackAt _ _"] good_case_u64 [where x = "u256AsU64 _"] good_chargeMem assms)
  assume r: "requireStack f 2 = None"
  show "stackAt f (SP f - 1) = Some (Stack f (nat (SP f - 1)))" "stackAt f (SP f - 2) = Some (Stack f (nat (SP f - 2)))"
    using assms r by (simp_all add: stackAt_ok requireStack_None)
  fix off sz :: u64 and f' :: "'a ExecutionFrame"
  assume f': "frame_ok f'" "Status f' = StatusRunning" "SP f' = SP f" "Gas f' \<le> Gas f"
    and m: "sz \<noteq> (0 :: u64) \<Longrightarrow> unat off + unat sz \<le> unat (MemorySize f')"
  define extra where "extra = 6 * (if sz = 0 then 0 else (sz + 31) div 32)"
  define g where "g = f'\<lparr>Gas := Gas f' - extra\<rparr>"
  have "\<exists>digest. (if sz = 0 then Some (Keccak256 []) else map_option Keccak256 (memSlice g off (off + sz))) = Some digest"
    using slice_bounds(1,2) [OF f'(1) _ m] by (simp add: memSlice_def)
  then obtain digest where d:
    "(if sz = 0 then Some (Keccak256 []) else map_option Keccak256 (memSlice g off (off + sz))) = Some digest" ..
  have "Gas f' - extra \<le> Gas f" if "extra \<le> Gas f'"
    using that f'(4) by (simp add: word_le_nat_alt unat_sub)
  then have "good_step f (setStack (g\<lparr>SP := SP g - 1\<rparr>) (SP (g\<lparr>SP := SP g - 1\<rparr>) - 1) (FromBytesBE digest))"
    if "extra \<le> Gas f'"
    using that f' r by (intro good_setStack) (simp_all add: g_def requireStack_None frame_ok_def)
  then show "good_step f (let words = if sz = 0 then 0 else (sz + 31) div 32; extra = 6 * words in
      if Gas f' < extra then Some (haltEx f' StatusOutOfGas)
      else let f = f'\<lparr>Gas := Gas f' - extra\<rparr>
        in (if sz = 0 then Some (Keccak256 []) else map_option Keccak256 (memSlice f off (off + sz))) \<bind>
          (\<lambda>digest. let f = f\<lparr>SP := SP f - 1\<rparr> in setStack f (SP f - 1) (FromBytesBE digest)))"
    using f'(1) unfolding Let_def extra_def [symmetric] g_def [symmetric] d by (simp add: good_haltEx not_less)
qed

lemma good_revert:
  fixes f :: "'a ExecutionFrame"
  assumes "frame_ok f" "Status f = StatusRunning"
  shows "good_step f (step_revert f)"
  unfolding step_revert_def
proof (intro good_orElse good_bind [where x = "stackAt _ _"] good_case_u64 [where x = "u256AsU64 _"] good_chargeMem assms)
  assume r: "requireStack f 2 = None"
  show "stackAt f (SP f - 1) = Some (Stack f (nat (SP f - 1)))" "stackAt f (SP f - 2) = Some (Stack f (nat (SP f - 2)))"
    using assms r by (simp_all add: stackAt_ok requireStack_None)
  fix off sz :: u64 and f' :: "'a ExecutionFrame"
  assume f': "frame_ok f'" "Status f' = StatusRunning" "SP f' = SP f" "Gas f' \<le> Gas f"
  show "good_step f (Some (f'\<lparr>ReturnDataOffset := ucast off, ReturnDataSize := ucast sz, SP := SP f' - 2,
      Status := StatusRevert\<rparr>))"
    using f' r by (simp add: good_step_def frame_ok_def exceptional_def requireStack_None)
qed

lemma dispatch_good:
  assumes "frame_ok f" "Status f = StatusRunning"
  shows "good_step f (dispatch get put op code f)"
proof -
  have "good_step f (Some (f\<lparr>Status := StatusSuccess\<rparr>))" "good_step f (Some f)"
    "good_step f (Some (haltEx f StatusInvalidOpcode))"
    using assms by (simp_all add: good_step_def exceptional_def haltEx_def)
  then show ?thesis
    unfolding dispatch_def using assms
    by (simp add: good_arith good_logic good_keccak good_pop good_mload good_mstore good_mstore8 good_sload good_sstore
        good_jump good_jumpi good_pushValue good_push good_dup good_swap good_revert)
qed

section \<open>One step and whole runs\<close>

lemma opGas_zero: "opGas op = 0 \<Longrightarrow> op = 0x00 \<or> op = 0xfd"
  by (simp add: opGas_def gasInvalid_def split: if_splits)

lemma dispatch_free_halts:
  assumes "op = 0x00 \<or> op = 0xfd" "dispatch get put op code f = Some f'"
  shows "Status f' \<noteq> StatusRunning"
  using assms
  by (auto simp: dispatch_def step_revert_def step_defs haltEx_def split: if_splits option.splits)

lemma StepOne_good:
  assumes "frame_ok f"
  obtains f' where "StepOne get put code f = Some f'" "frame_ok f'" "Gas f' \<le> Gas f"
    and "Status f = StatusRunning \<Longrightarrow> exceptional (Status f') \<Longrightarrow> Gas f' = 0"
    and "Status f = StatusRunning \<Longrightarrow> Status f' = StatusRunning \<Longrightarrow> Gas f' < Gas f"
proof (cases "Status f = StatusRunning \<and> unat (PC f) < length code")
  case False
  then have "StepOne get put code f = Some (if Status f = StatusRunning then f\<lparr>Status := StatusSuccess\<rparr> else f)"
    by (auto simp: StepOne_def)
  then show ?thesis using that assms by (cases "Status f = StatusRunning") (auto simp: exceptional_def)
next
  case True
  define op where "op = code ! unat (PC f)"
  define g where "g = f\<lparr>Gas := Gas f - opGas op, PC := PC f + 1\<rparr>"
  have e: "StepOne get put code f =
      (if opGas op = gasInvalid then Some (haltEx f StatusInvalidOpcode)
       else if Gas f < opGas op then Some (haltEx f StatusOutOfGas) else dispatch get put op code g)"
    using True by (simp add: StepOne_def Let_def op_def g_def)
  show ?thesis
  proof (cases "opGas op = gasInvalid \<or> Gas f < opGas op")
    case True
    then obtain st where "StepOne get put code f = Some (haltEx f st)" "st \<noteq> StatusRunning"
      unfolding e by (metis Status.distinct(9) Status.distinct(11))
    then show ?thesis using that assms by (simp add: haltEx_def)
  next
    case False
    have "frame_ok g" "Status g = StatusRunning" using assms \<open>Status f = _ \<and> _\<close> by (simp_all add: g_def)
    then obtain f' where f': "dispatch get put op code g = Some f'" "frame_ok f'" "Gas f' \<le> Gas g"
      "exceptional (Status f') \<longrightarrow> Gas f' = 0"
      using dispatch_good [of g get put op code] by (auto simp: good_step_def)
    have "unat (Gas g) = unat (Gas f) - unat (opGas op)" "unat (opGas op) \<le> unat (Gas f)"
      using False by (simp_all add: g_def unat_sub not_less word_le_nat_alt)
    moreover have "0 < unat (opGas op)" if "Status f' = StatusRunning"
      using dispatch_free_halts [OF opGas_zero f'(1)] that by (auto simp: unat_gt_0)
    ultimately have "Gas f' \<le> Gas f" "Status f' = StatusRunning \<Longrightarrow> Gas f' < Gas f"
      using f'(3) by (auto simp: word_le_nat_alt word_less_nat_alt)
    then show ?thesis using that f' False by (simp add: e)
  qed
qed

text \<open>The loop \<open>for f.Status == StatusRunning { StepOne(f, code) }\<close>, cut after \<open>n\<close> steps.\<close>

fun run_for ::
  "('db \<Rightarrow> Uint256 \<Rightarrow> Uint256 \<Rightarrow> Uint256) \<Rightarrow> ('db \<Rightarrow> Uint256 \<Rightarrow> Uint256 \<Rightarrow> Uint256 \<Rightarrow> 'db) \<Rightarrow>
   bytes \<Rightarrow> nat \<Rightarrow> 'db ExecutionFrame \<Rightarrow> 'db ExecutionFrame option" where
  "run_for get put code 0 f = Some f"
| "run_for get put code (Suc n) f =
     (if Status f = StatusRunning then StepOne get put code f \<bind> run_for get put code n else Some f)"

lemma run_for_halted: "Status f \<noteq> StatusRunning \<Longrightarrow> run_for get put code n f = Some f"
  by (cases n) simp_all

lemma run_for_halts:
  "\<lbrakk>frame_ok f; unat (Gas f) < n\<rbrakk> \<Longrightarrow>
   \<exists>h. run_for get put code n f = Some h \<and> Status h \<noteq> StatusRunning \<and> frame_ok h \<and> Gas h \<le> Gas f"
proof (induction n arbitrary: f)
  case (Suc n)
  show ?case
  proof (cases "Status f = StatusRunning")
    case True
    obtain g where g: "StepOne get put code f = Some g" "frame_ok g" "Gas g \<le> Gas f"
      "Status g = StatusRunning \<Longrightarrow> Gas g < Gas f"
      using StepOne_good [OF Suc.prems(1)] True by metis
    show ?thesis
    proof (cases "Status g = StatusRunning")
      case run: True
      have "unat (Gas g) < n" using g(4) [OF run] Suc.prems(2) by (simp add: word_less_nat_alt)
      then show ?thesis using Suc.IH [OF g(2)] g(1,3) True by fastforce
    qed (use g True in \<open>simp add: run_for_halted\<close>)
  qed (use Suc.prems in simp)
qed simp

section \<open>Jump destinations\<close>

text \<open>The starts of the instructions of a code, immediate bytes skipped.\<close>

inductive instr_start :: "bytes \<Rightarrow> nat \<Rightarrow> bool" for code where
  first: "instr_start code 0"
| push: "\<lbrakk>instr_start code i; i < length code; 0x60 \<le> code ! i; code ! i \<le> 0x7f\<rbrakk> \<Longrightarrow>
     instr_start code (i + 1 + (unat (code ! i) - 0x5f))"
| other: "\<lbrakk>instr_start code i; i < length code; \<not> (0x60 \<le> code ! i \<and> code ! i \<le> 0x7f)\<rbrakk> \<Longrightarrow>
     instr_start code (i + 1)"

lemma push_size: "0x60 \<le> op \<Longrightarrow> unat (op - 0x5f :: byte) = unat op - 0x5f"
  by (simp add: unat_sub word_le_nat_alt)

lemma scan_start:
  "\<lbrakk>instr_start code i; d < length code\<rbrakk> \<Longrightarrow> instr_start code (jumpdest_scan code d i)"
proof (induction code d i rule: jumpdest_scan.induct)
  case (1 code d i)
  show ?case
  proof (cases "i < d")
    case True
    then have i: "i < length code" using 1 by simp
    show ?thesis
    proof (cases "0x60 \<le> code ! i \<and> code ! i \<le> 0x7f")
      case p: True
      then have "instr_start code (i + 1 + unat (code ! i - 0x5f))"
        using instr_start.push [OF "1.prems"(1) i] by (simp add: push_size)
      then show ?thesis using 1 True p by (simp add: jumpdest_scan.simps [of code d i])
    next
      case False
      then show ?thesis
        using 1 True instr_start.other [OF "1.prems"(1) i]
        by (auto simp: jumpdest_scan.simps [of code d i] Let_def)
    qed
  next
    case False
    then show ?thesis using 1 by (simp add: jumpdest_scan.simps [of code d i])
  qed
qed

text \<open>The scan visits every instruction start up to \<open>d\<close>.\<close>

lemma scan_passes: "\<lbrakk>instr_start code j; j \<le> d\<rbrakk> \<Longrightarrow> jumpdest_scan code d 0 = jumpdest_scan code d j"
proof (induction rule: instr_start.induct)
  case (push i)
  then show ?case by (simp add: jumpdest_scan.simps [of code d i] push_size)
next
  case (other i)
  then show ?case by (auto simp: jumpdest_scan.simps [of code d i] Let_def)
qed simp

lemma jumpdestOK_iff:
  "jumpdestOK code dest \<longleftrightarrow>
     unat dest < length code \<and> code ! unat dest = 0x5b \<and> instr_start code (unat dest)"
proof -
  have "jumpdest_scan code (unat dest) 0 = unat dest \<longleftrightarrow> instr_start code (unat dest)"
    if "unat dest < length code"
    using that scan_start [OF instr_start.first, of "unat dest" code] scan_passes [of code "unat dest" "unat dest"]
    by (auto simp: jumpdest_scan.simps [of code "unat dest" "unat dest"])
  then show ?thesis by (auto simp: jumpdestOK_def)
qed

inductive_cases instr_start_cases: "instr_start code i"

section \<open>Stack operations on words\<close>

text \<open>
  The contract between the arithmetic library and the stepper: a binary operation on
  \<open>Uint256\<close> implements an operation on 256-bit words. Inside it, the instruction built on
  the operation replaces the two topmost words by their image and keeps the rest.
\<close>

locale word_binop =
  fixes fn :: "Uint256 \<Rightarrow> Uint256 \<Rightarrow> Uint256" and g :: "256 word \<Rightarrow> 256 word \<Rightarrow> 256 word"
  assumes refines: "word_of (fn a b) = g (word_of a) (word_of b)"
begin

lemma execBinop_word:
  assumes "frame_ok f" "2 \<le> SP f"
  shows "\<exists>f'. execBinop f fn = Some f' \<and> SP f' = SP f - 1 \<and>
     word_of (Stack f' (nat (SP f - 2))) = g (word_of (Stack f (nat (SP f - 1)))) (word_of (Stack f (nat (SP f - 2)))) \<and>
     (\<forall>i. i \<noteq> nat (SP f - 2) \<longrightarrow> Stack f' i = Stack f i) \<and> Gas f' = Gas f \<and> Status f' = Status f"
  using assms by (auto simp: execBinop_def step_defs frame_ok_def refines)

lemma execBinop_underflow: "SP f < 2 \<Longrightarrow> execBinop f fn = Some (haltEx f StatusStackUnderflow)"
  by (simp add: execBinop_def step_defs)

end

locale word_cmp =
  fixes fn :: "Uint256 \<Rightarrow> Uint256 \<Rightarrow> bool" and g :: "256 word \<Rightarrow> 256 word \<Rightarrow> bool"
  assumes refines: "fn a b = g (word_of a) (word_of b)"
begin

lemma execCmp_word:
  assumes "frame_ok f" "2 \<le> SP f"
  shows "\<exists>f'. execCmp f fn = Some f' \<and> SP f' = SP f - 1 \<and>
     word_of (Stack f' (nat (SP f - 2))) =
       of_bool (g (word_of (Stack f (nat (SP f - 1)))) (word_of (Stack f (nat (SP f - 2))))) \<and>
     (\<forall>i. i \<noteq> nat (SP f - 2) \<longrightarrow> Stack f' i = Stack f i) \<and> Gas f' = Gas f \<and> Status f' = Status f"
  using assms by (auto simp: execCmp_def step_defs frame_ok_def refines word_of_def)

end

definition evm_mod :: "256 word \<Rightarrow> 256 word \<Rightarrow> 256 word" where
  "evm_mod a b = (if b = 0 then 0 else a mod b)"

definition evm_sdiv :: "256 word \<Rightarrow> 256 word \<Rightarrow> 256 word" where
  "evm_sdiv a b = word_of_int (sint a sdiv sint b)"

definition evm_smod :: "256 word \<Rightarrow> 256 word \<Rightarrow> 256 word" where
  "evm_smod a b = (if b = 0 then 0 else word_of_int (sint a smod sint b))"

interpretation add: word_binop Add256 "(+)" by unfold_locales (rule word_of_Add256)
interpretation mul: word_binop Mul256 "(*)" by unfold_locales (rule word_of_Mul256)
interpretation sub: word_binop Sub256 "(-)" by unfold_locales (rule word_of_Sub256)
interpretation div: word_binop Div256 "(div)" by unfold_locales (rule word_of_Div256)
interpretation mod: word_binop Mod256 evm_mod by unfold_locales (simp add: word_of_Mod256 evm_mod_def)
interpretation sdiv: word_binop SDiv256 evm_sdiv by unfold_locales (simp add: word_of_SDiv256 evm_sdiv_def)
interpretation smod: word_binop SMod256 evm_smod by unfold_locales (simp add: word_of_SMod256 evm_smod_def)
interpretation bitand: word_binop And256 "(AND)" by unfold_locales (rule word_of_And256)
interpretation bitor: word_binop Or256 "(OR)" by unfold_locales (rule word_of_Or256)
interpretation bitxor: word_binop Xor256 "(XOR)" by unfold_locales (rule word_of_Xor256)
interpretation shl: word_binop Shl256 "\<lambda>s v. push_bit (unat s) v" by unfold_locales (simp add: word_of_Shl256)
interpretation shr: word_binop Shr256 "\<lambda>s v. drop_bit (unat s) v" by unfold_locales (simp add: word_of_Shr256)
interpretation sar: word_binop Sar256 "\<lambda>s v. signed_drop_bit (unat s) v"
  by unfold_locales (simp add: word_of_Sar256)
interpretation lt: word_cmp Lt256 "(<)" by unfold_locales (rule Lt256_word)
interpretation gt: word_cmp Gt256 "\<lambda>a b. b < a" by unfold_locales (rule Gt256_word)
interpretation slt: word_cmp Slt256 "(<s)" by unfold_locales (rule Slt256_word)
interpretation sgt: word_cmp Sgt256 "\<lambda>a b. b <s a" by unfold_locales (rule Sgt256_word)
interpretation eq: word_cmp Eq "(=)" by unfold_locales (simp add: Eq_iff word_of_inj)

section \<open>The byte length of the exponent\<close>

lemma limb_byte_zero:
  assumes "i < 32"
  shows "drop_bit (i mod 8 * 8) (limb x (i div 8)) AND 0xff = 0 \<longleftrightarrow> uval x div 256 ^ i mod 256 = 0"
proof -
  have idx: "64 * (i div 8) + (i mod 8 * 8 + k) = 8 * i + k" for k
    using mult_div_mod_eq [of 8 i] by linarith
  have ff: "(0xff :: u64) = mask 8" by (simp add: mask_eq_exp_minus_1)
  have "drop_bit (i mod 8 * 8) (limb x (i div 8)) AND 0xff = 0 \<longleftrightarrow>
      (\<forall>k < 8. \<not> bit (limb x (i div 8)) (i mod 8 * 8 + k))"
    unfolding ff take_bit_eq_mask [symmetric] by (auto simp: bit_eq_iff bit_simps dest: bit_imp_le_length)
  also have "\<dots> \<longleftrightarrow> (\<forall>k < 8. \<not> bit (word_of x) (8 * i + k))"
  proof -
    have "bit (limb x (i div 8)) (i mod 8 * 8 + k) = bit (word_of x) (8 * i + k)" if "k < 8" for k
    proof -
      have "i mod 8 * 8 + k < 64" "i div 8 < 4"
        using that mod_less_divisor [of 8 i] assms by linarith+
      then show ?thesis using bit_word_of_limb [of "i div 8" "i mod 8 * 8 + k" x] unfolding idx by simp
    qed
    then show ?thesis by simp
  qed
  also have "\<dots> \<longleftrightarrow> (\<forall>k < 8. \<not> bit (uval x) (8 * i + k))"
    using assms by (simp add: word_of_def bit_simps)
  also have "\<dots> \<longleftrightarrow> take_bit 8 (drop_bit (8 * i) (uval x)) = 0"
    by (auto simp: bit_eq_iff bit_simps)
  also have "take_bit 8 (drop_bit (8 * i) (uval x)) = uval x div 256 ^ i mod 256"
    by (simp add: take_bit_eq_mod drop_bit_eq_div power_mult)
  finally show ?thesis .
qed

lemma u256ByteLen_from_spec:
  "n \<le> 32 \<Longrightarrow> uval x mod 256 ^ n < 256 ^ u256ByteLen_from x n \<and>
     (0 < u256ByteLen_from x n \<longrightarrow> 256 ^ (u256ByteLen_from x n - 1) \<le> uval x mod 256 ^ n)"
proof (induction n)
  case (Suc n)
  define b where "b = uval x div 256 ^ n mod 256"
  have split: "uval x mod 256 ^ Suc n = b * 256 ^ n + uval x mod 256 ^ n"
    using mod_mult2_eq [of "uval x" "256 ^ n" 256] by (simp add: b_def mult.commute)
  show ?case
  proof (cases "b = 0")
    case True
    then show ?thesis using Suc limb_byte_zero [of n x] split by (simp add: b_def)
  next
    case False
    have "uval x mod 256 ^ Suc n < 256 ^ Suc n" by (rule mod_less_divisor) simp
    moreover have "256 ^ n \<le> uval x mod 256 ^ Suc n" using False split by (cases b) simp_all
    ultimately show ?thesis using False Suc.prems limb_byte_zero [of n x] by (simp add: b_def)
  qed
qed simp

lemma u256ByteLen_spec:
  "uval x < 256 ^ u256ByteLen x" "0 < u256ByteLen x \<Longrightarrow> 256 ^ (u256ByteLen x - 1) \<le> uval x" "u256ByteLen x \<le> 32"
proof -
  have "uval x mod 256 ^ 32 = uval x" using uval_lt [of x] by (intro mod_less) simp
  then show "uval x < 256 ^ u256ByteLen x" "0 < u256ByteLen x \<Longrightarrow> 256 ^ (u256ByteLen x - 1) \<le> uval x"
    using u256ByteLen_from_spec [of 32 x] by (simp_all only: u256ByteLen_def)
  have "u256ByteLen_from x n \<le> n" for n by (induction n) auto
  then show "u256ByteLen x \<le> 32" by (simp add: u256ByteLen_def)
qed

section \<open>Memory and storage round trips\<close>

lemma u256AsU64_iff: "u256AsU64 x = Some n \<longleftrightarrow> uval x = unat n"
proof -
  have "uval (U256 a b c d) = unat n \<longleftrightarrow> a = n \<and> b = 0 \<and> c = 0 \<and> d = 0" for a b c d
    using uval_inj [of "U256 a b c d" "FromU64 n"] by (simp add: FromU64_def uval_U256)
  then show ?thesis by (cases x) (auto simp: u256AsU64_def or_eq_0_iff)
qed

lemma memCopy_slice:
  assumes "memCopy f off (off + 32) bs = Some f'" "length bs = 32" "unat (off + 32) = unat off + 32"
  shows "memSlice f' off (off + 32) = Some bs"
    and "i < unat off \<or> unat off + 32 \<le> i \<Longrightarrow> Memory f' i = Memory f i"
  using assms by (auto simp: memCopy_def memSlice_def list_eq_iff_nth_eq split: if_splits)

lemma memSlice_cong: "Memory f = Memory g \<Longrightarrow> memSlice f lo hi = memSlice g lo hi"
  by (simp add: memSlice_def)

lemma chargeMem_again:
  assumes "frame_ok f" "unat off + unat sz \<le> unat (MemorySize f)"
  shows "chargeMem f off sz = Some f"
proof -
  define old where "old = unat (MemorySize f) div 32"
  have m: "unat (MemorySize f) \<le> 65536" "32 dvd unat (MemorySize f)" "unat (MemorySize f) = 32 * old"
    using assms by (simp_all add: frame_ok_def old_def)
  have "(unat off + unat sz + 31) div 32 \<le> (32 * old + 31) div 32" using assms(2) m(3) by (intro div_le_mono) simp
  also have "\<dots> = old" by simp
  finally show ?thesis using assms(2) m(1) by (subst chargeMem_eq [OF m(1,2)]) (simp add: old_def)
qed

text \<open>\<open>MSTORE\<close> followed by \<open>MLOAD\<close> at the same offset, the offset pushed again in between.\<close>

lemma mstore_then_mload:
  assumes ok: "frame_ok f" and sp: "2 \<le> SP f" and off: "u256AsU64 (Stack f (nat (SP f - 1))) = Some off"
    and mem: "chargeMem f off 32 = Some g"
  defines "v \<equiv> Stack f (nat (SP f - 2))"
  shows "\<exists>f1. step_mstore f = Some f1 \<and> SP f1 = SP f - 2 \<and> Gas f1 = Gas g \<and>
     (\<forall>i. i < unat off \<or> unat off + 32 \<le> i \<longrightarrow> Memory f1 i = Memory f i) \<and>
     (\<forall>h. h = f1\<lparr>Stack := (Stack f1)(nat (SP f1) := Stack f (nat (SP f - 1))), SP := SP f1 + 1\<rparr> \<longrightarrow>
       step_mload h = Some (h\<lparr>Stack := (Stack h)(nat (SP f1) := v)\<rparr>))"
proof -
  note g = chargeMem_keeps [OF mem] chargeMem_ok(1,3) [OF ok mem]
  have m: "unat off + unat (32 :: u64) \<le> unat (MemorySize g)" using g(9) by simp
  have b: "unat (off + 32) = unat off + 32" "off \<le> off + 32" "off + 32 \<le> memMax"
    using slice_bounds [OF g(8) _ m] by simp_all
  obtain g1 where g1: "memCopy g off (off + 32) (BytesBE v) = Some g1" using b by (simp add: memCopy_def)
  then have keep: "SP g1 = SP f" "Stack g1 = Stack f" "Gas g1 = Gas g" "MemorySize g1 = MemorySize g" "frame_ok g1"
    using b g by (auto simp: memCopy_def frame_ok_def)
  define f1 where "f1 = g1\<lparr>SP := SP f - 2\<rparr>"
  have st: "stackAt f (SP f - 1) = Some (Stack f (nat (SP f - 1)))" "stackAt g (SP g - 2) = Some v"
    using ok sp g stackAt_ok [of g 2] by (simp_all add: stackAt_ok v_def)
  have mstore: "step_mstore f = Some f1"
    using sp off mem g1 keep st by (simp add: step_mstore_def orElse_def requireStack_def f1_def)
  have "step_mload h = Some (h\<lparr>Stack := (Stack h)(nat (SP f1) := v)\<rparr>)"
    if "h = f1\<lparr>Stack := (Stack f1)(nat (SP f1) := Stack f (nat (SP f - 1))), SP := SP f1 + 1\<rparr>" for h
  proof -
    have h: "frame_ok h" "SP h = SP f - 1" "MemorySize h = MemorySize g" "Memory h = Memory g1"
      "stackAt h (SP h - 1) = Some (Stack f (nat (SP f - 1)))"
      using that keep sp by (auto simp: f1_def frame_ok_def stackAt_def)
    have "chargeMem h off 32 = Some h" using h m by (intro chargeMem_again) simp_all
    moreover have "memSlice h off (off + 32) = Some (BytesBE v)"
      using memCopy_slice(1) [OF g1 _ b(1)] memSlice_cong [OF h(4)] by simp
    moreover have "0 \<le> SP h - 1 \<and> SP h - 1 < int stackMax" using h(1,2) sp by (simp add: frame_ok_def)
    ultimately show ?thesis
      using h off sp by (simp add: step_mload_def orElse_def requireStack_def setStack_def f1_def)
  qed
  moreover have "Memory f1 i = Memory f i" if "i < unat off \<or> unat off + 32 \<le> i" for i
    using memCopy_slice(2) [OF g1 _ b(1)] that g(5) by (simp add: f1_def)
  ultimately show ?thesis using mstore keep by (auto simp: f1_def)
qed

text \<open>
  The contract of the interface \<open>StateAccessor\<close>: a read returns the value last written to
  the slot; an accessor with more than one slot also keeps the others.
\<close>

locale state_accessor =
  fixes get :: "'db \<Rightarrow> Uint256 \<Rightarrow> Uint256 \<Rightarrow> Uint256" and put :: "'db \<Rightarrow> Uint256 \<Rightarrow> Uint256 \<Rightarrow> Uint256 \<Rightarrow> 'db"
  assumes get_put_same: "get (put db a k v) a k = v"
begin

lemma sstore_sload:
  assumes ok: "frame_ok f" and sp: "2 \<le> SP f" and db: "StateDB f = Some db"
  shows "\<exists>f1 db1. step_sstore get put f = Some f1 \<and> SP f1 = SP f - 2 \<and> StateDB f1 = Some db1 \<and>
     db1 = put db zeroAddr (Stack f (nat (SP f - 1))) (Stack f (nat (SP f - 2))) \<and>
     (\<forall>h. frame_ok h \<and> 1 \<le> SP h \<and> StateDB h = Some db1 \<and> Stack h (nat (SP h - 1)) = Stack f (nat (SP f - 1)) \<longrightarrow>
       step_sload get h = Some (h\<lparr>Stack := (Stack h)(nat (SP h - 1) := Stack f (nat (SP f - 2)))\<rparr>))"
  using assms
  by (auto simp: step_sstore_def step_sload_def step_defs frame_ok_def Let_def get_put_same)

end

locale state_accessor_frame = state_accessor +
  assumes get_put_other: "k \<noteq> k' \<Longrightarrow> get (put db a k v) a k' = get db a k'"
begin

lemma sstore_keeps_slots:
  assumes "frame_ok f" "2 \<le> SP f" "StateDB f = Some db" "step_sstore get put f = Some f1"
  shows "\<exists>db1. StateDB f1 = Some db1 \<and>
    (\<forall>k. k \<noteq> Stack f (nat (SP f - 1)) \<longrightarrow> get db1 zeroAddr k = get db zeroAddr k)"
  using assms
  by (auto simp: step_sstore_def step_defs frame_ok_def Let_def get_put_other split: if_splits)

end

end
