(* ===== verification/State_Trie.thy ===== *)
theory State_Trie
  imports Stepper_Correct
begin

text \<open>
  \<open>statetrie/state_trie.go\<close>: accounts and storage with a journal of undo entries and a
  stack of snapshots. Go maps are HOL maps; the order in which \<open>range t.storage\<close> visits
  the keys, which the language leaves open, is the argument \<open>order\<close> of \<open>SetAccount\<close>. Account
  pointers stored in the map are never shared with callers (\<open>cloneAccount\<close> copies), so
  accounts are values. The mutex and the scratch zones of the root computation carry no
  state of their own; the latter are modelled in the theory of the Patricia trie.
\<close>

section \<open>Definitions\<close>

record Account =
  Nonce :: u64
  Balance :: Uint256
  StorageRoot :: bytes
  CodeHash :: bytes
  Code :: bytes

type_synonym storageKey = "Uint256 \<times> Uint256"

datatype trie_error = ErrInsufficientBalance | ErrProofNotFound

text \<open>A journal entry keeps the previous value, \<open>None\<close> when the source's \<open>hadAcc\<close> or \<open>hadVal\<close>
  is false.\<close>

datatype journalEntry =
    journalAcc Uint256 "Account option"
  | journalStor Uint256 Uint256 "Uint256 option"

record StateTrie =
  accounts :: "Uint256 \<rightharpoonup> Account"
  storage :: "storageKey \<rightharpoonup> Uint256"
  journal :: "journalEntry list"
  reverts :: "nat list"

definition emptyRoot :: bytes where
  "emptyRoot = Keccak256 [0x80]"

definition emptyCodeHash :: bytes where
  "emptyCodeHash = Keccak256 []"

definition NewStateTrie :: StateTrie where
  "NewStateTrie = \<lparr>accounts = Map.empty, storage = Map.empty, journal = [], reverts = []\<rparr>"

fun normalizeAddr :: "Uint256 option \<Rightarrow> Uint256" where
  "normalizeAddr None = zero256"
| "normalizeAddr (Some addr) = U256 (w0 addr) (w1 addr) (w2 addr AND 0x00000000ffffffff) 0"

definition GetAccount :: "StateTrie \<Rightarrow> Uint256 \<Rightarrow> Account option" where
  "GetAccount t addr = accounts t (normalizeAddr (Some addr))"

text \<open>The loop of \<open>SetAccount\<close> over the storage of a deleted account.\<close>

fun clearStorage :: "Uint256 \<Rightarrow> storageKey list \<Rightarrow> StateTrie \<Rightarrow> StateTrie" where
  "clearStorage a [] t = t"
| "clearStorage a (k # ks) t =
     (case storage t k of
        None \<Rightarrow> clearStorage a ks t
      | Some v \<Rightarrow>
          if fst k = a
          then clearStorage a ks (t\<lparr>journal := journal t @ [journalStor a (snd k) (Some v)],
                                     storage := (storage t)(k := None)\<rparr>)
          else clearStorage a ks t)"

definition SetAccount :: "storageKey list \<Rightarrow> StateTrie \<Rightarrow> Uint256 \<Rightarrow> Account option \<Rightarrow> StateTrie" where
  "SetAccount order t addr acc =
     (let a = normalizeAddr (Some addr);
          t = t\<lparr>journal := journal t @ [journalAcc a (accounts t a)]\<rparr>
      in case acc of
           None \<Rightarrow> clearStorage a order (t\<lparr>accounts := (accounts t)(a := None)\<rparr>)
         | Some acc \<Rightarrow> t\<lparr>accounts := (accounts t)(a \<mapsto> acc)\<rparr>)"

definition GetBalance :: "StateTrie \<Rightarrow> Uint256 \<Rightarrow> Uint256" where
  "GetBalance t addr =
     (case accounts t (normalizeAddr (Some addr)) of None \<Rightarrow> zero256 | Some acc \<Rightarrow> Balance acc)"

text \<open>\<open>ensureAccount\<close> returns the account stored at the address, which callers then modify
  in place; the model returns the account and the callers store it back.\<close>

definition ensureAccount :: "StateTrie \<Rightarrow> Uint256 \<Rightarrow> StateTrie \<times> Account" where
  "ensureAccount t addr =
     (let a = normalizeAddr (Some addr);
          t' = t\<lparr>journal := journal t @ [journalAcc a (accounts t a)]\<rparr>
      in case accounts t a of
           Some acc \<Rightarrow> (t', acc)
         | None \<Rightarrow>
             (let acc = \<lparr>Nonce = 0, Balance = zero256, StorageRoot = replicate 32 0,
                         CodeHash = emptyCodeHash, Code = []\<rparr>
              in (t'\<lparr>accounts := (accounts t')(a \<mapsto> acc)\<rparr>, acc)))"

definition AddBalance :: "StateTrie \<Rightarrow> Uint256 \<Rightarrow> Uint256 \<Rightarrow> StateTrie" where
  "AddBalance t addr delta =
     (let a = normalizeAddr (Some addr)
      in if accounts t a = None \<and> IsZero delta then t
         else
           (let (t, acc) = ensureAccount t addr
            in t\<lparr>accounts := (accounts t)(a \<mapsto> acc\<lparr>Balance := Add256 (Balance acc) delta\<rparr>)\<rparr>))"

definition SubBalance :: "StateTrie \<Rightarrow> Uint256 \<Rightarrow> Uint256 \<Rightarrow> trie_error + StateTrie" where
  "SubBalance t addr delta =
     (let a = normalizeAddr (Some addr);
          bal = (case accounts t a of None \<Rightarrow> zero256 | Some acc \<Rightarrow> Balance acc)
      in if Cmp bal delta < 0 then Inl ErrInsufficientBalance
         else if accounts t a = None \<and> IsZero delta then Inr t
         else
           (let (t, acc) = ensureAccount t addr
            in Inr (t\<lparr>accounts := (accounts t)(a \<mapsto> acc\<lparr>Balance := Sub256 (Balance acc) delta\<rparr>)\<rparr>)))"

definition GetStorage :: "StateTrie \<Rightarrow> Uint256 \<Rightarrow> Uint256 \<Rightarrow> Uint256" where
  "GetStorage t addr key =
     (case storage t (normalizeAddr (Some addr), key) of None \<Rightarrow> zero256 | Some v \<Rightarrow> v)"

definition SetStorage :: "StateTrie \<Rightarrow> Uint256 \<Rightarrow> Uint256 \<Rightarrow> Uint256 \<Rightarrow> StateTrie" where
  "SetStorage t addr key val =
     (let a = normalizeAddr (Some addr);
          sk = (a, key);
          t = t\<lparr>journal := journal t @ [journalStor a key (storage t sk)]\<rparr>
      in if IsZero val then t\<lparr>storage := (storage t)(sk := None)\<rparr>
         else t\<lparr>storage := (storage t)(sk \<mapsto> val)\<rparr>)"

definition Snapshot :: "StateTrie \<Rightarrow> StateTrie \<times> nat" where
  "Snapshot t = (t\<lparr>reverts := reverts t @ [length (journal t)]\<rparr>, length (reverts t))"

fun applyRevert :: "journalEntry \<Rightarrow> StateTrie \<Rightarrow> StateTrie" where
  "applyRevert (journalAcc a prev) t = t\<lparr>accounts := (accounts t)(a := prev)\<rparr>"
| "applyRevert (journalStor a k prev) t = t\<lparr>storage := (storage t)((a, k) := prev)\<rparr>"

text \<open>\<open>RevertToSnapshot\<close> panics (\<open>None\<close>) on an unknown revision. The loop visits the journal
  from its end down to \<open>jidx\<close>, which never exceeds the length of the journal
  (\<open>journal_ok\<close> below).\<close>

definition RevertToSnapshot :: "StateTrie \<Rightarrow> int \<Rightarrow> StateTrie option" where
  "RevertToSnapshot t revision =
     (if revision < 0 \<or> revision \<ge> int (length (reverts t)) then None
      else
        (let jidx = reverts t ! nat revision;
             t' = foldr applyRevert (drop jidx (journal t)) t
         in Some (t'\<lparr>journal := take jidx (journal t), reverts := take (nat revision) (reverts t)\<rparr>)))"

definition Commit :: "StateTrie \<Rightarrow> StateTrie" where
  "Commit t = t\<lparr>journal := [], reverts := []\<rparr>"

definition DiscardSnapshot :: "StateTrie \<Rightarrow> int \<Rightarrow> StateTrie" where
  "DiscardSnapshot t rv =
     (if rv < 0 \<or> rv \<ge> int (length (reverts t)) then t
      else
        (let t = t\<lparr>reverts := take (nat rv) (reverts t)\<rparr>
         in if reverts t = [] then t\<lparr>journal := []\<rparr> else t))"

section \<open>Accounts and storage\<close>

lemma normalize_idem [simp]: "normalizeAddr (Some (normalizeAddr a)) = normalizeAddr a"
  by (cases a) (simp_all add: zero256_def and.assoc)

text \<open>An address is 20 bytes: \<open>normalizeAddr\<close> keeps the value modulo \<open>2 ^ 160\<close>.\<close>

lemma unat_and_32: "unat (x AND 0x00000000ffffffff :: u64) = unat x mod 2 ^ 32"
proof -
  have "x AND 0x00000000ffffffff = take_bit 32 x"
    by (simp add: take_bit_eq_mask mask_eq_exp_minus_1)
  then have "unat (x AND 0x00000000ffffffff) = take_bit 32 (unat x)" by (simp only: unsigned_take_bit_eq)
  then show ?thesis by (simp only: take_bit_eq_mod)
qed

lemma uval_normalizeAddr: "uval (normalizeAddr (Some a)) = uval a mod 2 ^ 160"
proof -
  define lo where "lo = unat (w0 a) + B64 * unat (w1 a)"
  have "lo \<le> (B64 - 1) + B64 * (B64 - 1)"
    unfolding lo_def using unat_lt_B64 [of "w0 a"] unat_lt_B64 [of "w1 a"] by (intro add_mono mult_le_mono2) linarith+
  also have "\<dots> < B64 ^ 2" by (simp add: B64_def)
  finally have lo: "lo < B64 ^ 2" .
  have v: "uval a = lo + B64 ^ 2 * (unat (w2 a) + B64 * unat (w3 a))"
    by (simp add: uval_cases [of a] lo_def power2_eq_square algebra_simps)
  have "uval a mod (B64 ^ 2 * 2 ^ 32) = B64 ^ 2 * (uval a div B64 ^ 2 mod 2 ^ 32) + uval a mod B64 ^ 2"
    by (rule mod_mult2_eq)
  also have "uval a div B64 ^ 2 = unat (w2 a) + B64 * unat (w3 a)" using lo by (simp add: v)
  also have "(unat (w2 a) + B64 * unat (w3 a)) mod 2 ^ 32 = unat (w2 a) mod 2 ^ 32"
    by (simp add: B64_def mod_add_right_eq [symmetric] mod_mult_left_eq [symmetric])
  also have "uval a mod B64 ^ 2 = lo" using lo by (simp add: v)
  finally have "uval a mod (B64 ^ 2 * 2 ^ 32) = lo + B64 ^ 2 * unat (w2 a AND 0x00000000ffffffff)"
    by (simp add: unat_and_32)
  moreover have "B64 ^ 2 * 2 ^ 32 = 2 ^ 160" by (simp add: B64_def)
  ultimately have "uval a mod 2 ^ 160 = lo + B64 ^ 2 * unat (w2 a AND 0x00000000ffffffff)" by (simp only:)
  then show ?thesis by (simp add: uval_U256 lo_def power2_eq_square algebra_simps)
qed

text \<open>The storage of a \<open>StateTrie\<close> is an accessor in the sense of the stepper.\<close>

lemma GetStorage_SetStorage:
  "GetStorage (SetStorage t a k v) a' k' =
     (if normalizeAddr (Some a) = normalizeAddr (Some a') \<and> k = k' then v else GetStorage t a' k')"
  by (auto simp: GetStorage_def SetStorage_def Let_def)

interpretation trie_accessor: state_accessor_frame GetStorage SetStorage
  by unfold_locales (simp_all add: GetStorage_SetStorage)

lemma GetBalance_AddBalance:
  "word_of (GetBalance (AddBalance t a d) a') =
     word_of (GetBalance t a') + (if normalizeAddr (Some a) = normalizeAddr (Some a') then word_of d else 0)"
  by (auto simp: GetBalance_def AddBalance_def ensureAccount_def Let_def word_of_Add256 split: option.splits)

lemma Cmp_less: "Cmp x y < 0 \<longleftrightarrow> uval x < uval y"
  using Cmp_uval [of x y] by (auto split: if_splits)

lemma uval_Sub256_le: "uval d \<le> uval x \<Longrightarrow> uval (Sub256 x d) = uval x - uval d"
proof -
  assume le: "uval d \<le> uval x"
  have "unat (word_of x - word_of d) = unat (word_of x) - unat (word_of d)"
    using le by (intro unat_sub) (simp add: word_le_nat_alt)
  then show ?thesis by (simp flip: word_of_Sub256)
qed

lemma SubBalance_spec:
  "SubBalance t a d = Inl ErrInsufficientBalance \<longleftrightarrow> uval (GetBalance t a) < uval d"
  "SubBalance t a d = Inr t' \<Longrightarrow>
     uval (GetBalance t' a') = uval (GetBalance t a')
       - (if normalizeAddr (Some a) = normalizeAddr (Some a') then uval d else 0)"
  by (auto simp: GetBalance_def SubBalance_def ensureAccount_def Let_def Cmp_less uval_Sub256_le
      split: option.splits if_splits)

section \<open>The journal\<close>

text \<open>What the journal protects, and the undoing of one entry.\<close>

definition world :: "StateTrie \<Rightarrow> (Uint256 \<rightharpoonup> Account) \<times> (storageKey \<rightharpoonup> Uint256)" where
  "world t = (accounts t, storage t)"

fun undo :: "journalEntry \<Rightarrow> (Uint256 \<rightharpoonup> Account) \<times> (storageKey \<rightharpoonup> Uint256) \<Rightarrow>
    (Uint256 \<rightharpoonup> Account) \<times> (storageKey \<rightharpoonup> Uint256)" where
  "undo (journalAcc a prev) (acc, sto) = (acc(a := prev), sto)"
| "undo (journalStor a k prev) (acc, sto) = (acc, sto((a, k) := prev))"

lemma world_applyRevert: "world (applyRevert e t) = undo e (world t)"
  by (cases e) (simp_all add: world_def)

lemma world_foldr: "world (foldr applyRevert es t) = foldr undo es (world t)"
  by (induction es) (simp_all add: world_applyRevert)

text \<open>
  The contract of a mutating operation: it appends to the journal the entries whose
  undoing, last first, restores the accounts and the storage, and leaves the snapshots.
\<close>

locale journaled =
  fixes f :: "StateTrie \<Rightarrow> StateTrie"
  assumes appends: "\<exists>es. journal (f t) = journal t @ es \<and> foldr undo es (world (f t)) = world t"
    and reverts_same: "reverts (f t) = reverts t"
begin

lemma rollback:
  assumes "j \<le> length (journal t)"
  shows "foldr undo (drop j (journal (f t))) (world (f t)) = foldr undo (drop j (journal t)) (world t)"
    and "take j (journal (f t)) = take j (journal t)" and "length (journal t) \<le> length (journal (f t))"
  using appends [of t] assms by auto

end

lemma clearStorage_journaled:
  "\<exists>es. journal (clearStorage a ks t) = journal t @ es \<and> foldr undo es (world (clearStorage a ks t)) = world t \<and>
     reverts (clearStorage a ks t) = reverts t \<and> accounts (clearStorage a ks t) = accounts t"
proof (induction a ks t rule: clearStorage.induct)
  case (2 a k ks t)
  show ?case
  proof (cases "storage t k")
    case None
    then show ?thesis using "2.IH"(1) by simp
  next
    case (Some v)
    show ?thesis
    proof (cases "fst k = a")
      case True
      define t' where "t' = t\<lparr>journal := journal t @ [journalStor a (snd k) (Some v)], storage := (storage t)(k := None)\<rparr>"
      have k: "(a, snd k) = k" using True by (cases k) simp
      obtain es where es: "journal (clearStorage a ks t') = journal t' @ es"
        "foldr undo es (world (clearStorage a ks t')) = world t'"
        "reverts (clearStorage a ks t') = reverts t'" "accounts (clearStorage a ks t') = accounts t'"
        using "2.IH"(2) [OF Some True] unfolding t'_def by blast
      have "undo (journalStor a (snd k) (Some v)) (world t') = world t"
        using Some k by (simp add: world_def t'_def fun_upd_idem_iff)
      then have "foldr undo (journalStor a (snd k) (Some v) # es) (world (clearStorage a ks t')) = world t"
        using es(2) by simp
      moreover have "clearStorage a (k # ks) t = clearStorage a ks t'" using Some True by (simp add: t'_def)
      ultimately show ?thesis
        using es by (intro exI [of _ "journalStor a (snd k) (Some v) # es"]) (simp add: t'_def)
    qed (use Some "2.IH"(3) in simp)
  qed
qed simp

lemma SetAccount_journaled:
  "\<exists>es. journal (SetAccount ks t a acc) = journal t @ es \<and> foldr undo es (world (SetAccount ks t a acc)) = world t \<and>
     reverts (SetAccount ks t a acc) = reverts t"
proof (cases acc)
  case None
  define n where "n = normalizeAddr (Some a)"
  define t' where "t' = t\<lparr>journal := journal t @ [journalAcc n (accounts t n)], accounts := (accounts t)(n := None)\<rparr>"
  obtain es where "journal (clearStorage n ks t') = journal t' @ es"
    "foldr undo es (world (clearStorage n ks t')) = world t'" "reverts (clearStorage n ks t') = reverts t'"
    using clearStorage_journaled by blast
  then show ?thesis
    using None by (intro exI [of _ "journalAcc n (accounts t n) # es"])
      (simp add: SetAccount_def Let_def t'_def n_def world_def)
qed (simp add: SetAccount_def Let_def world_def)

interpretation j_SetAccount: journaled "\<lambda>t. SetAccount order t a acc"
  by unfold_locales (use SetAccount_journaled in blast)+

interpretation j_AddBalance: journaled "\<lambda>t. AddBalance t a d"
  by unfold_locales (auto simp: AddBalance_def ensureAccount_def Let_def world_def split: option.splits)

interpretation j_SetStorage: journaled "\<lambda>t. SetStorage t a k v"
  by unfold_locales (auto simp: SetStorage_def Let_def world_def)

interpretation j_SubBalance: journaled "\<lambda>t. case SubBalance t a d of Inl _ \<Rightarrow> t | Inr t' \<Rightarrow> t'"
  by unfold_locales (auto simp: SubBalance_def ensureAccount_def Let_def world_def split: option.splits)

section \<open>Snapshots\<close>

definition journal_ok :: "StateTrie \<Rightarrow> bool" where
  "journal_ok t \<longleftrightarrow> sorted (reverts t) \<and> (\<forall>r \<in> set (reverts t). r \<le> length (journal t))"

text \<open>
  What may happen while the snapshot \<open>base\<close> is open: mutations, further snapshots, and
  reverting to or discarding those. With \<open>base = -1\<close> nothing is excluded.
\<close>

inductive trie_step :: "int \<Rightarrow> StateTrie \<Rightarrow> StateTrie \<Rightarrow> bool" for base where
  set_account: "trie_step base t (SetAccount order t a acc)"
| add_balance: "trie_step base t (AddBalance t a d)"
| sub_balance: "SubBalance t a d = Inr t' \<Longrightarrow> trie_step base t t'"
| set_storage: "trie_step base t (SetStorage t a k v)"
| snapshot: "Snapshot t = (t', r) \<Longrightarrow> trie_step base t t'"
| revert: "base < r \<Longrightarrow> RevertToSnapshot t r = Some t' \<Longrightarrow> trie_step base t t'"
| discard: "base < r \<Longrightarrow> trie_step base t (DiscardSnapshot t r)"

text \<open>The open snapshot \<open>base\<close> still describes \<open>t0\<close>.\<close>

definition protects :: "nat \<Rightarrow> StateTrie \<Rightarrow> StateTrie \<Rightarrow> bool" where
  "protects base t0 t \<longleftrightarrow> journal_ok t \<and> base < length (reverts t) \<and>
     take base (reverts t) = reverts t0 \<and> reverts t ! base = length (journal t0) \<and>
     take (length (journal t0)) (journal t) = journal t0 \<and>
     foldr undo (drop (length (journal t0)) (journal t)) (world t) = world t0"

lemma protects_le: "protects base t0 t \<Longrightarrow> length (journal t0) \<le> length (journal t)"
  unfolding protects_def by (metis linear take_all length_take min_def)

lemma journaled_protects:
  assumes "journaled f" "protects base t0 t"
  shows "protects base t0 (f t)"
proof -
  note rb = journaled.rollback [OF assms(1) protects_le [OF assms(2)]] journaled.reverts_same [OF assms(1), of t]
  have "\<forall>r \<in> set (reverts t). r \<le> length (journal (f t))"
    using assms(2) rb(3) by (auto simp: protects_def journal_ok_def)
  then show ?thesis using assms(2) rb by (simp add: protects_def journal_ok_def)
qed

lemma revert_protects:
  assumes p: "protects base t0 t" and r: "int base < r" and e: "RevertToSnapshot t r = Some t'"
  shows "protects base t0 t'"
proof -
  define m where "m = nat r"
  define j where "j = reverts t ! m"
  have m: "m < length (reverts t)" "base < m" using e r by (auto simp: RevertToSnapshot_def m_def split: if_splits)
  have ok: "sorted (reverts t)" "j \<le> length (journal t)"
    using p m by (auto simp: protects_def journal_ok_def j_def)
  have le: "length (journal t0) \<le> j"
    using p ok(1) m sorted_nth_mono [of "reverts t" base m] by (simp add: protects_def j_def)
  have t': "reverts t' = take m (reverts t)" "journal t' = take j (journal t)"
    "world t' = foldr undo (drop j (journal t)) (world t)"
    using e r by (auto simp: RevertToSnapshot_def Let_def m_def j_def world_def [of "_\<lparr>journal := _, reverts := _\<rparr>"]
        split: if_splits) (simp_all add: world_def [symmetric] world_foldr)
  have split: "drop (length (journal t0)) (journal t)
      = drop (length (journal t0)) (take j (journal t)) @ drop j (journal t)"
    using le ok(2) by (metis append_take_drop_id drop_append length_take min_absorb2 diff_is_0_eq drop_0)
  have "\<forall>x \<in> set (take m (reverts t)). x \<le> j"
    using ok(1) m sorted_nth_mono [of "reverts t" _ m] by (auto simp: in_set_conv_nth j_def)
  then show ?thesis
    using p m le ok t' split by (simp add: protects_def journal_ok_def sorted_wrt_take min_def foldr_append)
qed

lemma trie_step_protects: "trie_step (int base) t t' \<Longrightarrow> protects base t0 t \<Longrightarrow> protects base t0 t'"
proof (induction rule: trie_step.induct)
  case (set_account t order a acc)
  then show ?case by (rule journaled_protects [OF j_SetAccount.journaled_axioms])
next
  case (add_balance t a d)
  then show ?case by (rule journaled_protects [OF j_AddBalance.journaled_axioms])
next
  case (sub_balance t a d t')
  then show ?case using journaled_protects [OF j_SubBalance.journaled_axioms, of base t0 t a d] by simp
next
  case (set_storage t a k v)
  then show ?case by (rule journaled_protects [OF j_SetStorage.journaled_axioms])
next
  case (snapshot t t' r)
  then have "t' = t\<lparr>reverts := reverts t @ [length (journal t)]\<rparr>" by (simp add: Snapshot_def)
  then show ?case
    using snapshot by (simp add: protects_def journal_ok_def sorted_append nth_append world_def)
next
  case (revert r t t')
  show ?case by (rule revert_protects [OF revert.prems revert.hyps])
next
  case (discard r t)
  then show ?case
    by (auto simp: protects_def DiscardSnapshot_def Let_def journal_ok_def world_def min_def
        intro: sorted_wrt_take dest: in_set_takeD)
qed

lemma snapshot_revert:
  assumes ok: "journal_ok t" and s: "Snapshot t = (t1, rv)" and steps: "(trie_step (int rv))\<^sup>*\<^sup>* t1 t2"
  shows "RevertToSnapshot t2 (int rv) = Some t"
proof -
  have "protects rv t t1" using s ok
    by (auto simp: Snapshot_def protects_def journal_ok_def sorted_append world_def)
  with steps have p: "protects rv t t2"
    by (induction rule: rtranclp_induct) (auto intro: trie_step_protects)
  define t3 where "t3 = foldr applyRevert (drop (reverts t2 ! rv) (journal t2)) t2"
  have "world t3 = world t" using p by (simp add: t3_def world_foldr protects_def)
  then have "t3\<lparr>journal := journal t, reverts := reverts t\<rparr> = t" by (simp add: world_def)
  then show ?thesis using p by (simp add: RevertToSnapshot_def Let_def protects_def t3_def)
qed

text \<open>Every trie built by the operations satisfies \<open>journal_ok\<close>.\<close>

lemma journaled_ok:
  assumes "journaled f" "journal_ok t"
  shows "journal_ok (f t)"
proof -
  have "reverts (f t) = reverts t" "length (journal t) \<le> length (journal (f t))"
    using journaled.reverts_same [OF assms(1)] journaled.rollback(3) [OF assms(1), of 0 t] by simp_all
  then show ?thesis using assms(2) by (auto simp: journal_ok_def intro: order_trans)
qed

lemma journal_ok_step: "trie_step base t t' \<Longrightarrow> journal_ok t \<Longrightarrow> journal_ok t'"
proof (induction rule: trie_step.induct)
  case (set_account t order a acc)
  then show ?case by (rule journaled_ok [OF j_SetAccount.journaled_axioms])
next
  case (add_balance t a d)
  then show ?case by (rule journaled_ok [OF j_AddBalance.journaled_axioms])
next
  case (sub_balance t a d t')
  then show ?case using journaled_ok [OF j_SubBalance.journaled_axioms, of t a d] by simp
next
  case (set_storage t a k v)
  then show ?case by (rule journaled_ok [OF j_SetStorage.journaled_axioms])
next
  case (snapshot t t' r)
  then show ?case by (auto simp: Snapshot_def journal_ok_def sorted_append)
next
  case (revert r t t')
  then have "0 \<le> r" "nat r < length (reverts t)" by (auto simp: RevertToSnapshot_def split: if_splits)
  moreover have "\<forall>x \<in> set (take (nat r) (reverts t)). x \<le> reverts t ! nat r"
    using calculation revert.prems sorted_nth_mono [of "reverts t" _ "nat r"]
    by (auto simp: in_set_conv_nth journal_ok_def)
  ultimately show ?case
    using revert by (auto simp: RevertToSnapshot_def Let_def journal_ok_def sorted_wrt_take dest: in_set_takeD
        split: if_splits)
next
  case (discard r t)
  then show ?case
    by (auto simp: DiscardSnapshot_def Let_def journal_ok_def intro: sorted_wrt_take dest: in_set_takeD)
qed

inductive trie_reachable :: "StateTrie \<Rightarrow> bool" where
  new: "trie_reachable NewStateTrie"
| step: "trie_reachable t \<Longrightarrow> trie_step (- 1) t t' \<Longrightarrow> trie_reachable t'"
| commit: "trie_reachable t \<Longrightarrow> trie_reachable (Commit t)"

lemma reachable_journal_ok: "trie_reachable t \<Longrightarrow> journal_ok t"
  by (induction rule: trie_reachable.induct)
    (auto simp: NewStateTrie_def Commit_def journal_ok_def [of "_\<lparr>journal := _, reverts := _\<rparr>"]
      intro: journal_ok_step, simp add: journal_ok_def)

end
