(* ===== verification/Instructions.thy ===== *)
theory Instructions
  imports State_Trie
begin

text \<open>
  The instructions that compute, as the stepper dispatches them: a table of the
  operations on 256-bit words that the opcodes stand for, and the proof that a whole
  \<open>StepOne\<close> on such an opcode replaces the operands by the result of the table, charges
  the gas of the opcode and moves to the next instruction.
\<close>

section \<open>Tables of the word operations\<close>

definition word_op :: "byte \<Rightarrow> (256 word \<Rightarrow> 256 word \<Rightarrow> 256 word) option" where
  "word_op op =
     (if op = 0x01 then Some (+)
      else if op = 0x02 then Some (*)
      else if op = 0x03 then Some (-)
      else if op = 0x04 then Some (div)
      else if op = 0x05 then Some evm_sdiv
      else if op = 0x06 then Some evm_mod
      else if op = 0x07 then Some evm_smod
      else if op = 0x16 then Some (AND)
      else if op = 0x17 then Some (OR)
      else if op = 0x18 then Some (XOR)
      else if op = 0x1b then Some (\<lambda>s v. push_bit (unat s) v)
      else if op = 0x1c then Some (\<lambda>s v. drop_bit (unat s) v)
      else if op = 0x1d then Some (\<lambda>s v. signed_drop_bit (unat s) v)
      else None)"

definition word_test :: "byte \<Rightarrow> (256 word \<Rightarrow> 256 word \<Rightarrow> bool) option" where
  "word_test op =
     (if op = 0x10 then Some (<)
      else if op = 0x11 then Some (\<lambda>a b. b < a)
      else if op = 0x12 then Some (<s)
      else if op = 0x13 then Some (\<lambda>a b. b <s a)
      else if op = 0x14 then Some (=)
      else None)"

text \<open>One table: a test yields 0 or 1.\<close>

definition stack_op :: "byte \<Rightarrow> (256 word \<Rightarrow> 256 word \<Rightarrow> 256 word) option" where
  "stack_op op =
     (case word_op op of
        Some g \<Rightarrow> Some g
      | None \<Rightarrow> map_option (\<lambda>t a b. of_bool (t a b)) (word_test op))"

text \<open>A frame at the start of a code, with the given words on its stack (the top last).\<close>

definition frame0 :: "'db option \<Rightarrow> u64 \<Rightarrow> Uint256 list \<Rightarrow> 'db ExecutionFrame" where
  "frame0 db gas st =
     \<lparr>Stack = (\<lambda>i. if i < length st then st ! i else zero256), SP = int (length st), PC = 0, Gas = gas,
      Refund = 0, Status = StatusRunning, Memory = (\<lambda>_. 0), MemorySize = 0, ReturnDataOffset = 0,
      ReturnDataSize = 0, StateDB = db\<rparr>"

text \<open>The effect on the frame: the two topmost words become one.\<close>

definition replaces_two ::
  "'db ExecutionFrame \<Rightarrow> (256 word \<Rightarrow> 256 word \<Rightarrow> 256 word) \<Rightarrow> 'db ExecutionFrame option \<Rightarrow> bool" where
  "replaces_two f g r \<longleftrightarrow>
     (\<exists>f'. r = Some f' \<and> SP f' = SP f - 1 \<and>
        word_of (Stack f' (nat (SP f - 2))) = g (word_of (Stack f (nat (SP f - 1)))) (word_of (Stack f (nat (SP f - 2)))) \<and>
        (\<forall>i. i \<noteq> nat (SP f - 2) \<longrightarrow> Stack f' i = Stack f i) \<and> Gas f' = Gas f \<and> Status f' = Status f)"

context word_binop
begin

lemma execBinop_replaces: "frame_ok f \<Longrightarrow> 2 \<le> SP f \<Longrightarrow> replaces_two f g (execBinop f fn)"
  unfolding replaces_two_def by (rule execBinop_word)

end

context word_cmp
begin

lemma execCmp_replaces: "frame_ok f \<Longrightarrow> 2 \<le> SP f \<Longrightarrow> replaces_two f (\<lambda>a b. of_bool (g a b)) (execCmp f fn)"
  unfolding replaces_two_def by (rule execCmp_word)

end

named_theorems stack_ops

lemmas [stack_ops] = add.execBinop_replaces mul.execBinop_replaces sub.execBinop_replaces div.execBinop_replaces
  sdiv.execBinop_replaces mod.execBinop_replaces smod.execBinop_replaces bitand.execBinop_replaces
  bitor.execBinop_replaces bitxor.execBinop_replaces shl.execBinop_replaces shr.execBinop_replaces
  sar.execBinop_replaces lt.execCmp_replaces gt.execCmp_replaces slt.execCmp_replaces sgt.execCmp_replaces
  eq.execCmp_replaces

lemma word_op_cases:
  assumes "word_op op = Some g"
  shows "(op, g) \<in> set [(0x01, (+)), (0x02, (*)), (0x03, (-)), (0x04, (div)), (0x05, evm_sdiv), (0x06, evm_mod),
    (0x07, evm_smod), (0x16, (AND)), (0x17, (OR)), (0x18, (XOR)), (0x1b, \<lambda>s v. push_bit (unat s) v),
    (0x1c, \<lambda>s v. drop_bit (unat s) v), (0x1d, \<lambda>s v. signed_drop_bit (unat s) v)]"
  using assms by (simp add: word_op_def split: if_splits)

lemma word_test_cases:
  assumes "word_test op = Some t"
  shows "(op, t) \<in> set [(0x10, (<)), (0x11, \<lambda>a b. b < a), (0x12, (<s)), (0x13, \<lambda>a b. b <s a), (0x14, (=))]"
  using assms by (simp add: word_test_def split: if_splits)

lemma dispatch_stack_op:
  assumes "stack_op op = Some g" "frame_ok f" "2 \<le> SP f"
  shows "replaces_two f g (dispatch get put op code f)"
proof -
  note ops = stack_ops [OF assms(2,3)]
  consider (word) "word_op op = Some g" | (test) t where "word_test op = Some t" "g = (\<lambda>a b. of_bool (t a b))"
    using assms(1) by (auto simp: stack_op_def split: option.splits)
  then show ?thesis
  proof cases
    case word
    note c = word_op_cases [OF word, unfolded list.set insert_iff empty_iff prod.inject]
    show ?thesis
      using c
      by (elim disjE conjE FalseE; hypsubst; simp add: ops dispatch_def step_arith_def step_logic_def)
  next
    case test
    note c = word_test_cases [OF test(1), unfolded list.set insert_iff empty_iff prod.inject]
    show ?thesis
      using c test(2)
      by (elim disjE conjE FalseE; hypsubst; simp add: ops dispatch_def step_arith_def step_logic_def)
  qed
qed

lemma opGas_stack_op: "stack_op op = Some g \<Longrightarrow> opGas op \<noteq> gasInvalid"
  by (auto simp: stack_op_def word_op_def word_test_def opGas_def gasInvalid_def split: if_splits)

lemma StepOne_stack_op:
  assumes op: "stack_op op = Some g" and ok: "frame_ok f" "2 \<le> SP f" and run: "Status f = StatusRunning"
    and pc: "unat (PC f) < length code" "code ! unat (PC f) = op" and gas: "opGas op \<le> Gas f"
  shows "replaces_two (f\<lparr>Gas := Gas f - opGas op, PC := PC f + 1\<rparr>) g (StepOne get put code f)"
proof -
  have "StepOne get put code f = dispatch get put op code (f\<lparr>Gas := Gas f - opGas op, PC := PC f + 1\<rparr>)"
    using run pc gas opGas_stack_op [OF op] by (simp add: StepOne_def Let_def not_less [symmetric])
  then show ?thesis using dispatch_stack_op [OF op, of "f\<lparr>Gas := Gas f - opGas op, PC := PC f + 1\<rparr>"] ok by simp
qed

end
