(* ===== verification/Rlp.thy ===== *)
theory Rlp
  imports Uint256
begin

text \<open>
  Recursive length prefix coding: the encoders of \<open>c2crypto/mpt.go\<close>, the helpers
  \<open>rlpBytes\<close>, \<open>rlpList\<close>, \<open>rlpU64\<close>, \<open>rlpU256\<close> and the decoder \<open>rlpDecode\<close> of
  \<open>c2seq/batch_poster.go\<close>. An encoder of the source writes into a buffer and returns the
  number of bytes written; the model returns those bytes. The lengths are Go ints, here
  natural numbers: no slice reaches \<open>2 ^ 63\<close> bytes, and the decoder's own test keeps the
  lengths it reads below that bound.
\<close>

section \<open>Encoding\<close>

fun rlpIntLen :: "nat \<Rightarrow> nat" where
  "rlpIntLen n = (if n = 0 then 0 else Suc (rlpIntLen (n div 256)))"

declare rlpIntLen.simps [simp del]

fun rlpWriteInt :: "nat \<Rightarrow> nat \<Rightarrow> bytes" where
  "rlpWriteInt n 0 = []"
| "rlpWriteInt n (Suc len) = rlpWriteInt (n div 256) len @ [of_nat n]"

definition rlpBytesSize :: "bytes \<Rightarrow> nat" where
  "rlpBytesSize data =
     (let dataLen = length data
      in if dataLen = 1 \<and> data ! 0 < 0x80 then 1
         else if dataLen < 56 then 1 + dataLen
         else 1 + rlpIntLen dataLen + dataLen)"

definition RlpEncodeBytes :: "bytes \<Rightarrow> bytes" where
  "RlpEncodeBytes data =
     (let dataLen = length data
      in if dataLen = 1 \<and> data ! 0 < 0x80 then [data ! 0]
         else if dataLen < 56 then of_nat (0x80 + dataLen) # data
         else
           (let llen = rlpIntLen dataLen
            in of_nat (0xb7 + llen) # rlpWriteInt dataLen llen @ data))"

definition RlpEncodeListHeader :: "nat \<Rightarrow> bytes" where
  "RlpEncodeListHeader payloadLen =
     (if payloadLen < 56 then [of_nat (0xc0 + payloadLen)]
      else
        (let llen = rlpIntLen payloadLen
         in of_nat (0xf7 + llen) # rlpWriteInt payloadLen llen))"

text \<open>The helpers of the batch poster (and, with the same code, of \<open>state_trie.go\<close>).\<close>

definition rlpBytes :: "bytes \<Rightarrow> bytes" where
  "rlpBytes b = RlpEncodeBytes b"

definition rlpList :: "bytes list \<Rightarrow> bytes" where
  "rlpList items = RlpEncodeListHeader (length (concat items)) @ concat items"

text \<open>The bytes \<open>tmp[i:]\<close> left by the loop \<open>for x != 0\<close>.\<close>

fun minBytes :: "nat \<Rightarrow> bytes" where
  "minBytes x = (if x = 0 then [] else minBytes (x div 256) @ [of_nat x])"

declare minBytes.simps [simp del]

definition rlpU64 :: "u64 \<Rightarrow> bytes" where
  "rlpU64 n = (if n = 0 then [0x80] else rlpBytes (minBytes (unat n)))"

definition rlpU256 :: "Uint256 \<Rightarrow> bytes" where
  "rlpU256 z = (if IsZero z then [0x80] else rlpBytes (dropWhile (\<lambda>b. b = 0) (BytesBE z)))"

section \<open>Decoding\<close>

datatype batch_error = ErrBatchFormat | ErrBatchTooLarge

datatype rlpVal = RBytes bytes | RList "rlpVal list"

text \<open>\<open>int(^uint(0)>>1) >> 8\<close> is \<open>2 ^ 55 - 1\<close>.\<close>

fun rlpReadInt_loop :: "bytes \<Rightarrow> nat \<Rightarrow> batch_error + nat" where
  "rlpReadInt_loop [] n = Inr n"
| "rlpReadInt_loop (c # cs) n =
     (if n > 2 ^ 55 - 1 then Inl ErrBatchTooLarge else rlpReadInt_loop cs (n * 256 + unat c))"

definition rlpReadInt :: "bytes \<Rightarrow> batch_error + nat" where
  "rlpReadInt b =
     (if length b = 0 \<or> length b > 8 then Inl ErrBatchFormat
      else if length b > 1 \<and> b ! 0 = 0 then Inl ErrBatchFormat
      else rlpReadInt_loop b 0)"

text \<open>The part of \<open>rlpDecode\<close> before the loop: whether the item is a list, its payload and
  the rest of the buffer.\<close>

definition rlpLongItem :: "bool \<Rightarrow> nat \<Rightarrow> bytes \<Rightarrow> batch_error + bool \<times> bytes \<times> bytes" where
  "rlpLongItem is_list llen buf =
     (if llen = 0 \<or> llen > length buf - 1 then Inl ErrBatchFormat
      else
        (case rlpReadInt (take llen (drop 1 buf)) of
           Inl _ \<Rightarrow> Inl ErrBatchFormat
         | Inr n \<Rightarrow>
             if n < 56 then Inl ErrBatchFormat
             else if 1 + llen > length buf \<or> n > length buf - (1 + llen) then Inl ErrBatchFormat
             else Inr (is_list, take n (drop (1 + llen) buf), drop (1 + llen + n) buf)))"

definition rlpHeader :: "bytes \<Rightarrow> batch_error + bool \<times> bytes \<times> bytes" where
  "rlpHeader buf =
     (if length buf = 0 then Inl ErrBatchFormat
      else
        (let b = buf ! 0
         in if b < 0x80 then Inr (False, take 1 buf, drop 1 buf)
            else if b < 0xb8 then
              (let n = unat (b - 0x80)
               in if n = 1 \<and> length buf > 1 \<and> buf ! 1 < 0x80 then Inl ErrBatchFormat
                  else if n > length buf - 1 then Inl ErrBatchFormat
                  else Inr (False, take n (drop 1 buf), drop (1 + n) buf))
            else if b < 0xc0 then rlpLongItem False (unat (b - 0xb7)) buf
            else if b < 0xf8 then
              (let n = unat (b - 0xc0)
               in if n > length buf - 1 then Inl ErrBatchFormat
                  else Inr (True, take n (drop 1 buf), drop (1 + n) buf))
            else rlpLongItem True (unat (b - 0xf7)) buf))"

text \<open>
  The recursion of \<open>rlpDecode\<close> and its loop over the items of a list, with a bound on the
  number of calls; \<open>None\<close> is running out of it, which \<open>rlpDecode_total\<close> below excludes for
  the bound that \<open>rlpDecode\<close> passes. \<open>k\<close> is \<open>len(items)\<close>.
\<close>

fun rlpDecode_fuel :: "nat \<Rightarrow> bytes \<Rightarrow> (batch_error + rlpVal \<times> bytes) option"
  and rlpItems_fuel :: "nat \<Rightarrow> nat \<Rightarrow> bytes \<Rightarrow> (batch_error + rlpVal list) option" where
  "rlpDecode_fuel 0 buf = None"
| "rlpDecode_fuel (Suc f) buf =
     (case rlpHeader buf of
        Inl e \<Rightarrow> Some (Inl e)
      | Inr (is_list, payload, rest) \<Rightarrow>
          if \<not> is_list then Some (Inr (RBytes payload, rest))
          else
            (case rlpItems_fuel f 0 payload of
               None \<Rightarrow> None
             | Some (Inl e) \<Rightarrow> Some (Inl e)
             | Some (Inr items) \<Rightarrow> Some (Inr (RList items, rest))))"
| "rlpItems_fuel 0 k payload = None"
| "rlpItems_fuel (Suc f) k payload =
     (if length payload = 0 then Some (Inr [])
      else if k \<ge> 4096 then Some (Inl ErrBatchTooLarge)
      else
        (case rlpDecode_fuel f payload of
           None \<Rightarrow> None
         | Some (Inl e) \<Rightarrow> Some (Inl e)
         | Some (Inr (v, next)) \<Rightarrow>
             (case rlpItems_fuel f (Suc k) next of
                None \<Rightarrow> None
              | Some (Inl e) \<Rightarrow> Some (Inl e)
              | Some (Inr items) \<Rightarrow> Some (Inr (v # items)))))"

definition rlpDecode :: "bytes \<Rightarrow> batch_error + rlpVal \<times> bytes" where
  "rlpDecode buf = the (rlpDecode_fuel (2 * length buf + 1) buf)"

definition rlpToU64 :: "rlpVal \<Rightarrow> batch_error + u64" where
  "rlpToU64 v =
     (case v of
        RList _ \<Rightarrow> Inl ErrBatchFormat
      | RBytes b \<Rightarrow>
          if length b = 0 then Inr 0
          else if length b > 8 \<or> b ! 0 = 0 then Inl ErrBatchFormat
          else Inr (foldl (\<lambda>n c. push_bit 8 n OR ucast c) 0 b))"

definition rlpToU256 :: "rlpVal \<Rightarrow> batch_error + Uint256" where
  "rlpToU256 v =
     (case v of
        RList _ \<Rightarrow> Inl ErrBatchFormat
      | RBytes b \<Rightarrow>
          if length b > 32 then Inl ErrBatchFormat
          else if length b > 1 \<and> b ! 0 = 0 then Inl ErrBatchFormat
          else Inr (FromBytesBE b))"

text \<open>The bytes a value stands for.\<close>

fun rlp_enc :: "rlpVal \<Rightarrow> bytes" where
  "rlp_enc (RBytes b) = RlpEncodeBytes b"
| "rlp_enc (RList vs) = rlpList (map rlp_enc vs)"

fun rlp_short :: "rlpVal \<Rightarrow> bool" where
  "rlp_short (RBytes b) = True"
| "rlp_short (RList vs) = (length vs \<le> 4096 \<and> (\<forall>v \<in> set vs. rlp_short v))"

section \<open>Lengths\<close>

lemma rlpWriteInt_be: "rlpWriteInt n len = be_bytes len n"
proof (rule be_val_inj)
  have l: "length (rlpWriteInt n len) = len" for n by (induction len arbitrary: n) simp_all
  show "length (rlpWriteInt n len) = length (be_bytes len n)" by (simp add: l)
  have "be_val (rlpWriteInt n len) = n mod 256 ^ len"
  proof (induction len arbitrary: n)
    case (Suc len)
    have "n mod 256 ^ Suc len = 256 * (n div 256 mod 256 ^ len) + n mod 256"
      using mod_mult2_eq [of n 256 "256 ^ len"] by simp
    then show ?case using Suc by (simp add: be_val_append unat_of_nat_byte)
  qed simp
  then show "be_val (rlpWriteInt n len) = be_val (be_bytes len n)" by (simp add: be_val_be_bytes)
qed

lemma length_rlpWriteInt [simp]: "length (rlpWriteInt n len) = len"
  by (simp add: rlpWriteInt_be)

lemma rlpIntLen_bound: "n < 256 ^ rlpIntLen n"
proof (induction n rule: rlpIntLen.induct)
  case (1 n)
  show ?case
  proof (cases "n = 0")
    case False
    then have "n div 256 < 256 ^ rlpIntLen (n div 256)" using 1 by simp
    then have "n < 256 * 256 ^ rlpIntLen (n div 256)" by (simp add: div_less_iff_less_mult mult.commute)
    then show ?thesis using False by (simp add: rlpIntLen.simps [of n])
  qed (simp add: rlpIntLen.simps)
qed

lemma rlpIntLen_le: "n < 256 ^ k \<Longrightarrow> rlpIntLen n \<le> k"
proof (induction k arbitrary: n)
  case (Suc k)
  then have "n div 256 < 256 ^ k" by (simp add: div_less_iff_less_mult mult.commute)
  then show ?case using Suc.IH by (simp add: rlpIntLen.simps [of n])
qed (simp add: rlpIntLen.simps)

lemma rlpIntLen_pos: "0 < n \<Longrightarrow> 0 < rlpIntLen n"
  by (simp add: rlpIntLen.simps)

text \<open>The size functions predict what the encoders write, so list headers carry the exact
  payload length.\<close>

lemma rlpBytesSize_length: "rlpBytesSize b = length (RlpEncodeBytes b)"
  by (simp add: rlpBytesSize_def RlpEncodeBytes_def Let_def)

lemma minBytes_spec: "be_val (minBytes n) = n" "length (minBytes n) = rlpIntLen n"
  "n \<noteq> 0 \<Longrightarrow> minBytes n ! 0 \<noteq> 0"
proof -
  show v: "be_val (minBytes n) = n" for n
    by (induction n rule: minBytes.induct) (subst minBytes.simps, simp add: be_val_append unat_of_nat_byte)
  show l: "length (minBytes n) = rlpIntLen n" for n
    by (induction n rule: minBytes.induct) (subst minBytes.simps, subst rlpIntLen.simps, simp)
  show "minBytes n ! 0 \<noteq> 0" if "n \<noteq> 0"
    using that
  proof (induction n rule: minBytes.induct)
    case (1 n)
    show ?case
    proof (cases "n div 256 = 0")
      case True
      then have "minBytes n = [of_nat n]" "n < 256"
        using 1 by (simp_all add: minBytes.simps [of n] minBytes.simps [of 0] div_eq_0_iff)
      then show ?thesis using 1 by (simp add: word_unat_eq_iff unat_of_nat_byte)
    next
      case False
      then have "minBytes (n div 256) \<noteq> []" by (subst minBytes.simps) simp
      then show ?thesis using 1 False by (simp add: minBytes.simps [of n] nth_append)
    qed
  qed
qed

section \<open>Decoding what was encoded\<close>

lemma rlpReadInt_loop_val:
  "n * 256 ^ length cs + be_val cs < 2 ^ 63 \<Longrightarrow> rlpReadInt_loop cs n = Inr (n * 256 ^ length cs + be_val cs)"
proof (induction cs arbitrary: n)
  case (Cons c cs)
  have eq: "(n * 256 + unat c) * 256 ^ length cs + be_val cs = n * 256 ^ length (c # cs) + be_val (c # cs)"
    by (simp add: algebra_simps)
  have "n * 256 * 1 \<le> n * 256 * 256 ^ length cs" by (intro mult_le_mono2) simp
  also have "\<dots> < 2 ^ 63" using add_lessD1 [OF Cons.prems] by (simp add: mult.assoc)
  finally have "n * 256 < 2 ^ 63" by simp
  then have "\<not> n > 2 ^ 55 - 1" by simp
  then show ?case using Cons.IH [of "n * 256 + unat c"] Cons.prems by (simp only: rlpReadInt_loop.simps eq if_False)
qed simp

lemma rlpWriteInt_min: "rlpWriteInt n (rlpIntLen n) = minBytes n"
  by (rule be_val_inj)
    (simp_all add: minBytes_spec rlpWriteInt_be be_val_be_bytes rlpIntLen_bound)

lemma rlpIntLen_le_8: "n < 2 ^ 63 \<Longrightarrow> rlpIntLen n \<le> 8"
  by (rule rlpIntLen_le) simp

lemma rlpReadInt_min:
  assumes "0 < n" "n < 2 ^ 63"
  shows "rlpReadInt (minBytes n) = Inr n"
  using rlpReadInt_loop_val [of 0 "minBytes n"] rlpIntLen_le_8 [OF assms(2)] rlpIntLen_pos [OF assms(1)] assms
    minBytes_spec(3) [of n]
  by (simp add: rlpReadInt_def minBytes_spec)

lemma rlpLongItem_enc:
  assumes "56 \<le> length p" "length p < 2 ^ 63"
  shows "rlpLongItem l (rlpIntLen (length p)) (h # rlpWriteInt (length p) (rlpIntLen (length p)) @ p @ rest) = Inr (l, p, rest)"
proof -
  have "0 < length p" using assms(1) by linarith
  then show ?thesis
    using assms rlpIntLen_pos [of "length p"] rlpReadInt_min [of "length p"]
    by (simp add: rlpLongItem_def rlpWriteInt_min minBytes_spec)
qed

lemma unat_byte_small: "n < 256 \<Longrightarrow> unat (of_nat n :: byte) = n"
  by (simp add: unat_of_nat_byte)

lemma byte_offset: "a + n < 256 \<Longrightarrow> unat (of_nat (a + n) - of_nat a :: byte) = n"
  by (simp add: unat_byte_small)

lemma byte_less: "a < 256 \<Longrightarrow> b < 256 \<Longrightarrow> (of_nat a < (of_nat b :: byte)) \<longleftrightarrow> a < b"
  by (simp add: word_less_nat_alt unat_byte_small)

lemma rlpHeader_bytes:
  assumes "length b < 2 ^ 63"
  shows "rlpHeader (RlpEncodeBytes b @ rest) = Inr (False, b, rest)"
proof -
  consider (one) "length b = 1 \<and> b ! 0 < 0x80" | (short) "\<not> (length b = 1 \<and> b ! 0 < 0x80)" "length b < 56"
    | (long) "56 \<le> length b" by linarith
  then show ?thesis
  proof cases
    case one
    then show ?thesis by (cases b) (auto simp: RlpEncodeBytes_def rlpHeader_def Let_def)
  next
    case short
    have h: "\<not> of_nat (0x80 + length b) < (0x80 :: byte)" "of_nat (0x80 + length b) < (0xb8 :: byte)"
      "unat (of_nat (0x80 + length b) - 0x80 :: byte) = length b"
      using short byte_less [of "0x80 + length b" "0x80"] byte_less [of "0x80 + length b" "0xb8"]
        byte_offset [of "0x80" "length b"] by simp_all
    have "\<not> (length b = 1 \<and> length ((of_nat (0x80 + length b) :: byte) # b @ rest) > 1 \<and> (b @ rest) ! 0 < 0x80)"
      using short by (cases b) auto
    moreover have "RlpEncodeBytes b @ rest = of_nat (0x80 + length b) # b @ rest"
      using short by (auto simp: RlpEncodeBytes_def Let_def)
    ultimately show ?thesis using h by (auto simp: rlpHeader_def Let_def simp del: of_nat_add)
  next
    case long
    define l where "l = rlpIntLen (length b)"
    have l: "0 < l" "l \<le> 8" using rlpIntLen_le_8 [OF assms] rlpIntLen_pos [of "length b"] long
      by (cases b; auto simp: l_def)+
    have h: "\<not> of_nat (0xb7 + l) < (0x80 :: byte)" "\<not> of_nat (0xb7 + l) < (0xb8 :: byte)"
      "of_nat (0xb7 + l) < (0xc0 :: byte)" "unat (of_nat (0xb7 + l) - 0xb7 :: byte) = l"
      using l byte_less [of "0xb7 + l" "0x80"] byte_less [of "0xb7 + l" "0xb8"] byte_less [of "0xb7 + l" "0xc0"]
        byte_offset [of "0xb7" l] by simp_all
    have "RlpEncodeBytes b @ rest = of_nat (0xb7 + l) # rlpWriteInt (length b) l @ b @ rest"
      using long by (simp add: RlpEncodeBytes_def Let_def l_def)
    then show ?thesis
      using h rlpLongItem_enc [OF long assms] by (simp add: rlpHeader_def Let_def l_def del: of_nat_add)
  qed
qed

lemma rlpHeader_list:
  assumes "length p < 2 ^ 63"
  shows "rlpHeader (RlpEncodeListHeader (length p) @ p @ rest) = Inr (True, p, rest)"
proof (cases "length p < 56")
  case True
  have h: "\<not> of_nat (0xc0 + length p) < (0x80 :: byte)" "\<not> of_nat (0xc0 + length p) < (0xb8 :: byte)"
    "\<not> of_nat (0xc0 + length p) < (0xc0 :: byte)" "of_nat (0xc0 + length p) < (0xf8 :: byte)"
    "unat (of_nat (0xc0 + length p) - 0xc0 :: byte) = length p"
    using True byte_less [of "0xc0 + length p" "0x80"] byte_less [of "0xc0 + length p" "0xb8"]
      byte_less [of "0xc0 + length p" "0xc0"] byte_less [of "0xc0 + length p" "0xf8"]
      byte_offset [of "0xc0" "length p"] by simp_all
  show ?thesis using True h by (simp add: RlpEncodeListHeader_def rlpHeader_def Let_def del: of_nat_add)
next
  case False
  define l where "l = rlpIntLen (length p)"
  have l: "0 < l" "l \<le> 8" using rlpIntLen_le_8 [OF assms] rlpIntLen_pos [of "length p"] False
    by (cases p; auto simp: l_def)+
  have h: "\<not> of_nat (0xf7 + l) < (0x80 :: byte)" "\<not> of_nat (0xf7 + l) < (0xb8 :: byte)"
    "\<not> of_nat (0xf7 + l) < (0xc0 :: byte)" "\<not> of_nat (0xf7 + l) < (0xf8 :: byte)"
    "unat (of_nat (0xf7 + l) - 0xf7 :: byte) = l"
    using l byte_less [of "0xf7 + l" "0x80"] byte_less [of "0xf7 + l" "0xb8"] byte_less [of "0xf7 + l" "0xc0"]
      byte_less [of "0xf7 + l" "0xf8"] byte_offset [of "0xf7" l] by simp_all
  have "RlpEncodeListHeader (length p) @ p @ rest = of_nat (0xf7 + l) # rlpWriteInt (length p) l @ p @ rest"
    using False by (simp add: RlpEncodeListHeader_def Let_def l_def)
  then show ?thesis
    using h rlpLongItem_enc [of p True] False assms by (simp add: rlpHeader_def Let_def l_def del: of_nat_add)
qed

lemma rlpHeader_enc:
  assumes "length (rlp_enc v) < 2 ^ 63"
  shows "rlpHeader (rlp_enc v @ rest) =
    (case v of RBytes b \<Rightarrow> Inr (False, b, rest) | RList vs \<Rightarrow> Inr (True, concat (map rlp_enc vs), rest))"
proof (cases v)
  case (RBytes b)
  have "length b \<le> length (RlpEncodeBytes b)" by (simp add: RlpEncodeBytes_def Let_def)
  then show ?thesis using RBytes assms rlpHeader_bytes [of b rest] by simp
next
  case (RList vs)
  then show ?thesis using assms rlpHeader_list [of "concat (map rlp_enc vs)" rest] by (simp add: rlpList_def)
qed

lemma rlp_enc_nonempty: "rlp_enc v \<noteq> []"
  by (cases v) (simp_all add: RlpEncodeBytes_def rlpList_def RlpEncodeListHeader_def Let_def)

lemma rlpHeader_consumes:
  assumes "rlpHeader buf = Inr (l, p, rest)"
  shows "length p + length rest \<le> length buf" and "length rest < length buf" and "l \<Longrightarrow> length p + length rest < length buf"
  using assms
  by (cases buf; auto simp: rlpHeader_def rlpLongItem_def Let_def split: if_splits sum.splits)+

lemma rlpDecode_consumes: "rlpDecode_fuel f buf = Some (Inr (v, next)) \<Longrightarrow> length next < length buf"
  by (cases f) (auto dest!: rlpHeader_consumes(2) split: sum.splits option.splits if_splits prod.splits)

text \<open>The bound on the number of calls is never reached.\<close>

lemma rlpDecode_fuel_enough:
  "(\<forall>buf. 2 * length buf + 1 \<le> f \<longrightarrow> rlpDecode_fuel f buf \<noteq> None) \<and>
   (\<forall>k payload. 2 * length payload + 2 \<le> f \<longrightarrow> rlpItems_fuel f k payload \<noteq> None)"
proof (induction f)
  case (Suc f)
  have "rlpDecode_fuel (Suc f) buf \<noteq> None" if l: "2 * length buf + 1 \<le> Suc f" for buf
  proof (cases "rlpHeader buf")
    case (Inr x)
    obtain b p rest where x: "x = (b, p, rest)" by (cases x)
    have "rlpItems_fuel f 0 p \<noteq> None" if b
    proof -
      have "2 * length p + 2 \<le> f" using rlpHeader_consumes(3) [of buf b p rest] Inr x that l by simp
      then show ?thesis using Suc.IH by blast
    qed
    then show ?thesis using Inr x by (auto split: option.splits sum.splits)
  qed simp
  moreover have "rlpItems_fuel (Suc f) k payload \<noteq> None" if l: "2 * length payload + 2 \<le> Suc f" for k payload
  proof (cases "payload = []")
    case False
    have "2 * length payload + 1 \<le> f" using l by simp
    then have "rlpDecode_fuel f payload \<noteq> None" using Suc.IH by blast
    moreover have "rlpItems_fuel f (Suc k) rest \<noteq> None" if "rlpDecode_fuel f payload = Some (Inr (v, rest))" for v rest
    proof -
      have "2 * length rest + 2 \<le> f" using rlpDecode_consumes [OF that] l by simp
      then show ?thesis using Suc.IH by blast
    qed
    ultimately show ?thesis by (auto split: option.splits sum.splits)
  qed simp
  ultimately show ?case by blast
qed simp

lemma rlpDecode_total: "rlpDecode_fuel (2 * length buf + 1) buf = Some (rlpDecode buf)"
  using rlpDecode_fuel_enough [of "2 * length buf + 1"] by (auto simp: rlpDecode_def)

lemma rlpItems_enc:
  assumes "\<And>v f rest. v \<in> set vs \<Longrightarrow> 2 * length (rlp_enc v) + 1 \<le> f \<Longrightarrow>
      rlpDecode_fuel f (rlp_enc v @ rest) = Some (Inr (v, rest))"
    and "2 * length (concat (map rlp_enc vs)) + 2 \<le> f" and "k + length vs \<le> 4096"
  shows "rlpItems_fuel f k (concat (map rlp_enc vs)) = Some (Inr vs)"
  using assms
proof (induction vs arbitrary: f k)
  case Nil
  then show ?case by (cases f) simp_all
next
  case (Cons v vs)
  obtain g where f: "f = Suc g" using Cons.prems(2) by (cases f) simp_all
  have "1 \<le> length (rlp_enc v)" using rlp_enc_nonempty [of v] by (simp add: Suc_le_eq)
  moreover have "2 * (a + c) + 2 \<le> Suc g \<Longrightarrow> 2 * c + 2 \<le> g" if "1 \<le> a" for a c :: nat using that by simp
  ultimately have "2 * length (concat (map rlp_enc vs)) + 2 \<le> g"
    using Cons.prems(2) unfolding f list.map concat.simps length_append by blast
  then have "rlpItems_fuel g (Suc k) (concat (map rlp_enc vs)) = Some (Inr vs)"
    using Cons.prems by (intro Cons.IH) simp_all
  moreover have "rlpDecode_fuel g (rlp_enc v @ concat (map rlp_enc vs)) = Some (Inr (v, concat (map rlp_enc vs)))"
    using Cons.prems by (intro Cons.prems(1)) (simp_all add: f)
  ultimately show ?case using Cons.prems(3) by (simp add: f rlp_enc_nonempty)
qed

lemma length_rlpList: "length (concat items) < length (rlpList items)"
  by (simp add: rlpList_def RlpEncodeListHeader_def Let_def)

lemma elem_length_concat: "x \<in> set xs \<Longrightarrow> length x \<le> length (concat xs)"
  by (induction xs) auto

lemma rlpDecode_fuel_enc:
  "\<lbrakk>rlp_short v; length (rlp_enc v) < 2 ^ 63; 2 * length (rlp_enc v) + 1 \<le> f\<rbrakk> \<Longrightarrow>
   rlpDecode_fuel f (rlp_enc v @ rest) = Some (Inr (v, rest))"
proof (induction v arbitrary: f rest)
  case (RBytes b)
  then show ?case using rlpHeader_enc [of "RBytes b" rest] by (cases f) simp_all
next
  case (RList vs)
  obtain g where f: "f = Suc g" using RList.prems(3) by (cases f) simp_all
  have c: "length (concat (map rlp_enc vs)) < length (rlp_enc (RList vs))" using length_rlpList by simp
  have IH: "rlpDecode_fuel h (rlp_enc v @ r) = Some (Inr (v, r))"
    if "v \<in> set vs" "2 * length (rlp_enc v) + 1 \<le> h" for v h r
    using RList.IH [OF that(1)] RList.prems(1,2) that c elem_length_concat [of "rlp_enc v" "map rlp_enc vs"] by simp
  have "rlpItems_fuel g 0 (concat (map rlp_enc vs)) = Some (Inr vs)"
    using IH RList.prems(1,3) c f by (intro rlpItems_enc) simp_all
  then show ?case using rlpHeader_enc [OF RList.prems(2), of rest] by (simp add: f)
qed

lemma rlpDecode_enc:
  assumes "rlp_short v" "length (rlp_enc v) < 2 ^ 63"
  shows "rlpDecode (rlp_enc v @ rest) = Inr (v, rest)"
  using rlpDecode_fuel_enc [OF assms, of "2 * length (rlp_enc v @ rest) + 1" rest]
    rlpDecode_total [of "rlp_enc v @ rest"] by simp

section \<open>Integers\<close>

definition rlpNat :: "nat \<Rightarrow> rlpVal" where
  "rlpNat n = RBytes (minBytes n)"

lemma rlpU64_enc: "rlpU64 n = rlp_enc (rlpNat (unat n))"
  by (simp add: rlpU64_def rlpNat_def rlpBytes_def RlpEncodeBytes_def minBytes.simps [of 0] unat_eq_zero)

lemma rlpToU64_Nat: "rlpToU64 (rlpNat (unat n)) = Inr n"
proof (cases "n = 0")
  case True
  then show ?thesis by (simp add: rlpToU64_def rlpNat_def minBytes.simps [of 0])
next
  case False
  have l: "length (minBytes (unat n)) \<le> 8"
    using rlpIntLen_le [of "unat n" 8] unat_lt_literal(2) [of n] by (simp add: minBytes_spec)
  have "Uint64_BE (minBytes (unat n)) = n"
    using unat_Uint64_BE [OF l] by (simp add: word_unat_eq_iff minBytes_spec)
  moreover have "minBytes (unat n) ! 0 \<noteq> 0" "length (minBytes (unat n)) \<noteq> 0"
    using False minBytes_spec(3) [of "unat n"] rlpIntLen_pos [of "unat n"]
    by (simp_all add: minBytes_spec unat_eq_zero unat_gt_0)
  ultimately show ?thesis using l by (simp add: rlpToU64_def rlpNat_def Uint64_BE_def)
qed

lemma dropWhile_zeros_min: "be_val bs = n \<Longrightarrow> dropWhile (\<lambda>b. b = 0) bs = minBytes n"
proof -
  define ds where "ds = dropWhile (\<lambda>b. b = 0) bs"
  have "bs = takeWhile (\<lambda>b. b = 0) bs @ ds" by (simp add: ds_def)
  moreover have "takeWhile (\<lambda>b. b = 0) bs = replicate (length (takeWhile (\<lambda>b. b = 0) bs)) 0"
    by (rule replicate_eqI) (auto dest: set_takeWhileD)
  ultimately have v: "be_val ds = be_val bs" by (metis be_val_append be_val_zeros add_0 mult_zero_left)
  assume n: "be_val bs = n"
  show ?thesis
  proof (cases "ds = []")
    case True
    then have "n = 0" using v n by simp
    then show ?thesis using True by (simp add: ds_def [symmetric] minBytes.simps [of 0])
  next
    case False
    then have h: "hd ds \<noteq> 0" unfolding ds_def by (rule hd_dropWhile)
    obtain d ds' where ds: "ds = d # ds'" using False by (cases ds) simp_all
    then have "256 ^ length ds' \<le> be_val ds" using h by (cases "unat d") (simp_all add: unat_eq_zero)
    then have "(256 :: nat) ^ length ds' < 256 ^ rlpIntLen n" using rlpIntLen_bound [of n] v n by linarith
    then have "length ds' < rlpIntLen n" by (rule power_less_imp_less_exp [rotated]) simp
    then have "length ds \<le> rlpIntLen n" using ds by simp
    moreover have "rlpIntLen n \<le> length ds" using be_val_bound [of ds] v n by (intro rlpIntLen_le) simp
    ultimately show ?thesis
      using v n by (intro be_val_inj) (simp_all add: ds_def [symmetric] minBytes_spec)
  qed
qed

lemma rlpU256_enc: "rlpU256 z = rlp_enc (rlpNat (uval z))"
proof -
  have "uval z = 0" if "z = zero256" using that by simp
  then show ?thesis
    using dropWhile_zeros_min [OF be_val_BytesBE, of z]
    by (auto simp: rlpU256_def rlpNat_def rlpBytes_def RlpEncodeBytes_def minBytes.simps [of 0])
qed

lemma rlpToU256_Nat: "rlpToU256 (rlpNat (uval z)) = Inr z"
proof -
  have "length (minBytes (uval z)) \<le> 32" using rlpIntLen_le [of "uval z" 32] uval_lt [of z] by (simp add: minBytes_spec)
  moreover have "FromBytesBE (minBytes (uval z)) = z"
    using calculation by (simp add: uval_FromBytesBE minBytes_spec flip: uval_inj)
  moreover have "minBytes (uval z) ! 0 \<noteq> 0" if "length (minBytes (uval z)) > 1"
    using that minBytes_spec(3) [of "uval z"] by (cases "uval z = 0") (auto simp: minBytes.simps [of 0])
  ultimately show ?thesis by (auto simp: rlpToU256_def rlpNat_def)
qed

end
