(* ===== verification/Batch_Poster.thy ===== *)
theory Batch_Poster
  imports Rlp
begin

text \<open>
  The transactions of \<open>c2block/types.go\<close> and their batch format,
  \<open>c2seq/batch_poster.go\<close>: a batch is the RLP list of its transactions, wrapped in one
  uncompressed Brotli meta-block. Decoding is proved to invert encoding, so that every
  batch that \<open>Pack\<close> accepts names exactly the transactions packed, on the fields the
  format carries.
\<close>

section \<open>Definitions\<close>

record Transaction =
  tx_Type :: byte
  tx_ChainID :: Uint256
  tx_Nonce :: u64
  tx_GasPrice :: Uint256
  tx_GasTipCap :: Uint256
  tx_GasFeeCap :: Uint256
  tx_Gas :: u64
  tx_To :: "bytes option"
  tx_Value :: Uint256
  tx_Data :: bytes
  tx_AccessList :: "(bytes \<times> bytes list) list"
  tx_BlobFeeCap :: Uint256
  tx_BlobHashes :: "bytes list"
  tx_V :: Uint256
  tx_R :: Uint256
  tx_S :: Uint256
  tx_From :: bytes
  tx_Hash :: bytes

definition newTransaction :: Transaction where
  "newTransaction =
     \<lparr>tx_Type = 0, tx_ChainID = zero256, tx_Nonce = 0, tx_GasPrice = zero256, tx_GasTipCap = zero256,
      tx_GasFeeCap = zero256, tx_Gas = 0, tx_To = None, tx_Value = zero256, tx_Data = [],
      tx_AccessList = [], tx_BlobFeeCap = zero256, tx_BlobHashes = [], tx_V = zero256, tx_R = zero256,
      tx_S = zero256, tx_From = replicate 20 0, tx_Hash = replicate 32 0\<rparr>"

text \<open>The arrays of the type have fixed lengths.\<close>

definition tx_ok :: "Transaction \<Rightarrow> bool" where
  "tx_ok tx \<longleftrightarrow> (case tx_To tx of None \<Rightarrow> True | Some a \<Rightarrow> length a = 20) \<and>
     length (tx_From tx) = 20 \<and> length (tx_Hash tx) = 32"

definition maxBatchPlain :: nat where
  "maxBatchPlain = 512 * 1024"

definition encodeTx :: "Transaction \<Rightarrow> bytes" where
  "encodeTx tx =
     (let to = (case tx_To tx of None \<Rightarrow> [] | Some a \<Rightarrow> a)
      in rlpList
           [rlpU64 (ucast (tx_Type tx)), rlpU64 (tx_Nonce tx), rlpU64 (tx_Gas tx), rlpU256 (tx_GasTipCap tx),
            rlpU256 (tx_GasFeeCap tx), rlpU256 (tx_GasPrice tx), rlpBytes to, rlpU256 (tx_Value tx),
            rlpBytes (tx_Data tx), rlpBytes (tx_From tx), rlpBytes (tx_Hash tx)])"

datatype pack_error = ErrNilTx | Batch batch_error

text \<open>
  \<open>brotliUncompressed\<close>: a stream header of one zero bit, the header bits of an uncompressed
  meta-block (\<open>put\<close> appends the low bits of \<open>v\<close> at position \<open>nb\<close>), the payload, and the byte
  of the empty last meta-block.
\<close>

definition put_bits :: "u64 \<times> nat \<Rightarrow> u64 \<Rightarrow> nat \<Rightarrow> u64 \<times> nat" where
  "put_bits s v n = (let (acc, nb) = s in (acc OR push_bit nb v, nb + n))"

definition brotliHeader :: "nat \<Rightarrow> u64 \<Rightarrow> nat \<Rightarrow> bytes" where
  "brotliHeader nib m1 nbits =
     (let s = put_bits (0, 0) 0 1;
          s = put_bits s 0 1;
          s = put_bits s (of_nat nib) 2;
          s = put_bits s m1 nbits;
          s = put_bits s 1 1;
          pad = (8 - snd s mod 8) mod 8;
          (acc, nb) = (fst s, snd s + pad)
      in map (\<lambda>i. ucast (drop_bit (8 * i) acc)) [0..<nb div 8])"

definition brotliUncompressed :: "bytes \<Rightarrow> batch_error + bytes" where
  "brotliUncompressed payload =
     (let mlen = length payload
      in if mlen = 0 then Inr [0x06]
         else if mlen > maxBatchPlain then Inl ErrBatchTooLarge
         else
           (let m1 = of_nat (mlen - 1)
            in if m1 < 2 ^ 16 then Inr (brotliHeader 0 m1 16 @ payload @ [0x03])
               else if m1 < 2 ^ 20 then Inr (brotliHeader 1 m1 20 @ payload @ [0x03])
               else if m1 < 2 ^ 24 then Inr (brotliHeader 2 m1 24 @ payload @ [0x03])
               else Inl ErrBatchTooLarge))"

text \<open>The loop of \<open>Pack\<close>; a nil pointer is \<open>None\<close>.\<close>

fun packItems :: "Transaction option list \<Rightarrow> nat \<Rightarrow> pack_error + bytes list" where
  "packItems [] tot = Inr []"
| "packItems (None # txs) tot = Inl ErrNilTx"
| "packItems (Some tx # txs) tot =
     (let enc = encodeTx tx;
          tot = tot + length enc
      in if tot > maxBatchPlain then Inl (Batch ErrBatchTooLarge)
         else (case packItems txs tot of Inl e \<Rightarrow> Inl e | Inr items \<Rightarrow> Inr (enc # items)))"

definition packPlain :: "Transaction option list \<Rightarrow> pack_error + bytes" where
  "packPlain txs =
     (case packItems txs 0 of
        Inl e \<Rightarrow> Inl e
      | Inr items \<Rightarrow>
          (let plain = rlpList items
           in if length plain > maxBatchPlain then Inl (Batch ErrBatchTooLarge) else Inr plain))"

definition Pack :: "Transaction option list \<Rightarrow> pack_error + bytes" where
  "Pack txs =
     (case packPlain txs of
        Inl e \<Rightarrow> Inl e
      | Inr plain \<Rightarrow> (case brotliUncompressed plain of Inl e \<Rightarrow> Inl (Batch e) | Inr out \<Rightarrow> Inr out))"

text \<open>\<open>rlpToU64\<close> on element 0 is truncated to \<open>uint8\<close>.\<close>

definition rlpPlain :: "rlpVal \<Rightarrow> batch_error + bytes" where
  "rlpPlain v = (case v of RList _ \<Rightarrow> Inl ErrBatchFormat | RBytes b \<Rightarrow> Inr b)"

definition decodeTx :: "rlpVal \<Rightarrow> batch_error + Transaction" where
  "decodeTx v =
     (case v of
        RBytes _ \<Rightarrow> Inl ErrBatchFormat
      | RList elts \<Rightarrow>
          guard (length elts = 11) ErrBatchFormat (
          andThen (rlpToU64 (elts ! 0)) (\<lambda>typ.
          andThen (rlpToU64 (elts ! 1)) (\<lambda>nonce.
          andThen (rlpToU64 (elts ! 2)) (\<lambda>gas.
          andThen (rlpToU256 (elts ! 3)) (\<lambda>tip.
          andThen (rlpToU256 (elts ! 4)) (\<lambda>fee.
          andThen (rlpToU256 (elts ! 5)) (\<lambda>price.
          andThen (rlpPlain (elts ! 6)) (\<lambda>to.
          guard (length to = 20 \<or> length to = 0) ErrBatchFormat (
          andThen (rlpToU256 (elts ! 7)) (\<lambda>val.
          andThen (rlpPlain (elts ! 8)) (\<lambda>data.
          andThen (rlpPlain (elts ! 9)) (\<lambda>from.
          guard (length from = 20) ErrBatchFormat (
          andThen (rlpPlain (elts ! 10)) (\<lambda>hash.
          guard (length hash = 32) ErrBatchFormat (
          Inr (newTransaction\<lparr>tx_Type := ucast typ, tx_Nonce := nonce, tx_Gas := gas, tx_GasTipCap := tip,
            tx_GasFeeCap := fee, tx_GasPrice := price, tx_To := (if length to = 20 then Some to else None),
            tx_Value := val, tx_Data := data, tx_From := from, tx_Hash := hash\<rparr>)))))))))))))))))"

fun decodeTxs :: "rlpVal list \<Rightarrow> batch_error + Transaction list" where
  "decodeTxs [] = Inr []"
| "decodeTxs (v # vs) = andThen (decodeTx v) (\<lambda>tx. andThen (decodeTxs vs) (\<lambda>txs. Inr (tx # txs)))"

text \<open>\<open>Unpack\<close> after the decompression.\<close>

definition unpackPlain :: "bytes \<Rightarrow> batch_error + Transaction list" where
  "unpackPlain plain =
     (if length plain = 0 then Inr []
      else
        andThen (rlpDecode plain) (\<lambda>(v, rest).
          (case v of
             RBytes _ \<Rightarrow> Inl ErrBatchFormat
           | RList elts \<Rightarrow> guard (length rest = 0) ErrBatchFormat (decodeTxs elts))))"

section \<open>Decoding inverts encoding\<close>

text \<open>The fields that the batch format carries; the others come back as zero values.\<close>

definition carried :: "Transaction \<Rightarrow> Transaction" where
  "carried tx = newTransaction\<lparr>tx_Type := tx_Type tx, tx_Nonce := tx_Nonce tx, tx_Gas := tx_Gas tx,
     tx_GasTipCap := tx_GasTipCap tx, tx_GasFeeCap := tx_GasFeeCap tx, tx_GasPrice := tx_GasPrice tx,
     tx_To := tx_To tx, tx_Value := tx_Value tx, tx_Data := tx_Data tx, tx_From := tx_From tx, tx_Hash := tx_Hash tx\<rparr>"

definition txVal :: "Transaction \<Rightarrow> rlpVal" where
  "txVal tx = RList
     [rlpNat (unat (tx_Type tx)), rlpNat (unat (tx_Nonce tx)), rlpNat (unat (tx_Gas tx)), rlpNat (uval (tx_GasTipCap tx)),
      rlpNat (uval (tx_GasFeeCap tx)), rlpNat (uval (tx_GasPrice tx)),
      RBytes (case tx_To tx of None \<Rightarrow> [] | Some a \<Rightarrow> a), rlpNat (uval (tx_Value tx)), RBytes (tx_Data tx),
      RBytes (tx_From tx), RBytes (tx_Hash tx)]"

lemma encodeTx_enc: "encodeTx tx = rlp_enc (txVal tx)"
  by (simp add: encodeTx_def txVal_def rlpU64_enc rlpU256_enc rlpBytes_def Let_def)

lemma rlp_short_txVal: "rlp_short (txVal tx)"
  by (simp add: txVal_def rlpNat_def)

lemma rlpToU64_byte: "rlpToU64 (rlpNat (unat (b :: byte))) = Inr (ucast b)"
  using rlpToU64_Nat [of "ucast b"] by simp

lemma ucast_byte_u64 [simp]: "ucast (ucast (b :: byte) :: u64) = b"
  by (rule bit_word_eqI) (simp add: bit_simps)

lemma decodeTx_txVal: "tx_ok tx \<Longrightarrow> decodeTx (txVal tx) = Inr (carried tx)"
  by (cases "tx_To tx")
    (simp_all add: decodeTx_def txVal_def rlpToU64_Nat rlpToU64_byte rlpToU256_Nat rlpPlain_def tx_ok_def carried_def)

lemma decodeTxs_txVal: "\<forall>tx \<in> set txs. tx_ok tx \<Longrightarrow> decodeTxs (map txVal txs) = Inr (map carried txs)"
  by (induction txs) (simp_all add: decodeTx_txVal)

lemma packItems_Inr:
  "packItems txs n = Inr items \<Longrightarrow> \<exists>ts. txs = map Some ts \<and> items = map (\<lambda>t. rlp_enc (txVal t)) ts \<and>
     n + length (concat items) \<le> max n maxBatchPlain"
proof (induction txs n arbitrary: items rule: packItems.induct)
  case (3 tx txs tot)
  then obtain items' where r: "packItems txs (tot + length (encodeTx tx)) = Inr items'"
    "items = encodeTx tx # items'" "tot + length (encodeTx tx) \<le> maxBatchPlain"
    by (auto simp: Let_def split: if_splits sum.splits)
  have "\<not> maxBatchPlain < tot + length (encodeTx tx)" using r(3) by simp
  from "3.IH" [OF refl refl this r(1)] obtain ts where "txs = map Some ts" "items' = map (\<lambda>t. rlp_enc (txVal t)) ts"
    "tot + length (encodeTx tx) + length (concat items') \<le> maxBatchPlain"
    using r(3) by (auto simp: max_def)
  then show ?case using r(2) by (intro exI [of _ "tx # ts"]) (simp add: encodeTx_enc)
qed simp_all

lemma packPlain_enc:
  assumes "packPlain txs = Inr plain"
  obtains ts where "txs = map Some ts" "plain = rlp_enc (RList (map txVal ts))" "length plain \<le> maxBatchPlain"
proof -
  obtain items where i: "packItems txs 0 = Inr items" "plain = rlpList items" "length plain \<le> maxBatchPlain"
    using assms by (auto simp: packPlain_def Let_def split: sum.splits if_splits)
  then show ?thesis using that packItems_Inr [OF i(1)] by (auto simp: comp_def)
qed

lemma unpack_pack:
  assumes p: "packPlain (map Some ts) = Inr plain" and ok: "\<forall>tx \<in> set ts. tx_ok tx" and n: "length ts \<le> 4096"
  shows "unpackPlain plain = Inr (map carried ts)"
proof -
  have e: "plain = rlp_enc (RList (map txVal ts))" and l: "length plain \<le> maxBatchPlain"
    using packPlain_enc [OF p] by (metis map_injective option.inject injI)+
  have "rlp_short (RList (map txVal ts))" using n by (simp add: rlp_short_txVal)
  moreover have "length (rlp_enc (RList (map txVal ts))) < 2 ^ 63"
    using l unfolding e [symmetric] by (simp add: maxBatchPlain_def)
  ultimately have "rlpDecode plain = Inr (RList (map txVal ts), [])"
    using rlpDecode_enc [of "RList (map txVal ts)" "[]"] unfolding e by simp
  moreover have "plain \<noteq> []" unfolding e by (rule rlp_enc_nonempty)
  ultimately show ?thesis by (simp add: unpackPlain_def decodeTxs_txVal [OF ok])
qed

section \<open>Batches of more than 4096 transactions\<close>

text \<open>\<open>Pack\<close> bounds the size of a batch, not the number of its transactions, and the decoder
  refuses lists of more than 4096 items.\<close>

lemma rlpItems_over:
  assumes "\<And>v. v \<in> set vs \<Longrightarrow> rlp_short v"
    and "length (concat (map rlp_enc vs)) < 2 ^ 63"
    and "2 * length (concat (map rlp_enc vs)) + 2 \<le> f" and "k \<le> 4096" "4096 < k + length vs"
  shows "rlpItems_fuel f k (concat (map rlp_enc vs)) = Some (Inl ErrBatchTooLarge)"
  using assms
proof (induction vs arbitrary: f k)
  case (Cons v vs)
  obtain g where f: "f = Suc g" using Cons.prems(3) by (cases f) simp_all
  show ?case
  proof (cases "k = 4096")
    case False
    define c where "c = concat (map rlp_enc vs)"
    have "1 \<le> length (rlp_enc v)" using rlp_enc_nonempty [of v] by (simp add: Suc_le_eq)
    moreover have "2 * (a + b) + 2 \<le> Suc g \<Longrightarrow> 2 * b + 2 \<le> g" if "1 \<le> a" for a b :: nat using that by simp
    ultimately have "2 * length c + 2 \<le> g"
      using Cons.prems(3) unfolding f list.map concat.simps length_append c_def by blast
    then have "rlpItems_fuel g (Suc k) c = Some (Inl ErrBatchTooLarge)"
      using Cons.prems False unfolding c_def by (intro Cons.IH) simp_all
    moreover have "rlpDecode_fuel g (rlp_enc v @ c) = Some (Inr (v, c))"
      using Cons.prems by (intro rlpDecode_fuel_enc) (simp_all add: f)
    ultimately show ?thesis using Cons.prems False by (simp add: f rlp_enc_nonempty c_def)
  qed (simp add: f rlp_enc_nonempty)
qed simp

lemma unpack_over:
  assumes p: "packPlain (map Some ts) = Inr plain" and n: "4096 < length ts"
  shows "unpackPlain plain = Inl ErrBatchTooLarge"
proof -
  define vs where "vs = map txVal ts"
  have e: "plain = rlp_enc (RList vs)" and l: "length plain \<le> maxBatchPlain"
    using packPlain_enc [OF p] unfolding vs_def by (metis map_injective option.inject injI)+
  have small: "length (rlp_enc (RList vs)) < 2 ^ 63" using l unfolding e by (simp add: maxBatchPlain_def)
  have c: "length (concat (map rlp_enc vs)) < length plain" unfolding e using length_rlpList by simp
  have h: "rlpHeader plain = Inr (True, concat (map rlp_enc vs), [])"
    using rlpHeader_enc [OF small, of "[]"] by (simp add: e)
  have "rlpItems_fuel (2 * length plain) 0 (concat (map rlp_enc vs)) = Some (Inl ErrBatchTooLarge)"
    using c l n by (intro rlpItems_over) (auto simp: vs_def rlp_short_txVal maxBatchPlain_def)
  then have "rlpDecode_fuel (Suc (2 * length plain)) plain = Some (Inl ErrBatchTooLarge)"
    using h by simp
  then have "rlpDecode plain = Inl ErrBatchTooLarge" using rlpDecode_total [of plain] by simp
  moreover have "plain \<noteq> []" unfolding e by (rule rlp_enc_nonempty)
  ultimately show ?thesis by (simp add: unpackPlain_def)
qed

lemma packItems_replicate:
  "tot + n * length (encodeTx tx) \<le> maxBatchPlain \<Longrightarrow>
   packItems (replicate n (Some tx)) tot = Inr (replicate n (encodeTx tx))"
  by (induction n arbitrary: tot) (auto simp: Let_def)

lemma length_encodeTx_new: "length (encodeTx newTransaction) = 65"
proof -
  have "rlpIntLen 63 = 1" by (simp add: rlpIntLen.simps [of 63] rlpIntLen.simps [of 0])
  then show ?thesis
    by (simp add: encodeTx_def newTransaction_def rlpU64_def rlpU256_def rlpList_def rlpBytes_def
        RlpEncodeBytes_def RlpEncodeListHeader_def Let_def)
qed

end
