(* ===== verification/Retryable.thy ===== *)
theory Retryable
  imports Batch_Poster Division_Correct Keccak
begin

text \<open>
  \<open>c2seq/retryable.go\<close>: overflow-checked gas arithmetic, the quote of a retryable ticket,
  and the ticket engine. The checked operations are proved to compute over the naturals
  or to fail exactly when the result does not fit; an accepted ticket is fully funded;
  a stored ticket is redeemed at most once between two creations.
\<close>

section \<open>Definitions\<close>

datatype RetryableStatus = RetryableCreated | RetryableAutoRedeemed | RetryableManualRedeemed

datatype gas_error = ErrGasOverflow | ErrGasUnderflow | ErrSubmissionFee | ErrDeposit
  | ErrTicketMissing | ErrTicketState

definition SafeAddGas :: "u64 \<Rightarrow> u64 \<Rightarrow> gas_error + u64" where
  "SafeAddGas a b = (let (sum, c) = Add64 a b 0 in if c \<noteq> 0 then Inl ErrGasOverflow else Inr sum)"

definition SafeSubGas :: "u64 \<Rightarrow> u64 \<Rightarrow> gas_error + u64" where
  "SafeSubGas a b = (let (d, br) = Sub64 a b 0 in if br \<noteq> 0 then Inl ErrGasUnderflow else Inr d)"

definition SafeMulGas :: "u64 \<Rightarrow> u64 \<Rightarrow> gas_error + u64" where
  "SafeMulGas a b = (let (hi, lo) = Mul64 a b in if hi \<noteq> 0 then Inl ErrGasOverflow else Inr lo)"

definition addU256Checked :: "Uint256 \<Rightarrow> Uint256 \<Rightarrow> gas_error + Uint256" where
  "addU256Checked a b =
     (let out = Add256 a b
      in if \<not> IsZero b \<and> Cmp out a < 0 then Inl ErrGasOverflow else Inr out)"

text \<open>The loop of \<open>mulU256U64Checked\<close> over the limbs, low limb first.\<close>

fun mulU64_limbs :: "u64 list \<Rightarrow> u64 \<Rightarrow> u64 \<Rightarrow> gas_error + u64 list \<times> u64" where
  "mulU64_limbs [] n carry = Inr ([], carry)"
| "mulU64_limbs (ai # as) n carry =
     (let (hi, lo) = Mul64 ai n;
          (sum, c1) = Add64 lo carry 0;
          (next, c2) = Add64 hi 0 c1
      in if c2 \<noteq> 0 then Inl ErrGasOverflow
         else andThen (mulU64_limbs as n next) (\<lambda>(out, carry). Inr (sum # out, carry)))"

definition mulU256U64Checked :: "Uint256 \<Rightarrow> u64 \<Rightarrow> gas_error + Uint256" where
  "mulU256U64Checked a n =
     andThen (mulU64_limbs (limbs a) n 0) (\<lambda>(out, carry).
       if carry \<noteq> 0 then Inl ErrGasOverflow else Inr (U256 (out ! 0) (out ! 1) (out ! 2) (out ! 3)))"

record RetryableParams =
  p_From :: bytes
  p_To :: "bytes option"
  p_CallValue :: Uint256
  p_Deposit :: Uint256
  p_MaxSubmissionFee :: Uint256
  p_ExcessFeeRefundTo :: bytes
  p_CallValueRefundTo :: bytes
  p_GasLimit :: u64
  p_MaxFeePerGas :: Uint256
  p_Data :: bytes
  p_L1BaseFee :: Uint256
  p_GasProvided :: u64

record RetryableTicket =
  t_ID :: bytes
  t_From :: bytes
  t_To :: "bytes option"
  t_CallValue :: Uint256
  t_Deposit :: Uint256
  t_MaxSubmissionFee :: Uint256
  t_ExcessFeeRefundTo :: bytes
  t_CallValueRefundTo :: bytes
  t_GasLimit :: u64
  t_MaxFeePerGas :: Uint256
  t_Data :: bytes
  t_Status :: RetryableStatus
  t_SubmissionGas :: u64
  t_SubmissionFee :: Uint256

type_synonym RetryableEngine = "bytes \<rightharpoonup> RetryableTicket"

text \<open>The length of a slice is never negative, so the first test of \<open>submissionGas\<close> never
  fires.\<close>

definition submissionGas :: "nat \<Rightarrow> gas_error + u64" where
  "submissionGas dataLen = andThen (SafeMulGas 6 (of_nat dataLen)) (\<lambda>n. SafeAddGas 1400 n)"

definition quoteRetryable :: "RetryableParams \<Rightarrow> gas_error + u64 \<times> Uint256 \<times> Uint256 \<times> Uint256" where
  "quoteRetryable p =
     andThen (submissionGas (length (p_Data p))) (\<lambda>subGas.
     andThen (mulU256U64Checked (p_L1BaseFee p) subGas) (\<lambda>subFee.
     guard (\<not> Cmp subFee (p_MaxSubmissionFee p) > 0) ErrSubmissionFee (
     andThen (mulU256U64Checked (p_MaxFeePerGas p) (p_GasLimit p)) (\<lambda>exec.
     andThen (addU256Checked subFee exec) (\<lambda>tot.
     andThen (addU256Checked tot (p_CallValue p)) (\<lambda>tot.
     guard (\<not> Cmp (p_Deposit p) tot < 0) ErrDeposit (
     andThen (SafeSubGas (p_GasProvided p) subGas) (\<lambda>_.
     Inr (subGas, subFee, exec, tot)))))))))"

definition ticketID :: "RetryableParams \<Rightarrow> bytes" where
  "ticketID p = Keccak256
     (p_From p @ (case p_To p of Some a \<Rightarrow> 0x01 # a | None \<Rightarrow> [0x00]) @ BytesBE (p_CallValue p) @ p_Data p
      @ BytesBE (FromU64 (p_GasLimit p)))"

definition ticketToTx :: "RetryableTicket \<Rightarrow> u64 \<Rightarrow> Transaction" where
  "ticketToTx t nonce =
     newTransaction\<lparr>tx_Type := 2, tx_Nonce := nonce, tx_GasTipCap := t_MaxFeePerGas t,
       tx_GasFeeCap := t_MaxFeePerGas t, tx_GasPrice := t_MaxFeePerGas t, tx_Gas := t_GasLimit t,
       tx_To := t_To t, tx_Value := t_CallValue t, tx_Data := t_Data t, tx_From := t_From t,
       tx_Hash := (t_ID t)[0 := t_ID t ! 0 XOR 0xa5]\<rparr>"

definition Create :: "RetryableEngine \<Rightarrow> RetryableParams \<Rightarrow>
    gas_error + RetryableEngine \<times> RetryableTicket \<times> Transaction option" where
  "Create e p =
     andThen (quoteRetryable p) (\<lambda>(subGas, subFee, _, _).
     andThen (SafeSubGas (p_GasProvided p) subGas) (\<lambda>left.
       let t = \<lparr>t_ID = ticketID p, t_From = p_From p, t_To = p_To p, t_CallValue = p_CallValue p,
                t_Deposit = p_Deposit p, t_MaxSubmissionFee = p_MaxSubmissionFee p,
                t_ExcessFeeRefundTo = p_ExcessFeeRefundTo p, t_CallValueRefundTo = p_CallValueRefundTo p,
                t_GasLimit = p_GasLimit p, t_MaxFeePerGas = p_MaxFeePerGas p, t_Data = p_Data p,
                t_Status = RetryableCreated, t_SubmissionGas = subGas, t_SubmissionFee = subFee\<rparr>
       in if p_GasLimit p = 0 then Inr (e(t_ID t \<mapsto> t), t, None)
          else if left < p_GasLimit p then Inr (e(t_ID t \<mapsto> t), t, None)
          else
            (let t = t\<lparr>t_Status := RetryableAutoRedeemed\<rparr>
             in Inr (e(t_ID t \<mapsto> t), t, Some (ticketToTx t 0)))))"

definition AutoRedeem :: "RetryableEngine \<Rightarrow> bytes \<Rightarrow> gas_error + RetryableEngine \<times> Transaction" where
  "AutoRedeem e i =
     (case e i of
        None \<Rightarrow> Inl ErrTicketMissing
      | Some t \<Rightarrow>
          if t_Status t \<noteq> RetryableCreated then Inl ErrTicketState
          else if t_GasLimit t = 0 then Inl ErrTicketState
          else
            (let t = t\<lparr>t_Status := RetryableAutoRedeemed\<rparr>
             in Inr (e(i \<mapsto> t), ticketToTx t 0)))"

definition ManualRedeem ::
  "RetryableEngine \<Rightarrow> bytes \<Rightarrow> u64 \<Rightarrow> Uint256 \<Rightarrow> gas_error + RetryableEngine \<times> Transaction" where
  "ManualRedeem e i gasLimit maxFee =
     andThen (mulU256U64Checked maxFee gasLimit) (\<lambda>_.
     (case e i of
        None \<Rightarrow> Inl ErrTicketMissing
      | Some t \<Rightarrow>
          if t_Status t \<noteq> RetryableCreated then Inl ErrTicketState
          else if gasLimit = 0 then Inl ErrTicketState
          else
            (let t = t\<lparr>t_GasLimit := gasLimit, t_MaxFeePerGas := maxFee, t_Status := RetryableManualRedeemed\<rparr>
             in Inr (e(i \<mapsto> t), ticketToTx t 0))))"

definition Get :: "RetryableEngine \<Rightarrow> bytes \<Rightarrow> RetryableTicket option" where
  "Get e i = e i"

section \<open>Checked arithmetic\<close>

lemma SafeAddGas_iff: "SafeAddGas a b = (if unat a + unat b < B64 then Inr (a + b) else Inl ErrGasOverflow)"
  by (simp add: SafeAddGas_def Add64_def)

lemma SafeSubGas_iff: "SafeSubGas a b = (if b \<le> a then Inr (a - b) else Inl ErrGasUnderflow)"
  by (simp add: SafeSubGas_def Sub64_def word_le_nat_alt)

lemma SafeMulGas_iff: "SafeMulGas a b = (if unat a * unat b < B64 then Inr (a * b) else Inl ErrGasOverflow)"
proof -
  obtain hi lo where m: "Mul64 a b = (hi, lo)" by fastforce
  have s: "unat lo + B64 * unat hi = unat a * unat b" using Mul64_spec [OF m] .
  have "hi = 0 \<longleftrightarrow> unat a * unat b < B64"
  proof
    assume "hi = 0"
    then show "unat a * unat b < B64" using s unat_lt_B64 [of lo] by simp
  next
    assume "unat a * unat b < B64"
    then have "B64 * unat hi < B64 * 1" using s by linarith
    then show "hi = 0" by (simp add: unat_eq_zero)
  qed
  moreover have "lo = a * b" if "hi = 0"
  proof -
    have "unat lo = unat a * unat b" using s that by simp
    moreover have "unat a * unat b < B64" using calculation unat_lt_B64 [of lo] by simp
    ultimately show ?thesis by (simp add: word_unat_eq_iff unat_u64_arith)
  qed
  ultimately show ?thesis using m by (simp add: SafeMulGas_def)
qed

lemma Cmp_signs: "Cmp x y < 0 \<longleftrightarrow> uval x < uval y" "Cmp x y > 0 \<longleftrightarrow> uval y < uval x"
  using Cmp_uval [of x y] by (auto split: if_splits)

lemma wrapped_sum:
  fixes a b M :: nat
  assumes "a < M" "b < M"
  shows "0 < b \<and> (a + b) mod M < a \<longleftrightarrow> M \<le> a + b"
proof (cases "a + b < M")
  case False
  then have "(a + b) mod M = a + b - M" using assms by (simp add: mod_if)
  then show ?thesis using False assms by auto
qed simp

lemma addU256Checked_iff:
  "addU256Checked a b = (if uval a + uval b < 2 ^ 256 then Inr (Add256 a b) else Inl ErrGasOverflow)"
proof -
  have "\<not> IsZero b \<and> Cmp (Add256 a b) a < 0 \<longleftrightarrow> 0 < uval b \<and> (uval a + uval b) mod 2 ^ 256 < uval a"
    by (simp add: Cmp_signs uval_Add256 neq0_conv [symmetric] del: neq0_conv)
  also have "\<dots> \<longleftrightarrow> 2 ^ 256 \<le> uval a + uval b" by (rule wrapped_sum [OF uval_lt uval_lt])
  finally show ?thesis by (simp only: addU256Checked_def Let_def not_less [symmetric]) simp
qed

lemma mulU64_limbs_spec:
  "\<exists>out carry'. mulU64_limbs as n carry = Inr (out, carry') \<and> length out = length as \<and>
     lval out + B64 ^ length as * unat carry' = lval as * unat n + unat carry"
proof (induction as n carry rule: mulU64_limbs.induct)
  case (2 ai as n carry)
  obtain hi lo sum c1 nx c2 where e: "Mul64 ai n = (hi, lo)" "Add64 lo carry 0 = (sum, c1)"
    "Add64 hi 0 c1 = (nx, c2)" by (metis surj_pair)
  have c1: "unat c1 \<le> 1" using Add64_spec(2) [OF e(2)] by simp
  have s: "unat lo + B64 * unat hi = unat ai * unat n" "unat sum + B64 * unat c1 = unat lo + unat carry"
    "unat nx + B64 * unat c2 = unat hi + unat c1"
    using Mul64_spec [OF e(1)] Add64_spec(1) [OF e(2)] Add64_spec(1) [OF e(3) c1] by simp_all
  have le: "unat x \<le> B64 - 1" for x :: u64 using unat_lt_B64 [of x] by linarith
  have "unat ai * unat n + unat carry \<le> (B64 - 1) * (B64 - 1) + (B64 - 1)" by (intro add_mono mult_le_mono le)
  also have "\<dots> < B64 * B64" by (simp add: B64_def)
  finally have "unat sum + B64 * (unat hi + unat c1) < B64 * B64" using s by (simp add: algebra_simps)
  then have "B64 * (unat hi + unat c1) < B64 * B64" by linarith
  then have "unat hi + unat c1 < B64" by simp
  then have "B64 * unat c2 < B64 * 1" using s(3) by linarith
  then have c2: "c2 = 0" by (simp add: unat_eq_zero)
  obtain out carry' where r: "mulU64_limbs as n nx = Inr (out, carry')" "length out = length as"
    "lval out + B64 ^ length as * unat carry' = lval as * unat n + unat nx"
    using "2.IH" [OF e(1) [symmetric] refl e(2) [symmetric] refl e(3) [symmetric] refl] c2 by auto
  have "B64 * (lval out + B64 ^ length as * unat carry') = B64 * (lval as * unat n + unat nx)" by (simp only: r)
  then have "lval (sum # out) + B64 ^ length (ai # as) * unat carry' = lval (ai # as) * unat n + unat carry"
    using s c2 by (simp add: algebra_simps)
  then show ?case using e r c2 by simp
qed simp

lemma mulU256U64Checked_iff:
  "mulU256U64Checked a n = Inr out \<Longrightarrow> uval out = uval a * unat n"
  "mulU256U64Checked a n = Inl e \<Longrightarrow> 2 ^ 256 \<le> uval a * unat n \<and> e = ErrGasOverflow"
proof -
  obtain xs c where r: "mulU64_limbs (limbs a) n 0 = Inr (xs, c)" "length xs = 4" "lval xs + B64 ^ 4 * unat c = uval a * unat n"
    using mulU64_limbs_spec [of "limbs a" n 0] by auto
  obtain x0 x1 x2 x3 where xs: "xs = [x0, x1, x2, x3]"
    using r(2) by (auto simp: numeral_eq_Suc length_Suc_conv)
  have m: "mulU256U64Checked a n = (if c \<noteq> 0 then Inl ErrGasOverflow else Inr (U256 x0 x1 x2 x3))"
    using r(1) by (simp add: mulU256U64Checked_def xs)
  show "uval out = uval a * unat n" if "mulU256U64Checked a n = Inr out"
    using that m r(3) by (auto simp: xs uval_U256 split: if_splits)
  show "2 ^ 256 \<le> uval a * unat n \<and> e = ErrGasOverflow" if "mulU256U64Checked a n = Inl e"
  proof -
    have "c \<noteq> 0" "e = ErrGasOverflow" using that m by (simp_all split: if_splits)
    moreover have "B64 ^ 4 * 1 \<le> B64 ^ 4 * unat c" if "c \<noteq> 0" using that
      by (intro mult_le_mono2) (simp add: Suc_le_eq unat_gt_0)
    ultimately show ?thesis using r(3) B64_4 by (metis le_trans le_add2 mult_1_right)
  qed
qed

section \<open>Tickets\<close>

text \<open>An accepted quote is exact: no sum or product wrapped, and the deposit covers it.\<close>

lemma quoteRetryable_funded:
  assumes "quoteRetryable p = Inr (subGas, subFee, exec, tot)"
  shows "unat subGas = 1400 + 6 * unat (of_nat (length (p_Data p)) :: u64)"
    and "uval subFee = uval (p_L1BaseFee p) * unat subGas" and "uval subFee \<le> uval (p_MaxSubmissionFee p)"
    and "uval exec = uval (p_MaxFeePerGas p) * unat (p_GasLimit p)"
    and "uval tot = uval subFee + uval exec + uval (p_CallValue p)" and "uval tot \<le> uval (p_Deposit p)"
    and "subGas \<le> p_GasProvided p"
proof -
  obtain n t1 where q: "SafeMulGas 6 (of_nat (length (p_Data p))) = Inr n" "SafeAddGas 1400 n = Inr subGas"
    "mulU256U64Checked (p_L1BaseFee p) subGas = Inr subFee" "\<not> Cmp subFee (p_MaxSubmissionFee p) > 0"
    "mulU256U64Checked (p_MaxFeePerGas p) (p_GasLimit p) = Inr exec" "addU256Checked subFee exec = Inr t1"
    "addU256Checked t1 (p_CallValue p) = Inr tot" "\<not> Cmp (p_Deposit p) tot < 0"
    "SafeSubGas (p_GasProvided p) subGas \<noteq> Inl ErrGasUnderflow"
    using assms by (auto simp: quoteRetryable_def submissionGas_def andThen_Inr guard_Inr)
  have n: "unat n = 6 * unat (of_nat (length (p_Data p)) :: u64)"
    using q(1) by (auto simp: SafeMulGas_iff unat_u64_arith split: if_splits)
  show "unat subGas = 1400 + 6 * unat (of_nat (length (p_Data p)) :: u64)"
    using q(2) n by (auto simp: SafeAddGas_iff unat_u64_arith(1) split: if_splits)
  show "uval subFee = uval (p_L1BaseFee p) * unat subGas" "uval exec = uval (p_MaxFeePerGas p) * unat (p_GasLimit p)"
    using q(3,5) mulU256U64Checked_iff(1) by auto
  show "uval subFee \<le> uval (p_MaxSubmissionFee p)" "uval tot \<le> uval (p_Deposit p)"
    using q(4,8) by (simp_all add: Cmp_signs not_less)
  have "uval (Add256 x y) = uval x + uval y" if "uval x + uval y < 2 ^ 256" for x y
    using that by (simp add: uval_Add256)
  then show "uval tot = uval subFee + uval exec + uval (p_CallValue p)"
    using q(6,7) by (auto simp: addU256Checked_iff split: if_splits)
  show "subGas \<le> p_GasProvided p" using q(9) by (simp add: SafeSubGas_iff split: if_splits)
qed

text \<open>The life of the ticket stored under an identifier, creations of it excluded.\<close>

inductive redeem_step :: "RetryableEngine \<Rightarrow> bytes \<Rightarrow> RetryableEngine \<Rightarrow> bool" where
  auto: "AutoRedeem e i = Inr (e', tx) \<Longrightarrow> redeem_step e i e'"
| manual: "ManualRedeem e i g m = Inr (e', tx) \<Longrightarrow> redeem_step e i e'"

inductive_cases redeem_stepE: "redeem_step e i e'"

lemma redeem_once:
  assumes "redeem_step e i e'"
  shows "\<exists>t t'. e i = Some t \<and> t_Status t = RetryableCreated \<and> e' i = Some t' \<and> t_Status t' \<noteq> RetryableCreated"
    and "j \<noteq> i \<Longrightarrow> e' j = e j"
  using assms
  by (auto elim!: redeem_stepE simp: AutoRedeem_def ManualRedeem_def andThen_Inr Let_def split: option.splits if_splits)

lemma redeemed_stays:
  assumes "e i = Some t" "t_Status t \<noteq> RetryableCreated"
  shows "AutoRedeem e i = Inl ErrTicketState" and "\<nexists>e'. redeem_step e i e'"
proof -
  show "AutoRedeem e i = Inl ErrTicketState" using assms by (simp add: AutoRedeem_def)
  show "\<nexists>e'. redeem_step e i e'"
  proof
    assume "\<exists>e'. redeem_step e i e'"
    then obtain t0 where "e i = Some t0" "t_Status t0 = RetryableCreated" using redeem_once(1) by blast
    then show False using assms by simp
  qed
qed

text \<open>\<open>Create\<close> stores its ticket whatever the identifier held before.\<close>

lemma Create_overwrites:
  assumes "Create e p = Inr (e', t', otx)"
  shows "e' (ticketID p) = Some t' \<and> t_GasLimit t' = p_GasLimit p \<and>
    (case otx of None \<Rightarrow> t_Status t' = RetryableCreated | Some tx \<Rightarrow> t_Status t' = RetryableAutoRedeemed \<and> tx = ticketToTx t' 0)"
  using assms by (auto simp: Create_def andThen_Inr Let_def split: if_splits prod.splits)

lemma AutoRedeem_created:
  "e i = Some t \<Longrightarrow> t_Status t = RetryableCreated \<Longrightarrow> t_GasLimit t \<noteq> 0 \<Longrightarrow> \<exists>e' tx. AutoRedeem e i = Inr (e', tx)"
  by (simp add: AutoRedeem_def Let_def)

lemma ManualRedeem_created:
  assumes "e i = Some t" "t_Status t = RetryableCreated" "gl \<noteq> 0" "uval fee * unat gl < 2 ^ 256"
  shows "\<exists>e' tx. ManualRedeem e i gl fee = Inr (e', tx)"
proof (cases "mulU256U64Checked fee gl")
  case (Inl err)
  then show ?thesis using mulU256U64Checked_iff(2) [OF Inl] assms(4) by simp
next
  case (Inr x)
  then show ?thesis using assms(1-3) by (simp add: ManualRedeem_def Let_def andThen_def)
qed

lemma Create_others: "Create e p = Inr (e', t', tx) \<Longrightarrow> i \<noteq> ticketID p \<Longrightarrow> e' i = e i"
  by (auto simp: Create_def andThen_Inr Let_def split: if_splits prod.splits)

end
