(* ===== verification/Mempool.thy ===== *)
theory Mempool
  imports Retryable
begin

text \<open>
  \<open>c2seq/mempool.go\<close>: pending transactions indexed by hash and, per sender, in a list
  ordered by nonce. Go maps are HOL maps. \<open>PopBatch\<close> scans the senders in the order of a
  Go map iteration, which the language leaves open and may change from one pass to the
  next: the order of pass \<open>i\<close> is \<open>order i\<close>. Slices are owned by the pool alone, so they
  are values. The lock is not modelled.
\<close>

section \<open>Definitions\<close>

datatype pool_error = ErrNilTx | ErrDuplicate | ErrUnderpriced

record Mempool =
  byHash :: "bytes \<rightharpoonup> Transaction"
  bySender :: "bytes \<rightharpoonup> Transaction list"

definition NewMempool :: Mempool where
  "NewMempool = \<lparr>byHash = Map.empty, bySender = Map.empty\<rparr>"

definition txTip :: "Transaction \<Rightarrow> Uint256" where
  "txTip tx = (if \<not> IsZero (tx_GasTipCap tx) then tx_GasTipCap tx else tx_GasPrice tx)"

text \<open>\<open>bytes.Compare\<close>\<close>

fun bytesCompare :: "bytes \<Rightarrow> bytes \<Rightarrow> int" where
  "bytesCompare [] [] = 0"
| "bytesCompare [] (y # ys) = - 1"
| "bytesCompare (x # xs) [] = 1"
| "bytesCompare (x # xs) (y # ys) = (if x < y then - 1 else if y < x then 1 else bytesCompare xs ys)"

definition tipCmp :: "Transaction \<Rightarrow> Transaction \<Rightarrow> int" where
  "tipCmp a b =
     (let c = Cmp (txTip a) (txTip b)
      in if c \<noteq> 0 then c else bytesCompare (tx_Hash a) (tx_Hash b))"

definition popPrefer :: "Transaction \<Rightarrow> Transaction \<Rightarrow> bool" where
  "popPrefer a b =
     (if tx_Nonce a < tx_Nonce b then True
      else if tx_Nonce a > tx_Nonce b then False
      else tipCmp a b > 0)"

text \<open>A missing key reads as the empty slice.\<close>

definition senderList :: "Mempool \<Rightarrow> bytes \<Rightarrow> Transaction list" where
  "senderList m a = (case bySender m a of None \<Rightarrow> [] | Some l \<Rightarrow> l)"

text \<open>The first loop of \<open>AddTx\<close> finds the transaction with the same nonce, the second the
  place of insertion.\<close>

fun findNonce :: "Transaction list \<Rightarrow> u64 \<Rightarrow> nat option" where
  "findNonce [] n = None"
| "findNonce (ex # l) n = (if tx_Nonce ex = n then Some 0 else map_option Suc (findNonce l n))"

fun insertPos :: "Transaction list \<Rightarrow> u64 \<Rightarrow> nat" where
  "insertPos [] n = 0"
| "insertPos (ex # l) n = (if tx_Nonce ex > n then 0 else Suc (insertPos l n))"

definition AddTx :: "Mempool \<Rightarrow> Transaction option \<Rightarrow> pool_error + Mempool" where
  "AddTx m txp =
     (case txp of
        None \<Rightarrow> Inl ErrNilTx
      | Some tx \<Rightarrow>
          if byHash m (tx_Hash tx) \<noteq> None then Inl ErrDuplicate
          else
            (let l = senderList m (tx_From tx)
             in case findNonce l (tx_Nonce tx) of
                  Some i \<Rightarrow>
                    (let ex = l ! i
                     in if Cmp (txTip tx) (txTip ex) \<le> 0 then Inl ErrUnderpriced
                        else Inr (m\<lparr>byHash := (byHash m)(tx_Hash ex := None, tx_Hash tx \<mapsto> tx),
                                    bySender := (bySender m)(tx_From tx \<mapsto> l[i := tx])\<rparr>))
                | None \<Rightarrow>
                    (let ins = insertPos l (tx_Nonce tx)
                     in Inr (m\<lparr>byHash := (byHash m)(tx_Hash tx \<mapsto> tx),
                               bySender := (bySender m)(tx_From tx \<mapsto> take ins l @ tx # drop ins l)\<rparr>))))"

fun removeHash :: "bytes \<Rightarrow> Transaction list \<Rightarrow> Transaction list" where
  "removeHash h [] = []"
| "removeHash h (ex # l) = (if tx_Hash ex \<noteq> h then ex # removeHash h l else l)"

definition removeLocked :: "Mempool \<Rightarrow> bytes \<Rightarrow> Mempool" where
  "removeLocked m hash =
     (case byHash m hash of
        None \<Rightarrow> m
      | Some tx \<Rightarrow>
          (let l = removeHash hash (senderList m (tx_From tx));
               m = m\<lparr>byHash := (byHash m)(hash := None)\<rparr>
           in if l = [] then m\<lparr>bySender := (bySender m)(tx_From tx := None)\<rparr>
              else m\<lparr>bySender := (bySender m)(tx_From tx \<mapsto> l)\<rparr>))"

definition RemoveTx :: "Mempool \<Rightarrow> bytes \<Rightarrow> Mempool" where
  "RemoveTx m hash = removeLocked m hash"

definition Count :: "Mempool \<Rightarrow> nat" where
  "Count m = card (dom (byHash m))"

text \<open>One pass of \<open>PopBatch\<close> over the heads: the preferred transaction that fits.\<close>

fun scanHeads :: "Mempool \<Rightarrow> u64 \<Rightarrow> u64 \<Rightarrow> (bytes \<rightharpoonup> int) \<Rightarrow> bytes list \<Rightarrow>
    (bytes \<times> Transaction) option \<Rightarrow> (bytes \<times> Transaction) option" where
  "scanHeads m maxGas used heads [] best = best"
| "scanHeads m maxGas used heads (addr # as) best =
     (case heads addr of
        None \<Rightarrow> scanHeads m maxGas used heads as best
      | Some idx \<Rightarrow>
          (let l = senderList m addr
           in if idx < 0 \<or> idx \<ge> int (length l) then scanHeads m maxGas used heads as best
              else
                (let tx = l ! nat idx
                 in if maxGas < tx_Gas tx then scanHeads m maxGas used heads as best
                    else
                      (case SafeSubGas maxGas used of
                         Inl _ \<Rightarrow> scanHeads m maxGas used heads as best
                       | Inr remain \<Rightarrow>
                           if tx_Gas tx > remain then scanHeads m maxGas used heads as best
                           else if (case best of None \<Rightarrow> True | Some (_, b) \<Rightarrow> popPrefer tx b)
                           then scanHeads m maxGas used heads as (Some (addr, tx))
                           else scanHeads m maxGas used heads as best))))"

text \<open>The loop, with the number of the pass and a bound on the passes; \<open>None\<close> is reaching it.\<close>

fun popLoop :: "nat \<Rightarrow> (nat \<Rightarrow> bytes list) \<Rightarrow> u64 \<Rightarrow> int \<Rightarrow> Mempool \<Rightarrow> (bytes \<rightharpoonup> int) \<Rightarrow>
    Transaction list \<Rightarrow> u64 \<Rightarrow> nat \<Rightarrow> (Mempool \<times> Transaction list) option" where
  "popLoop 0 order maxGas maxCount m heads out used i = None"
| "popLoop (Suc f) order maxGas maxCount m heads out used i =
     (if maxCount > 0 \<and> int (length out) \<ge> maxCount then Some (m, out)
      else
        (case scanHeads m maxGas used heads (order i) None of
           None \<Rightarrow> Some (m, out)
         | Some (bestAddr, best) \<Rightarrow>
             (case SafeAddGas used (tx_Gas best) of
                Inl _ \<Rightarrow> popLoop f order maxGas maxCount m (heads(bestAddr \<mapsto> - 1)) out used (Suc i)
              | Inr next \<Rightarrow>
                  (let m = removeLocked m (tx_Hash best);
                       heads = (if bySender m bestAddr \<noteq> None then heads(bestAddr \<mapsto> 0)
                                else heads(bestAddr := None))
                   in popLoop f order maxGas maxCount m heads (out @ [best]) next (Suc i)))))"

definition PopBatch :: "nat \<Rightarrow> (nat \<Rightarrow> bytes list) \<Rightarrow> Mempool \<Rightarrow> u64 \<Rightarrow> int \<Rightarrow> (Mempool \<times> Transaction list) option" where
  "PopBatch f order m maxGas maxCount =
     (if maxCount = 0 \<or> maxGas = 0 then Some (m, [])
      else popLoop f order maxGas maxCount m (\<lambda>a. if bySender m a \<noteq> None then Some 0 else None) [] 0 0)"

section \<open>Invariant\<close>

definition pool_ok :: "Mempool \<Rightarrow> bool" where
  "pool_ok m \<longleftrightarrow>
     (\<forall>h tx. byHash m h = Some tx \<longrightarrow> tx_Hash tx = h \<and> tx \<in> set (senderList m (tx_From tx))) \<and>
     (\<forall>a l. bySender m a = Some l \<longrightarrow> l \<noteq> [] \<and> sorted_wrt (<) (map tx_Nonce l) \<and>
        (\<forall>tx \<in> set l. tx_From tx = a \<and> byHash m (tx_Hash tx) = Some tx))"

lemma pool_ok_new: "pool_ok NewMempool"
  by (simp add: pool_ok_def NewMempool_def)

lemma findNonce_Some: "findNonce l n = Some i \<Longrightarrow> i < length l \<and> tx_Nonce (l ! i) = n"
  by (induction l arbitrary: i) (auto split: if_splits)

lemma findNonce_None: "findNonce l n = None \<longleftrightarrow> (\<forall>tx \<in> set l. tx_Nonce tx \<noteq> n)"
  by (induction l) auto

lemma insertPos_sorted:
  assumes "sorted_wrt (<) (map tx_Nonce l)" "\<forall>ex \<in> set l. tx_Nonce ex \<noteq> tx_Nonce tx"
  shows "sorted_wrt (<) (map tx_Nonce (take (insertPos l (tx_Nonce tx)) l @ tx # drop (insertPos l (tx_Nonce tx)) l))"
  using assms
proof (induction l)
  case (Cons ex l)
  show ?case
  proof (cases "tx_Nonce ex > tx_Nonce tx")
    case False
    then have lt: "tx_Nonce ex < tx_Nonce tx" using Cons.prems(2) by auto
    have "\<forall>x \<in> set (take (insertPos l (tx_Nonce tx)) l @ tx # drop (insertPos l (tx_Nonce tx)) l). tx_Nonce ex < tx_Nonce x"
      using Cons.prems(1) lt by (auto dest: in_set_takeD in_set_dropD)
    then show ?thesis using Cons False by auto
  qed (use Cons.prems in \<open>auto intro: less_trans\<close>)
qed simp

lemma set_insert_at: "set (take i l @ x # drop i l) = insert x (set l)"
  by (metis append_take_drop_id set_append list.simps(15) Un_insert_right)

lemma senderList_ok:
  assumes "pool_ok m"
  shows "sorted_wrt (<) (map tx_Nonce (senderList m a))"
    and "tx \<in> set (senderList m a) \<Longrightarrow> tx_From tx = a \<and> byHash m (tx_Hash tx) = Some tx"
  using assms by (cases "bySender m a"; simp add: pool_ok_def senderList_def)+

lemma byHash_ok:
  assumes "pool_ok m" "byHash m k = Some x"
  shows "tx_Hash x = k" and "tx_From x = a \<Longrightarrow> x \<in> set (senderList m a)"
  using assms by (auto simp: pool_ok_def)

lemma sorted_update:
  assumes "sorted_wrt (<) (map tx_Nonce l)" "i < length l" "tx_Nonce tx = tx_Nonce (l ! i)"
  shows "sorted_wrt (<) (map tx_Nonce (l[i := tx]))"
proof -
  have "map tx_Nonce (l[i := tx]) = map tx_Nonce l" using assms(2,3) by (metis list_update_id map_update)
  then show ?thesis using assms(1) by simp
qed

lemma nonces_distinct:
  assumes "sorted_wrt (<) (map tx_Nonce l)"
  shows "distinct (map tx_Nonce l)"
  using assms strict_sorted_iff by blast

text \<open>The pool after a list of one sender is exchanged.\<close>

lemma pool_ok_exchange:
  assumes ok: "pool_ok m" and l: "l \<noteq> []" "sorted_wrt (<) (map tx_Nonce l)"
    and own: "\<forall>tx \<in> set l. tx_From tx = a \<and> h (tx_Hash tx) = Some tx"
    and hash: "\<And>k tx. h k = Some tx \<Longrightarrow> tx_Hash tx = k \<and> (tx \<in> set l \<or> tx_From tx \<noteq> a \<and> byHash m k = Some tx)"
    and keep: "\<And>k tx. byHash m k = Some tx \<Longrightarrow> tx_From tx \<noteq> a \<Longrightarrow> h k = Some tx"
  shows "pool_ok (m\<lparr>byHash := h, bySender := (bySender m)(a \<mapsto> l)\<rparr>)"
  unfolding pool_ok_def
proof (intro conjI allI impI)
  fix k tx
  assume "byHash (m\<lparr>byHash := h, bySender := (bySender m)(a \<mapsto> l)\<rparr>) k = Some tx"
  then have k: "h k = Some tx" by simp
  show "tx_Hash tx = k" using hash [OF k] by simp
  show "tx \<in> set (senderList (m\<lparr>byHash := h, bySender := (bySender m)(a \<mapsto> l)\<rparr>) (tx_From tx))"
    using hash [OF k] own ok by (auto simp: senderList_def pool_ok_def)
next
  fix b l'
  assume b: "bySender (m\<lparr>byHash := h, bySender := (bySender m)(a \<mapsto> l)\<rparr>) b = Some l'"
  show "l' \<noteq> []" "sorted_wrt (<) (map tx_Nonce l')"
    using b l ok by (auto simp: pool_ok_def split: if_splits)
  show "\<forall>tx \<in> set l'. tx_From tx = b \<and> byHash (m\<lparr>byHash := h, bySender := (bySender m)(a \<mapsto> l)\<rparr>) (tx_Hash tx) = Some tx"
  proof (cases "b = a")
    case True
    then show ?thesis using b own by simp
  next
    case False
    then show ?thesis using b ok keep by (auto simp: pool_ok_def)
  qed
qed

lemma AddTx_replace_ok:
  assumes ok: "pool_ok m" and new: "byHash m (tx_Hash tx) = None"
    and i: "findNonce (senderList m (tx_From tx)) (tx_Nonce tx) = Some i"
  shows "pool_ok (m\<lparr>byHash := (byHash m)(tx_Hash (senderList m (tx_From tx) ! i) := None, tx_Hash tx \<mapsto> tx),
      bySender := (bySender m)(tx_From tx \<mapsto> (senderList m (tx_From tx))[i := tx])\<rparr>)"
proof -
  define l where "l = senderList m (tx_From tx)"
  have il: "i < length l" "tx_Nonce (l ! i) = tx_Nonce tx" using findNonce_Some [OF i] by (simp_all add: l_def)
  have srt: "sorted_wrt (<) (map tx_Nonce l)" using senderList_ok(1) [OF ok] by (simp add: l_def)
  have mem: "tx_From x = tx_From tx \<and> byHash m (tx_Hash x) = Some x" if "x \<in> set l" for x
    using senderList_ok(2) [OF ok] that by (simp add: l_def)
  have ex: "byHash m (tx_Hash (l ! i)) = Some (l ! i)" "tx_From (l ! i) = tx_From tx" using mem il(1) by simp_all
  have other: "l ! j \<noteq> l ! i" if "j < length l" "j \<noteq> i" for j
    using nonces_distinct [OF srt] that il(1) by (metis length_map nth_eq_iff_index_eq nth_map)
  have upd: "x \<in> set (l[i := tx]) \<longleftrightarrow> x = tx \<or> (x \<in> set l \<and> x \<noteq> l ! i)" for x
    using other il(1) by (auto simp: in_set_conv_nth nth_list_update split: if_splits)
      (metis nth_list_update_eq nth_list_update_neq)+
  show ?thesis unfolding l_def [symmetric]
  proof (rule pool_ok_exchange [OF ok])
    show "l[i := tx] \<noteq> []" using il(1) by auto
    show "sorted_wrt (<) (map tx_Nonce (l[i := tx]))" using sorted_update [OF srt il(1)] il(2) by simp
    show "\<forall>x \<in> set (l[i := tx]). tx_From x = tx_From tx \<and>
        ((byHash m)(tx_Hash (l ! i) := None, tx_Hash tx \<mapsto> tx)) (tx_Hash x) = Some x"
    proof
      fix x assume "x \<in> set (l[i := tx])"
      then consider "x = tx" | "x \<in> set l" "x \<noteq> l ! i" unfolding upd by blast
      then show "tx_From x = tx_From tx \<and> ((byHash m)(tx_Hash (l ! i) := None, tx_Hash tx \<mapsto> tx)) (tx_Hash x) = Some x"
      proof cases
        case 2
        then have "tx_Hash x \<noteq> tx_Hash (l ! i)" "tx_Hash x \<noteq> tx_Hash tx" using mem [of x] ex new by auto
        then show ?thesis using mem [OF 2(1)] by simp
      qed simp
    qed
  next
    fix k x
    assume "((byHash m)(tx_Hash (l ! i) := None, tx_Hash tx \<mapsto> tx)) k = Some x"
    then consider "x = tx" "k = tx_Hash tx" | "byHash m k = Some x" "k \<noteq> tx_Hash (l ! i)"
      by (cases "k = tx_Hash tx"; cases "k = tx_Hash (l ! i)") simp_all
    then show "tx_Hash x = k \<and> (x \<in> set (l[i := tx]) \<or> tx_From x \<noteq> tx_From tx \<and> byHash m k = Some x)"
      unfolding upd using byHash_ok [OF ok, of k x] ex(1) by cases (auto simp: l_def)
  next
    fix k x
    assume "byHash m k = Some x" "tx_From x \<noteq> tx_From tx"
    then show "((byHash m)(tx_Hash (l ! i) := None, tx_Hash tx \<mapsto> tx)) k = Some x"
      using new ex by auto
  qed
qed

lemma AddTx_insert_ok:
  assumes ok: "pool_ok m" and new: "byHash m (tx_Hash tx) = None"
    and i: "findNonce (senderList m (tx_From tx)) (tx_Nonce tx) = None"
    and ins: "ins = insertPos (senderList m (tx_From tx)) (tx_Nonce tx)"
  shows "pool_ok (m\<lparr>byHash := (byHash m)(tx_Hash tx \<mapsto> tx),
      bySender := (bySender m)(tx_From tx \<mapsto> take ins (senderList m (tx_From tx)) @ tx # drop ins (senderList m (tx_From tx)))\<rparr>)"
proof -
  define l where "l = senderList m (tx_From tx)"
  have srt: "sorted_wrt (<) (map tx_Nonce l)" using senderList_ok(1) [OF ok] by (simp add: l_def)
  have mem: "tx_From x = tx_From tx \<and> byHash m (tx_Hash x) = Some x" if "x \<in> set l" for x
    using senderList_ok(2) [OF ok] that by (simp add: l_def)
  show ?thesis unfolding l_def [symmetric]
  proof (rule pool_ok_exchange [OF ok])
    show "take ins l @ tx # drop ins l \<noteq> []" by simp
    show "sorted_wrt (<) (map tx_Nonce (take ins l @ tx # drop ins l))"
      using insertPos_sorted [OF srt, of tx] i by (simp add: findNonce_None ins l_def)
    show "\<forall>x \<in> set (take ins l @ tx # drop ins l). tx_From x = tx_From tx \<and> ((byHash m)(tx_Hash tx \<mapsto> tx)) (tx_Hash x) = Some x"
    proof
      fix x assume "x \<in> set (take ins l @ tx # drop ins l)"
      then have "x = tx \<or> x \<in> set l" unfolding set_insert_at by blast
      then show "tx_From x = tx_From tx \<and> ((byHash m)(tx_Hash tx \<mapsto> tx)) (tx_Hash x) = Some x"
        using mem [of x] new by (cases "tx_Hash x = tx_Hash tx") auto
    qed
  next
    fix k x
    assume "((byHash m)(tx_Hash tx \<mapsto> tx)) k = Some x"
    then show "tx_Hash x = k \<and> (x \<in> set (take ins l @ tx # drop ins l) \<or> tx_From x \<noteq> tx_From tx \<and> byHash m k = Some x)"
      unfolding set_insert_at using byHash_ok [OF ok, of k x] by (auto simp: l_def split: if_splits)
  next
    fix k x
    assume "byHash m k = Some x" "tx_From x \<noteq> tx_From tx"
    then show "((byHash m)(tx_Hash tx \<mapsto> tx)) k = Some x" using new by auto
  qed
qed

lemma AddTx_ok:
  assumes "pool_ok m" "AddTx m txp = Inr m'"
  shows "pool_ok m'"
  using assms AddTx_replace_ok [OF assms(1)] AddTx_insert_ok [OF assms(1)]
  by (auto simp: AddTx_def Let_def split: option.splits if_splits)

section \<open>Removal\<close>

lemma removeHash_set:
  assumes "distinct (map tx_Hash l)"
  shows "set (removeHash h l) = {tx \<in> set l. tx_Hash tx \<noteq> h}"
  using assms by (induction l) (auto simp: image_iff)

lemma removeHash_sorted: "sorted_wrt P (map f l) \<Longrightarrow> sorted_wrt P (map f (removeHash h l))"
proof (induction l)
  case (Cons a l)
  have "set (removeHash h l) \<subseteq> set l" by (induction l) auto
  then show ?case using Cons by auto
qed simp

lemma senderList_hashes:
  assumes "pool_ok m"
  shows "distinct (map tx_Hash (senderList m a))"
proof -
  have "distinct (senderList m a)"
    using nonces_distinct [OF senderList_ok(1) [OF assms]] by (simp add: distinct_map)
  moreover have "inj_on tx_Hash (set (senderList m a))"
    using senderList_ok(2) [OF assms] by (intro inj_onI) (metis option.inject)
  ultimately show ?thesis by (simp add: distinct_map)
qed

lemma senderList_remove:
  assumes "pool_ok m" "byHash m h = Some tx"
  shows "senderList (removeLocked m h) a =
    (if a = tx_From tx then removeHash h (senderList m a) else senderList m a)"
  using assms by (auto simp: removeLocked_def senderList_def Let_def)

lemma byHash_remove: "byHash (removeLocked m h) = (byHash m)(h := None)"
  by (auto simp: removeLocked_def Let_def fun_upd_idem split: option.splits)

lemma bySender_remove:
  "bySender (removeLocked m h) a = Some l \<Longrightarrow> bySender m a = Some l \<or> l \<noteq> [] \<and> senderList (removeLocked m h) a = l"
  by (auto simp: removeLocked_def senderList_def Let_def split: option.splits if_splits)

lemma removeLocked_ok:
  assumes ok: "pool_ok m"
  shows "pool_ok (removeLocked m h)"
proof (cases "byHash m h")
  case None
  then show ?thesis using ok by (simp add: removeLocked_def)
next
  case (Some tx)
  have tx: "tx_Hash tx = h" using ok Some by (auto simp: pool_ok_def)
  note sl = senderList_remove [OF ok Some]
  note sets = removeHash_set [OF senderList_hashes [OF ok]]
  show ?thesis unfolding pool_ok_def
  proof (intro conjI allI impI)
    fix k x
    assume "byHash (removeLocked m h) k = Some x"
    then have k: "k \<noteq> h" "byHash m k = Some x" by (auto simp: byHash_remove split: if_splits)
    then show "tx_Hash x = k" using ok by (auto simp: pool_ok_def)
    show "x \<in> set (senderList (removeLocked m h) (tx_From x))"
      using k byHash_ok [OF ok k(2)] by (auto simp: sl sets)
  next
    fix a l
    assume a: "bySender (removeLocked m h) a = Some l"
    then have l: "l = senderList (removeLocked m h) a" by (simp add: senderList_def)
    show "l \<noteq> []" using bySender_remove [OF a] ok by (auto simp: pool_ok_def)
    show "sorted_wrt (<) (map tx_Nonce l)"
      using senderList_ok(1) [OF ok, of a] removeHash_sorted by (auto simp: l sl)
    have "\<forall>x \<in> set l. x \<in> set (senderList m a) \<and> tx_Hash x \<noteq> h"
    proof (cases "a = tx_From tx")
      case False
      then show ?thesis using senderList_ok(2) [OF ok] Some by (auto simp: l sl)
    qed (simp add: l sl sets)
    then show "\<forall>x \<in> set l. tx_From x = a \<and> byHash (removeLocked m h) (tx_Hash x) = Some x"
      using senderList_ok(2) [OF ok] by (auto simp: byHash_remove)
  qed
qed

section \<open>Batches\<close>

text \<open>What one pass finds: a head that fits, and none is preferred to it.\<close>

definition fits :: "u64 \<Rightarrow> u64 \<Rightarrow> Transaction \<Rightarrow> bool" where
  "fits maxGas used tx \<longleftrightarrow> used \<le> maxGas \<and> unat used + unat (tx_Gas tx) \<le> unat maxGas"

definition headOf :: "Mempool \<Rightarrow> (bytes \<rightharpoonup> int) \<Rightarrow> bytes \<Rightarrow> Transaction option" where
  "headOf m heads a =
     (case heads a of
        None \<Rightarrow> None
      | Some idx \<Rightarrow> if idx < 0 \<or> idx \<ge> int (length (senderList m a)) then None else Some (senderList m a ! nat idx))"

lemma fits_iff: "used \<le> maxGas \<Longrightarrow> fits maxGas used tx \<longleftrightarrow> \<not> tx_Gas tx > maxGas - used"
  by (auto simp: fits_def word_less_nat_alt word_le_nat_alt unat_sub)

lemma scanHeads_Cons:
  "scanHeads m maxGas used heads (a # as) best =
     scanHeads m maxGas used heads as
       (case headOf m heads a of
          None \<Rightarrow> best
        | Some tx \<Rightarrow> if fits maxGas used tx \<and> (case best of None \<Rightarrow> True | Some (_, b) \<Rightarrow> popPrefer tx b)
                     then Some (a, tx) else best)"
proof -
  have "tx_Gas tx > maxGas \<Longrightarrow> \<not> fits maxGas used tx" for tx
    by (auto simp: fits_def word_less_nat_alt)
  moreover have "\<not> used \<le> maxGas \<Longrightarrow> \<not> fits maxGas used tx" for tx by (simp add: fits_def)
  ultimately show ?thesis
    by (simp add: headOf_def Let_def SafeSubGas_iff fits_iff split: option.split)
qed

declare scanHeads.simps(2) [simp del]

lemma scanHeads_sound:
  "scanHeads m maxGas used heads as best = Some (a, tx) \<Longrightarrow>
     best = Some (a, tx) \<or> a \<in> set as \<and> headOf m heads a = Some tx \<and> fits maxGas used tx"
proof (induction as arbitrary: best)
  case (Cons b as)
  then show ?case unfolding scanHeads_Cons by (fastforce split: option.splits if_splits)
qed simp

lemma scanHeads_None:
  "scanHeads m maxGas used heads as best = None \<longleftrightarrow>
     best = None \<and> (\<forall>a \<in> set as. \<forall>tx. headOf m heads a = Some tx \<longrightarrow> \<not> fits maxGas used tx)"
proof (induction as arbitrary: best)
  case (Cons b as)
  then show ?case unfolding scanHeads_Cons by (auto split: option.splits if_splits)
qed simp

lemma bytesCompare_trans: "bytesCompare a b > 0 \<Longrightarrow> bytesCompare b c > 0 \<Longrightarrow> bytesCompare a c > 0"
proof (induction a b arbitrary: c rule: bytesCompare.induct)
  case (4 x xs y ys)
  then show ?case by (cases c) (auto split: if_splits)
next
  case (3 x xs)
  then show ?case by (cases c) simp_all
qed simp_all

lemma bytesCompare_weak: "bytesCompare a c > 0 \<Longrightarrow> bytesCompare a b > 0 \<or> bytesCompare b c > 0"
proof (induction a c arbitrary: b rule: bytesCompare.induct)
  case (4 x xs y ys)
  then show ?case by (cases b) (auto split: if_splits)
next
  case (3 x xs)
  then show ?case by (cases b) simp_all
qed simp_all

lemma bytesCompare_refl: "bytesCompare a a = 0"
  by (induction a) simp_all

lemma tipCmp_pos:
  "tipCmp a b > 0 \<longleftrightarrow> uval (txTip b) < uval (txTip a) \<or>
     (uval (txTip a) = uval (txTip b) \<and> bytesCompare (tx_Hash a) (tx_Hash b) > 0)"
  using Cmp_signs [of "txTip a" "txTip b"] by (auto simp: tipCmp_def Let_def uval_inj)

lemma popPrefer_trans: "popPrefer a b \<Longrightarrow> popPrefer b c \<Longrightarrow> popPrefer a c"
  using bytesCompare_trans [of "tx_Hash a" "tx_Hash b" "tx_Hash c"]
  by (auto simp: popPrefer_def tipCmp_pos split: if_splits)

lemma popPrefer_weak: "popPrefer a c \<Longrightarrow> popPrefer a b \<or> popPrefer b c"
  using bytesCompare_weak [of "tx_Hash a" "tx_Hash c" "tx_Hash b"]
  by (auto simp: popPrefer_def tipCmp_pos split: if_splits)

lemma popPrefer_irrefl: "\<not> popPrefer a a"
  by (simp add: popPrefer_def tipCmp_pos bytesCompare_refl)

lemma scanHeads_best:
  assumes "scanHeads m maxGas used heads as best = Some (a, tx)"
  shows "(\<forall>b t. best = Some (b, t) \<longrightarrow> \<not> popPrefer t tx) \<and>
    (\<forall>b \<in> set as. \<forall>t. headOf m heads b = Some t \<longrightarrow> fits maxGas used t \<longrightarrow> \<not> popPrefer t tx)"
  using assms
proof (induction as arbitrary: best)
  case Nil
  then show ?case by (simp add: popPrefer_irrefl)
next
  case (Cons c as)
  define best' where "best' = (case headOf m heads c of
          None \<Rightarrow> best
        | Some t \<Rightarrow> if fits maxGas used t \<and> (case best of None \<Rightarrow> True | Some (_, b) \<Rightarrow> popPrefer t b)
                     then Some (c, t) else best)"
  have IH: "(\<forall>b t. best' = Some (b, t) \<longrightarrow> \<not> popPrefer t tx) \<and>
    (\<forall>b \<in> set as. \<forall>t. headOf m heads b = Some t \<longrightarrow> fits maxGas used t \<longrightarrow> \<not> popPrefer t tx)"
    using Cons unfolding scanHeads_Cons best'_def by blast
  have "\<not> popPrefer t tx" if "best = Some (b, t)" for b t
    using IH that popPrefer_trans by (auto simp: best'_def split: option.splits if_splits)
  moreover have "\<not> popPrefer t tx" if "headOf m heads c = Some t" "fits maxGas used t" for t
  proof (cases best)
    case None
    then show ?thesis using IH that by (simp add: best'_def)
  next
    case (Some bt)
    obtain b0 t0 where bt: "bt = (b0, t0)" by fastforce
    show ?thesis
    proof (cases "popPrefer t t0")
      case True
      then show ?thesis using IH that Some bt by (simp add: best'_def)
    next
      case False
      then have "\<not> popPrefer t0 tx" using IH that Some bt by (simp add: best'_def)
      then show ?thesis using False popPrefer_weak by blast
    qed
  qed
  ultimately show ?case using IH by auto
qed

text \<open>The loop keeps every head at index 0: \<open>SafeAddGas\<close> cannot fail on a transaction that fits.\<close>

definition headsOf :: "Mempool \<Rightarrow> (bytes \<rightharpoonup> int)" where
  "headsOf m = (\<lambda>a. if bySender m a \<noteq> None then Some 0 else None)"

lemma headOf_headsOf:
  assumes "pool_ok m"
  shows "headOf m (headsOf m) a = (case senderList m a of [] \<Rightarrow> None | tx # _ \<Rightarrow> Some tx)"
  using assms by (auto simp: headOf_def headsOf_def senderList_def split: option.splits list.splits)

lemma removeHash_head:
  assumes "pool_ok m" "senderList m a = tx # rest"
  shows "senderList (removeLocked m (tx_Hash tx)) b = (if b = a then rest else senderList m b)"
proof -
  have "byHash m (tx_Hash tx) = Some tx" "tx_From tx = a" using senderList_ok(2) [OF assms(1), of tx a] assms(2) by simp_all
  then show ?thesis using senderList_remove [OF assms(1), of "tx_Hash tx" tx b] assms(2) by simp
qed

lemma bySender_iff: "pool_ok m \<Longrightarrow> bySender m a \<noteq> None \<longleftrightarrow> senderList m a \<noteq> []"
  by (auto simp: senderList_def pool_ok_def split: option.splits)

lemma headsOf_remove:
  assumes "pool_ok m" "senderList m a = tx # rest"
  shows "(if bySender (removeLocked m (tx_Hash tx)) a \<noteq> None then (headsOf m)(a \<mapsto> 0) else (headsOf m)(a := None))
    = headsOf (removeLocked m (tx_Hash tx))"
proof -
  have "bySender (removeLocked m (tx_Hash tx)) b \<noteq> None \<longleftrightarrow> bySender m b \<noteq> None" if "b \<noteq> a" for b
    using that removeHash_head [OF assms, of b] bySender_iff [OF assms(1)] bySender_iff [OF removeLocked_ok [OF assms(1)]] by simp
  then show ?thesis by (auto simp: headsOf_def fun_eq_iff)
qed

definition gasOf :: "Transaction list \<Rightarrow> nat" where
  "gasOf txs = (\<Sum>tx \<leftarrow> txs. unat (tx_Gas tx))"

text \<open>
  What a run of the loop has done: from each sender it has taken a prefix of the list, in
  order; the gas stays within the limit; and when it stopped before the limit on the count,
  every remaining head is too large, provided each pass visited every sender.
\<close>

definition popped :: "(nat \<Rightarrow> bytes list) \<Rightarrow> u64 \<Rightarrow> int \<Rightarrow> nat \<Rightarrow> nat \<Rightarrow> Mempool \<Rightarrow> Mempool \<Rightarrow> Transaction list \<Rightarrow> bool" where
  "popped order maxGas maxCount n used m m' new \<longleftrightarrow> pool_ok m' \<and>
     (\<forall>a. senderList m a = filter (\<lambda>t. tx_From t = a) new @ senderList m' a) \<and>
     byHash m' = (byHash m) |` (- tx_Hash ` set new) \<and>
     used + gasOf new \<le> unat maxGas \<and> (0 < maxCount \<longrightarrow> int (n + length new) \<le> maxCount) \<and>
     ((\<forall>i a. bySender m a \<noteq> None \<longrightarrow> a \<in> set (order i)) \<longrightarrow>
        0 < maxCount \<and> maxCount \<le> int (n + length new) \<or>
        (\<forall>a tx rest. senderList m' a = tx # rest \<longrightarrow> unat maxGas < used + gasOf new + unat (tx_Gas tx)))"

lemma restrict_remove:
  "(\<lambda>k. if k = h then None else f k) |` (- S) = f |` (- insert h S)"
  by (auto simp: restrict_map_def)

lemma popLoop_popped:
  assumes "pool_ok m" "finite (dom (byHash m))" "card (dom (byHash m)) < f" "unat used \<le> unat maxGas"
    and "0 < maxCount \<longrightarrow> int (length out) \<le> maxCount"
  shows "\<exists>m' new. popLoop f order maxGas maxCount m (headsOf m) out used i = Some (m', out @ new) \<and>
    popped order maxGas maxCount (length out) (unat used) m m' new"
  using assms
proof (induction f arbitrary: m out used i)
  case (Suc f)
  note ok = Suc.prems(1)
  show ?case
  proof (cases "(0 < maxCount \<and> int (length out) \<ge> maxCount) \<or> scanHeads m maxGas used (headsOf m) (order i) None = None")
    case True
    have "unat maxGas < unat used + unat (tx_Gas tx)"
      if "\<not> (0 < maxCount \<and> int (length out) \<ge> maxCount)" "\<forall>i a. bySender m a \<noteq> None \<longrightarrow> a \<in> set (order i)"
        "senderList m a = tx # rest" for a tx rest
    proof -
      have "\<forall>a \<in> set (order i). \<forall>tx. headOf m (headsOf m) a = Some tx \<longrightarrow> \<not> fits maxGas used tx"
        using True that(1) scanHeads_None by blast
      moreover have "a \<in> set (order i)" using that(2,3) bySender_iff [OF ok, of a] by auto
      ultimately have "\<not> fits maxGas used tx" using that(3) headOf_headsOf [OF ok, of a] by simp
      then show ?thesis using Suc.prems(4) by (simp add: fits_def word_le_nat_alt)
    qed
    then have "popped order maxGas maxCount (length out) (unat used) m m []"
      using Suc.prems by (auto simp: popped_def gasOf_def)
    then show ?thesis using True by (intro exI [of _ m] exI [of _ "[]"]) auto
  next
    case False
    then obtain a tx where scan: "scanHeads m maxGas used (headsOf m) (order i) None = Some (a, tx)" by auto
    then have h: "headOf m (headsOf m) a = Some tx" "fits maxGas used tx" using scanHeads_sound by blast+
    then obtain rest where rest: "senderList m a = tx # rest"
      using headOf_headsOf [OF ok, of a] by (auto split: list.splits)
    have tx: "byHash m (tx_Hash tx) = Some tx" "tx_From tx = a" using senderList_ok(2) [OF ok, of tx a] rest by simp_all
    define m1 where "m1 = removeLocked m (tx_Hash tx)"
    define used1 where "used1 = used + tx_Gas tx"
    have g: "unat used + unat (tx_Gas tx) \<le> unat maxGas" using h(2) by (simp add: fits_def)
    then have lt: "unat used + unat (tx_Gas tx) < B64" using unat_lt_B64 [of maxGas] by linarith
    have u1: "unat used1 = unat used + unat (tx_Gas tx)" "SafeAddGas used (tx_Gas tx) = Inr used1"
      using lt by (simp_all add: used1_def unat_u64_arith(1) SafeAddGas_iff)
    have b1: "byHash m1 = (byHash m)(tx_Hash tx := None)" by (simp add: m1_def byHash_remove)
    have d1: "dom (byHash m1) = dom (byHash m) - {tx_Hash tx}" by (auto simp: b1)
    have c1: "card (dom (byHash m1)) < f" "finite (dom (byHash m1))"
      using Suc.prems(2,3) tx(1) card_Diff1_less [of "dom (byHash m)" "tx_Hash tx"] by (simp_all add: d1 domI)
    have o1: "0 < maxCount \<longrightarrow> int (length (out @ [tx])) \<le> maxCount" using False by auto
    have ok1: "pool_ok m1" "unat used1 \<le> unat maxGas" using removeLocked_ok [OF ok] u1(1) g by (simp_all add: m1_def)
    obtain m' new where r: "popLoop f order maxGas maxCount m1 (headsOf m1) (out @ [tx]) used1 (Suc i) = Some (m', (out @ [tx]) @ new)"
      "popped order maxGas maxCount (length (out @ [tx])) (unat used1) m1 m' new"
      using Suc.IH [OF ok1(1) c1(2,1) ok1(2) o1, of "Suc i"] by blast
    have "popLoop (Suc f) order maxGas maxCount m (headsOf m) out used i = Some (m', out @ tx # new)"
      using r(1) scan u1(2) False headsOf_remove [OF ok rest] by (auto simp: m1_def Let_def)
    moreover have "popped order maxGas maxCount (length out) (unat used) m m' (tx # new)"
    proof -
      have "senderList m b = filter (\<lambda>t. tx_From t = b) (tx # new) @ senderList m' b" for b
        using r(2) removeHash_head [OF ok rest, of b] rest tx(2) by (auto simp: popped_def m1_def)
      moreover have "bySender m1 b \<noteq> None \<Longrightarrow> bySender m b \<noteq> None" for b
        using removeHash_head [OF ok rest, of b] bySender_iff [OF ok] bySender_iff [OF removeLocked_ok [OF ok]] rest
        by (auto simp: m1_def split: if_splits)
      ultimately show ?thesis
        using r(2) u1(1) unfolding popped_def b1 fun_upd_def restrict_remove
        by (auto simp: gasOf_def add.assoc)
    qed
    ultimately show ?thesis by auto
  qed
qed simp

lemma PopBatch_popped:
  assumes "pool_ok m" "finite (dom (byHash m))" "Count m < f"
  shows "\<exists>m' out. PopBatch f order m maxGas maxCount = Some (m', out) \<and>
    (if maxCount = 0 \<or> maxGas = 0 then m' = m \<and> out = [] else popped order maxGas maxCount 0 0 m m' out)"
  using popLoop_popped [OF assms(1,2), of f 0 maxGas maxCount "[]" order 0] assms(3)
  by (auto simp: PopBatch_def Count_def headsOf_def)

section \<open>Reachable pools\<close>

inductive pool_step :: "Mempool \<Rightarrow> Mempool \<Rightarrow> bool" where
  add: "AddTx m txp = Inr m' \<Longrightarrow> pool_step m m'"
| remove: "pool_step m (RemoveTx m h)"
| pop: "PopBatch f order m maxGas maxCount = Some (m', out) \<Longrightarrow> Count m < f \<Longrightarrow> pool_step m m'"

lemma pool_step_ok:
  assumes "pool_step m m'" "pool_ok m \<and> finite (dom (byHash m))"
  shows "pool_ok m' \<and> finite (dom (byHash m'))"
  using assms
proof (induction rule: pool_step.induct)
  case (add m txp m')
  then have "finite (dom (byHash m'))"
    by (auto simp: AddTx_def Let_def split: option.splits if_splits)
  then show ?case using add AddTx_ok by blast
next
  case (remove m h)
  then have "finite (dom (byHash (removeLocked m h)))"
    by (auto simp: byHash_remove intro: rev_finite_subset)
  then show ?case using remove by (simp add: RemoveTx_def removeLocked_ok)
next
  case (pop f order m maxGas maxCount m' out)
  then show ?case using PopBatch_popped [of m f order maxGas maxCount]
    by (auto simp: popped_def split: if_splits)
qed

lemma pool_reachable_ok: "pool_step\<^sup>*\<^sup>* NewMempool m \<Longrightarrow> pool_ok m \<and> finite (dom (byHash m))"
proof (induction rule: rtranclp_induct)
  case base
  show ?case using pool_ok_new by (simp add: NewMempool_def)
qed (use pool_step_ok in blast)

text \<open>A transaction replaces the one with its sender and nonce exactly when it is new and its tip is higher.\<close>

lemma AddTx_replaces:
  assumes "pool_ok m" "old \<in> set (senderList m (tx_From tx))" "tx_Nonce old = tx_Nonce tx" "byHash m (tx_Hash tx) = None"
  shows "uval (txTip tx) \<le> uval (txTip old) \<Longrightarrow> AddTx m (Some tx) = Inl ErrUnderpriced"
    and "uval (txTip old) < uval (txTip tx) \<Longrightarrow> \<exists>m'. AddTx m (Some tx) = Inr m' \<and> byHash m' (tx_Hash old) = None \<and>
      byHash m' (tx_Hash tx) = Some tx \<and>
      senderList m' (tx_From tx) = map (\<lambda>t. if t = old then tx else t) (senderList m (tx_From tx))"
proof -
  define l where "l = senderList m (tx_From tx)"
  obtain i where i: "findNonce l (tx_Nonce tx) = Some i"
    using assms(2,3) findNonce_None [of l "tx_Nonce tx"] by (cases "findNonce l (tx_Nonce tx)") (auto simp: l_def)
  have il: "i < length l" "tx_Nonce (l ! i) = tx_Nonce tx" using findNonce_Some [OF i] by simp_all
  have d: "distinct (map tx_Nonce l)" unfolding l_def by (rule nonces_distinct [OF senderList_ok(1) [OF assms(1)]])
  have old: "l ! i = old"
    using assms(2,3) il d unfolding l_def [symmetric] by (metis in_set_conv_nth length_map nth_eq_iff_index_eq nth_map)
  have "Cmp (txTip tx) (txTip old) \<le> 0 \<longleftrightarrow> uval (txTip tx) \<le> uval (txTip old)"
    using Cmp_signs(2) [of "txTip tx" "txTip old"] by linarith
  then have add: "AddTx m (Some tx) =
      (if uval (txTip tx) \<le> uval (txTip old) then Inl ErrUnderpriced
       else Inr (m\<lparr>byHash := (byHash m)(tx_Hash old := None, tx_Hash tx \<mapsto> tx), bySender := (bySender m)(tx_From tx \<mapsto> l[i := tx])\<rparr>))"
    using assms(4) i old by (simp add: AddTx_def l_def Let_def)
  then show "uval (txTip tx) \<le> uval (txTip old) \<Longrightarrow> AddTx m (Some tx) = Inl ErrUnderpriced" by simp
  have "byHash m (tx_Hash old) = Some old" using senderList_ok(2) [OF assms(1,2)] by simp
  then have "tx_Hash old \<noteq> tx_Hash tx" using assms(4) by auto
  moreover have "l[i := tx] = map (\<lambda>t. if t = old then tx else t) l"
    using il(1) old d by (auto simp: list_eq_iff_nth_eq nth_list_update nth_eq_iff_index_eq distinct_map)
  ultimately show "uval (txTip old) < uval (txTip tx) \<Longrightarrow> \<exists>m'. AddTx m (Some tx) = Inr m' \<and> byHash m' (tx_Hash old) = None \<and>
      byHash m' (tx_Hash tx) = Some tx \<and>
      senderList m' (tx_From tx) = map (\<lambda>t. if t = old then tx else t) (senderList m (tx_From tx))"
    by (simp add: add senderList_def [of "_\<lparr>byHash := _, bySender := _\<rparr>"] l_def)
qed

end
