(* ===== verification/Patricia.thy ===== *)
theory Patricia
  imports Keccak Rlp
begin

text \<open>
  The Merkle Patricia trie: the node encoders of \<open>c2crypto/mpt.go\<close>, the insertion and the
  root of \<open>c2block/block_processor.go\<close> (receipts), on which the arena version of
  \<open>statetrie/arena.go\<close> is a refinement. A node is a value: the source never shares a node
  between two tries. A nil child is \<open>None\<close>; a node of kind \<open>mptEmpty\<close> is never allocated. An index
  out of range, or an encoding longer than the buffer it is written to (its slice
  \<open>buf[:k]\<close> is then out of bounds), is a panic, the result \<open>None\<close>.
\<close>

section \<open>Node encoders\<close>

fun compactTail :: "bytes \<Rightarrow> bytes" where
  "compactTail (x # y # ns) = (push_bit 4 (x AND 0x0f) OR (y AND 0x0f)) # compactTail ns"
| "compactTail ns = []"

definition MptCompactEncode :: "bytes \<Rightarrow> bool \<Rightarrow> bytes" where
  "MptCompactEncode nibbles isLeaf =
     (let flag = (if isLeaf then 2 else 0 :: byte)
      in if odd (length nibbles)
         then (push_bit 4 (flag OR 1) OR (nibbles ! 0 AND 0x0f)) # compactTail (drop 1 nibbles)
         else push_bit 4 flag # compactTail nibbles)"

definition MptHashNode :: "bytes \<Rightarrow> bytes" where
  "MptHashNode rlpData = Keccak256 rlpData"

definition MptChildRefSize :: "bytes \<Rightarrow> nat" where
  "MptChildRefSize childRLP = (if length childRLP < 32 then length childRLP else 1 + 32)"

definition MptEncodeChildRef :: "bytes \<Rightarrow> bytes" where
  "MptEncodeChildRef childRLP = (if length childRLP < 32 then childRLP else RlpEncodeBytes (Keccak256 childRLP))"

text \<open>An encoding written to a buffer of \<open>cap\<close> bytes and then sliced.\<close>

definition fit :: "nat \<Rightarrow> bytes \<Rightarrow> bytes option" where
  "fit cap bs = (if length bs \<le> cap then Some bs else None)"

definition MptEncodeLeaf :: "bytes \<Rightarrow> bytes \<Rightarrow> bytes option" where
  "MptEncodeLeaf keyNibbles val =
     (case fit 256 (MptCompactEncode keyNibbles True) of
        None \<Rightarrow> None
      | Some compact \<Rightarrow>
          (let payload = rlpBytesSize compact + rlpBytesSize val
           in Some (RlpEncodeListHeader payload @ RlpEncodeBytes compact @ RlpEncodeBytes val)))"

definition MptEncodeExtension :: "bytes \<Rightarrow> bytes \<Rightarrow> bytes option" where
  "MptEncodeExtension keyNibbles childRLP =
     (case fit 256 (MptCompactEncode keyNibbles False) of
        None \<Rightarrow> None
      | Some compact \<Rightarrow>
          (let payload = rlpBytesSize compact + MptChildRefSize childRLP
           in Some (RlpEncodeListHeader payload @ RlpEncodeBytes compact @ MptEncodeChildRef childRLP)))"

definition MptEncodeBranch :: "bytes option list \<Rightarrow> bytes \<Rightarrow> bytes" where
  "MptEncodeBranch children val =
     (let payload = (\<Sum>c \<leftarrow> children. case c of Some r \<Rightarrow> MptChildRefSize r | None \<Rightarrow> 1) +
            (if length val = 0 then 1 else rlpBytesSize val)
      in RlpEncodeListHeader payload @
         concat (map (\<lambda>c. case c of Some r \<Rightarrow> MptEncodeChildRef r | None \<Rightarrow> [0x80]) children) @
         (if length val = 0 then [0x80] else RlpEncodeBytes val))"

section \<open>Nodes\<close>

datatype mptNode = mptLeaf bytes bytes | mptExt bytes mptNode | mptBranch "mptNode option list" bytes

fun commonPref :: "bytes \<Rightarrow> bytes \<Rightarrow> nat" where
  "commonPref (x # xs) (y # ys) = (if x = y then Suc (commonPref xs ys) else 0)"
| "commonPref xs ys = 0"

definition bytesToNibbles :: "bytes \<Rightarrow> bytes" where
  "bytesToNibbles b = concat (map (\<lambda>x. [drop_bit 4 x, x AND 0x0f]) b)"

text \<open>\<open>br.children[i] = n\<close>\<close>

definition setChild :: "mptNode option list \<Rightarrow> byte \<Rightarrow> mptNode \<Rightarrow> mptNode option list option" where
  "setChild cs i n = (if unat i < length cs then Some (cs[unat i := Some n]) else None)"

definition mptSplit :: "bytes \<Rightarrow> bytes \<Rightarrow> mptNode option \<Rightarrow> bytes \<Rightarrow> bytes \<Rightarrow> mptNode option" where
  "mptSplit oldRest oldVal oldNode newRest newVal =
     (do { (cs, val) \<leftarrow>
             (if oldRest = [] then Some (replicate 16 None, oldVal)
              else
                do { cs \<leftarrow> setChild (replicate 16 None) (hd oldRest)
                        (case oldNode of None \<Rightarrow> mptLeaf (tl oldRest) oldVal | Some n \<Rightarrow> n);
                     Some (cs, []) });
           (if newRest = [] then Some (mptBranch cs newVal)
            else
              do { cs \<leftarrow> setChild cs (hd newRest) (mptLeaf (tl newRest) newVal);
                   Some (mptBranch cs val) }) })"

definition underExt :: "nat \<Rightarrow> bytes \<Rightarrow> mptNode \<Rightarrow> mptNode" where
  "underExt cp nibbles br = (if cp > 0 then mptExt (take cp nibbles) br else br)"

definition mptInsertLeaf :: "bytes \<Rightarrow> bytes \<Rightarrow> bytes \<Rightarrow> bytes \<Rightarrow> mptNode option" where
  "mptInsertLeaf nibbles val key value =
     (if nibbles = key then Some (mptLeaf nibbles value)
      else
        (let cp = commonPref nibbles key
         in map_option (underExt cp nibbles) (mptSplit (drop cp nibbles) val None (drop cp key) value)))"

text \<open>\<open>mptInsertExt\<close> when the key leaves the path of the extension.\<close>

definition mptSplitExt :: "bytes \<Rightarrow> mptNode \<Rightarrow> bytes \<Rightarrow> bytes \<Rightarrow> mptNode option" where
  "mptSplitExt nibbles child key value =
     (let cp = commonPref nibbles key;
          oldRest = drop cp nibbles;
          oldNode = (if length oldRest = 1 then child else mptExt (tl oldRest) child)
      in map_option (underExt cp nibbles) (mptSplit oldRest [] (Some oldNode) (drop cp key) value))"

lemma size_child: "i < length cs \<Longrightarrow> size_option size (cs ! i) < Suc (Suc (size_list (size_option size) cs))"
  using size_list_estimation' [of "cs ! i" cs "size_option size (cs ! i)" "size_option size"]
  by (simp add: less_Suc_eq_le)

function mptInsert :: "mptNode option \<Rightarrow> bytes \<Rightarrow> bytes \<Rightarrow> mptNode option" where
  "mptInsert None key value = Some (mptLeaf key value)"
| "mptInsert (Some (mptLeaf nibbles val)) key value = mptInsertLeaf nibbles val key value"
| "mptInsert (Some (mptExt nibbles child)) key value =
     (if commonPref nibbles key = length nibbles
      then map_option (mptExt nibbles) (mptInsert (Some child) (drop (length nibbles) key) value)
      else mptSplitExt nibbles child key value)"
| "mptInsert (Some (mptBranch cs val)) [] value = Some (mptBranch cs value)"
| "mptInsert (Some (mptBranch cs val)) (k # key) value =
     (if unat k < length cs
      then map_option (\<lambda>n. mptBranch (cs[unat k := Some n]) val) (mptInsert (cs ! unat k) key value)
      else None)"
  by pat_completeness auto
termination by (relation "measure (\<lambda>(n, key, value). size_option size n)") (auto simp: size_child)

text \<open>The encoder; every buffer holds \<open>cap\<close> bytes.\<close>

fun mptEncode :: "nat \<Rightarrow> mptNode \<Rightarrow> bytes option" where
  "mptEncode cap (mptLeaf nibbles val) = MptEncodeLeaf nibbles val \<bind> fit cap"
| "mptEncode cap (mptExt nibbles child) =
     (do { c \<leftarrow> mptEncode cap child; enc \<leftarrow> MptEncodeExtension nibbles c; fit cap enc })"
| "mptEncode cap (mptBranch cs val) =
     (let encs = map (map_option (mptEncode cap)) cs
      in if Some None \<in> set encs then None
         else fit cap (MptEncodeBranch (map (map_option the) encs) val))"

section \<open>The map a trie stands for\<close>

text \<open>An empty value in a branch means that no key ends there.\<close>

function node_get :: "mptNode option \<Rightarrow> bytes \<Rightarrow> bytes option" where
  "node_get None key = None"
| "node_get (Some (mptLeaf nibbles val)) key = (if key = nibbles then Some val else None)"
| "node_get (Some (mptExt nibbles child)) key =
     (if take (length nibbles) key = nibbles then node_get (Some child) (drop (length nibbles) key) else None)"
| "node_get (Some (mptBranch cs val)) [] = (if val = [] then None else Some val)"
| "node_get (Some (mptBranch cs val)) (k # key) = (if unat k < length cs then node_get (cs ! unat k) key else None)"
  by pat_completeness auto
termination by (relation "measure (\<lambda>(n, key). size_option size n)") (auto simp: size_child)

definition nibs :: "bytes \<Rightarrow> bool" where
  "nibs key \<longleftrightarrow> (\<forall>x \<in> set key. unat x < 16)"

lemma nibs_simps [simp]: "nibs []" "nibs (x # xs) \<longleftrightarrow> unat x < 16 \<and> nibs xs"
  by (simp_all add: nibs_def)

lemma nibs_take_drop [simp]: "nibs key \<Longrightarrow> nibs (take n key)" "nibs key \<Longrightarrow> nibs (drop n key)"
  by (auto simp: nibs_def dest: in_set_takeD in_set_dropD)

text \<open>The shape that insertion keeps: no empty extension, no chain of extensions, and at least two
  ways on from a branch.\<close>

definition ways :: "mptNode option list \<Rightarrow> bytes \<Rightarrow> nat" where
  "ways cs val = length (filter (\<lambda>c. c \<noteq> None) cs) + (if val = [] then 0 else 1)"

fun isBranch :: "mptNode \<Rightarrow> bool" where
  "isBranch (mptBranch cs val) = True"
| "isBranch n = False"

fun canon :: "mptNode \<Rightarrow> bool" where
  "canon (mptLeaf nibbles val) \<longleftrightarrow> nibs nibbles \<and> val \<noteq> []"
| "canon (mptExt nibbles child) \<longleftrightarrow> nibbles \<noteq> [] \<and> nibs nibbles \<and> isBranch child \<and> canon child"
| "canon (mptBranch cs val) \<longleftrightarrow> length cs = 16 \<and> (\<forall>c \<in> set cs. pred_option canon c) \<and> 2 \<le> ways cs val"

lemma commonPref_take: "take (commonPref xs ys) xs = take (commonPref xs ys) ys"
  by (induction xs ys rule: commonPref.induct) auto

lemma commonPref_le: "commonPref xs ys \<le> length xs" "commonPref xs ys \<le> length ys"
  by (induction xs ys rule: commonPref.induct) auto

lemma commonPref_drop:
  "drop (commonPref xs ys) xs \<noteq> [] \<Longrightarrow> drop (commonPref xs ys) ys \<noteq> [] \<Longrightarrow>
     hd (drop (commonPref xs ys) xs) \<noteq> hd (drop (commonPref xs ys) ys)"
  by (induction xs ys rule: commonPref.induct) auto

lemma commonPref_full: "commonPref xs ys = length xs \<longleftrightarrow> take (length xs) ys = xs"
  by (induction xs ys rule: commonPref.induct) auto

lemma node_get_underExt:
  assumes "cp \<le> length nibbles"
  shows "node_get (Some (underExt cp nibbles br)) k =
    (if take cp k = take cp nibbles then node_get (Some br) (drop cp k) else None)"
  using assms by (simp add: underExt_def min_absorb2)

lemma canon_underExt: "nibs nibbles \<Longrightarrow> cp \<le> length nibbles \<Longrightarrow> isBranch br \<Longrightarrow> canon br \<Longrightarrow> canon (underExt cp nibbles br)"
  by (auto simp: underExt_def)

text \<open>What the old subtrie holds below the point of a split.\<close>

definition old_get :: "bytes \<Rightarrow> bytes \<Rightarrow> mptNode \<Rightarrow> bytes \<Rightarrow> bytes option" where
  "old_get oldRest oldVal old k =
     (if oldRest = [] then (if k = [] then Some oldVal else None)
      else if k \<noteq> [] \<and> hd k = hd oldRest then node_get (Some old) (tl k) else None)"

lemma ways_replicate: "ways (replicate n None) val = (if val = [] then 0 else 1)"
  by (simp add: ways_def)

lemma ways_update:
  assumes "i < length cs" "cs ! i = None"
  shows "ways (cs[i := Some n]) val = Suc (ways cs val)"
proof -
  define p q where "p = take i cs" and "q = drop (Suc i) cs"
  have "cs = p @ None # q" "length p = i" using assms id_take_nth_drop [of i cs] by (simp_all add: p_def q_def)
  then show ?thesis by (auto simp: ways_def list_update_append)
qed

lemma mptSplit_spec:
  fixes oldNode :: "mptNode option"
  assumes o: "nibs oldRest" and n: "nibs newRest" and ne: "oldRest \<noteq> newRest"
    and hd: "oldRest \<noteq> [] \<Longrightarrow> newRest \<noteq> [] \<Longrightarrow> hd oldRest \<noteq> hd newRest"
    and v: "newVal \<noteq> []" and ov: "oldNode = None \<Longrightarrow> oldVal \<noteq> []"
    and cn: "pred_option canon oldNode" "oldNode \<noteq> None \<Longrightarrow> oldRest \<noteq> []"
  defines "old \<equiv> (case oldNode of None \<Rightarrow> mptLeaf (tl oldRest) oldVal | Some n \<Rightarrow> n)"
  shows "\<exists>br. mptSplit oldRest oldVal oldNode newRest newVal = Some br \<and> isBranch br \<and> canon br \<and>
    (\<forall>k. node_get (Some br) k = (if k = newRest then Some newVal else old_get oldRest oldVal old k))"
proof (cases oldRest)
  case Nil
  then obtain y ys where y: "newRest = y # ys" using ne by (cases newRest) auto
  have "oldVal \<noteq> []" using Nil cn(2) ov by (cases oldNode) auto
  moreover have "node_get (Some (mptBranch ((replicate 16 None)[unat y := Some (mptLeaf ys newVal)]) oldVal)) k =
      (if k = newRest then Some newVal else old_get oldRest oldVal old k)" for k
    using Nil y n calculation by (cases k) (auto simp: old_get_def nth_list_update word_unat_eq_iff)
  ultimately show ?thesis
    using Nil y n v by (auto simp: mptSplit_def setChild_def ways_update ways_replicate dest!: set_update_subset_insert [THEN subsetD])
next
  case (Cons x xs)
  have x: "unat x < 16" using o Cons by simp
  have oldc: "canon old" using cn(1) o ov Cons by (auto simp: old_def split: option.splits)
  define cs where "cs = (replicate 16 None)[unat x := Some old]"
  have cs: "length cs = 16" "\<forall>c \<in> set cs. pred_option canon c" "ways cs val = Suc (if val = [] then 0 else 1)" for val
    using x oldc by (auto simp: cs_def ways_update ways_replicate dest!: set_update_subset_insert [THEN subsetD])
  have s1: "mptSplit oldRest oldVal oldNode newRest newVal =
      (if newRest = [] then Some (mptBranch cs newVal)
       else setChild cs (hd newRest) (mptLeaf (tl newRest) newVal) \<bind> (\<lambda>cs. Some (mptBranch cs [])))"
    using x by (cases oldNode) (simp_all add: mptSplit_def setChild_def cs_def old_def Cons)
  show ?thesis
  proof (cases newRest)
    case Nil
    have "node_get (Some (mptBranch cs newVal)) k = (if k = newRest then Some newVal else old_get oldRest oldVal old k)" for k
      using Nil v Cons x by (cases k) (auto simp: old_get_def cs_def nth_list_update word_unat_eq_iff)
    then show ?thesis using s1 Nil cs v by auto
  next
    case N: (Cons y ys)
    have y: "unat y < 16" "unat x \<noteq> unat y" using n N hd Cons by (auto simp: word_unat_eq_iff)
    have "cs ! unat y = None" using x y by (simp add: cs_def)
    then have c2: "canon (mptBranch (cs[unat y := Some (mptLeaf ys newVal)]) [])"
      using cs y(1) n N v by (auto simp: ways_update dest!: set_update_subset_insert [THEN subsetD])
    have "node_get (Some (mptBranch (cs[unat y := Some (mptLeaf ys newVal)]) [])) k =
        (if k = newRest then Some newVal else old_get oldRest oldVal old k)" for k
      using N Cons x y by (cases k) (auto simp: old_get_def cs_def nth_list_update word_unat_eq_iff)
    then show ?thesis using s1 N cs y(1) c2 by (auto simp: setChild_def)
  qed
qed

lemma mptInsertLeaf_spec:
  assumes "nibs nibbles" "nibs key" "val \<noteq> []" "value \<noteq> []"
  shows "\<exists>n. mptInsertLeaf nibbles val key value = Some n \<and> canon n \<and>
    (\<forall>k. node_get (Some n) k = (if k = key then Some value else if k = nibbles then Some val else None))"
proof (cases "nibbles = key")
  case False
  define cp where "cp = commonPref nibbles key"
  have le: "cp \<le> length nibbles" "cp \<le> length key" and tk: "take cp nibbles = take cp key"
    using commonPref_le commonPref_take by (auto simp: cp_def)
  have ne: "drop cp nibbles \<noteq> drop cp key" using False tk by (metis append_take_drop_id)
  obtain br where br: "mptSplit (drop cp nibbles) val None (drop cp key) value = Some br" "isBranch br" "canon br"
    "\<And>k. node_get (Some br) k = (if k = drop cp key then Some value
       else old_get (drop cp nibbles) val (mptLeaf (tl (drop cp nibbles)) val) k)"
    using mptSplit_spec [of "drop cp nibbles" "drop cp key" "value" None val] assms ne commonPref_drop [of nibbles key]
    by (auto simp: cp_def)
  have old: "old_get r val (mptLeaf (tl r) val) k = (if k = r then Some val else None)" for r k
    by (cases k; cases r) (auto simp: old_get_def)
  have "node_get (Some (underExt cp nibbles br)) k = (if k = key then Some value else if k = nibbles then Some val else None)" for k
    using le tk by (auto simp: node_get_underExt br(4) old) (metis append_take_drop_id)+
  moreover have "canon (underExt cp nibbles br)" using canon_underExt assms(1) le(1) br by blast
  ultimately show ?thesis using False br(1) by (simp add: mptInsertLeaf_def cp_def [symmetric] Let_def)
qed (use assms in \<open>simp add: mptInsertLeaf_def\<close>)

lemma mptSplitExt_spec:
  assumes ok: "nibs nibbles" "nibs key" "value \<noteq> []" "canon child" "isBranch child"
    and off: "commonPref nibbles key \<noteq> length nibbles"
  shows "\<exists>n. mptSplitExt nibbles child key value = Some n \<and> canon n \<and>
    (\<forall>k. node_get (Some n) k = (if k = key then Some value else node_get (Some (mptExt nibbles child)) k))"
proof -
  define cp where "cp = commonPref nibbles key"
  define r where "r = drop cp nibbles"
  have le: "cp < length nibbles" "cp \<le> length key" and tk: "take cp nibbles = take cp key"
    using commonPref_le [of nibbles key] commonPref_take off by (auto simp: cp_def)
  have r: "r \<noteq> []" "nibs r" "nibbles = take cp nibbles @ r" using le ok(1) by (simp_all add: r_def)
  define old where "old = (if length r = 1 then child else mptExt (tl r) child)"
  have co: "canon old" using ok r by (cases r) (auto simp: old_def)
  have ne: "r \<noteq> drop cp key" using r(1) commonPref_drop [of nibbles key] unfolding r_def cp_def by metis
  obtain br where br: "mptSplit r [] (Some old) (drop cp key) value = Some br" "isBranch br" "canon br"
    "\<And>k. node_get (Some br) k = (if k = drop cp key then Some value else old_get r [] old k)"
    using mptSplit_spec [of r "drop cp key" "value" "Some old" "[]"] ok r ne co commonPref_drop [of nibbles key]
    by (auto simp: cp_def r_def)
  have old: "old_get r [] old k = (if take (length r) k = r then node_get (Some child) (drop (length r) k) else None)" for k
    using r(1) by (cases r; cases k) (auto simp: old_get_def old_def)
  have split: "take (length nibbles) k = nibbles \<longleftrightarrow> take cp k = take cp nibbles \<and> take (length r) (drop cp k) = r" for k
  proof -
    have "length nibbles = cp + length r" using le(1) by (simp add: r_def)
    then have e: "take (length nibbles) k = take cp k @ take (length r) (drop cp k)" by (simp add: take_add)
    have l: "length (take cp nibbles) = cp" using le(1) by simp
    show ?thesis
    proof (cases "cp \<le> length k")
      case True
      then show ?thesis using e l r(3) append_eq_append_conv [of "take cp k" "take cp nibbles"]
        by (metis length_take min.absorb2)
    next
      case False
      then have "take cp k \<noteq> take cp nibbles" "length (take (length nibbles) k) < length nibbles"
        using l le(1) by (auto dest: arg_cong [of _ _ length])
      then show ?thesis by auto
    qed
  qed
  have dr: "drop (length r + cp) k = drop (length nibbles) k" for k :: bytes
    using le(1) by (simp add: r_def)
  have "node_get (Some (underExt cp nibbles br)) k = (if k = key then Some value else node_get (Some (mptExt nibbles child)) k)" for k
    using le tk by (auto simp: node_get_underExt br(4) old split dr) (metis append_take_drop_id)+
  moreover have "canon (underExt cp nibbles br)" using canon_underExt ok(1) le(1) br by simp
  moreover have "mptSplitExt nibbles child key value = Some (underExt cp nibbles br)"
    by (simp only: mptSplitExt_def Let_def cp_def [symmetric] r_def [symmetric] old_def [symmetric] br(1) option.map)
  ultimately show ?thesis by blast
qed

theorem mptInsert_spec:
  assumes "pred_option canon n" "nibs key" "value \<noteq> []"
  shows "\<exists>n'. mptInsert n key value = Some n' \<and> canon n' \<and>
    (\<forall>k. node_get (Some n') k = (if k = key then Some value else node_get n k)) \<and> (isBranch (the n) \<longrightarrow> n \<noteq> None \<longrightarrow> isBranch n')"
  using assms
proof (induction n key "value" rule: mptInsert.induct)
  case (2 nibbles val key v)
  then show ?case using mptInsertLeaf_spec [of nibbles key val v] by auto
next
  case (3 nibbles child key v)
  show ?case
  proof (cases "commonPref nibbles key = length nibbles")
    case True
    then obtain n' where n': "mptInsert (Some child) (drop (length nibbles) key) v = Some n'" "canon n'" "isBranch n'"
      "\<And>k. node_get (Some n') k = (if k = drop (length nibbles) key then Some v else node_get (Some child) k)"
      using 3 by auto
    have pre: "take (length nibbles) key = nibbles" using True commonPref_full by blast
    have "node_get (Some (mptExt nibbles n')) k = (if k = key then Some v else node_get (Some (mptExt nibbles child)) k)" for k
      using pre by (auto simp: n'(4)) (metis append_take_drop_id)
    then show ?thesis using True n' 3 by simp
  next
    case False
    then show ?thesis using 3 mptSplitExt_spec [of nibbles key v child] by auto
  qed
next
  case (4 cs val v)
  have "node_get (Some (mptBranch cs v)) k = (if k = [] then Some v else node_get (Some (mptBranch cs val)) k)" for k
    using 4 by (cases k) auto
  then show ?case using 4 by (auto simp: ways_def split: if_splits)
next
  case (5 cs val k key v)
  have k: "unat k < 16" "length cs = 16" using 5 by simp_all
  have "pred_option canon (cs ! unat k)" using 5 k by simp
  then obtain n' where n': "mptInsert (cs ! unat k) key v = Some n'" "canon n'"
    "\<And>k'. node_get (Some n') k' = (if k' = key then Some v else node_get (cs ! unat k) k')"
    using 5 k by auto
  have "ways cs val \<le> ways (cs[unat k := Some n']) val"
  proof (cases "cs ! unat k")
    case None
    then show ?thesis using ways_update [of "unat k" cs n' val] k by simp
  next
    case (Some m)
    define p q where "p = take (unat k) cs" and "q = drop (Suc (unat k)) cs"
    have "cs = p @ Some m # q" "length p = unat k" using Some k id_take_nth_drop [of "unat k" cs] by (simp_all add: p_def q_def)
    then show ?thesis by (simp add: ways_def list_update_append)
  qed
  then have "canon (mptBranch (cs[unat k := Some n']) val)"
    using 5 k n'(2) by (auto dest!: set_update_subset_insert [THEN subsetD])
  moreover have "node_get (Some (mptBranch (cs[unat k := Some n']) val)) j =
      (if j = k # key then Some v else node_get (Some (mptBranch cs val)) j)" for j
    using k by (cases j) (auto simp: n'(3) nth_list_update word_unat_eq_iff)
  ultimately show ?case using n'(1) k by simp
qed simp_all

section \<open>The shape is canonical\<close>

text \<open>Two tries in this shape that stand for the same map are the same trie. A branch has two keys
  that differ at once; a leaf has one key.\<close>

lemma filter_two:
  assumes "2 \<le> length (filter P xs)"
  obtains i j where "i < j" "j < length xs" "P (xs ! i)" "P (xs ! j)"
proof -
  obtain y z ys where f: "filter P xs = y # z # ys" using assms by (metis Suc_le_length_iff numeral_2_eq_2)
  obtain us vs where u: "xs = us @ y # vs" "P y" "z # ys = filter P vs" using f [unfolded filter_eq_Cons_iff] by blast
  obtain ws zs where v: "vs = ws @ z # zs" "P z" using u(3) [symmetric, unfolded filter_eq_Cons_iff] by blast
  show thesis
    by (rule that [of "length us" "length us + Suc (length ws)"]) (use u v in \<open>simp_all add: nth_append\<close>)
qed

lemma canon_key: "canon n \<Longrightarrow> \<exists>k. nibs k \<and> node_get (Some n) k \<noteq> None"
proof (induction n)
  case (mptExt nibbles child)
  then obtain k where k: "nibs k" "node_get (Some child) k \<noteq> None" by auto
  then show ?case using mptExt.prems by (intro exI [of _ "nibbles @ k"]) (auto simp: nibs_def)
next
  case (mptBranch cs val)
  show ?case
  proof (cases "val = []")
    case True
    then have "2 \<le> length (filter (\<lambda>c. c \<noteq> None) cs)" using mptBranch.prems by (simp add: ways_def)
    then obtain i' i where "i' < i" "i < length cs" "cs ! i' \<noteq> None" "cs ! i \<noteq> None" by (rule filter_two)
    then have i: "i < 16" "cs ! i \<noteq> None" using mptBranch.prems by simp_all
    then obtain m where m: "cs ! i = Some m" by blast
    have "i < length cs" using i mptBranch.prems by simp
    then have "Some m \<in> set cs" using m by (metis nth_mem)
    then obtain k where "nibs k" "node_get (Some m) k \<noteq> None" using mptBranch by (fastforce simp: pred_option_def)
    moreover have "unat (of_nat i :: byte) = i" using i by (simp add: unat_of_nat)
    ultimately show ?thesis using i m \<open>i < length cs\<close> by (intro exI [of _ "of_nat i # k"]) auto
  qed (intro exI [of _ "[]"], simp)
qed (auto intro!: exI)

lemma child_key:
  assumes "canon (mptBranch cs val)" "i < 16" "cs ! i \<noteq> None"
  shows "\<exists>k. node_get (Some (mptBranch cs val)) (of_nat i # k) \<noteq> None"
proof -
  obtain m where m: "cs ! i = Some m" using assms(3) by blast
  moreover have "canon m" using assms m by (metis canon.simps(3) nth_mem option.pred_inject(2))
  then obtain k where "node_get (Some m) k \<noteq> None" using canon_key by blast
  moreover have "unat (of_nat i :: byte) = i" using assms(2) by (simp add: unat_of_nat)
  ultimately show ?thesis using assms by (intro exI [of _ k]) simp
qed

lemma branch_keys:
  assumes "canon (mptBranch cs val)"
  obtains k1 k2 where "node_get (Some (mptBranch cs val)) k1 \<noteq> None" "node_get (Some (mptBranch cs val)) k2 \<noteq> None"
    "k1 = [] \<and> k2 \<noteq> [] \<or> k1 \<noteq> [] \<and> k2 \<noteq> [] \<and> hd k1 \<noteq> hd k2"
proof (cases "val = []")
  case True
  then have "2 \<le> length (filter (\<lambda>c. c \<noteq> None) cs)" using assms by (simp add: ways_def)
  then obtain i j where ij: "i < j" "j < length cs" "cs ! i \<noteq> None" "cs ! j \<noteq> None" by (rule filter_two)
  have l16: "length cs = 16" using assms by simp
  obtain k1 k2 where "node_get (Some (mptBranch cs val)) (of_nat i # k1) \<noteq> None"
    "node_get (Some (mptBranch cs val)) (of_nat j # k2) \<noteq> None"
    using child_key [OF assms, of i] child_key [OF assms, of j] ij l16 by auto
  moreover have "(of_nat i :: byte) \<noteq> of_nat j" using ij l16 by (simp add: word_unat_eq_iff unat_of_nat)
  ultimately show thesis using that by fastforce
next
  case False
  then have "filter (\<lambda>c. c \<noteq> None) cs \<noteq> []" using assms by (auto simp: ways_def)
  then obtain c where "c \<in> set cs" "c \<noteq> None" unfolding filter_empty_conv by blast
  then obtain i where i: "i < 16" "cs ! i \<noteq> None" using assms by (auto simp: in_set_conv_nth)
  then obtain k where "node_get (Some (mptBranch cs val)) (of_nat i # k) \<noteq> None" using child_key [OF assms] by blast
  then show thesis using that [of "[]"] False by fastforce
qed

lemma branch_two:
  assumes "canon (mptBranch cs val)"
  shows "\<exists>k1 k2. node_get (Some (mptBranch cs val)) k1 \<noteq> None \<and> node_get (Some (mptBranch cs val)) k2 \<noteq> None \<and> k1 \<noteq> k2"
  by (rule branch_keys [OF assms]) blast

text \<open>The longest common prefix of the keys is the path of the extension.\<close>

lemma ext_path:
  assumes "canon (mptExt p c)" "\<And>k. node_get (Some (mptExt p c)) k \<noteq> None \<Longrightarrow> take (length q) k = q"
  shows "length q \<le> length p \<and> take (length q) p = q"
proof -
  obtain cs val where c: "c = mptBranch cs val" using assms(1) by (cases c) auto
  then obtain k1 k2 where k: "node_get (Some c) k1 \<noteq> None" "node_get (Some c) k2 \<noteq> None"
    "k1 = [] \<and> k2 \<noteq> [] \<or> k1 \<noteq> [] \<and> k2 \<noteq> [] \<and> hd k1 \<noteq> hd k2"
    using branch_keys [of cs val] assms(1) by auto
  have t: "take (length q) (p @ k1) = q" "take (length q) (p @ k2) = q"
    using assms(2) [of "p @ k1"] assms(2) [of "p @ k2"] k by simp_all
  have "length q \<le> length p"
  proof (rule ccontr)
    assume "\<not> length q \<le> length p"
    then obtain d where d: "length q = length p + Suc d" by (metis less_imp_Suc_add not_le add_Suc_right)
    have "take (Suc d) k1 = drop (length p) q" "take (Suc d) k2 = drop (length p) q"
      using t d by (auto dest: arg_cong [of _ _ "drop (length p)"])
    then have "take (Suc d) k1 = take (Suc d) k2" by simp
    then show False using k(3) by (cases k1; cases k2) auto
  qed
  then show ?thesis using t(1) by simp
qed

lemma canon_unique:
  assumes "canon m" "canon n" "\<And>k. node_get (Some m) k = node_get (Some n) k"
  shows "m = n"
  using assms
proof (induction m arbitrary: n)
  case (mptLeaf p v)
  have one: "node_get (Some n) k \<noteq> None \<longleftrightarrow> k = p" for k using mptLeaf.prems(3) [of k, symmetric] by simp
  show ?case
  proof (cases n)
    case l: (mptLeaf q w)
    then show ?thesis using mptLeaf.prems(3) [of p] by (auto split: if_splits)
  next
    case e: (mptExt q c)
    then obtain cs val where c: "c = mptBranch cs val" using mptLeaf.prems(2) by (cases c) auto
    then obtain k1 k2 where "node_get (Some c) k1 \<noteq> None" "node_get (Some c) k2 \<noteq> None" "k1 \<noteq> k2"
      using branch_two [of cs val] mptLeaf.prems(2) e by auto
    then have "q @ k1 = p" "q @ k2 = p" using one [of "q @ k1"] one [of "q @ k2"] e by simp_all
    then show ?thesis using \<open>k1 \<noteq> k2\<close> by auto
  next
    case b: (mptBranch cs val)
    then show ?thesis using branch_keys [of cs val] mptLeaf.prems(2) one by metis
  qed
next
  case (mptExt p c)
  have keys: "node_get (Some n) k \<noteq> None \<Longrightarrow> take (length p) k = p" for k using mptExt.prems(3) [of k] by (auto split: if_splits)
  show ?case
  proof (cases n)
    case l: (mptLeaf q w)
    obtain cs val where c: "c = mptBranch cs val" using mptExt.prems(1) by (cases c) auto
    then obtain k1 k2 where "node_get (Some c) k1 \<noteq> None" "node_get (Some c) k2 \<noteq> None" "k1 \<noteq> k2"
      using branch_two [of cs val] mptExt.prems(1) by auto
    then have "p @ k1 = q" "p @ k2 = q" using mptExt.prems(3) [of "p @ k1"] mptExt.prems(3) [of "p @ k2"] l by (auto split: if_splits)
    then show ?thesis using \<open>k1 \<noteq> k2\<close> by auto
  next
    case e: (mptExt q d)
    have "length p \<le> length q \<and> take (length p) q = p" using ext_path [of q d p] keys mptExt.prems(2) e by simp
    moreover have "length q \<le> length p \<and> take (length q) p = q"
      using ext_path [OF mptExt.prems(1), of q] mptExt.prems(3) e by (metis node_get.simps(3))
    ultimately have pq: "p = q" by simp
    have "node_get (Some c) k = node_get (Some d) k" for k using mptExt.prems(3) [of "p @ k"] e pq by simp
    then show ?thesis using mptExt.IH [of d] mptExt.prems e pq by simp
  next
    case b: (mptBranch cs val)
    obtain k1 k2 where k: "node_get (Some n) k1 \<noteq> None" "node_get (Some n) k2 \<noteq> None"
      "k1 = [] \<and> k2 \<noteq> [] \<or> k1 \<noteq> [] \<and> k2 \<noteq> [] \<and> hd k1 \<noteq> hd k2"
      using branch_keys [of cs val] mptExt.prems(2) b by auto
    have "take (length p) k1 = take (length p) k2" using keys [OF k(1)] keys [OF k(2)] by simp
    then show ?thesis using k(3) mptExt.prems(1) by (cases p; cases k1; cases k2) auto
  qed
next
  case (mptBranch cs val)
  obtain k1 k2 where k: "node_get (Some n) k1 \<noteq> None" "node_get (Some n) k2 \<noteq> None"
    "k1 = [] \<and> k2 \<noteq> [] \<or> k1 \<noteq> [] \<and> k2 \<noteq> [] \<and> hd k1 \<noteq> hd k2"
    using branch_keys [OF mptBranch.prems(1)] mptBranch.prems(3) by metis
  show ?case
  proof (cases n)
    case l: (mptLeaf q w)
    then have "k1 = q" "k2 = q" using k(1,2) by (auto split: if_splits)
    then show ?thesis using k(3) by auto
  next
    case e: (mptExt q d)
    then have "take (length q) k1 = take (length q) k2" using k(1,2) by (auto split: if_splits)
    then show ?thesis using k(3) mptBranch.prems(2) e by (cases q; cases k1; cases k2) auto
  next
    case b: (mptBranch ds w)
    have len: "length cs = 16" "length ds = 16" using mptBranch.prems b by simp_all
    have "val = w" using mptBranch.prems(3) [of "[]"] b by (auto split: if_splits)
    moreover have "cs ! i = ds ! i" if i: "i < 16" for i
    proof -
      have u: "unat (of_nat i :: byte) = i" using i by (simp add: unat_of_nat)
      have g: "node_get (cs ! i) k = node_get (ds ! i) k" for k
        using mptBranch.prems(3) [of "of_nat i # k"] b u i len by simp
      show ?thesis
      proof (cases "cs ! i")
        case None
        then have "ds ! i = None" using g child_key [of ds w i] mptBranch.prems(2) b i u len by (cases "ds ! i") (auto simp: None)
        then show ?thesis using None by simp
      next
        case (Some m)
        have "canon m" using mptBranch.prems(1) i len Some by (metis canon.simps(3) nth_mem option.pred_inject(2))
        then obtain k where "node_get (Some m) k \<noteq> None" using canon_key by blast
        then obtain m' where m': "ds ! i = Some m'" using g [of k] Some by (cases "ds ! i") auto
        have "canon m'" using mptBranch.prems(2) b i len m' by (metis canon.simps(3) nth_mem option.pred_inject(2))
        moreover have "Some m \<in> set cs" using Some i len by (metis nth_mem)
        ultimately have "m = m'" using mptBranch.IH [of "Some m" m m'] \<open>canon m\<close> g Some m' by simp
        then show ?thesis using Some m' by simp
      qed
    qed
    ultimately show ?thesis using b len by (simp add: list_eq_iff_nth_eq)
  qed
qed

section \<open>Building a trie\<close>

text \<open>Successive insertions; the resulting trie depends on the final map alone.\<close>

fun insertAll :: "mptNode option \<Rightarrow> (bytes \<times> bytes) list \<Rightarrow> mptNode option option" where
  "insertAll n [] = Some n"
| "insertAll n ((k, v) # kvs) = mptInsert n k v \<bind> (\<lambda>n. insertAll (Some n) kvs)"

definition entries_ok :: "(bytes \<times> bytes) list \<Rightarrow> bool" where
  "entries_ok kvs \<longleftrightarrow> (\<forall>(k, v) \<in> set kvs. nibs k \<and> v \<noteq> [])"

lemma insertAll_spec:
  assumes "pred_option canon n" "entries_ok kvs"
  shows "\<exists>n'. insertAll n kvs = Some n' \<and> pred_option canon n' \<and> (\<forall>k. node_get n' k = (case map_of (rev kvs) k of None \<Rightarrow> node_get n k | Some v \<Rightarrow> Some v))"
  using assms
proof (induction kvs arbitrary: n)
  case (Cons kv kvs)
  obtain k v where kv: "kv = (k, v)" by fastforce
  obtain n1 where n1: "mptInsert n k v = Some n1" "canon n1" "\<And>j. node_get (Some n1) j = (if j = k then Some v else node_get n j)"
    using mptInsert_spec [of n k v] Cons.prems by (auto simp: entries_ok_def kv)
  obtain n' where n': "insertAll (Some n1) kvs = Some n'" "pred_option canon n'"
    "\<And>j. node_get n' j = (case map_of (rev kvs) j of None \<Rightarrow> node_get (Some n1) j | Some v \<Rightarrow> Some v)"
    using Cons.IH [of "Some n1"] Cons.prems n1(2) by (auto simp: entries_ok_def)
  have "node_get n' j = (case map_of (rev (kv # kvs)) j of None \<Rightarrow> node_get n j | Some v \<Rightarrow> Some v)" for j
    by (auto simp: n'(3) n1(3) kv map_add_def split: option.splits)
  then show ?case using n' n1(1) by (simp add: kv)
qed simp

lemma trie_unique:
  assumes "pred_option canon m" "pred_option canon n" "\<And>k. node_get m k = node_get n k"
  shows "m = n"
proof (cases m)
  case None
  then have "node_get n k = None" for k using assms(3) [of k] by simp
  then have "n = None" using assms(2) canon_key [of "the n"] by (cases n) auto
  then show ?thesis using None by simp
next
  case (Some m')
  then obtain k where "node_get n k \<noteq> None" using assms canon_key by (metis option.pred_inject(2))
  then obtain n' where "n = Some n'" by (cases n) auto
  then show ?thesis using assms Some canon_unique by auto
qed

lemma insertAll_order:
  assumes "entries_ok kvs" "entries_ok kvs'" "map_of (rev kvs) = map_of (rev kvs')"
  shows "insertAll None kvs = insertAll None kvs'"
  using insertAll_spec [of None kvs] insertAll_spec [of None kvs'] assms trie_unique by fastforce

section \<open>Sizes\<close>

lemma length_compactTail: "length (compactTail ns) = length ns div 2"
  by (induction ns rule: compactTail.induct) auto

lemma length_MptCompactEncode: "length (MptCompactEncode ns l) = Suc (length ns div 2)"
  by (auto simp: MptCompactEncode_def length_compactTail Let_def elim!: oddE)

lemma MptChildRefSize_length: "MptChildRefSize c = length (MptEncodeChildRef c)"
  by (simp add: MptChildRefSize_def MptEncodeChildRef_def RlpEncodeBytes_def Let_def)

lemma MptChildRefSize_le: "MptChildRefSize c \<le> 33"
  by (simp add: MptChildRefSize_def)

text \<open>The header of a node announces exactly the bytes that follow: a node is one RLP list.\<close>

lemma MptEncodeBranch_rlp:
  "MptEncodeBranch cs val = rlpList (map (\<lambda>c. case c of Some r \<Rightarrow> MptEncodeChildRef r | None \<Rightarrow> [0x80]) cs @
     [if length val = 0 then [0x80] else RlpEncodeBytes val])"
proof -
  have "(\<Sum>c \<leftarrow> cs. case c of Some r \<Rightarrow> MptChildRefSize r | None \<Rightarrow> 1) =
    length (concat (map (\<lambda>c. case c of Some r \<Rightarrow> MptEncodeChildRef r | None \<Rightarrow> [0x80]) cs))"
    by (induction cs) (auto simp: MptChildRefSize_length split: option.splits)
  then show ?thesis by (simp add: MptEncodeBranch_def rlpList_def rlpBytesSize_length Let_def)
qed

lemma MptEncodeLeaf_rlp:
  "length key \<le> 510 \<Longrightarrow> MptEncodeLeaf key val = Some (rlpList [RlpEncodeBytes (MptCompactEncode key True), RlpEncodeBytes val])"
  by (simp add: MptEncodeLeaf_def fit_def length_MptCompactEncode rlpList_def rlpBytesSize_length Let_def)

lemma MptEncodeExtension_rlp:
  "length key \<le> 510 \<Longrightarrow> MptEncodeExtension key c = Some (rlpList [RlpEncodeBytes (MptCompactEncode key False), MptEncodeChildRef c])"
  by (simp add: MptEncodeExtension_def fit_def length_MptCompactEncode rlpList_def rlpBytesSize_length MptChildRefSize_length Let_def)

lemma length_RlpEncodeBytes_le: "length b < 65536 \<Longrightarrow> length (RlpEncodeBytes b) \<le> length b + 3"
  using rlpIntLen_le [of "length b" 2] by (simp add: RlpEncodeBytes_def Let_def)

lemma length_compact_le: "length ns \<le> 64 \<Longrightarrow> length (RlpEncodeBytes (MptCompactEncode ns l)) \<le> 36"
  using length_RlpEncodeBytes_le [of "MptCompactEncode ns l"] div_le_mono [of "length ns" 64 2]
  by (simp add: length_MptCompactEncode)

lemma length_rlpList_le: "length (concat xs) < 65536 \<Longrightarrow> length (rlpList xs) \<le> length (concat xs) + 3"
  using rlpIntLen_le [of "length (concat xs)" 2] by (simp add: rlpList_def RlpEncodeListHeader_def Let_def)

lemma length_concat_le: "(\<And>x. x \<in> set xs \<Longrightarrow> length x \<le> n) \<Longrightarrow> length (concat xs) \<le> length xs * n"
proof (induction xs)
  case (Cons x xs)
  then have "length x \<le> n" "length (concat xs) \<le> length xs * n" by simp_all
  then show ?case by simp
qed simp

text \<open>Bounds on paths and values under which no buffer of \<open>cap\<close> bytes is ever too short.\<close>

fun small :: "nat \<Rightarrow> mptNode \<Rightarrow> bool" where
  "small vmax (mptLeaf nibbles val) \<longleftrightarrow> length nibbles \<le> 64 \<and> length val \<le> vmax"
| "small vmax (mptExt nibbles child) \<longleftrightarrow> length nibbles \<le> 64 \<and> small vmax child"
| "small vmax (mptBranch cs val) \<longleftrightarrow> length cs = 16 \<and> length val \<le> vmax \<and> (\<forall>c \<in> set cs. pred_option (small vmax) c)"

lemma mptEncode_fits:
  assumes "vmax \<le> 60000" "vmax + 600 \<le> cap"
  shows "small vmax n \<Longrightarrow> \<exists>enc. mptEncode cap n = Some enc \<and> length enc \<le> cap"
proof (induction n)
  case (mptLeaf nibbles val)
  have "length (RlpEncodeBytes val) \<le> vmax + 3" "length (RlpEncodeBytes (MptCompactEncode nibbles True)) \<le> 36"
    using length_RlpEncodeBytes_le [of val] length_compact_le [of nibbles] mptLeaf assms by simp_all
  then have "length (rlpList [RlpEncodeBytes (MptCompactEncode nibbles True), RlpEncodeBytes val]) \<le> cap"
    using length_rlpList_le [of "[RlpEncodeBytes (MptCompactEncode nibbles True), RlpEncodeBytes val]"] assms by simp
  then show ?case using mptLeaf by (simp add: MptEncodeLeaf_rlp fit_def)
next
  case (mptExt nibbles child)
  then obtain c where c: "mptEncode cap child = Some c" by auto
  have "length (MptEncodeChildRef c) \<le> 33" "length (RlpEncodeBytes (MptCompactEncode nibbles False)) \<le> 36"
    using MptChildRefSize_le [of c] length_compact_le [of nibbles] mptExt.prems by (simp_all add: MptChildRefSize_length)
  then have "length (rlpList [RlpEncodeBytes (MptCompactEncode nibbles False), MptEncodeChildRef c]) \<le> cap"
    using length_rlpList_le [of "[RlpEncodeBytes (MptCompactEncode nibbles False), MptEncodeChildRef c]"] assms by simp
  then show ?case using c mptExt.prems by (simp add: MptEncodeExtension_rlp fit_def)
next
  case (mptBranch cs val)
  let ?encs = "map (map_option (mptEncode cap)) cs"
  let ?refs = "map (\<lambda>c. case c of Some r \<Rightarrow> MptEncodeChildRef r | None \<Rightarrow> [0x80]) (map (map_option the) ?encs)"
  have no: "Some None \<notin> set ?encs"
  proof
    assume "Some None \<in> set ?encs"
    then obtain m where "Some m \<in> set cs" "mptEncode cap m = None" by (auto simp: map_option_case split: option.splits)
    then show False using mptBranch.IH [of "Some m" m] mptBranch.prems by (fastforce simp: pred_option_def)
  qed
  have "length r \<le> 33" if "r \<in> set ?refs" for r
    using that MptChildRefSize_le by (auto simp: MptChildRefSize_length [symmetric] split: option.splits)
  then have "length (concat ?refs) \<le> length ?refs * 33" by (rule length_concat_le)
  then have "length (concat ?refs) \<le> 528" using mptBranch.prems by simp
  moreover have "length (RlpEncodeBytes val) \<le> vmax + 3"
    using length_RlpEncodeBytes_le [of val] mptBranch.prems assms by simp
  ultimately have "length (MptEncodeBranch (map (map_option the) ?encs) val) \<le> cap"
    unfolding MptEncodeBranch_rlp
    using length_rlpList_le [of "?refs @ [if length val = 0 then [0x80] else RlpEncodeBytes val]"] assms by auto
  then show ?case using no by (auto simp: fit_def Let_def)
qed

end
