(* ===== verification/Arena.thy ===== *)
theory Arena
  imports Patricia State_Trie
begin

text \<open>
  \<open>statetrie/arena.go\<close> and the root computation of \<open>statetrie/state_trie.go\<close>. The arena is a
  zone of nodes of fixed length with a counter, and a zone of bytes that grows: allocating
  a node in a full zone panics (\<open>None\<close>). Slices handed out are never written again, so their
  contents are values and only the counters are state. Insertion refines \<open>mptInsert\<close> of the
  Patricia trie. The zones for sorting are scratch space and carry no state from one
  call to the next.
\<close>

section \<open>The arena\<close>

record mptArena =
  nodesLen :: nat
  nodeCount :: nat
  bytesLen :: nat
  byteCount :: nat

definition ensureNodes :: "nat \<Rightarrow> mptArena \<Rightarrow> mptArena" where
  "ensureNodes n a = (if nodesLen a < n then a\<lparr>nodesLen := n\<rparr> else a)"

definition ensureBytes :: "nat \<Rightarrow> mptArena \<Rightarrow> mptArena" where
  "ensureBytes n a = (if bytesLen a < n then a\<lparr>bytesLen := n\<rparr> else a)"

definition resetArena :: "mptArena \<Rightarrow> mptArena" where
  "resetArena a = a\<lparr>nodeCount := 0, byteCount := 0\<rparr>"

definition allocNode :: "mptArena \<Rightarrow> mptArena option" where
  "allocNode a = (if nodeCount a \<ge> nodesLen a then None else Some (a\<lparr>nodeCount := nodeCount a + 1\<rparr>))"

text \<open>The loop \<open>for size < n { size *= 2 }\<close>, entered with \<open>size \<ge> 8192\<close>.\<close>

function growSize :: "nat \<Rightarrow> nat \<Rightarrow> nat" where
  "growSize sz n = (if sz < n \<and> 0 < sz then growSize (sz * 2) n else sz)"
  by pat_completeness auto
termination by (relation "measure (\<lambda>(sz, n). n - sz)") auto

declare growSize.simps [simp del]

definition growBytes :: "nat \<Rightarrow> mptArena \<Rightarrow> mptArena" where
  "growBytes n a =
     (let sz = bytesLen a * 2;
          sz = (if sz < 8192 then 8192 else sz)
      in a\<lparr>bytesLen := growSize sz n\<rparr>)"

definition allocBytes :: "mptArena \<Rightarrow> bytes \<Rightarrow> mptArena \<times> bytes" where
  "allocBytes a b =
     (if length b = 0 then (a, [])
      else
        (let end = byteCount a + length b;
             a = (if end > bytesLen a then growBytes end a else a)
         in (a\<lparr>byteCount := end\<rparr>, b)))"

definition nibbleLen :: nat where
  "nibbleLen = 64"

definition hashToNibbles :: "bytes \<Rightarrow> bytes" where
  "hashToNibbles h = concat (map (\<lambda>i. [drop_bit 4 (h ! i), h ! i AND 0x0f]) [0..<32])"

definition allocNibbles :: "mptArena \<Rightarrow> bytes \<Rightarrow> mptArena \<times> bytes" where
  "allocNibbles a h =
     (let end = byteCount a + nibbleLen;
          a = (if end > bytesLen a then growBytes end a else a)
      in (a\<lparr>byteCount := end\<rparr>, concat (map (\<lambda>i. [drop_bit 4 (h ! i), h ! i AND 0x0f]) [0..<32])))"

section \<open>Insertion\<close>

definition newLeaf :: "mptArena \<Rightarrow> bytes \<Rightarrow> bytes \<Rightarrow> (mptArena \<times> mptNode) option" where
  "newLeaf a key value =
     (do { a \<leftarrow> allocNode a;
           let (a, ns) = allocBytes a key;
               (a, v) = allocBytes a value
           in Some (a, mptLeaf ns v) })"

definition newExt :: "mptArena \<Rightarrow> bytes \<Rightarrow> mptNode \<Rightarrow> (mptArena \<times> mptNode) option" where
  "newExt a key child =
     (do { a \<leftarrow> allocNode a;
           let (a, ns) = allocBytes a key
           in Some (a, mptExt ns child) })"

definition splitToBranch :: "mptArena \<Rightarrow> bytes \<Rightarrow> bytes \<Rightarrow> mptNode option \<Rightarrow> bytes \<Rightarrow> bytes \<Rightarrow> (mptArena \<times> mptNode) option" where
  "splitToBranch a oldRest oldVal oldNode newRest newVal =
     (do { a \<leftarrow> allocNode a;
           (a, cs, val) \<leftarrow>
             (if oldRest = [] then (let (a, v) = allocBytes a oldVal in Some (a, replicate 16 None, v))
              else
                do { (a, old) \<leftarrow> (case oldNode of None \<Rightarrow> newLeaf a (tl oldRest) oldVal | Some n \<Rightarrow> Some (a, n));
                     cs \<leftarrow> setChild (replicate 16 None) (hd oldRest) old;
                     Some (a, cs, []) });
           (if newRest = [] then (let (a, v) = allocBytes a newVal in Some (a, mptBranch cs v))
            else
              do { (a, leaf) \<leftarrow> newLeaf a (tl newRest) newVal;
                   cs \<leftarrow> setChild cs (hd newRest) leaf;
                   Some (a, mptBranch cs val) }) })"

definition commonPrefix :: "bytes \<Rightarrow> bytes \<Rightarrow> nat" where
  "commonPrefix a b = commonPref a b"

definition insertLeaf :: "mptArena \<Rightarrow> bytes \<Rightarrow> bytes \<Rightarrow> bytes \<Rightarrow> bytes \<Rightarrow> (mptArena \<times> mptNode) option" where
  "insertLeaf a nibbles val key value =
     (if nibbles = key then (let (a, v) = allocBytes a value in Some (a, mptLeaf nibbles v))
      else
        (let cp = commonPrefix nibbles key
         in do { (a, br) \<leftarrow> splitToBranch a (drop cp nibbles) val None (drop cp key) value;
                 if cp > 0 then newExt a (take cp nibbles) br else Some (a, br) }))"

text \<open>\<open>insertExt\<close> when the key leaves the path of the extension.\<close>

definition insertExt :: "mptArena \<Rightarrow> bytes \<Rightarrow> mptNode \<Rightarrow> bytes \<Rightarrow> bytes \<Rightarrow> (mptArena \<times> mptNode) option" where
  "insertExt a nibbles child key value =
     (let cp = commonPrefix nibbles key;
          oldRest = drop cp nibbles
      in do { (a, oldNode) \<leftarrow> (if length oldRest = 1 then Some (a, child) else newExt a (tl oldRest) child);
              (a, br) \<leftarrow> splitToBranch a oldRest [] (Some oldNode) (drop cp key) value;
              if cp > 0 then newExt a (take cp nibbles) br else Some (a, br) })"

function insertNode :: "mptArena \<Rightarrow> mptNode option \<Rightarrow> bytes \<Rightarrow> bytes \<Rightarrow> (mptArena \<times> mptNode) option" where
  "insertNode a None key value = newLeaf a key value"
| "insertNode a (Some (mptLeaf nibbles val)) key value = insertLeaf a nibbles val key value"
| "insertNode a (Some (mptExt nibbles child)) key value =
     (if commonPrefix nibbles key = length nibbles
      then do { (a, n) \<leftarrow> insertNode a (Some child) (drop (length nibbles) key) value; Some (a, mptExt nibbles n) }
      else insertExt a nibbles child key value)"
| "insertNode a (Some (mptBranch cs val)) [] value = (let (a, v) = allocBytes a value in Some (a, mptBranch cs v))"
| "insertNode a (Some (mptBranch cs val)) (k # key) value =
     (if unat k < length cs
      then do { (a, n) \<leftarrow> insertNode a (cs ! unat k) key value; Some (a, mptBranch (cs[unat k := Some n]) val) }
      else None)"
  by pat_completeness auto
termination by (relation "measure (\<lambda>(a, n, key, value). size_option size n)") (auto simp: size_child)

section \<open>Roots\<close>

definition keccak32 :: "bytes \<Rightarrow> bytes" where
  "keccak32 inp = Keccak256 inp"

definition addrKey :: "Uint256 \<Rightarrow> bytes" where
  "addrKey addr = hashToNibbles (keccak32 (drop 12 (BytesBE (normalizeAddr (Some addr)))))"

definition encodeNode :: "mptNode \<Rightarrow> bytes option" where
  "encodeNode n = mptEncode 1024 n"

definition encodeNodeRLP :: "mptNode \<Rightarrow> bytes option" where
  "encodeNodeRLP n = encodeNode n"

definition hashRoot :: "mptNode option \<Rightarrow> bytes option" where
  "hashRoot n = (case n of None \<Rightarrow> Some emptyRoot | Some n \<Rightarrow> map_option Keccak256 (encodeNode n))"

definition rlpEncodeUint64 :: "u64 \<Rightarrow> bytes" where
  "rlpEncodeUint64 n = (if n = 0 then [0x80] else RlpEncodeBytes (minBytes (unat n)))"

definition rlpEncodeUint256 :: "Uint256 \<Rightarrow> bytes" where
  "rlpEncodeUint256 z = (if IsZero z then [0x80] else RlpEncodeBytes (dropWhile (\<lambda>b. b = 0) (BytesBE z)))"

definition encodeAccount :: "u64 \<Rightarrow> Uint256 \<Rightarrow> bytes \<Rightarrow> bytes \<Rightarrow> bytes" where
  "encodeAccount nonce bal storageRoot codeHash =
     (let nb = rlpEncodeUint64 nonce;
          bb = rlpEncodeUint256 bal;
          sb = RlpEncodeBytes storageRoot;
          cb = RlpEncodeBytes codeHash
      in RlpEncodeListHeader (length nb + length bb + length sb + length cb) @ nb @ bb @ sb @ cb)"

text \<open>Storage entries \<open>((addr, slot), val)\<close> of one address.\<close>

type_synonym storageEntry = "storageKey \<times> Uint256"

fun buildStorageTrieRange :: "mptArena \<Rightarrow> mptNode option \<Rightarrow> storageEntry list \<Rightarrow> (mptArena \<times> mptNode option) option" where
  "buildStorageTrieRange a n [] = Some (a, n)"
| "buildStorageTrieRange a n (((addr, slot), val) # es) =
     (let (a, nibs) = allocNibbles a (keccak32 (BytesBE slot))
      in do { (a, n) \<leftarrow> insertNode a n nibs (rlpEncodeUint256 val);
              buildStorageTrieRange a (Some n) es })"

definition storageRootOfRange :: "mptArena \<Rightarrow> storageEntry list \<Rightarrow> (mptArena \<times> bytes) option" where
  "storageRootOfRange a es =
     (if es = [] then Some (a, emptyRoot)
      else do { (a, n) \<leftarrow> buildStorageTrieRange a None es; h \<leftarrow> hashRoot n; Some (a, h) })"

definition insertAccount :: "mptArena \<Rightarrow> mptNode option \<Rightarrow> Uint256 \<Rightarrow> u64 \<Rightarrow> Uint256 \<Rightarrow> bytes \<Rightarrow> bytes \<Rightarrow>
    (mptArena \<times> mptNode) option" where
  "insertAccount a root addr nonce bal sr codeHash =
     (let (a, nibs) = allocNibbles a (keccak32 (drop 12 (BytesBE addr)))
      in insertNode a root nibs (encodeAccount nonce bal sr codeHash))"

text \<open>The storage of addresses without an account: the loops over \<open>entries[ei:]\<close>, up to the
  address \<open>lim\<close> (\<open>None\<close> in the last loop). A group is the entries of one address.\<close>

definition sameAddr :: "Uint256 \<Rightarrow> storageEntry \<Rightarrow> bool" where
  "sameAddr addr e \<longleftrightarrow> fst (fst e) = addr"

function orphans :: "Uint256 option \<Rightarrow> mptArena \<Rightarrow> mptNode option \<Rightarrow> storageEntry list \<Rightarrow>
    (mptArena \<times> mptNode option \<times> storageEntry list) option" where
  "orphans lim a root [] = Some (a, root, [])"
| "orphans lim a root (e # es) =
     (if (case lim of None \<Rightarrow> True | Some addr \<Rightarrow> Cmp (fst (fst e)) addr < 0) then
        (let here = sameAddr (fst (fst e))
         in do { (a, sr) \<leftarrow> storageRootOfRange a (takeWhile here (e # es));
                 (a, root) \<leftarrow> insertAccount a root (fst (fst e)) 0 zero256 sr emptyCodeHash;
                 orphans lim a (Some root) (dropWhile here (e # es)) })
      else Some (a, root, e # es))"
  by pat_completeness auto
termination
  by (relation "measure (\<lambda>(lim, a, root, es). length es)")
    (auto simp: sameAddr_def less_Suc_eq_le length_dropWhile_le)

fun mergeAccounts :: "mptArena \<Rightarrow> mptNode option \<Rightarrow> (Uint256 \<times> Account) list \<Rightarrow> storageEntry list \<Rightarrow>
    (mptArena \<times> mptNode option) option" where
  "mergeAccounts a root [] es = do { (a, root, es) \<leftarrow> orphans None a root es; Some (a, root) }"
| "mergeAccounts a root ((addr, acc) # accts) es =
     (do { (a, root, es) \<leftarrow> orphans (Some addr) a root es;
           (a, sr) \<leftarrow> storageRootOfRange a (takeWhile (sameAddr addr) es);
           let codeHash = (if CodeHash acc = replicate 32 0 then emptyCodeHash else CodeHash acc)
           in do { (a, root) \<leftarrow> insertAccount a root addr (Nonce acc) (Balance acc) sr codeHash;
                   mergeAccounts a (Some root) accts (dropWhile (sameAddr addr) es) } })"

text \<open>
  The entries of the two maps, in the order of the iterations \<open>sorder\<close> and \<open>aorder\<close>, then
  sorted. \<open>slices.SortFunc\<close> sorts by address and slot, which no two entries share.
\<close>

definition storageEntries :: "storageKey list \<Rightarrow> StateTrie \<Rightarrow> storageEntry list" where
  "storageEntries sorder t =
     sort_key (\<lambda>e. uval (fst (fst e)) * 2 ^ 256 + uval (snd (fst e)))
       (map (\<lambda>k. (k, the (storage t k))) sorder)"

definition accountEntries :: "Uint256 list \<Rightarrow> StateTrie \<Rightarrow> (Uint256 \<times> Account) list" where
  "accountEntries aorder t = sort_key (\<lambda>e. uval (fst e)) (map (\<lambda>k. (k, the (accounts t k))) aorder)"

definition reserveArena :: "nat \<Rightarrow> mptArena \<Rightarrow> mptArena" where
  "reserveArena n a = (if n = 0 then a else ensureBytes (640 * n + 32768) (ensureNodes (8 * n + 256) a))"

definition buildAccountTrie :: "storageKey list \<Rightarrow> Uint256 list \<Rightarrow> mptArena \<Rightarrow> StateTrie \<Rightarrow>
    (mptArena \<times> mptNode option) option" where
  "buildAccountTrie sorder aorder a t =
     (let a = reserveArena (length aorder + length sorder) a
      in mergeAccounts (resetArena a) None (accountEntries aorder t) (storageEntries sorder t))"

definition ComputeRoot :: "storageKey list \<Rightarrow> Uint256 list \<Rightarrow> mptArena \<Rightarrow> StateTrie \<Rightarrow> (mptArena \<times> bytes) option" where
  "ComputeRoot sorder aorder a t =
     (if aorder = [] \<and> sorder = [] then Some (a, emptyRoot)
      else do { (a, n) \<leftarrow> buildAccountTrie sorder aorder a t; h \<leftarrow> hashRoot n; Some (a, h) })"

text \<open>
  The walk of \<open>GenerateProof\<close>: the nodes collected and whether the key was found. A child is
  recorded when its parent refers to it by hash.
\<close>

function proofWalk :: "mptNode \<Rightarrow> bytes \<Rightarrow> bytes list \<Rightarrow> (bytes list \<times> bool) option" where
  "proofWalk (mptLeaf nibbles val) key pf = Some (pf, nibbles = key)"
| "proofWalk (mptExt nibbles child) key pf =
     (if length key < length nibbles \<or> nibbles \<noteq> take (length nibbles) key then Some (pf, False)
      else
        do { enc \<leftarrow> encodeNodeRLP child;
             proofWalk child (drop (length nibbles) key) (if length enc \<ge> 32 then pf @ [enc] else pf) })"
| "proofWalk (mptBranch cs val) [] pf = Some (pf, length val > 0)"
| "proofWalk (mptBranch cs val) (idx # key) pf =
     (if unat idx < length cs then
        (case cs ! unat idx of
           None \<Rightarrow> Some (pf, False)
         | Some child \<Rightarrow>
             do { enc \<leftarrow> encodeNodeRLP child;
                  proofWalk child key (if length enc \<ge> 32 then pf @ [enc] else pf) })
      else None)"
  by pat_completeness auto
termination
proof (relation "measure (\<lambda>(n, key, pf). size n)")
  fix cs :: "mptNode option list" and val idx key pf child enc
  assume "unat (idx :: byte) < length cs" "cs ! unat idx = Some child"
  then show "((child, key, if 32 \<le> length (enc :: bytes) then pf @ [enc] else pf), mptBranch cs val, idx # key, pf)
      \<in> measure (\<lambda>(n, key, pf). size n)"
    using size_child [of "unat idx" cs] by simp
qed simp_all

definition GenerateProof :: "storageKey list \<Rightarrow> Uint256 list \<Rightarrow> mptArena \<Rightarrow> StateTrie \<Rightarrow> Uint256 \<Rightarrow>
    (mptArena \<times> bytes list \<times> trie_error option) option" where
  "GenerateProof sorder aorder a t addr =
     (do { (a, root) \<leftarrow> buildAccountTrie sorder aorder a t;
           (case root of
              None \<Rightarrow> Some (a, [], Some ErrProofNotFound)
            | Some n \<Rightarrow>
                do { enc \<leftarrow> encodeNodeRLP n;
                     (pf, found) \<leftarrow> proofWalk n (addrKey addr) [enc];
                     Some (a, pf, if found then None else Some ErrProofNotFound) }) })"

section \<open>Insertion refines the Patricia trie\<close>

text \<open>At most \<open>k\<close> nodes allocated, the zone as long as before.\<close>

definition within :: "nat \<Rightarrow> mptArena \<Rightarrow> mptArena \<Rightarrow> bool" where
  "within k a a' \<longleftrightarrow> nodesLen a' = nodesLen a \<and> nodeCount a \<le> nodeCount a' \<and> nodeCount a' \<le> nodeCount a + k"

lemma within_refl [simp]: "within k a a"
  by (simp add: within_def)

lemma within_trans: "within i a b \<Longrightarrow> within j b c \<Longrightarrow> i + j \<le> k \<Longrightarrow> within k a c"
  by (auto simp: within_def)

text \<open>An allocating computation: it yields what the pure one yields, with at most \<open>k\<close> nodes, and
  it succeeds when that many are free.\<close>

definition allocates :: "nat \<Rightarrow> mptArena \<Rightarrow> (mptArena \<times> 'x) option \<Rightarrow> 'x option \<Rightarrow> bool" where
  "allocates k a r p \<longleftrightarrow>
     (\<forall>a' x. r = Some (a', x) \<longrightarrow> p = Some x \<and> within k a a') \<and>
     (\<forall>x. p = Some x \<longrightarrow> nodeCount a + k \<le> nodesLen a \<longrightarrow> (\<exists>a'. r = Some (a', x)))"

lemma allocatesD:
  assumes "allocates k a r p"
  shows "r = Some (a', x) \<Longrightarrow> p = Some x" "r = Some (a', x) \<Longrightarrow> within k a a'"
    "p = Some x \<Longrightarrow> nodeCount a + k \<le> nodesLen a \<Longrightarrow> \<exists>a'. r = Some (a', x)"
  using assms unfolding allocates_def by blast+

lemma allocatesI:
  assumes "\<And>a' x. r = Some (a', x) \<Longrightarrow> p = Some x" "\<And>a' x. r = Some (a', x) \<Longrightarrow> within k a a'"
    "\<And>x. p = Some x \<Longrightarrow> nodeCount a + k \<le> nodesLen a \<Longrightarrow> \<exists>a'. r = Some (a', x)"
  shows "allocates k a r p"
  unfolding allocates_def using assms by blast

lemma within_mono: "within j a a' \<Longrightarrow> j \<le> k \<Longrightarrow> within k a a'"
  by (simp add: within_def)

lemma allocates_mono:
  assumes "allocates j a r p" "j \<le> k"
  shows "allocates k a r p"
proof (rule allocatesI)
  show "p = Some x" if "r = Some (a', x)" for a' x using allocatesD(1) [OF assms(1) that] .
  show "within k a a'" if "r = Some (a', x)" for a' x using allocatesD(2) [OF assms(1) that] within_mono assms(2) by blast
  show "\<exists>a'. r = Some (a', x)" if "p = Some x" "nodeCount a + k \<le> nodesLen a" for x
  proof -
    have "nodeCount a + j \<le> nodesLen a" using that(2) assms(2) by linarith
    then show ?thesis using allocatesD(3) [OF assms(1) that(1)] by blast
  qed
qed

lemma allocates_pure: "allocates k a (Some (a, x)) (Some x)"
  by (simp add: allocates_def)

lemma allocates_bind:
  assumes r: "allocates i a r p" and f: "\<And>a' x. r = Some (a', x) \<Longrightarrow> allocates j a' (f (a', x)) (g x)" and k: "i + j \<le> k"
  shows "allocates k a (r \<bind> f) (p \<bind> g)"
proof (rule allocatesI)
  fix a2 y
  assume "r \<bind> f = Some (a2, y)"
  then obtain a1 x where s: "r = Some (a1, x)" "f (a1, x) = Some (a2, y)" by (cases r) auto
  note d = allocatesD(1,2) [OF r s(1)] allocatesD(1,2) [OF f [OF s(1)] s(2)]
  show "p \<bind> g = Some y" using d by simp
  show "within k a a2" using within_trans [OF d(2,4) k] .
next
  fix y
  assume p: "p \<bind> g = Some y" and free: "nodeCount a + k \<le> nodesLen a"
  then obtain x where x: "p = Some x" "g x = Some y" by (cases p) auto
  have "nodeCount a + i \<le> nodesLen a" using free k by linarith
  then obtain a1 where a1: "r = Some (a1, x)" using allocatesD(3) [OF r x(1)] by blast
  have "nodeCount a1 + j \<le> nodesLen a1" using allocatesD(2) [OF r a1] free k unfolding within_def by linarith
  then obtain a2 where "f (a1, x) = Some (a2, y)" using allocatesD(3) [OF f [OF a1] x(2)] by blast
  then show "\<exists>a'. r \<bind> f = Some (a', y)" using a1 by simp
qed

lemma allocBytes_eq: "allocBytes a b = (a', x) \<Longrightarrow> x = b \<and> nodesLen a' = nodesLen a \<and> nodeCount a' = nodeCount a"
  by (auto simp: allocBytes_def growBytes_def Let_def split: if_splits)

lemma allocates_shift:
  assumes "allocates j a' r p" "nodesLen a' = nodesLen a" "nodeCount a' = nodeCount a + i" "i + j \<le> k"
  shows "allocates k a r p"
proof (rule allocatesI)
  show "p = Some x" if "r = Some (b, x)" for b x using allocatesD(1) [OF assms(1) that] .
  show "within k a b" if "r = Some (b, x)" for b x
    using allocatesD(2) [OF assms(1) that] assms(2-4) unfolding within_def by linarith
  show "\<exists>b. r = Some (b, x)" if "p = Some x" "nodeCount a + k \<le> nodesLen a" for x
  proof -
    have "nodeCount a' + j \<le> nodesLen a'" using that(2) assms(2-4) by linarith
    then show ?thesis using allocatesD(3) [OF assms(1) that(1)] by blast
  qed
qed

lemma allocates_bytes:
  assumes "\<And>a'. allocates k a' (f a' b) p"
  shows "allocates k a (case allocBytes a b of (a', x) \<Rightarrow> f a' x) p"
proof -
  obtain a' x where e: "allocBytes a b = (a', x)" by fastforce
  then have x: "x = b" "nodesLen a' = nodesLen a" "nodeCount a' = nodeCount a" using allocBytes_eq by auto
  have "allocates k a (f a' x) p" by (rule allocates_shift [of k a' _ _ a 0]) (use assms x in auto)
  then show ?thesis using e by simp
qed

lemma allocates_node:
  assumes "\<And>a'. allocates j a' (f a') p" "Suc j \<le> k"
  shows "allocates k a (allocNode a \<bind> f) p"
proof (cases "allocNode a")
  case None
  then show ?thesis using assms(2) by (auto simp: allocates_def allocNode_def split: if_splits)
next
  case (Some a')
  then have "nodeCount a' = nodeCount a + 1" "nodesLen a' = nodesLen a" by (auto simp: allocNode_def split: if_splits)
  then have "allocates k a (f a') p" by (intro allocates_shift [OF assms(1), of a' a 1]) (use assms(2) in auto)
  then show ?thesis using Some by simp
qed

lemma newLeaf_allocates: "allocates (Suc 0) a (newLeaf a key v) (Some (mptLeaf key v))"
  unfolding newLeaf_def Let_def
  by (rule allocates_node [where j = 0]) (rule allocates_bytes allocates_pure | simp)+

lemma newExt_allocates: "allocates (Suc 0) a (newExt a key c) (Some (mptExt key c))"
  unfolding newExt_def Let_def
  by (rule allocates_node [where j = 0]) (rule allocates_bytes allocates_pure | simp)+

lemma setChild_allocates:
  "(\<And>cs'. allocates k a (f cs') (g cs')) \<Longrightarrow> allocates k a (setChild cs i n \<bind> f) (setChild cs i n \<bind> g)"
  by (cases "setChild cs i n") (simp_all add: allocates_def)

lemma newLeaf_child_allocates:
  "allocates (Suc 0) a (newLeaf a key v \<bind> (\<lambda>(a, l). setChild cs i l \<bind> (\<lambda>cs. Some (a, f cs))))
      (setChild cs i (mptLeaf key v) \<bind> (\<lambda>cs. Some (f cs)))"
  using allocates_bind [OF newLeaf_allocates, of a key v 0 "\<lambda>(a, l). setChild cs i l \<bind> (\<lambda>cs. Some (a, f cs))"
      "\<lambda>l. setChild cs i l \<bind> (\<lambda>cs. Some (f cs))" "Suc 0"]
  by (auto intro!: setChild_allocates allocates_pure)

lemma splitToBranch_allocates:
  "allocates (if oldNode = None then 3 else 2) a
     (splitToBranch a oldRest oldVal oldNode newRest newVal) (mptSplit oldRest oldVal oldNode newRest newVal)"
proof -
  have old: "allocates (if oldNode = None then Suc 0 else 0) a
      (if oldRest = [] then (case allocBytes a oldVal of (a, v) \<Rightarrow> Some (a, replicate 16 None, v))
       else
         do { (a, old) \<leftarrow> (case oldNode of None \<Rightarrow> newLeaf a (tl oldRest) oldVal | Some n \<Rightarrow> Some (a, n));
              cs \<leftarrow> setChild (replicate 16 None) (hd oldRest) old;
              Some (a, cs, []) })
      (if oldRest = [] then Some (replicate 16 None, oldVal)
       else
         do { cs \<leftarrow> setChild (replicate 16 None) (hd oldRest)
                (case oldNode of None \<Rightarrow> mptLeaf (tl oldRest) oldVal | Some n \<Rightarrow> n);
              Some (cs, []) })" for a
    by (cases oldNode) (auto intro!: newLeaf_child_allocates allocates_bytes allocates_pure setChild_allocates)
  have new: "allocates (Suc 0) a
      (if newRest = [] then (case allocBytes a newVal of (a, v) \<Rightarrow> Some (a, mptBranch cs v))
       else
         do { (a, leaf) \<leftarrow> newLeaf a (tl newRest) newVal;
              cs \<leftarrow> setChild cs (hd newRest) leaf;
              Some (a, mptBranch cs val) })
      (if newRest = [] then Some (mptBranch cs newVal)
       else
         do { cs \<leftarrow> setChild cs (hd newRest) (mptLeaf (tl newRest) newVal);
              Some (mptBranch cs val) })" for a cs val
    by (auto intro!: newLeaf_child_allocates allocates_bytes allocates_pure)
  show ?thesis
    unfolding splitToBranch_def mptSplit_def Let_def
  proof (rule allocates_node [where j = "if oldNode = None then 2 else 1"], rule allocates_bind [OF old, where j = "Suc 0"])
    fix a' and x :: "mptArena \<times> mptNode option list \<times> bytes" and y :: "mptNode option list \<times> bytes"
    show "allocates (Suc 0) a' (case (a', y) of (a, cs, val) \<Rightarrow>
        (if newRest = [] then (case allocBytes a newVal of (a, v) \<Rightarrow> Some (a, mptBranch cs v))
         else do { (a, leaf) \<leftarrow> newLeaf a (tl newRest) newVal; cs \<leftarrow> setChild cs (hd newRest) leaf; Some (a, mptBranch cs val) }))
      (case y of (cs, val) \<Rightarrow>
        (if newRest = [] then Some (mptBranch cs newVal)
         else do { cs \<leftarrow> setChild cs (hd newRest) (mptLeaf (tl newRest) newVal); Some (mptBranch cs val) }))"
      by (cases y) (simp only: prod.case new)
  qed simp_all
qed

lemma underExt_allocates:
  assumes "allocates i a r p" "Suc i \<le> k"
  shows "allocates k a (r \<bind> (\<lambda>(a, br). if cp > 0 then newExt a (take cp ns) br else Some (a, br))) (map_option (underExt cp ns) p)"
proof -
  have "allocates k a (r \<bind> (\<lambda>(a, br). if cp > 0 then newExt a (take cp ns) br else Some (a, br)))
      (p \<bind> (\<lambda>br. Some (underExt cp ns br)))"
    by (rule allocates_bind [OF assms(1), where j = "Suc 0"])
      (use assms(2) in \<open>auto simp: underExt_def newExt_allocates allocates_pure\<close>)
  moreover have "p \<bind> (\<lambda>br. Some (underExt cp ns br)) = map_option (underExt cp ns) p" by (cases p) simp_all
  ultimately show ?thesis by simp
qed

lemma insertLeaf_allocates: "allocates 4 a (insertLeaf a ns val key v) (mptInsertLeaf ns val key v)"
  unfolding insertLeaf_def mptInsertLeaf_def commonPrefix_def
  by (auto simp: Let_def intro!: underExt_allocates [OF splitToBranch_allocates] allocates_bytes allocates_pure)

lemma insertExt_allocates: "allocates 4 a (insertExt a ns child key v) (mptSplitExt ns child key v)"
proof -
  define cp where "cp = commonPref ns key"
  define r where "r = drop cp ns"
  have 1: "allocates (Suc 0) a (if length r = 1 then Some (a, child) else newExt a (tl r) child)
      (Some (if length r = 1 then child else mptExt (tl r) child))"
    by (simp add: newExt_allocates allocates_pure)
  have "allocates 4 a
     ((if length r = 1 then Some (a, child) else newExt a (tl r) child) \<bind>
        (\<lambda>(a, oldNode). splitToBranch a r [] (Some oldNode) (drop cp key) v \<bind>
           (\<lambda>(a, br). if cp > 0 then newExt a (take cp ns) br else Some (a, br))))
     (Some (if length r = 1 then child else mptExt (tl r) child) \<bind>
        (\<lambda>oldNode. map_option (underExt cp ns) (mptSplit r [] (Some oldNode) (drop cp key) v)))"
    by (rule allocates_bind [OF 1, where j = 3]) (auto intro!: underExt_allocates [OF splitToBranch_allocates])
  then show ?thesis
    unfolding insertExt_def mptSplitExt_def commonPrefix_def cp_def [symmetric] r_def [symmetric] Let_def by simp
qed

lemma insertNode_allocates: "allocates 4 a (insertNode a n key v) (mptInsert n key v)"
proof (induction a n key v rule: insertNode.induct)
  case (1 a key v)
  then show ?case by (auto intro: allocates_mono [OF newLeaf_allocates])
next
  case (3 a nibbles child key v)
  have *: "map_option f p = p \<bind> (\<lambda>x. Some (f x))" for f and p :: "mptNode option" by (cases p) simp_all
  show ?case
  proof (cases "commonPref nibbles key = length nibbles")
    case True
    then have IH: "allocates 4 a (insertNode a (Some child) (drop (length nibbles) key) v) (mptInsert (Some child) (drop (length nibbles) key) v)"
      using 3 by (simp add: commonPrefix_def)
    show ?thesis using True
      by (simp add: commonPrefix_def *) (rule allocates_bind [OF IH, where j = 0], auto intro: allocates_pure)
  qed (simp add: commonPrefix_def insertExt_allocates)
next
  case (5 a cs val k key v)
  have *: "map_option f p = p \<bind> (\<lambda>x. Some (f x))" for f and p :: "mptNode option" by (cases p) simp_all
  show ?case
  proof (cases "unat k < length cs")
    case True
    then have IH: "allocates 4 a (insertNode a (cs ! unat k) key v) (mptInsert (cs ! unat k) key v)" using 5 by simp
    show ?thesis using True
      by (simp add: *) (rule allocates_bind [OF IH, where j = 0], auto intro: allocates_pure)
  qed (simp add: allocates_def)
qed (auto simp: insertLeaf_allocates intro!: allocates_bytes allocates_pure)

section \<open>The leaves of the state trie\<close>

definition slotKV :: "storageEntry \<Rightarrow> bytes \<times> bytes" where
  "slotKV e = (hashToNibbles (keccak32 (BytesBE (snd (fst e)))), rlpEncodeUint256 (snd e))"

definition storRootP :: "storageEntry list \<Rightarrow> bytes option" where
  "storRootP es = (if es = [] then Some emptyRoot else insertAll None (map slotKV es) \<bind> hashRoot)"

definition addrNib :: "Uint256 \<Rightarrow> bytes" where
  "addrNib addr = hashToNibbles (keccak32 (drop 12 (BytesBE addr)))"

definition accountKV :: "Uint256 \<Rightarrow> Account option \<Rightarrow> storageEntry list \<Rightarrow> bytes \<times> bytes" where
  "accountKV addr acc es =
     (addrNib addr,
      case acc of
        None \<Rightarrow> encodeAccount 0 zero256 (the (storRootP es)) emptyCodeHash
      | Some acc \<Rightarrow> encodeAccount (Nonce acc) (Balance acc) (the (storRootP es))
          (if CodeHash acc = replicate 32 0 then emptyCodeHash else CodeHash acc))"

lemma length_hashToNibbles: "length (hashToNibbles h) = 64"
  by (simp add: hashToNibbles_def length_concat comp_def sum_list_triv)

lemma unat_hi_nibble: "unat (drop_bit 4 (x :: byte)) < 16"
proof -
  have "unat (drop_bit 4 x) = unat x div 16" by (simp add: drop_bit_eq_div unat_div_distrib)
  moreover have "unat x < 16 * 16" using unsigned_less [of x, where ?'a = nat] by simp
  ultimately show ?thesis by (simp only: less_mult_imp_div_less)
qed

lemma unat_lo_nibble: "unat (x AND 0x0f :: byte) < 16"
proof -
  have "x AND 0x0f = take_bit 4 x" by (simp add: take_bit_eq_mask mask_eq_exp_minus_1)
  then have "unat (x AND 0x0f) = take_bit 4 (unat x)" by (simp only: unsigned_take_bit_eq)
  then show ?thesis by (simp add: take_bit_eq_mod)
qed

lemma nibs_hashToNibbles: "nibs (hashToNibbles h)"
  by (auto simp: nibs_def hashToNibbles_def unat_hi_nibble unat_lo_nibble)

lemma RlpEncodeBytes_nonempty: "RlpEncodeBytes b \<noteq> []"
  by (simp add: RlpEncodeBytes_def Let_def)

lemma rlpEncodeUint256_bounds: "rlpEncodeUint256 z \<noteq> []" "length (rlpEncodeUint256 z) \<le> 35"
proof -
  show "rlpEncodeUint256 z \<noteq> []" by (simp add: rlpEncodeUint256_def RlpEncodeBytes_nonempty)
  have "length (dropWhile (\<lambda>b. b = 0) (BytesBE z)) \<le> 32" using length_dropWhile_le [of _ "BytesBE z"] by simp
  then show "length (rlpEncodeUint256 z) \<le> 35"
    using length_RlpEncodeBytes_le [of "dropWhile (\<lambda>b. b = 0) (BytesBE z)"] by (simp add: rlpEncodeUint256_def)
qed

lemma entries_ok_slots: "entries_ok (map slotKV es)"
  by (auto simp: entries_ok_def slotKV_def nibs_hashToNibbles rlpEncodeUint256_bounds)

text \<open>Insertion of short keys and values keeps a trie small.\<close>

lemma small_underExt: "small v br \<Longrightarrow> length ns \<le> 64 \<Longrightarrow> small v (underExt cp ns br)"
  by (auto simp: underExt_def)

lemma small_setChild:
  assumes "setChild cs i n = Some cs'" "small v n" "\<forall>c \<in> set cs. pred_option (small v) c" "length cs = 16"
  shows "\<forall>c \<in> set cs'. pred_option (small v) c" "length cs' = 16"
  using assms by (auto simp: setChild_def split: if_splits dest!: set_update_subset_insert [THEN subsetD])

lemma small_mptSplit:
  assumes "mptSplit oldRest oldVal oldNode newRest newVal = Some br" "length oldRest \<le> 64" "length newRest \<le> 64"
    "length oldVal \<le> v" "length newVal \<le> v" "pred_option (small v) oldNode"
  shows "small v br"
proof -
  have s: "\<forall>c \<in> set (replicate 16 None). pred_option (small v) c" "length (replicate 16 (None :: mptNode option)) = 16" by simp_all
  have old: "small v (case oldNode of None \<Rightarrow> mptLeaf (tl oldRest) oldVal | Some n \<Rightarrow> n)"
    using assms by (auto split: option.split)
  have new: "small v (mptLeaf (tl newRest) newVal)" using assms by simp
  obtain cs val where c: "\<forall>c \<in> set cs. pred_option (small v) c" "length cs = 16" "length val \<le> v"
    "(if newRest = [] then Some (mptBranch cs newVal)
      else setChild cs (hd newRest) (mptLeaf (tl newRest) newVal) \<bind> (\<lambda>cs. Some (mptBranch cs val))) = Some br"
  proof (cases "oldRest = []")
    case True
    then show thesis using that [of "replicate 16 None" oldVal] assms(1,4) by (simp add: mptSplit_def)
  next
    case False
    then obtain cs where "setChild (replicate 16 None) (hd oldRest) (case oldNode of None \<Rightarrow> mptLeaf (tl oldRest) oldVal | Some n \<Rightarrow> n) = Some cs"
      using assms(1) by (auto simp: mptSplit_def bind_eq_Some_conv)
    then show thesis using that [of cs "[]"] small_setChild [OF _ old s] assms(1) False by (simp add: mptSplit_def)
  qed
  then show ?thesis
    using small_setChild [OF _ new c(1,2)] assms(5) by (auto simp: bind_eq_Some_conv split: if_splits)
qed

lemma small_mptInsert:
  assumes "mptInsert n key w = Some n'" "pred_option (small v) n" "length key \<le> 64" "length w \<le> v"
  shows "small v n'"
  using assms
proof (induction n key w arbitrary: n' rule: mptInsert.induct)
  case (2 nibbles val key w)
  then show ?case
    by (auto simp: mptInsertLeaf_def Let_def split: if_splits intro!: small_underExt elim!: small_mptSplit)
next
  case (3 nibbles child key w)
  then show ?case
    by (auto simp: mptSplitExt_def Let_def split: if_splits intro!: small_underExt elim!: small_mptSplit)
next
  case (5 cs val k key w)
  then obtain n1 where n1: "unat k < length cs" "mptInsert (cs ! unat k) key w = Some n1" "n' = mptBranch (cs[unat k := Some n1]) val"
    by (auto split: if_splits)
  then have "small v n1" using 5 by simp
  then show ?case using 5 n1 by (auto dest!: set_update_subset_insert [THEN subsetD])
qed auto

lemma small_insertAll:
  "insertAll n kvs = Some n' \<Longrightarrow> pred_option (small v) n \<Longrightarrow> \<forall>(k, w) \<in> set kvs. length k \<le> 64 \<and> length w \<le> v \<Longrightarrow>
   pred_option (small v) n'"
proof (induction kvs arbitrary: n)
  case (Cons kv kvs)
  obtain k w where kv: "kv = (k, w)" by fastforce
  obtain n1 where n1: "mptInsert n k w = Some n1" "insertAll (Some n1) kvs = Some n'"
    using Cons.prems(1) by (auto simp: kv bind_eq_Some_conv)
  have "small v n1" using small_mptInsert [OF n1(1)] Cons.prems by (auto simp: kv)
  then show ?case using Cons.IH [OF n1(2)] Cons.prems by auto
qed auto

lemma storRootP_some: "\<exists>h. storRootP es = Some h \<and> length h = 32"
proof (cases "es = []")
  case False
  obtain n where n: "insertAll None (map slotKV es) = Some n"
    using insertAll_spec [OF _ entries_ok_slots, of None] by auto
  have "\<forall>(k, w) \<in> set (map slotKV es). length k \<le> 64 \<and> length w \<le> 35"
    by (auto simp: slotKV_def length_hashToNibbles rlpEncodeUint256_bounds)
  then have "pred_option (small 35) n" using small_insertAll [OF n] by simp
  then obtain h where "hashRoot n = Some h" "length h = 32"
    using mptEncode_fits [of 35 1024 "the n"] by (cases n) (auto simp: hashRoot_def encodeNode_def emptyRoot_def)
  then show ?thesis using n False by (simp add: storRootP_def)
qed (simp add: storRootP_def emptyRoot_def)

section \<open>The allocations of a root computation\<close>

lemma allocates_nibbles:
  assumes "\<And>a'. allocates k a' (f a' (hashToNibbles h)) p"
  shows "allocates k a (case allocNibbles a h of (a', x) \<Rightarrow> f a' x) p"
proof -
  obtain a' where e: "allocNibbles a h = (a', hashToNibbles h)" "nodesLen a' = nodesLen a" "nodeCount a' = nodeCount a"
    by (auto simp: allocNibbles_def hashToNibbles_def growBytes_def Let_def)
  have "allocates k a (f a' (hashToNibbles h)) p" by (rule allocates_shift [of k a' _ _ a 0]) (use assms e in auto)
  then show ?thesis using e(1) by simp
qed

lemma buildStorageTrieRange_allocates:
  "allocates (4 * length es) a (buildStorageTrieRange a n es) (insertAll n (map slotKV es))"
proof (induction es arbitrary: a n)
  case (Cons e es)
  obtain addr slot val where e: "e = ((addr, slot), val)" by (metis surj_pair)
  have "allocates (4 * length (e # es)) a'
      (insertNode a' n (hashToNibbles (keccak32 (BytesBE slot))) (rlpEncodeUint256 val) \<bind> (\<lambda>(a, n). buildStorageTrieRange a (Some n) es))
      (mptInsert n (hashToNibbles (keccak32 (BytesBE slot))) (rlpEncodeUint256 val) \<bind> (\<lambda>n. insertAll (Some n) (map slotKV es)))" for a'
    by (rule allocates_bind [OF insertNode_allocates, where j = "4 * length es"]) (simp_all add: Cons.IH)
  then show ?case by (auto simp: e slotKV_def [of "((addr, slot), val)"] intro!: allocates_nibbles)
qed (simp add: allocates_def)

lemma storageRootOfRange_allocates: "allocates (4 * length es) a (storageRootOfRange a es) (storRootP es)"
proof (cases "es = []")
  case False
  have "allocates (4 * length es) a
      (buildStorageTrieRange a None es \<bind> (\<lambda>(a, n). hashRoot n \<bind> (\<lambda>h. Some (a, h)))) (insertAll None (map slotKV es) \<bind> hashRoot)"
    by (rule allocates_bind [OF buildStorageTrieRange_allocates, where j = 0]) (auto simp: allocates_def bind_eq_Some_conv)
  then show ?thesis using False by (simp add: storageRootOfRange_def storRootP_def)
qed (simp add: storageRootOfRange_def storRootP_def allocates_def)

lemma insertAccount_allocates:
  "allocates 4 a (insertAccount a root addr nonce bal sr ch) (mptInsert root (addrNib addr) (encodeAccount nonce bal sr ch))"
  unfolding insertAccount_def addrNib_def Let_def by (rule allocates_nibbles) (rule insertNode_allocates)

text \<open>The root of a group, then the leaf of its account.\<close>

lemma account_allocates:
  assumes "\<And>a' sr. storRootP es = Some sr \<Longrightarrow> allocates j a' (f (a', sr)) (g sr)" "4 * length es + j \<le> k"
  shows "allocates k a (storageRootOfRange a es \<bind> f) (g (the (storRootP es)))"
proof -
  obtain sr where sr: "storRootP es = Some sr" using storRootP_some by blast
  have "allocates k a (storageRootOfRange a es \<bind> f) (storRootP es \<bind> g)"
    by (rule allocates_bind [OF storageRootOfRange_allocates, where j = j])
      (use assms sr allocatesD(1) [OF storageRootOfRange_allocates] in auto)
  then show ?thesis using sr by simp
qed

text \<open>The entries before an address, in groups of one address.\<close>

fun before :: "Uint256 option \<Rightarrow> storageEntry \<Rightarrow> bool" where
  "before None e = True"
| "before (Some addr) e = (uval (fst (fst e)) < uval addr)"

function groups :: "storageEntry list \<Rightarrow> (Uint256 \<times> storageEntry list) list" where
  "groups [] = []"
| "groups (e # es) =
     (fst (fst e), takeWhile (sameAddr (fst (fst e))) (e # es)) # groups (dropWhile (sameAddr (fst (fst e))) (e # es))"
  by pat_completeness auto
termination
  by (relation "measure length") (auto simp: sameAddr_def less_Suc_eq_le length_dropWhile_le)

definition orphanKV :: "storageEntry list \<Rightarrow> (bytes \<times> bytes) list" where
  "orphanKV es = map (\<lambda>(addr, g). accountKV addr None g) (groups es)"

lemma before_same: "before lim e \<Longrightarrow> sameAddr (fst (fst e)) e' \<Longrightarrow> before lim e'"
  by (cases lim) (simp_all add: sameAddr_def)

lemma takeWhile_sub: "(\<And>x. x \<in> set xs \<Longrightarrow> Q x \<Longrightarrow> P x) \<Longrightarrow> takeWhile Q (takeWhile P xs) = takeWhile Q xs"
  by (induction xs) auto

lemma dropWhile_sub:
  "(\<And>x. x \<in> set xs \<Longrightarrow> Q x \<Longrightarrow> P x) \<Longrightarrow> dropWhile Q (takeWhile P xs) = takeWhile P (dropWhile Q xs)"
  "(\<And>x. x \<in> set xs \<Longrightarrow> Q x \<Longrightarrow> P x) \<Longrightarrow> dropWhile P (dropWhile Q xs) = dropWhile P xs"
  by (induction xs) auto

lemma Cmp_before: "(case lim of None \<Rightarrow> True | Some addr \<Rightarrow> Cmp (fst (fst e)) addr < 0) = before lim e"
  by (cases lim) (simp_all add: Cmp_less)

lemma orphans_allocates:
  "allocates (8 * length (takeWhile (before lim) es)) a (orphans lim a root es)
     (insertAll root (orphanKV (takeWhile (before lim) es)) \<bind> (\<lambda>r. Some (r, dropWhile (before lim) es)))"
proof (induction es arbitrary: a root rule: measure_induct_rule [of length])
  case (less xs)
  show ?case
  proof (cases xs)
    case Nil
    then show ?thesis by (simp add: orphanKV_def allocates_def)
  next
    case es: (Cons e es)
  show ?thesis
  proof (cases "before lim e")
    case False
    then show ?thesis by (simp add: es Cmp_before orphanKV_def allocates_def)
  next
    case True
    define here where "here = sameAddr (fst (fst e))"
    define g where "g = takeWhile here (e # es)"
    define rest where "rest = dropWhile here (e # es)"
    have sub: "x \<in> set (e # es) \<Longrightarrow> here x \<Longrightarrow> before lim x" for x using before_same True by (simp add: here_def)
    have he: "here e" by (simp add: here_def sameAddr_def)
    have tw: "takeWhile here (takeWhile (before lim) (e # es)) = g" "dropWhile here (takeWhile (before lim) (e # es)) = takeWhile (before lim) rest"
      "dropWhile (before lim) rest = dropWhile (before lim) (e # es)"
      unfolding g_def rest_def using sub by (intro takeWhile_sub dropWhile_sub, blast)+
    have len: "length (takeWhile (before lim) (e # es)) = length g + length (takeWhile (before lim) rest)"
      using tw(1,2) by (metis length_append takeWhile_dropWhile_id)
    have g1: "1 \<le> length g" using he by (simp add: g_def)
    have "length rest \<le> length es" using he length_dropWhile_le by (simp add: rest_def)
    then have IH: "allocates (8 * length (takeWhile (before lim) rest)) a' (orphans lim a' n rest)
      (insertAll n (orphanKV (takeWhile (before lim) rest)) \<bind> (\<lambda>r. Some (r, dropWhile (before lim) rest)))" for a' n
      using less.IH [of rest] es by simp
    have kv: "orphanKV (takeWhile (before lim) (e # es)) = accountKV (fst (fst e)) None g # orphanKV (takeWhile (before lim) rest)"
      using True tw by (simp add: orphanKV_def here_def)
    have "allocates (8 * length (takeWhile (before lim) (e # es))) a
        (storageRootOfRange a g \<bind> (\<lambda>(a, sr). insertAccount a root (fst (fst e)) 0 zero256 sr emptyCodeHash \<bind>
           (\<lambda>(a, root). orphans lim a (Some root) rest)))
        (mptInsert root (addrNib (fst (fst e))) (encodeAccount 0 zero256 (the (storRootP g)) emptyCodeHash) \<bind>
           (\<lambda>n. insertAll (Some n) (orphanKV (takeWhile (before lim) rest)) \<bind> (\<lambda>r. Some (r, dropWhile (before lim) rest))))"
    proof (rule account_allocates [where j = "4 + 8 * length (takeWhile (before lim) rest)"])
      fix a' sr
      assume sr: "storRootP g = Some sr"
      show "allocates (4 + 8 * length (takeWhile (before lim) rest)) a'
          (case (a', sr) of (a, sr) \<Rightarrow> insertAccount a root (fst (fst e)) 0 zero256 sr emptyCodeHash \<bind>
             (\<lambda>(a, root). orphans lim a (Some root) rest))
          (mptInsert root (addrNib (fst (fst e))) (encodeAccount 0 zero256 sr emptyCodeHash) \<bind>
             (\<lambda>n. insertAll (Some n) (orphanKV (takeWhile (before lim) rest)) \<bind> (\<lambda>r. Some (r, dropWhile (before lim) rest))))"
        unfolding prod.case
        by (rule allocates_bind [OF insertAccount_allocates, where j = "8 * length (takeWhile (before lim) rest)"])
          (simp_all add: IH)
    next
      show "4 * length g + (4 + 8 * length (takeWhile (before lim) rest)) \<le> 8 * length (takeWhile (before lim) (e # es))"
        using len g1 by linarith
    qed
    moreover have "orphans lim a root (e # es) = storageRootOfRange a g \<bind>
        (\<lambda>(a, sr). insertAccount a root (fst (fst e)) 0 zero256 sr emptyCodeHash \<bind> (\<lambda>(a, root). orphans lim a (Some root) rest))"
      using True by (simp add: Cmp_before g_def rest_def here_def Let_def)
    ultimately show ?thesis unfolding es by (simp add: kv accountKV_def tw(3) del: takeWhile.simps dropWhile.simps orphans.simps)
  qed
  qed
qed

fun mergeKV :: "(Uint256 \<times> Account) list \<Rightarrow> storageEntry list \<Rightarrow> (bytes \<times> bytes) list" where
  "mergeKV [] es = orphanKV es"
| "mergeKV ((addr, acc) # accts) es =
     (let rest = dropWhile (before (Some addr)) es
      in orphanKV (takeWhile (before (Some addr)) es) @
         accountKV addr (Some acc) (takeWhile (sameAddr addr) rest) # mergeKV accts (dropWhile (sameAddr addr) rest))"

lemma insertAll_append: "insertAll n (xs @ ys) = insertAll n xs \<bind> (\<lambda>n. insertAll n ys)"
  by (induction n xs rule: insertAll.induct) (auto split: Option.bind_split)

lemma mergeAccounts_allocates:
  "allocates (8 * length es + 4 * length accts) a (mergeAccounts a root accts es) (insertAll root (mergeKV accts es))"
proof (induction accts arbitrary: a root es)
  case Nil
  have "allocates (8 * length es) a (orphans None a root es \<bind> (\<lambda>(a, root, es). Some (a, root)))
      (insertAll root (orphanKV (takeWhile (before None) es)) \<bind> (\<lambda>r. Some (r, dropWhile (before None) es)) \<bind> (\<lambda>(r, es). Some r))"
    by (rule allocates_bind [OF orphans_allocates, where j = 0]) (auto simp: allocates_def length_takeWhile_le)
  moreover have "takeWhile (before None) es = es" by (simp add: takeWhile_eq_all_conv)
  ultimately show ?case by (simp add: bind_assoc)
next
  case (Cons p accts)
  obtain addr acc where p: "p = (addr, acc)" by fastforce
  define pre where "pre = takeWhile (before (Some addr)) es"
  define rest where "rest = dropWhile (before (Some addr)) es"
  define g where "g = takeWhile (sameAddr addr) rest"
  define tl where "tl = dropWhile (sameAddr addr) rest"
  define ch where "ch = (if CodeHash acc = replicate 32 0 then emptyCodeHash else CodeHash acc)"
  have len: "length es = length pre + length g + length tl"
    unfolding pre_def rest_def g_def tl_def by (metis add.assoc length_append takeWhile_dropWhile_id)
  have acct: "allocates (4 * length g + (4 + (8 * length tl + 4 * length accts))) a'
      (storageRootOfRange a' g \<bind> (\<lambda>(a, sr). insertAccount a n addr (Nonce acc) (Balance acc) sr ch \<bind>
         (\<lambda>(a, root). mergeAccounts a (Some root) accts tl)))
      (mptInsert n (addrNib addr) (encodeAccount (Nonce acc) (Balance acc) (the (storRootP g)) ch) \<bind>
         (\<lambda>n. insertAll (Some n) (mergeKV accts tl)))" for a' n
  proof (rule account_allocates [where j = "4 + (8 * length tl + 4 * length accts)"])
    fix a'' sr
    show "allocates (4 + (8 * length tl + 4 * length accts)) a''
        (case (a'', sr) of (a, sr) \<Rightarrow> insertAccount a n addr (Nonce acc) (Balance acc) sr ch \<bind>
           (\<lambda>(a, root). mergeAccounts a (Some root) accts tl))
        (mptInsert n (addrNib addr) (encodeAccount (Nonce acc) (Balance acc) sr ch) \<bind> (\<lambda>n. insertAll (Some n) (mergeKV accts tl)))"
      unfolding prod.case
      by (rule allocates_bind [OF insertAccount_allocates, where j = "8 * length tl + 4 * length accts"]) (simp_all add: Cons.IH)
  qed simp
  have "allocates (8 * length es + 4 * length (p # accts)) a
      (orphans (Some addr) a root es \<bind> (\<lambda>(a, root, es). storageRootOfRange a (takeWhile (sameAddr addr) es) \<bind>
         (\<lambda>(a, sr). insertAccount a root addr (Nonce acc) (Balance acc) sr ch \<bind>
            (\<lambda>(a, root). mergeAccounts a (Some root) accts (dropWhile (sameAddr addr) es)))))
      (insertAll root (orphanKV pre) \<bind> (\<lambda>r. Some (r, rest)) \<bind> (\<lambda>(n, es).
         mptInsert n (addrNib addr) (encodeAccount (Nonce acc) (Balance acc) (the (storRootP (takeWhile (sameAddr addr) es))) ch) \<bind>
         (\<lambda>n. insertAll (Some n) (mergeKV accts (dropWhile (sameAddr addr) es)))))"
    unfolding pre_def rest_def
  proof (rule allocates_bind [OF orphans_allocates, where j = "4 * length g + (4 + (8 * length tl + 4 * length accts))"])
    fix a' x
    assume "orphans (Some addr) a root es = Some (a', x)"
    then have "snd x = rest"
      using allocatesD(1) [OF orphans_allocates] by (fastforce simp: bind_eq_Some_conv rest_def)
    then show "allocates (4 * length g + (4 + (8 * length tl + 4 * length accts))) a'
      (case (a', x) of (a, root, es) \<Rightarrow> storageRootOfRange a (takeWhile (sameAddr addr) es) \<bind>
         (\<lambda>(a, sr). insertAccount a root addr (Nonce acc) (Balance acc) sr ch \<bind>
            (\<lambda>(a, root). mergeAccounts a (Some root) accts (dropWhile (sameAddr addr) es))))
      (case x of (n, es) \<Rightarrow>
         mptInsert n (addrNib addr) (encodeAccount (Nonce acc) (Balance acc) (the (storRootP (takeWhile (sameAddr addr) es))) ch) \<bind>
         (\<lambda>n. insertAll (Some n) (mergeKV accts (dropWhile (sameAddr addr) es))))"
      using acct [of a' "fst x"] by (cases x) (simp add: g_def tl_def)
  qed (use len in \<open>simp add: pre_def\<close>)
  moreover have "insertAll root (mergeKV (p # accts) es) =
      insertAll root (orphanKV pre) \<bind> (\<lambda>n. mptInsert n (addrNib addr) (encodeAccount (Nonce acc) (Balance acc) (the (storRootP g)) ch) \<bind>
         (\<lambda>n. insertAll (Some n) (mergeKV accts tl)))"
    by (simp add: p insertAll_append accountKV_def pre_def rest_def g_def tl_def ch_def Let_def)
  ultimately show ?case by (simp add: p ch_def g_def tl_def Let_def bind_assoc)
qed

lemma buildAccountTrie_allocates:
  "\<exists>a'. buildAccountTrie sorder aorder a t =
     map_option (Pair a') (insertAll None (mergeKV (accountEntries aorder t) (storageEntries sorder t)))"
proof -
  define a0 where "a0 = resetArena (reserveArena (length aorder + length sorder) a)"
  have "nodeCount a0 = 0" "length aorder + length sorder \<noteq> 0 \<Longrightarrow> 8 * (length aorder + length sorder) + 256 \<le> nodesLen a0"
    by (auto simp: a0_def resetArena_def reserveArena_def ensureBytes_def ensureNodes_def)
  then have free: "nodeCount a0 + (8 * length (storageEntries sorder t) + 4 * length (accountEntries aorder t)) \<le> nodesLen a0"
    by (cases "length aorder + length sorder = 0") (simp_all add: storageEntries_def accountEntries_def)
  have al: "allocates (8 * length (storageEntries sorder t) + 4 * length (accountEntries aorder t)) a0
      (mergeAccounts a0 None (accountEntries aorder t) (storageEntries sorder t))
      (insertAll None (mergeKV (accountEntries aorder t) (storageEntries sorder t)))" by (rule mergeAccounts_allocates)
  have b: "buildAccountTrie sorder aorder a t = mergeAccounts a0 None (accountEntries aorder t) (storageEntries sorder t)"
    by (simp add: buildAccountTrie_def a0_def Let_def)
  show ?thesis
  proof (cases "insertAll None (mergeKV (accountEntries aorder t) (storageEntries sorder t))")
    case None
    then have "mergeAccounts a0 None (accountEntries aorder t) (storageEntries sorder t) = None"
      using allocatesD(1) [OF al] by (cases "mergeAccounts a0 None (accountEntries aorder t) (storageEntries sorder t)") auto
    then show ?thesis using None b by simp
  next
    case (Some n)
    then show ?thesis using allocatesD(3) [OF al Some free] b by auto
  qed
qed

section \<open>The root commits to the accounts and the storage\<close>

abbreviation addrOf :: "storageEntry \<Rightarrow> Uint256" where
  "addrOf e \<equiv> fst (fst e)"

definition by_addr :: "storageEntry list \<Rightarrow> bool" where
  "by_addr es \<longleftrightarrow> sorted (map (\<lambda>e. uval (addrOf e)) es)"

lemma by_addr_Cons: "by_addr (e # es) \<longleftrightarrow> (\<forall>x \<in> set es. uval (addrOf e) \<le> uval (addrOf x)) \<and> by_addr es"
  by (auto simp: by_addr_def)

lemma by_addr_filter: "by_addr es \<Longrightarrow> by_addr (filter P es)"
  by (simp add: by_addr_def sorted_filter)

text \<open>On sorted entries the loops take exactly the entries they look for.\<close>

lemma while_before:
  assumes "by_addr es"
  shows "takeWhile (before (Some ad)) es = filter (before (Some ad)) es"
    and "dropWhile (before (Some ad)) es = filter (\<lambda>e. \<not> before (Some ad) e) es"
  using assms by (induction es) (auto simp: by_addr_Cons intro!: filter_False [symmetric] filter_True [symmetric])

lemma while_same:
  assumes "by_addr es" "\<forall>x \<in> set es. uval ad \<le> uval (addrOf x)"
  shows "takeWhile (sameAddr ad) es = filter (sameAddr ad) es"
    and "dropWhile (sameAddr ad) es = filter (\<lambda>e. \<not> sameAddr ad e) es"
proof -
  have "takeWhile (sameAddr ad) es = filter (sameAddr ad) es \<and> dropWhile (sameAddr ad) es = filter (\<lambda>e. \<not> sameAddr ad e) es"
    using assms
  proof (induction es)
    case (Cons e es)
    show ?case
    proof (cases "sameAddr ad e")
      case True
      then show ?thesis using Cons by (simp add: by_addr_Cons)
    next
      case False
      then have "uval ad < uval (addrOf e)" using Cons.prems(2) uval_inj by (auto simp: sameAddr_def order.order_iff_strict)
      then have "\<forall>x \<in> set es. \<not> sameAddr ad x" using Cons.prems(1) by (fastforce simp: by_addr_Cons sameAddr_def)
      then show ?thesis using False by simp
    qed
  qed simp
  then show "takeWhile (sameAddr ad) es = filter (sameAddr ad) es" "dropWhile (sameAddr ad) es = filter (\<lambda>e. \<not> sameAddr ad e) es"
    by simp_all
qed

lemma set_groups:
  "by_addr es \<Longrightarrow> set (groups es) = (\<lambda>ad. (ad, filter (sameAddr ad) es)) ` addrOf ` set es"
proof (induction es rule: measure_induct_rule [of length])
  case (less xs)
  show ?case
  proof (cases xs)
    case (Cons e es)
    define ad where "ad = addrOf e"
    define tl where "tl = filter (\<lambda>e. \<not> sameAddr ad e) xs"
    have ge: "\<forall>x \<in> set xs. uval ad \<le> uval (addrOf x)" using less.prems by (auto simp: Cons by_addr_Cons ad_def)
    have w: "takeWhile (sameAddr ad) xs = filter (sameAddr ad) xs" "dropWhile (sameAddr ad) xs = tl"
      using while_same [OF less.prems ge] by (simp_all add: tl_def)
    have "length tl < length xs" using Cons by (simp add: tl_def ad_def sameAddr_def less_Suc_eq_le)
    then have IH: "set (groups tl) = (\<lambda>ad. (ad, filter (sameAddr ad) tl)) ` addrOf ` set tl"
      using less by (simp add: tl_def by_addr_filter)
    have "filter (sameAddr b) tl = filter (sameAddr b) xs" if "b \<noteq> ad" for b
      using that by (auto simp: tl_def filter_filter sameAddr_def intro!: filter_cong)
    moreover have "addrOf ` set tl = addrOf ` set xs - {ad}" by (auto simp: tl_def sameAddr_def)
    ultimately have "set (groups tl) = (\<lambda>ad. (ad, filter (sameAddr ad) xs)) ` (addrOf ` set xs - {ad})"
      unfolding IH by (intro image_cong) auto
    moreover have "groups xs = (ad, filter (sameAddr ad) xs) # groups tl"
      using w by (simp add: Cons ad_def del: takeWhile.simps dropWhile.simps)
    moreover have "ad \<in> addrOf ` set xs" by (simp add: Cons ad_def)
    ultimately show ?thesis by auto
  qed simp
qed

definition leafOf :: "(Uint256 \<rightharpoonup> Account) \<Rightarrow> storageEntry list \<Rightarrow> Uint256 \<Rightarrow> bytes \<times> bytes" where
  "leafOf accs es ad = accountKV ad (accs ad) (filter (sameAddr ad) es)"

lemma set_orphanKV: "by_addr es \<Longrightarrow> set (orphanKV es) = leafOf Map.empty es ` addrOf ` set es"
  by (force simp: orphanKV_def set_groups leafOf_def image_iff)

lemma set_mergeKV:
  assumes "by_addr es" "sorted_wrt (<) (map (\<lambda>p. uval (fst p)) accts)"
  shows "set (mergeKV accts es) = leafOf (map_of accts) es ` (fst ` set accts \<union> addrOf ` set es)"
  using assms
proof (induction accts arbitrary: es)
  case Nil
  then show ?case by (simp add: set_orphanKV)
next
  case (Cons p accts)
  obtain ad acc where p: "p = (ad, acc)" by fastforce
  define pre where "pre = filter (before (Some ad)) es"
  define rest where "rest = filter (\<lambda>e. \<not> before (Some ad) e) es"
  define tl where "tl = filter (\<lambda>e. \<not> sameAddr ad e) rest"
  have ok: "by_addr pre" "by_addr rest" "by_addr tl" using Cons.prems(1) by (simp_all add: pre_def rest_def tl_def by_addr_filter)
  have ge: "\<forall>x \<in> set rest. uval ad \<le> uval (addrOf x)" by (auto simp: rest_def)
  have later: "uval ad < uval (fst q)" if "q \<in> set accts" for q using Cons.prems(2) that by (simp add: p)
  have "mergeKV (p # accts) es = orphanKV pre @ accountKV ad (Some acc) (filter (sameAddr ad) rest) # mergeKV accts tl"
    using while_before [OF Cons.prems(1), of ad] while_same [OF ok(2) ge]
    by (simp add: p Let_def pre_def rest_def tl_def del: before.simps)
  then have "set (mergeKV (p # accts) es) = leafOf Map.empty pre ` addrOf ` set pre \<union>
      {accountKV ad (Some acc) (filter (sameAddr ad) rest)} \<union> leafOf (map_of accts) tl ` (fst ` set accts \<union> addrOf ` set tl)"
    using Cons.IH [OF ok(3)] Cons.prems(2) set_orphanKV [OF ok(1)] by auto
  moreover have "leafOf Map.empty pre b = leafOf (map_of (p # accts)) es b" if "b \<in> addrOf ` set pre" for b
  proof -
    have lt: "uval b < uval ad" using that by (auto simp: pre_def)
    then have "map_of (p # accts) b = None" using later by (fastforce simp: p map_of_eq_None_iff)
    moreover have "filter (sameAddr b) pre = filter (sameAddr b) es"
      using lt by (auto simp: pre_def sameAddr_def intro!: filter_cong)
    ultimately show ?thesis by (simp add: leafOf_def)
  qed
  moreover have "accountKV ad (Some acc) (filter (sameAddr ad) rest) = leafOf (map_of (p # accts)) es ad"
    by (auto simp: leafOf_def p rest_def sameAddr_def intro!: arg_cong [of _ _ "accountKV ad (Some acc)"] filter_cong)
  moreover have "leafOf (map_of accts) tl b = leafOf (map_of (p # accts)) es b" if "b \<in> fst ` set accts \<union> addrOf ` set tl" for b
  proof -
    have "uval ad \<le> uval b" "b \<noteq> ad" using that later by (auto simp: tl_def rest_def sameAddr_def intro: less_imp_le)
    moreover from this have "filter (sameAddr b) tl = filter (sameAddr b) es"
      by (auto simp: tl_def rest_def sameAddr_def intro!: filter_cong)
    ultimately show ?thesis by (simp add: leafOf_def p)
  qed
  moreover have "fst ` set (p # accts) \<union> addrOf ` set es = addrOf ` set pre \<union> {ad} \<union> (fst ` set accts \<union> addrOf ` set tl)"
  proof -
    have "addrOf ` set es \<subseteq> addrOf ` set pre \<union> {ad} \<union> addrOf ` set tl" by (auto simp: pre_def tl_def rest_def sameAddr_def)
    moreover have "addrOf ` set pre \<subseteq> addrOf ` set es" "addrOf ` set tl \<subseteq> addrOf ` set es" by (auto simp: pre_def tl_def rest_def)
    ultimately show ?thesis by (auto simp: p)
  qed
  ultimately show ?case by (simp only: image_Un image_insert image_empty) (simp cong: image_cong)
qed

lemma sort_key_unique:
  assumes "inj_on f (set xs)" "distinct xs" "distinct ys" "set xs = set ys"
  shows "sort_key f xs = sort_key f ys"
proof -
  have "map f (sort_key f xs) = map f (sort_key f ys)"
    by (rule sorted_distinct_set_unique) (use assms in \<open>simp_all add: distinct_map\<close>)
  then show ?thesis using assms by (intro map_inj_on [of f]) auto
qed

text \<open>The orders in which the two maps may be iterated.\<close>

definition iteration :: "storageKey list \<Rightarrow> Uint256 list \<Rightarrow> StateTrie \<Rightarrow> bool" where
  "iteration sorder aorder t \<longleftrightarrow> distinct sorder \<and> set sorder = dom (storage t) \<and> distinct aorder \<and> set aorder = dom (accounts t)"

lemma digits_eq:
  assumes "a * M + c = b * M + d" "c < M" "d < (M :: nat)"
  shows "a = b \<and> c = d"
proof -
  have "(a * M + c) div M = (b * M + d) div M" "(a * M + c) mod M = (b * M + d) mod M" using assms(1) by simp_all
  then show ?thesis using assms(2,3) by simp
qed

lemma digits_le: "a * M + c \<le> b * M + d \<Longrightarrow> d < (M :: nat) \<Longrightarrow> a \<le> b"
proof (rule ccontr)
  assume "a * M + c \<le> b * M + d" "d < M" "\<not> a \<le> b"
  then show False using mult_le_mono1 [of "Suc b" a M] by simp
qed

lemma entries_unique:
  assumes "iteration sorder aorder t" "iteration sorder' aorder' t"
  shows "storageEntries sorder t = storageEntries sorder' t" "accountEntries aorder t = accountEntries aorder' t"
proof -
  have d: "distinct (map (\<lambda>k. (k, f k)) ks)" if "distinct ks" for ks :: "'k list" and f :: "'k \<Rightarrow> 'v"
    using that by (simp add: distinct_map inj_on_def)
  have "inj_on (\<lambda>e. uval (addrOf e) * 2 ^ 256 + uval (snd (fst e))) (set (map (\<lambda>k. (k, the (storage t k))) sorder))"
  proof (rule inj_onI)
    fix x y
    assume xy: "x \<in> set (map (\<lambda>k. (k, the (storage t k))) sorder)" "y \<in> set (map (\<lambda>k. (k, the (storage t k))) sorder)"
      and e: "uval (addrOf x) * 2 ^ 256 + uval (snd (fst x)) = uval (addrOf y) * 2 ^ 256 + uval (snd (fst y))"
    have "fst x = fst y" using digits_eq [OF e uval_lt uval_lt] by (simp add: uval_inj prod_eq_iff)
    then show "x = y" using xy by auto
  qed
  then show "storageEntries sorder t = storageEntries sorder' t" unfolding storageEntries_def
    by (rule sort_key_unique) (use assms in \<open>simp_all add: iteration_def d\<close>)
  show "accountEntries aorder t = accountEntries aorder' t" unfolding accountEntries_def
    by (rule sort_key_unique) (use assms in \<open>auto simp: iteration_def d inj_on_def uval_inj\<close>)
qed

lemma storageEntries_by_addr: "by_addr (storageEntries sorder t)"
proof -
  have "sorted (map (\<lambda>e. uval (addrOf e) * 2 ^ 256 + uval (snd (fst e))) (storageEntries sorder t))"
    by (simp add: storageEntries_def)
  then show ?thesis unfolding by_addr_def sorted_map
    by (rule sorted_wrt_mono_rel [rotated]) (rule digits_le [OF _ uval_lt])
qed

lemma accountEntries_sorted:
  assumes "distinct aorder"
  shows "sorted_wrt (<) (map (\<lambda>p. uval (fst p)) (accountEntries aorder t))"
proof -
  have "sorted (map (\<lambda>p. uval (fst p)) (accountEntries aorder t))" by (simp add: accountEntries_def)
  moreover have "distinct (map (\<lambda>p. uval (fst p)) (accountEntries aorder t))"
    using assms by (auto simp: accountEntries_def distinct_map inj_on_def uval_inj)
  ultimately show ?thesis by (simp add: strict_sorted_iff)
qed

lemma accountEntries_map: "iteration sorder aorder t \<Longrightarrow> map_of (accountEntries aorder t) = accounts t"
proof
  fix ad
  assume i: "iteration sorder aorder t"
  have s: "set (accountEntries aorder t) = (\<lambda>k. (k, the (accounts t k))) ` dom (accounts t)"
    using i by (simp add: accountEntries_def iteration_def)
  show "map_of (accountEntries aorder t) ad = accounts t ad"
  proof (cases "map_of (accountEntries aorder t) ad")
    case None
    then have "ad \<notin> fst ` set (accountEntries aorder t)" by (simp add: map_of_eq_None_iff)
    then have "accounts t ad = None" unfolding s by (force simp: image_iff)
    then show ?thesis using None by simp
  next
    case (Some acc)
    then have "(ad, acc) \<in> set (accountEntries aorder t)" by (rule map_of_SomeD)
    then show ?thesis using Some unfolding s by auto
  qed
qed

text \<open>The entries of one address, sorted by slot, and the leaf of its account.\<close>

definition stateLeaf :: "storageKey list \<Rightarrow> StateTrie \<Rightarrow> Uint256 \<Rightarrow> bytes \<times> bytes" where
  "stateLeaf sorder t ad = leafOf (accounts t) (storageEntries sorder t) ad"

definition stateAddrs :: "StateTrie \<Rightarrow> Uint256 set" where
  "stateAddrs t = dom (accounts t) \<union> fst ` dom (storage t)"

lemma set_stateKV:
  assumes "iteration sorder aorder t"
  shows "set (mergeKV (accountEntries aorder t) (storageEntries sorder t)) = stateLeaf sorder t ` stateAddrs t"
proof -
  have "fst ` set (accountEntries aorder t) \<union> addrOf ` set (storageEntries sorder t) = stateAddrs t"
    using assms by (simp add: accountEntries_def storageEntries_def iteration_def stateAddrs_def image_image)
  then show ?thesis
    using set_mergeKV [OF storageEntries_by_addr [of sorder t] accountEntries_sorted [of aorder t]] assms
    by (simp add: accountEntries_map [OF assms] stateLeaf_def iteration_def)
qed

lemma length_encodeAccount:
  assumes "length sr = 32" "length ch = 32"
  shows "encodeAccount nonce bal sr ch \<noteq> []" "length (encodeAccount nonce bal sr ch) \<le> 200"
proof -
  have n: "length (rlpEncodeUint64 nonce) \<le> 11"
    using length_RlpEncodeBytes_le [of "minBytes (unat nonce)"] rlpIntLen_le [of "unat nonce" 8] unat_lt_literal(2) [of nonce]
    by (simp add: rlpEncodeUint64_def minBytes_spec)
  have h: "length (RlpEncodeBytes sr) \<le> 35" "length (RlpEncodeBytes ch) \<le> 35"
    using length_RlpEncodeBytes_le [of sr] length_RlpEncodeBytes_le [of ch] assms by simp_all
  define xs where "xs = [rlpEncodeUint64 nonce, rlpEncodeUint256 bal, RlpEncodeBytes sr, RlpEncodeBytes ch]"
  have e: "encodeAccount nonce bal sr ch = rlpList xs"
    by (simp add: encodeAccount_def rlpList_def xs_def Let_def add.assoc)
  have "length (concat xs) \<le> 116" using n h rlpEncodeUint256_bounds(2) [of bal] by (simp add: xs_def)
  then show "length (encodeAccount nonce bal sr ch) \<le> 200" using length_rlpList_le [of xs] unfolding e by simp
  show "encodeAccount nonce bal sr ch \<noteq> []" unfolding e using length_rlpList [of xs] by auto
qed

definition codes_ok :: "StateTrie \<Rightarrow> bool" where
  "codes_ok t \<longleftrightarrow> (\<forall>acc \<in> ran (accounts t). length (CodeHash acc) = 32)"

lemma stateLeaf_bounds:
  assumes "codes_ok t" "stateLeaf sorder t ad = (k, v)"
  shows "k = addrNib ad" "nibs k" "length k = 64" "v \<noteq> []" "length v \<le> 200"
proof -
  define sr where "sr = the (storRootP (filter (sameAddr ad) (storageEntries sorder t)))"
  have sr: "length sr = 32" using storRootP_some [of "filter (sameAddr ad) (storageEntries sorder t)"] by (auto simp: sr_def)
  have ec: "length emptyCodeHash = 32" by (simp add: emptyCodeHash_def)
  obtain nonce bal ch where v: "v = encodeAccount nonce bal sr ch" "length ch = 32"
    using assms ec by (cases "accounts t ad")
      (auto simp: stateLeaf_def leafOf_def accountKV_def sr_def codes_ok_def ran_def split: if_splits)
  show "v \<noteq> []" "length v \<le> 200" unfolding v(1) using length_encodeAccount [OF sr v(2)] by blast+
  show "k = addrNib ad" using assms(2) by (simp add: stateLeaf_def leafOf_def accountKV_def)
  then show "nibs k" "length k = 64" by (simp_all add: addrNib_def nibs_hashToNibbles length_hashToNibbles)
qed

text \<open>The trie of a state: canonical, small enough for the buffers, and holding the leaf of every
  address, provided that no two addresses collide under Keccak.\<close>

definition state_trie :: "storageKey list \<Rightarrow> StateTrie \<Rightarrow> mptNode option \<Rightarrow> bool" where
  "state_trie sorder t n \<longleftrightarrow> pred_option canon n \<and> (\<forall>k. node_get n k \<noteq> None \<longleftrightarrow> k \<in> addrNib ` stateAddrs t) \<and>
     (inj_on addrNib (stateAddrs t) \<longrightarrow>
        (\<forall>k. node_get n k = (if k \<in> addrNib ` stateAddrs t
           then Some (snd (stateLeaf sorder t (inv_into (stateAddrs t) addrNib k))) else None)))"

lemma buildAccountTrie_spec:
  assumes it: "iteration sorder aorder t" and codes: "codes_ok t"
  shows "\<exists>a' n h. buildAccountTrie sorder aorder a t = Some (a', n) \<and> state_trie sorder t n \<and> hashRoot n = Some h \<and>
    pred_option (small 200) n \<and> insertAll None (mergeKV (accountEntries aorder t) (storageEntries sorder t)) = Some n"
proof -
  define kvs where "kvs = mergeKV (accountEntries aorder t) (storageEntries sorder t)"
  have set: "set kvs = stateLeaf sorder t ` stateAddrs t" using set_stateKV [OF it] by (simp add: kvs_def)
  note b = stateLeaf_bounds [OF codes]
  have ok: "entries_ok kvs" "\<forall>(k, w) \<in> set kvs. length k \<le> 64 \<and> length w \<le> 200"
    unfolding entries_ok_def set using b by (auto split: prod.splits)
  obtain n where n: "insertAll None kvs = Some n" "pred_option canon n"
    and g: "\<forall>k. node_get n k = (case map_of (rev kvs) k of None \<Rightarrow> node_get None k | Some v \<Rightarrow> Some v)"
    using insertAll_spec [OF _ ok(1), of None] by auto
  have n3: "node_get n k = map_of (rev kvs) k" for k using g by (cases "map_of (rev kvs) k") simp_all
  have small: "pred_option (small 200) n" using small_insertAll [OF n(1)] ok(2) by simp
  then obtain h where h: "hashRoot n = Some h"
    using mptEncode_fits [of 200 1024 "the n"] by (cases n) (auto simp: hashRoot_def encodeNode_def)
  have keys: "fst ` set kvs = addrNib ` stateAddrs t" unfolding set image_image using b(1) by (metis (no_types, lifting) image_cong prod.collapse)
  then have "node_get n k \<noteq> None \<longleftrightarrow> k \<in> addrNib ` stateAddrs t" for k
    unfolding n3 by (simp add: map_of_eq_None_iff)
  moreover have "node_get n k = (if k \<in> addrNib ` stateAddrs t
      then Some (snd (stateLeaf sorder t (inv_into (stateAddrs t) addrNib k))) else None)" if inj: "inj_on addrNib (stateAddrs t)" for k
  proof (cases "map_of (rev kvs) k")
    case None
    then have "k \<notin> addrNib ` stateAddrs t" by (simp add: map_of_eq_None_iff keys)
    then show ?thesis using None n3 by simp
  next
    case (Some v)
    then have "(k, v) \<in> set kvs" using map_of_SomeD by fastforce
    then obtain ad where ad: "ad \<in> stateAddrs t" "stateLeaf sorder t ad = (k, v)" unfolding set by auto
    then have "k = addrNib ad" using b(1) by blast
    then show ?thesis using ad n3 Some inj by simp
  qed
  moreover obtain a' where "buildAccountTrie sorder aorder a t = Some (a', n)"
    using buildAccountTrie_allocates [of sorder aorder a t] n(1) by (auto simp: kvs_def)
  ultimately show ?thesis using n h small by (auto simp: state_trie_def kvs_def)
qed

lemma ComputeRoot_eq:
  assumes "iteration sorder aorder t" "codes_ok t"
  shows "\<exists>a' n h. ComputeRoot sorder aorder a t = Some (a', h) \<and> state_trie sorder t n \<and> hashRoot n = Some h \<and>
    insertAll None (mergeKV (accountEntries aorder t) (storageEntries sorder t)) = Some n"
proof (cases "aorder = [] \<and> sorder = []")
  case True
  obtain a' n h where b: "buildAccountTrie sorder aorder a t = Some (a', n)" "state_trie sorder t n" "hashRoot n = Some h"
    "insertAll None (mergeKV (accountEntries aorder t) (storageEntries sorder t)) = Some n"
    using buildAccountTrie_spec [OF assms] by blast
  have "n = None" using b(4) True by (simp add: accountEntries_def storageEntries_def orphanKV_def)
  then show ?thesis using True b by (simp add: ComputeRoot_def hashRoot_def)
next
  case False
  then show ?thesis using buildAccountTrie_spec [OF assms, of a] by (auto simp: ComputeRoot_def)
qed

lemma ComputeRoot_deterministic:
  assumes "iteration sorder aorder t" "iteration sorder' aorder' t" "codes_ok t"
  shows "\<exists>h a1 a2. ComputeRoot sorder aorder a t = Some (a1, h) \<and> ComputeRoot sorder' aorder' a' t = Some (a2, h)"
  using ComputeRoot_eq [OF assms(1,3), of a] ComputeRoot_eq [OF assms(2,3), of a'] entries_unique [OF assms(1,2)] by fastforce

section \<open>Account proofs\<close>

lemma proofWalk_found:
  "\<lbrakk>canon n; small 200 n; nibs key\<rbrakk> \<Longrightarrow>
   \<exists>more. proofWalk n key pf = Some (pf @ more, node_get (Some n) key \<noteq> None)"
proof (induction n key pf rule: proofWalk.induct)
  case (2 nibbles child key pf)
  obtain enc where enc: "encodeNodeRLP child = Some enc"
    using mptEncode_fits [of 200 1024 child] "2.prems" by (auto simp: encodeNodeRLP_def encodeNode_def)
  show ?case
  proof (cases "length key < length nibbles \<or> nibbles \<noteq> take (length nibbles) key")
    case False
    define p where "p = (if length enc \<ge> 32 then pf @ [enc] else pf)"
    obtain more where "proofWalk child (drop (length nibbles) key) p =
        Some (p @ more, node_get (Some child) (drop (length nibbles) key) \<noteq> None)"
      using "2.IH" [OF False enc] "2.prems" by (auto simp: p_def)
    then show ?thesis using False enc by (auto simp: p_def)
  qed (auto split: if_splits)
next
  case (4 cs val idx key pf)
  show ?case
  proof (cases "cs ! unat idx")
    case (Some child)
    have i: "unat idx < length cs" using 4 by simp
    then have "Some child \<in> set cs" using Some by (metis nth_mem)
    then have c: "canon child" "small 200 child" using "4.prems" by (auto simp: pred_option_def)
    obtain enc where enc: "encodeNodeRLP child = Some enc"
      using mptEncode_fits [of 200 1024 child] c by (auto simp: encodeNodeRLP_def encodeNode_def)
    define p where "p = (if length enc \<ge> 32 then pf @ [enc] else pf)"
    obtain more where "proofWalk child key p = Some (p @ more, node_get (Some child) key \<noteq> None)"
      using "4.IH" [OF i Some enc c] "4.prems" by (auto simp: p_def)
    then show ?thesis using Some enc i by (auto simp: p_def)
  qed (use 4 in simp)
qed auto

lemma addrKey_nib: "addrKey addr = addrNib (normalizeAddr (Some addr))"
  by (simp add: addrKey_def addrNib_def)

lemma GenerateProof_spec:
  assumes it: "iteration sorder aorder t" and codes: "codes_ok t"
  shows "\<exists>a' pf err. GenerateProof sorder aorder a t addr = Some (a', pf, err) \<and>
    (err = None \<longleftrightarrow> addrNib (normalizeAddr (Some addr)) \<in> addrNib ` stateAddrs t) \<and>
    (if stateAddrs t = {} then pf = []
     else pf \<noteq> [] \<and> (\<exists>a''. ComputeRoot sorder aorder a t = Some (a'', Keccak256 (hd pf))))"
proof -
  obtain a' n h where b: "buildAccountTrie sorder aorder a t = Some (a', n)" "state_trie sorder t n" "hashRoot n = Some h"
    "pred_option (small 200) n" using buildAccountTrie_spec [OF it codes] by blast
  have get: "node_get n k \<noteq> None \<longleftrightarrow> k \<in> addrNib ` stateAddrs t" for k
    using b(2) unfolding state_trie_def by blast
  have root: "\<exists>a''. ComputeRoot sorder aorder a t = Some (a'', h)" if "n \<noteq> None"
  proof -
    have "\<not> (aorder = [] \<and> sorder = [])"
    proof
      assume "aorder = [] \<and> sorder = []"
      then have "n = None" using b(1) by (simp add: buildAccountTrie_def accountEntries_def storageEntries_def)
      then show False using that by simp
    qed
    then show ?thesis using b by (auto simp: ComputeRoot_def)
  qed
  show ?thesis
  proof (cases n)
    case None
    then have "stateAddrs t = {}" using get by auto
    then show ?thesis using b(1) None by (simp add: GenerateProof_def)
  next
    case (Some m)
    obtain enc where enc: "encodeNodeRLP m = Some enc" "h = Keccak256 enc"
      using b(3) Some by (auto simp: hashRoot_def encodeNodeRLP_def)
    have m: "canon m" "small 200 m" "nibs (addrKey addr)" using b Some by (auto simp: state_trie_def addrKey_def nibs_hashToNibbles)
    then obtain k where "node_get (Some m) k \<noteq> None" using canon_key by blast
    then have "stateAddrs t \<noteq> {}" using get [of k] Some by auto
    moreover obtain more where "proofWalk m (addrKey addr) [enc] = Some ([enc] @ more, node_get (Some m) (addrKey addr) \<noteq> None)"
      using proofWalk_found m by blast
    ultimately show ?thesis using b(1) Some enc get [of "addrKey addr"] root by (auto simp: GenerateProof_def addrKey_nib)
  qed
qed

end
