(* ===== verification/Secp256k1.thy ===== *)
theory Secp256k1
  imports Division_Correct Keccak
begin

text \<open>
  \<open>c2crypto/secp256k1.go\<close>: the field and scalar arithmetic of secp256k1 on 256-bit limb
  integers, without branches on secret data (selection is by masks), points in Jacobian
  coordinates, public key recovery and the address of a private key. An out parameter is the
  result of the function; \<open>outPubkey\<close> is never nil in the callers and its test is left out.
  The lemmas show that the field operations are exact modulo the field prime, that the masks
  select, and that point doubling and addition stay on the curve.
\<close>

section \<open>Definitions\<close>

definition secpP :: Uint256 where
  "secpP = U256 0xfffffffefffffc2f 0xffffffffffffffff 0xffffffffffffffff 0xffffffffffffffff"

definition secpN :: Uint256 where
  "secpN = U256 0xbfd25e8cd0364141 0xbaaedce6af48a03b 0xfffffffffffffffe 0xffffffffffffffff"

definition secpNHalf :: Uint256 where
  "secpNHalf = U256 0xdfe92f46681b20a0 0x5d576e7357a4501d 0xffffffffffffffff 0x7fffffffffffffff"

definition secpGX :: Uint256 where
  "secpGX = U256 0x59f2815b16f81798 0x029bfcdb2dce28d9 0x55a06295ce870b07 0x79be667ef9dcbbac"

definition secpGY :: Uint256 where
  "secpGY = U256 0x9c47d08ffb10d4b8 0xfd17b448a6855419 0x5da4fbfc0e1108a8 0x483ada7726a3c465"

definition secpB :: Uint256 where "secpB = U256 7 0 0 0"
definition secpOne :: Uint256 where "secpOne = U256 1 0 0 0"
definition secpZero :: Uint256 where "secpZero = U256 0 0 0 0"

definition secpPMinus2 :: Uint256 where
  "secpPMinus2 = U256 0xfffffffefffffc2d 0xffffffffffffffff 0xffffffffffffffff 0xffffffffffffffff"

definition secpSqrtExp :: Uint256 where
  "secpSqrtExp = U256 0xffffffffbfffff0c 0xffffffffffffffff 0xffffffffffffffff 0x3fffffffffffffff"

definition secpNMinus2 :: Uint256 where
  "secpNMinus2 = U256 0xbfd25e8cd036413f 0xbaaedce6af48a03b 0xfffffffffffffffe 0xffffffffffffffff"

definition secpR :: u64 where "secpR = 0x1000003d1"

record secpJac =
  jx :: Uint256
  jy :: Uint256
  jz :: Uint256

subsection \<open>Masks\<close>

text \<open>\<open>x &^ m\<close> is \<open>x AND NOT m\<close>.\<close>

definition cmov64 :: "u64 \<Rightarrow> u64 \<Rightarrow> u64 \<Rightarrow> u64" where
  "cmov64 rd src msk = (rd AND NOT msk) OR (src AND msk)"

definition u256Cmov :: "Uint256 \<Rightarrow> Uint256 \<Rightarrow> u64 \<Rightarrow> Uint256" where
  "u256Cmov rd src msk =
     U256 (cmov64 (w0 rd) (w0 src) msk) (cmov64 (w1 rd) (w1 src) msk)
          (cmov64 (w2 rd) (w2 src) msk) (cmov64 (w3 rd) (w3 src) msk)"

definition ctZeroMask :: "u64 \<Rightarrow> u64" where
  "ctZeroMask t = (let v = drop_bit 63 (t OR (0 - t)) in 0 - (v XOR 1))"

definition u256ZeroMask :: "Uint256 \<Rightarrow> u64" where
  "u256ZeroMask a = ctZeroMask (w0 a OR w1 a OR w2 a OR w3 a)"

definition u256EqMask :: "Uint256 \<Rightarrow> Uint256 \<Rightarrow> u64" where
  "u256EqMask a b =
     ctZeroMask ((w0 a XOR w0 b) OR (w1 a XOR w1 b) OR (w2 a XOR w2 b) OR (w3 a XOR w3 b))"

subsection \<open>The field\<close>

definition feAdd :: "Uint256 \<Rightarrow> Uint256 \<Rightarrow> Uint256" where
  "feAdd a b = AddMod256 a b secpP"

definition feSub :: "Uint256 \<Rightarrow> Uint256 \<Rightarrow> Uint256" where
  "feSub a b = (let nb = Sub256 secpP b in AddMod256 a nb secpP)"

text \<open>The loops of \<open>feMul512\<close> are those of \<open>mul512\<close> of \<open>evm256/arith.go\<close>, written out again.\<close>

definition feMul512 :: "Uint256 \<Rightarrow> Uint256 \<Rightarrow> u64 list" where
  "feMul512 a b = mul512_outer (limbs a) (limbs b) 0 (replicate 8 0)"

definition mul256ByR :: "u64 \<Rightarrow> u64 \<Rightarrow> u64 \<Rightarrow> u64 \<Rightarrow> u64 \<times> u64 \<times> u64 \<times> u64 \<times> u64" where
  "mul256ByR h0 h1 h2 h3 =
     (let (hi, l0) = Mul64 h0 secpR;
          (hi2, lo) = Mul64 h1 secpR;
          (l1, c) = Add64 lo hi 0;
          (hi, _) = Add64 hi2 c 0;
          (hi2, lo) = Mul64 h2 secpR;
          (l2, c) = Add64 lo hi 0;
          (hi, _) = Add64 hi2 c 0;
          (hi2, lo) = Mul64 h3 secpR;
          (l3, c) = Add64 lo hi 0;
          (extra, _) = Add64 hi2 c 0
      in (l0, l1, l2, l3, extra))"

definition feReduce512 :: "u64 list \<Rightarrow> Uint256" where
  "feReduce512 z =
     (let (m0, m1, m2, m3, extra) = mul256ByR (z ! 4) (z ! 5) (z ! 6) (z ! 7);
          (l0, c) = Add64 (z ! 0) m0 0;
          (l1, c) = Add64 (z ! 1) m1 c;
          (l2, c) = Add64 (z ! 2) m2 c;
          (l3, c) = Add64 (z ! 3) m3 c;
          (extra, _) = Add64 extra c 0;
          (hi, lo) = Mul64 extra secpR;
          (l0, c) = Add64 l0 lo 0;
          (l1, c) = Add64 l1 hi c;
          (l2, c) = Add64 l2 0 c;
          (l3, c) = Add64 l3 0 c;
          (hi, lo) = Mul64 c secpR;
          (l0, c) = Add64 l0 lo 0;
          (l1, c) = Add64 l1 hi c;
          (l2, c) = Add64 l2 0 c;
          (l3, _) = Add64 l3 0 c;
          res = U256 l0 l1 l2 l3;
          rp = Sub256 res secpP;
          (_, br) = Sub64 (w0 res) (w0 secpP) 0;
          (_, br) = Sub64 (w1 res) (w1 secpP) br;
          (_, br) = Sub64 (w2 res) (w2 secpP) br;
          (_, br) = Sub64 (w3 res) (w3 secpP) br
      in u256Cmov res rp (br - 1))"

definition feMul :: "Uint256 \<Rightarrow> Uint256 \<Rightarrow> Uint256" where
  "feMul a b = feReduce512 (feMul512 a b)"

definition feSqr :: "Uint256 \<Rightarrow> Uint256" where
  "feSqr a = feMul a a"

definition feDbl :: "Uint256 \<Rightarrow> Uint256" where
  "feDbl a = AddMod256 a a secpP"

definition feNeg :: "Uint256 \<Rightarrow> Uint256" where
  "feNeg a = (let t = Sub256 secpP a; z = u256ZeroMask a in u256Cmov t secpZero z)"

text \<open>Bit \<open>i\<close> of an exponent or a scalar, \<open>(e[i>>6] >> (i & 63)) & 1\<close>.\<close>

definition bitAt :: "Uint256 \<Rightarrow> nat \<Rightarrow> u64" where
  "bitAt e i = drop_bit (i mod 64) (limb e (i div 64)) AND 1"

text \<open>The loop of \<open>fePow\<close>: \<open>n\<close> bits are left, the next one is \<open>i\<close>.\<close>

fun fePow_loop :: "nat \<Rightarrow> nat \<Rightarrow> Uint256 \<Rightarrow> Uint256 \<Rightarrow> Uint256 \<Rightarrow> Uint256" where
  "fePow_loop 0 i e base result = result"
| "fePow_loop (Suc n) i e base result =
     (let msk = 0 - bitAt e i;
          result = u256Cmov result (feMul result base) msk;
          base = feSqr base
      in fePow_loop n (Suc i) e base result)"

definition fePow :: "Uint256 \<Rightarrow> Uint256 \<Rightarrow> Uint256" where
  "fePow base e = fePow_loop 256 0 e base secpOne"

definition secp256k1FeInv :: "Uint256 \<Rightarrow> Uint256" where
  "secp256k1FeInv a = fePow a secpPMinus2"

text \<open>The results \<open>-1\<close> and \<open>0\<close> of \<open>feSqrt\<close>, \<open>jacToAffine\<close> and \<open>parseRecid\<close> are \<open>None\<close> and \<open>Some\<close>
  of what is stored in the out parameter.\<close>

definition feSqrt :: "Uint256 \<Rightarrow> Uint256 option" where
  "feSqrt a =
     (let y = fePow a secpSqrtExp; y2 = feSqr y
      in if u256EqMask y2 a = 0 then None else Some y)"

subsection \<open>Points\<close>

definition jacCmov :: "secpJac \<Rightarrow> secpJac \<Rightarrow> u64 \<Rightarrow> secpJac" where
  "jacCmov rd src msk =
     \<lparr>jx = u256Cmov (jx rd) (jx src) msk, jy = u256Cmov (jy rd) (jy src) msk, jz = u256Cmov (jz rd) (jz src) msk\<rparr>"

definition jacInf :: secpJac where
  "jacInf = \<lparr>jx = secpZero, jy = secpOne, jz = secpZero\<rparr>"

definition jacDoubleBody :: "secpJac \<Rightarrow> secpJac" where
  "jacDoubleBody p =
     (let a = feSqr (jx p);
          b = feSqr (jy p);
          c = feSqr b;
          t1 = feAdd (jx p) b;
          t2 = feSqr t1;
          t1 = feSub t2 a;
          t2 = feSub t1 c;
          d = feDbl t2;
          t1 = feDbl a;
          e = feAdd t1 a;
          f = feSqr e;
          t1 = feDbl d;
          x3 = feSub f t1;
          t1 = feSub d x3;
          t2 = feMul e t1;
          t1 = feDbl c;
          t1 = feDbl t1;
          t1 = feDbl t1;
          y3 = feSub t2 t1;
          t1 = feAdd (jy p) (jy p);
          z3 = feMul t1 (jz p)
      in \<lparr>jx = x3, jy = y3, jz = z3\<rparr>)"

definition secp256k1JacDouble :: "secpJac \<Rightarrow> secpJac" where
  "secp256k1JacDouble p =
     (let r = jacDoubleBody p; zmask = u256ZeroMask (jz p) in jacCmov r jacInf zmask)"

definition jacAddBody :: "secpJac \<Rightarrow> secpJac \<Rightarrow> secpJac \<times> Uint256 \<times> Uint256 \<times> Uint256" where
  "jacAddBody p q =
     (let z1z1 = feSqr (jz p);
          z2z2 = feSqr (jz q);
          u1 = feMul (jx p) z2z2;
          u2 = feMul (jx q) z1z1;
          t1 = feMul (jz q) z2z2;
          s1 = feMul (jy p) t1;
          t1 = feMul (jz p) z1z1;
          s2 = feMul (jy q) t1;
          h = feSub u2 u1;
          t1 = feDbl h;
          i = feSqr t1;
          j = feMul h i;
          t1 = feSub s2 s1;
          r = feDbl t1;
          v = feMul u1 i;
          t1 = feSqr r;
          t2 = feSub t1 j;
          t1 = feDbl v;
          x3 = feSub t2 t1;
          t1 = feSub v x3;
          t2 = feMul r t1;
          t1 = feMul s1 j;
          t1 = feDbl t1;
          y3 = feSub t2 t1;
          t1 = feAdd (jz p) (jz q);
          t2 = feSqr t1;
          t1 = feSub t2 z1z1;
          t2 = feSub t1 z2z2;
          z3 = feMul t2 h
      in (\<lparr>jx = x3, jy = y3, jz = z3\<rparr>, h, s1, s2))"

definition secp256k1JacAdd :: "secpJac \<Rightarrow> secpJac \<Rightarrow> secpJac" where
  "secp256k1JacAdd p q =
     (let (pq, h, s1, s2) = jacAddBody p q;
          dbl = jacDoubleBody p;
          z1m = u256ZeroMask (jz p);
          z2m = u256ZeroMask (jz q);
          hm = u256ZeroMask h;
          sm = u256EqMask s1 s2;
          r = jacCmov pq dbl (hm AND sm);
          r = jacCmov r jacInf (hm AND NOT sm);
          r = jacCmov r q z1m
      in jacCmov r p z2m)"

text \<open>The loop of \<open>secp256k1JacMul\<close> from bit \<open>n - 1\<close> down to bit 0.\<close>

fun jacMul_loop :: "nat \<Rightarrow> secpJac \<Rightarrow> Uint256 \<Rightarrow> secpJac \<Rightarrow> secpJac" where
  "jacMul_loop 0 base k r = r"
| "jacMul_loop (Suc i) base k r =
     (let msk = 0 - bitAt k i;
          r = secp256k1JacDouble r;
          t = secp256k1JacAdd r base
      in jacMul_loop i base k (jacCmov r t msk))"

definition secp256k1JacMul :: "secpJac \<Rightarrow> Uint256 \<Rightarrow> secpJac" where
  "secp256k1JacMul p k = jacMul_loop 256 p k jacInf"

definition scMul :: "Uint256 \<Rightarrow> Uint256 \<Rightarrow> Uint256" where
  "scMul a b = MulMod256 a b secpN"

fun scInv_loop :: "nat \<Rightarrow> nat \<Rightarrow> Uint256 \<Rightarrow> Uint256 \<Rightarrow> Uint256" where
  "scInv_loop 0 i base result = result"
| "scInv_loop (Suc n) i base result =
     (let msk = 0 - bitAt secpNMinus2 i;
          result = u256Cmov result (scMul result base) msk;
          base = scMul base base
      in scInv_loop n (Suc i) base result)"

definition scInv :: "Uint256 \<Rightarrow> Uint256" where
  "scInv a = scInv_loop 256 0 a secpOne"

definition jacToAffine :: "secpJac \<Rightarrow> (Uint256 \<times> Uint256) option" where
  "jacToAffine p =
     (if IsZero (jz p) then None
      else
        (let zinv = secp256k1FeInv (jz p);
             zinv2 = feSqr zinv;
             zinv3 = feMul zinv2 zinv
         in Some (feMul (jx p) zinv2, feMul (jy p) zinv3)))"

subsection \<open>Recovery and keys\<close>

datatype secp_error = ErrInvalidSignature | ErrInvalidPrivateKey

definition parseRecid :: "byte \<Rightarrow> byte option" where
  "parseRecid v =
     (if v = 27 \<or> v = 28 then Some (v - 27) else if v = 0 \<or> v = 1 then Some v else None)"

definition gjac :: secpJac where
  "gjac = \<lparr>jx = secpGX, jy = secpGY, jz = secpOne\<rparr>"

definition EcRecover :: "bytes \<Rightarrow> byte \<Rightarrow> bytes \<Rightarrow> bytes \<Rightarrow> secp_error + bytes" where
  "EcRecover hash v r s =
     (if length hash \<noteq> 32 \<or> length r \<noteq> 32 \<or> length s \<noteq> 32 then Inl ErrInvalidSignature
      else case parseRecid v of
        None \<Rightarrow> Inl ErrInvalidSignature
      | Some recid \<Rightarrow>
          (let rr = FromBytesBE r; ss = FromBytesBE s; zz = FromBytesBE hash
           in if IsZero rr \<or> Cmp rr secpN \<ge> 0 then Inl ErrInvalidSignature
              else if IsZero ss \<or> Cmp ss secpN \<ge> 0 then Inl ErrInvalidSignature
              else if Cmp ss secpNHalf > 0 then Inl ErrInvalidSignature
              else
                (let x = rr;
                     x2 = feSqr x;
                     x3 = feMul x2 x;
                     y2 = feAdd x3 secpB
                 in case feSqrt y2 of
                      None \<Rightarrow> Inl ErrInvalidSignature
                    | Some y \<Rightarrow>
                        if u256EqMask (feSqr y) y2 = 0 then Inl ErrInvalidSignature
                        else
                          (let y = (if unat (w0 y AND 1) \<noteq> unat recid then feNeg y else y);
                               rjac = \<lparr>jx = x, jy = y, jz = secpOne\<rparr>;
                               zz = Mod256 zz secpN;
                               rinv = scInv rr;
                               t = scMul zz rinv;
                               u1 = Sub256 secpN t;
                               u1 = u256Cmov u1 secpZero (u256ZeroMask t);
                               u2 = scMul ss rinv;
                               q1 = secp256k1JacMul gjac u1;
                               q2 = secp256k1JacMul rjac u2;
                               q = secp256k1JacAdd q1 q2
                           in case jacToAffine q of
                                None \<Rightarrow> Inl ErrInvalidSignature
                              | Some (qx, qy) \<Rightarrow> Inr (BytesBE qx @ BytesBE qy)))))"

definition Secp256k1PubkeyFromSeckey :: "bytes \<Rightarrow> secp_error + bytes" where
  "Secp256k1PubkeyFromSeckey seckey =
     (if length seckey \<noteq> 32 then Inl ErrInvalidPrivateKey
      else
        (let k = FromBytesBE seckey
         in if IsZero k \<or> Cmp k secpN \<ge> 0 then Inl ErrInvalidPrivateKey
            else case jacToAffine (secp256k1JacMul gjac k) of
              None \<Rightarrow> Inl ErrInvalidPrivateKey
            | Some (qx, qy) \<Rightarrow> Inr (BytesBE qx @ BytesBE qy)))"

definition AddressFromPrivateKey :: "bytes \<Rightarrow> secp_error + bytes" where
  "AddressFromPrivateKey seckey =
     (case Secp256k1PubkeyFromSeckey seckey of
        Inl e \<Rightarrow> Inl e
      | Inr pub \<Rightarrow> Inr (drop 12 (Keccak256 pub)))"

section \<open>Masks select\<close>

lemma u256Cmov_masks [simp]: "u256Cmov rd src 0 = rd" "u256Cmov rd src (- 1) = src"
  by (simp_all add: u256Cmov_def cmov64_def)

lemma jacCmov_masks [simp]: "jacCmov rd src 0 = rd" "jacCmov rd src (- 1) = src"
  by (simp_all add: jacCmov_def)

lemma drop_bit_63: "drop_bit 63 (x :: u64) = (if 2 ^ 63 \<le> unat x then 1 else 0)"
proof -
  have "unat x div 2 ^ 63 = (if 2 ^ 63 \<le> unat x then 1 else 0)"
    using unat_lt_literal(2) [of x] by (auto intro: div_nat_eqI)
  then show ?thesis by (simp add: word_unat_eq_iff unat_drop_bit64)
qed

lemma bit_63: "drop_bit 63 (x :: u64) = (if bit x 63 then 1 else 0)"
  by (simp add: bit_iff_odd_drop_bit drop_bit_63)

lemma ctZeroMask_eq: "ctZeroMask t = (if t = 0 then - 1 else 0)"
proof (cases "t = 0")
  case False
  then have "unat (0 - t) = 2 ^ 64 - unat t" using unat_lt_literal(2) [of t] by (simp only: unat_sub_if') (simp add: unat_gt_0)
  then have "(2 :: nat) ^ 63 \<le> unat t \<or> (2 :: nat) ^ 63 \<le> unat (0 - t)" by (simp, linarith)
  then have "bit t 63 \<or> bit (0 - t) 63" using bit_63 [of t] bit_63 [of "0 - t"] drop_bit_63 [of t] drop_bit_63 [of "0 - t"]
    by (auto split: if_splits)
  then show ?thesis using False by (auto simp: ctZeroMask_def bit_63 bit_or_iff)
qed (simp add: ctZeroMask_def)

lemma u256ZeroMask_eq: "u256ZeroMask a = (if a = zero256 then - 1 else 0)"
  by (cases a) (auto simp: u256ZeroMask_def ctZeroMask_eq word_or_eq_0 zero256_def)

lemma xor_eq_0: "(x XOR y :: 'a::len word) = 0 \<longleftrightarrow> x = y"
  by (metis xor.assoc xor.left_neutral xor_self_eq xor.right_neutral)

lemma u256EqMask_eq: "u256EqMask a b = (if a = b then - 1 else 0)"
  by (cases a; cases b) (auto simp: u256EqMask_def ctZeroMask_eq word_or_eq_0 xor_eq_0)

lemma bitAt_eq: "i < 256 \<Longrightarrow> bitAt e i = (if bit (word_of e) i then 1 else 0)"
proof -
  assume i: "i < 256"
  have "bit (word_of e) (64 * (i div 64) + i mod 64) \<longleftrightarrow> bit (limb e (i div 64)) (i mod 64)"
    using i by (intro bit_word_of_limb) simp_all
  then have "bit (word_of e) i \<longleftrightarrow> bit (limb e (i div 64)) (i mod 64)" by simp
  then show ?thesis by (simp add: bitAt_def and_one_eq bit_iff_odd_drop_bit mod2_eq_if)
qed

lemmas mask_simps = u256ZeroMask_eq u256EqMask_eq bitAt_eq

section \<open>The field operations are exact\<close>

text \<open>The field prime, the group order and the complement of the prime, as numbers.\<close>

definition prime_p :: nat where "prime_p = 2 ^ 256 - 2 ^ 32 - 977"
definition order_n :: nat where "order_n = 0xfffffffffffffffffffffffffffffffebaaedce6af48a03bbfd25e8cd0364141"

lemma uval_secpP: "uval secpP = prime_p"
  by (simp add: uval_U256 secpP_def prime_p_def B64_def)

lemma uval_secpN: "uval secpN = order_n"
  by (simp add: uval_U256 secpN_def order_n_def B64_def)

lemma unat_secpR: "unat secpR = 2 ^ 32 + 977"
  by (simp add: secpR_def)

lemma prime_p_R: "prime_p + unat secpR = B64 ^ 4"
  by (simp add: unat_secpR prime_p_def B64_def)

lemma secp_consts [simp]: "uval secpOne = 1" "uval secpZero = 0" "uval secpB = 7" "secpZero = zero256"
  by (simp_all add: secpOne_def secpZero_def secpB_def uval_U256 zero256_def)

lemma prime_p_pos [simp]: "0 < prime_p" "1 < prime_p" "Suc 0 < prime_p" "7 < prime_p" "secpP \<noteq> zero256" "secpN \<noteq> zero256"
  by (simp_all add: prime_p_def secpP_def secpN_def zero256_def)

lemma order_less: "order_n < prime_p"
  by (simp add: prime_p_def order_n_def)

lemma Add64_chain:
  assumes "Add64 a0 b0 0 = (r0, c0)" "Add64 a1 b1 c0 = (r1, c1)" "Add64 a2 b2 c1 = (r2, c2)" "Add64 a3 b3 c2 = (r3, c3)"
  shows "uval (U256 r0 r1 r2 r3) + B64 ^ 4 * unat c3 = uval (U256 a0 a1 a2 a3) + uval (U256 b0 b1 b2 b3)" and "unat c3 \<le> 1"
proof -
  have e: "addCarry (U256 a0 a1 a2 a3) (U256 b0 b1 b2 b3) = (U256 r0 r1 r2 r3, c3)"
    using assms by (simp add: addCarry_def)
  show "uval (U256 r0 r1 r2 r3) + B64 ^ 4 * unat c3 = uval (U256 a0 a1 a2 a3) + uval (U256 b0 b1 b2 b3)" "unat c3 \<le> 1"
    using addCarry_uval [OF e] .
qed

lemma Sub64_chain:
  assumes "Sub64 (w0 a) (w0 b) 0 = (r0, c0)" "Sub64 (w1 a) (w1 b) c0 = (r1, c1)"
    "Sub64 (w2 a) (w2 b) c1 = (r2, c2)" "Sub64 (w3 a) (w3 b) c2 = (r3, c3)"
  shows "uval (Sub256 a b) + uval b = uval a + B64 ^ 4 * unat c3" and "unat c3 \<le> 1"
proof -
  note s = Sub64_spec [OF assms(1)] Sub64_spec [OF assms(2)] Sub64_spec [OF assms(3)] Sub64_spec [OF assms(4)]
  have "unat r0 + unat (w0 b) = unat (w0 a) + B64 * unat c0"
    "unat r1 + unat (w1 b) + unat c0 = unat (w1 a) + B64 * unat c1"
    "unat r2 + unat (w2 b) + unat c1 = unat (w2 a) + B64 * unat c2"
    "unat r3 + unat (w3 b) + unat c2 = unat (w3 a) + B64 * unat c3"
    using s by simp_all
  then have "uval (U256 r0 r1 r2 r3) + uval b = uval a + B64 ^ 4 * unat c3"
    unfolding uval_cases Uint256.sel eval_nat_numeral by (simp add: algebra_simps) algebra
  then show "uval (Sub256 a b) + uval b = uval a + B64 ^ 4 * unat c3"
    using assms by (simp add: Sub256_def)
  show "unat c3 \<le> 1" using s by simp
qed

lemma uval_Sub256_ge: "uval b \<le> uval a \<Longrightarrow> uval (Sub256 a b) = uval a - uval b"
proof -
  assume le: "uval b \<le> uval a"
  obtain k where k: "uval (Sub256 a b) + uval b = uval a + B64 ^ 4 * k" "k \<le> 1" using Sub256_uval by blast
  have "k = 0"
  proof (rule ccontr)
    assume "k \<noteq> 0"
    then have "k = 1" using k(2) by simp
    then show False using k(1) le uval_bound [of "Sub256 a b"] by simp
  qed
  then show ?thesis using k by simp
qed

lemma mulR_step:
  assumes "Mul64 h r = (hi2, lo)" "Add64 lo hi 0 = (l, c)" "Add64 hi2 c 0 = (hi', v)"
  shows "unat l + B64 * unat hi' = unat h * unat r + unat hi"
proof -
  have "Add64 0 lo 0 = (lo, 0)" using unat_lt_B64 [of lo] by (simp add: Add64_def del: unat_lt_B64)
  moreover have "Add64 hi2 0 c = (hi', v)" using assms(3) by (simp add: Add64_def)
  ultimately show ?thesis using mul512_step [OF assms(1) _ assms(2)] by simp
qed

lemma carry_chain:
  fixes B R :: nat
  assumes "l0 + B * h0 = a0 * R" "l1 + B * k1 = a1 * R + h0" "l2 + B * k2 = a2 * R + k1" "l3 + B * k3 = a3 * R + k2"
  shows "l0 + B * (l1 + B * (l2 + B * l3)) + B ^ 4 * k3 = R * (a0 + B * (a1 + B * (a2 + B * a3)))"
proof -
  have "R * (a0 + B * (a1 + B * (a2 + B * a3))) = (a0 * R) + B * (a1 * R) + B ^ 2 * (a2 * R) + B ^ 3 * (a3 * R)"
    by (simp add: algebra_simps eval_nat_numeral)
  moreover have "a0 * R + B * (a1 * R) = l0 + B * (l1 + B * k1)" using assms(1,2) by (metis add.commute add_mult_distrib2 add.assoc)
  moreover have "B ^ 2 * k1 + B ^ 2 * (a2 * R) = B ^ 2 * (l2 + B * k2)" using assms(3) by (metis add.commute add_mult_distrib2)
  moreover have "B ^ 3 * k2 + B ^ 3 * (a3 * R) = B ^ 3 * (l3 + B * k3)" using assms(4) by (metis add.commute add_mult_distrib2)
  ultimately show ?thesis by (simp add: algebra_simps eval_nat_numeral)
qed

lemma mul256ByR_spec:
  assumes "mul256ByR h0 h1 h2 h3 = (l0, l1, l2, l3, extra)"
  shows "uval (U256 l0 l1 l2 l3) + B64 ^ 4 * unat extra = unat secpR * uval (U256 h0 h1 h2 h3)"
    and "unat extra < unat secpR"
proof -
  obtain hi0 lo1 hi1 c1 k1 v1 lo2 hi2 c2 k2 v2 lo3 hi3 c3 k3 v3 where
    e: "Mul64 h0 secpR = (hi0, l0)" "Mul64 h1 secpR = (hi1, lo1)" "Add64 lo1 hi0 0 = (l1, c1)" "Add64 hi1 c1 0 = (k1, v1)"
      "Mul64 h2 secpR = (hi2, lo2)" "Add64 lo2 k1 0 = (l2, c2)" "Add64 hi2 c2 0 = (k2, v2)"
      "Mul64 h3 secpR = (hi3, lo3)" "Add64 lo3 k2 0 = (l3, c3)" "Add64 hi3 c3 0 = (k3, v3)" "k3 = extra"
    using assms by (auto simp: mul256ByR_def Let_def split: prod.splits)
  note s = Mul64_spec [OF e(1)] mulR_step [OF e(2-4)] mulR_step [OF e(5-7)] mulR_step [OF e(8-10)]
  show eq: "uval (U256 l0 l1 l2 l3) + B64 ^ 4 * unat extra = unat secpR * uval (U256 h0 h1 h2 h3)"
    using carry_chain [OF s] e(11) by (simp only: uval_U256)
  have "B64 ^ 4 * unat extra \<le> unat secpR * uval (U256 h0 h1 h2 h3)" using eq by linarith
  also have "\<dots> < unat secpR * B64 ^ 4"
    using uval_bound by (intro mult_strict_left_mono) (simp_all add: unat_secpR)
  finally show "unat extra < unat secpR" by (simp add: mult.commute)
qed

lemma no_carry: "x + B * v = y \<Longrightarrow> y < B \<Longrightarrow> v = 0 \<and> x = (y :: nat)"
  by (cases v) auto

text \<open>The last, conditional subtraction of the prime.\<close>

lemma reduce_once:
  assumes q: "Sub64 (w0 res) (w0 secpP) 0 = (q0, e0)" "Sub64 (w1 res) (w1 secpP) e0 = (q1, e1)"
      "Sub64 (w2 res) (w2 secpP) e1 = (q2, e2)" "Sub64 (w3 res) (w3 secpP) e2 = (q3, br)"
  shows "uval (u256Cmov res (Sub256 res secpP) (br - 1)) = uval res mod prime_p"
proof -
  have B: "uval (Sub256 res secpP) + prime_p = uval res + B64 ^ 4 * unat br" "unat br \<le> 1"
    using Sub64_chain [OF q] uval_secpP by simp_all
  have "B64 ^ 4 < 2 * prime_p" by (simp add: prime_p_def B64_def)
  then have lt: "uval res < 2 * prime_p" using uval_bound [of res] by linarith
  show ?thesis
  proof (cases "prime_p \<le> uval res")
    case True
    have d: "uval (Sub256 res secpP) = uval res - prime_p" using uval_Sub256_ge [of secpP res] True uval_secpP by simp
    then have "unat br = 0" using B True by simp
    then have "br = 0" by (simp add: unat_eq_0)
    then show ?thesis using d lt True by (simp add: le_mod_geq)
  next
    case False
    then have "unat br = 1" using B uval_bound [of "Sub256 res secpP"] by (cases "unat br") auto
    then have "br = 1" by (simp add: word_unat_eq_iff)
    then show ?thesis using False by simp
  qed
qed

text \<open>Folding the high half twice: \<open>A + Q * x\<close> is the value after the first fold, \<open>C + Q * d\<close> after the
  second, and the third leaves no carry.\<close>

lemma fold_cong:
  fixes R P Q :: nat
  assumes "P + R = Q" "A + Q * x = L + R * H" "C + Q * d = A + x * R" "x \<le> R" "d \<le> 1" "A < Q" "R * R + R < Q"
  shows "C + d * R < Q \<or> Q \<le> C" "L + Q * H = C + d * R + P * (d + x + H)"
proof -
  have le: "x * R \<le> R * R" using assms(4) by (rule mult_le_mono1)
  have "d = 0 \<or> d = 1" using assms(5) by linarith
  then show "C + d * R < Q \<or> Q \<le> C"
  proof
    assume "d = 1"
    then have "C + Q = A + x * R" using assms(3) by simp
    then have "C + Q < Q + R * R" using assms(6) le by linarith
    then show ?thesis using assms(7) \<open>d = 1\<close> by simp
  qed (use assms(3) in auto)
  have "L + Q * H = (L + R * H) + P * H" using assms(1) by (simp add: algebra_simps flip: assms(1))
  also have "\<dots> = A + x * R + P * x + P * H" using assms(2) by (simp add: algebra_simps flip: assms(1,2))
  also have "\<dots> = C + d * R + P * (d + x + H)" using assms(3) by (simp add: algebra_simps flip: assms(1,3))
  finally show "L + Q * H = C + d * R + P * (d + x + H)" .
qed

lemma lval_halves:
  assumes "length z = 8"
  shows "lval z = uval (U256 (z ! 0) (z ! 1) (z ! 2) (z ! 3)) + B64 ^ 4 * uval (U256 (z ! 4) (z ! 5) (z ! 6) (z ! 7))"
proof -
  obtain y0 y1 y2 y3 y4 y5 y6 y7 where "z = [y0, y1, y2, y3, y4, y5, y6, y7]"
    using assms by (auto simp: length_Suc_conv eval_nat_numeral)
  then show ?thesis by (simp add: uval_U256 algebra_simps eval_nat_numeral)
qed

lemma feReduce512_spec:
  assumes "length z = 8"
  shows "uval (feReduce512 z) = lval z mod prime_p"
proof -
  obtain m0 m1 m2 m3 extra where m: "mul256ByR (z ! 4) (z ! 5) (z ! 6) (z ! 7) = (m0, m1, m2, m3, extra)"
    by (metis surj_pair)
  obtain a0 c0 a1 c1 a2 c2 a3 c3 ex v where
    a: "Add64 (z ! 0) m0 0 = (a0, c0)" "Add64 (z ! 1) m1 c0 = (a1, c1)" "Add64 (z ! 2) m2 c1 = (a2, c2)"
      "Add64 (z ! 3) m3 c2 = (a3, c3)" and x: "Add64 extra c3 0 = (ex, v)"
    by (metis surj_pair)
  obtain hi lo b0 d0 b1 d1 b2 d2 b3 d3 where
    h: "Mul64 ex secpR = (hi, lo)" and
    b: "Add64 a0 lo 0 = (b0, d0)" "Add64 a1 hi d0 = (b1, d1)" "Add64 a2 0 d1 = (b2, d2)" "Add64 a3 0 d2 = (b3, d3)"
    by (metis surj_pair)
  obtain hi' lo' r0 g0 r1 g1 r2 g2 r3 g3 where
    h': "Mul64 d3 secpR = (hi', lo')" and
    r: "Add64 b0 lo' 0 = (r0, g0)" "Add64 b1 hi' g0 = (r1, g1)" "Add64 b2 0 g1 = (r2, g2)" "Add64 b3 0 g2 = (r3, g3)"
    by (metis surj_pair)
  define res where "res = U256 r0 r1 r2 r3"
  obtain q0 e0 q1 e1 q2 e2 q3 br where
    q: "Sub64 (w0 res) (w0 secpP) 0 = (q0, e0)" "Sub64 (w1 res) (w1 secpP) e0 = (q1, e1)"
      "Sub64 (w2 res) (w2 secpP) e1 = (q2, e2)" "Sub64 (w3 res) (w3 secpP) e2 = (q3, br)"
    by (metis surj_pair)
  have out: "uval (feReduce512 z) = uval res mod prime_p"
    unfolding feReduce512_def using m a x h b h' r q reduce_once [OF q] by (simp add: Let_def res_def)
  let ?R = "unat secpR"
  define H where "H = uval (U256 (z ! 4) (z ! 5) (z ! 6) (z ! 7))"
  define L where "L = uval (U256 (z ! 0) (z ! 1) (z ! 2) (z ! 3))"
  define A where "A = uval (U256 a0 a1 a2 a3)"
  define C where "C = uval (U256 b0 b1 b2 b3)"
  have Rlt: "?R * ?R + ?R < B64 ^ 4" "?R < B64" by (simp_all add: unat_secpR B64_def)
  have AC: "A < B64 ^ 4" "C < B64 ^ 4" by (simp_all add: A_def C_def uval_bound)
  have M: "uval (U256 m0 m1 m2 m3) + B64 ^ 4 * unat extra = ?R * H" "unat extra < ?R"
    using mul256ByR_spec [OF m] by (simp_all add: H_def)
  have S1: "A + B64 ^ 4 * unat c3 = L + uval (U256 m0 m1 m2 m3)" "unat c3 \<le> 1"
    using Add64_chain [OF a] by (simp_all add: A_def L_def)
  have "unat ex + B64 * unat v = unat extra + unat c3" using Add64_spec(1) [OF x] by simp
  moreover have "unat extra + unat c3 < B64" using M(2) S1(2) Rlt(2) by linarith
  ultimately have ex: "unat ex = unat extra + unat c3" using no_carry by blast
  have "uval (U256 lo hi 0 0) = unat ex * ?R" "uval (U256 lo' hi' 0 0) = unat d3 * ?R"
    using Mul64_spec [OF h] Mul64_spec [OF h'] by (simp_all add: uval_U256)
  then have S2: "C + B64 ^ 4 * unat d3 = A + unat ex * ?R" "unat d3 \<le> 1"
    and S3: "uval res + B64 ^ 4 * unat g3 = C + unat d3 * ?R"
    using Add64_chain [OF b] Add64_chain(1) [OF r] by (simp_all add: A_def C_def res_def)
  have L1: "A + B64 ^ 4 * unat ex = L + ?R * H" "unat ex \<le> ?R" using S1 M ex by (simp_all add: algebra_simps)
  note f = fold_cong [OF prime_p_R L1(1) S2(1) L1(2) S2(2) AC(1) Rlt(1)]
  have "uval res = C + unat d3 * ?R" using no_carry [OF S3] f(1) AC(2) by linarith
  then show ?thesis using out f(2) lval_halves [OF assms] by (simp add: H_def L_def)
qed

lemma uval_feMul: "uval (feMul a b) = uval a * uval b mod prime_p"
proof -
  have "lval (feMul512 a b) = uval a * uval b" "length (feMul512 a b) = 8"
    using mul512_lval [of a b] length_mul512 [of a b] by (simp_all add: feMul512_def mul512_def)
  then show ?thesis by (simp add: feMul_def feReduce512_spec)
qed

lemma uval_feAdd: "uval (feAdd a b) = (uval a + uval b) mod prime_p"
  by (simp add: feAdd_def uval_AddMod256 uval_secpP)

lemma uval_feDbl: "uval (feDbl a) = (2 * uval a) mod prime_p"
  by (simp add: feDbl_def uval_AddMod256 uval_secpP mult_2)

lemma uval_feSub: "uval b \<le> prime_p \<Longrightarrow> uval (feSub a b) = (uval a + (prime_p - uval b)) mod prime_p"
  using uval_Sub256_ge [of b secpP] by (simp add: feSub_def uval_AddMod256 uval_secpP)

lemma uval_feSqr: "uval (feSqr a) = uval a ^ 2 mod prime_p"
  by (simp add: feSqr_def uval_feMul power2_eq_square)

lemma uval_feNeg: "uval a < prime_p \<Longrightarrow> uval (feNeg a) = (prime_p - uval a) mod prime_p"
proof (cases "a = zero256")
  case False
  then have "0 < uval a" using uval_eq_0_iff by blast
  moreover assume "uval a < prime_p"
  ultimately show ?thesis using False uval_Sub256_ge [of a secpP] by (simp add: feNeg_def uval_secpP mask_simps)
qed (simp add: feNeg_def mask_simps)

text \<open>The loops square the base and multiply the result where the exponent has a bit: both are the
  power. \<open>e div 2 ^ i\<close> is what is left of the exponent.\<close>

lemma bit_odd: "bit (e :: 256 word) i \<longleftrightarrow> odd (unat e div 2 ^ i)"
proof -
  have "bit e i \<longleftrightarrow> bit (unat e) i" using bit_imp_le_length [of e i] by (auto simp: bit_unsigned_iff)
  then show ?thesis by (simp only: bit_iff_odd)
qed

lemma bit_step: "(if bit e i then (b :: nat) else 1) * (b ^ 2) ^ (unat (e :: 256 word) div 2 ^ Suc i) = b ^ (unat e div 2 ^ i)"
proof -
  have "unat e div 2 ^ Suc i = unat e div 2 ^ i div 2" by (simp add: div_mult2_eq [symmetric] mult.commute)
  then have "unat e div 2 ^ i = 2 * (unat e div 2 ^ Suc i) + (if bit e i then 1 else 0)"
    by (simp only: bit_odd split: if_splits) (metis add.right_neutral even_two_times_div_two odd_two_times_div_two_succ)
  then show ?thesis by (simp add: power_add power_mult mult.commute)
qed

lemma mod_mult_power: "(x mod q) * (y mod q) ^ k mod q = x * y ^ k mod (q :: nat)"
proof -
  have "(x mod q) * (y mod q) ^ k mod q = (x mod q) * ((y mod q) ^ k mod q) mod q" by (simp only: mod_mult_right_eq)
  also have "\<dots> = (x mod q) * (y ^ k mod q) mod q" by (simp only: power_mod)
  finally show ?thesis by (simp only: mod_mult_eq)
qed

text \<open>One pass of such a loop, for a multiplication \<open>mul\<close> that is exact modulo \<open>q\<close>.\<close>

lemma pow_step:
  assumes mul: "\<And>a b. uval (mul a b) = uval a * uval b mod q" and i: "i < 256" and r: "uval result < q"
  shows "uval (u256Cmov result (mul result base) (0 - bitAt e i)) < q"
    and "(uval (u256Cmov result (mul result base) (0 - bitAt e i)) * uval (mul base base) ^ (uval e div 2 ^ Suc i)) mod q =
      (uval result * uval base ^ (uval e div 2 ^ i)) mod q"
proof -
  have q: "0 < q" using r by linarith
  let ?m = "if bit (word_of e) i then uval base else 1"
  have sel: "uval (u256Cmov result (mul result base) (0 - bitAt e i)) = uval result * ?m mod q"
    using r i by (simp add: bitAt_eq mul)
  then show "uval (u256Cmov result (mul result base) (0 - bitAt e i)) < q" using q by simp
  have "(uval result * ?m mod q) * (uval base ^ 2 mod q) ^ (uval e div 2 ^ Suc i) mod q =
      uval result * (?m * (uval base ^ 2) ^ (uval e div 2 ^ Suc i)) mod q"
    by (simp only: mod_mult_power mult.assoc)
  then show "(uval (u256Cmov result (mul result base) (0 - bitAt e i)) * uval (mul base base) ^ (uval e div 2 ^ Suc i)) mod q =
      (uval result * uval base ^ (uval e div 2 ^ i)) mod q"
    using bit_step [of "word_of e" i "uval base"] by (simp only: sel mul unat_word_of power2_eq_square)
qed

lemma fePow_loop_spec:
  "\<lbrakk>i + n = 256; uval result < prime_p\<rbrakk> \<Longrightarrow>
    uval (fePow_loop n i e base result) = (uval result * uval base ^ (uval e div 2 ^ i)) mod prime_p"
proof (induction n i e base result rule: fePow_loop.induct)
  case (1 i e base result)
  then show ?case using uval_lt [of e] by simp
next
  case (2 n i e base result)
  have i: "i < 256" using "2.prems" by simp
  show ?case
    using "2.IH" [OF refl refl refl] "2.prems" pow_step [of feMul, OF uval_feMul i "2.prems"(2), of base e]
    by (simp add: Let_def feSqr_def)
qed

lemma uval_fePow: "uval (fePow base e) = uval base ^ uval e mod prime_p"
  using fePow_loop_spec [of 0 256 secpOne e base] by (simp add: fePow_def)

lemma scInv_loop_spec:
  "\<lbrakk>i + n = 256; uval result < order_n\<rbrakk> \<Longrightarrow>
    uval (scInv_loop n i base result) = (uval result * uval base ^ (uval secpNMinus2 div 2 ^ i)) mod order_n"
proof (induction n i base result rule: scInv_loop.induct)
  case (1 i base result)
  then show ?case using uval_lt [of secpNMinus2] by simp
next
  case (2 n i base result)
  have i: "i < 256" using "2.prems" by simp
  have mul: "uval (scMul a b) = uval a * uval b mod order_n" for a b by (simp add: scMul_def uval_MulMod256 uval_secpN)
  show ?case
    using "2.IH" [OF refl refl refl] "2.prems" pow_step [of scMul, OF mul i "2.prems"(2), of base secpNMinus2]
    by (simp add: Let_def)
qed

lemma uval_scInv: "uval (scInv a) = uval a ^ (order_n - 2) mod order_n"
proof -
  have "uval secpNMinus2 = order_n - 2" by (simp add: secpNMinus2_def uval_U256 order_n_def B64_def)
  moreover have "1 < order_n" by (simp add: order_n_def)
  ultimately show ?thesis using scInv_loop_spec [of 0 256 secpOne a] by (simp add: scInv_def)
qed

section \<open>Points stay on the curve\<close>

text \<open>Field elements as integers; the operations are then ring operations modulo the prime.\<close>

definition fe :: "Uint256 \<Rightarrow> int" where "fe a = int (uval a)"
definition reduced :: "Uint256 \<Rightarrow> bool" where "reduced a \<longleftrightarrow> uval a < prime_p"

abbreviation p_int :: int where "p_int \<equiv> int prime_p"

lemma fe_mul: "fe (feMul a b) = fe a * fe b mod p_int"
  by (simp add: fe_def uval_feMul zmod_int)

lemma fe_sqr: "fe (feSqr a) = fe a * fe a mod p_int"
  by (simp add: feSqr_def fe_mul)

lemma fe_add: "fe (feAdd a b) = (fe a + fe b) mod p_int"
  by (simp add: fe_def uval_feAdd zmod_int)

lemma fe_dbl: "fe (feDbl a) = (fe a + fe a) mod p_int"
  using fe_add [of a a] by (simp add: feDbl_def feAdd_def)

lemma fe_sub: "reduced b \<Longrightarrow> fe (feSub a b) = (fe a - fe b) mod p_int"
proof -
  assume "reduced b"
  then have le: "uval b \<le> prime_p" by (simp add: reduced_def)
  have "int (uval a + (prime_p - uval b)) = fe a - fe b + p_int" unfolding fe_def of_nat_add of_nat_diff [OF le] by linarith
  then show ?thesis using uval_feSub [OF le, of a] unfolding fe_def [of "feSub a b"] by (simp only: zmod_int mod_add_self2)
qed

lemma reduced_ops [simp]:
  "reduced (feMul a b)" "reduced (feSqr a)" "reduced (feAdd a b)" "reduced (feDbl a)" "reduced b \<Longrightarrow> reduced (feSub a b)"
  "reduced secpOne" "reduced zero256"
  by (simp_all add: reduced_def uval_feMul uval_feSqr uval_feAdd uval_feDbl uval_feSub)

text \<open>The same, as congruences to apply from the outside in.\<close>

lemma fe_congs:
  "fe a mod p_int = x mod p_int \<Longrightarrow> fe b mod p_int = y mod p_int \<Longrightarrow> fe (feMul a b) mod p_int = x * y mod p_int"
  "fe a mod p_int = x mod p_int \<Longrightarrow> fe (feSqr a) mod p_int = x * x mod p_int"
  "fe a mod p_int = x mod p_int \<Longrightarrow> fe b mod p_int = y mod p_int \<Longrightarrow> fe (feAdd a b) mod p_int = (x + y) mod p_int"
  "fe a mod p_int = x mod p_int \<Longrightarrow> fe (feDbl a) mod p_int = (x + x) mod p_int"
  "reduced b \<Longrightarrow> fe a mod p_int = x mod p_int \<Longrightarrow> fe b mod p_int = y mod p_int \<Longrightarrow> fe (feSub a b) mod p_int = (x - y) mod p_int"
  by (simp_all only: fe_mul fe_sqr fe_add fe_dbl fe_sub mod_mod_trivial) (blast intro: mod_mult_cong mod_add_cong mod_diff_cong)+

text \<open>\<open>Y\<^sup>2 = X\<^sup>3 + 7 Z\<^sup>6\<close>, as the residue that must vanish.\<close>

definition curve :: "int \<Rightarrow> int \<Rightarrow> int \<Rightarrow> int" where
  "curve x y z = y * y - x * x * x - 7 * (z * z * z * z * z * z)"

definition onJac :: "secpJac \<Rightarrow> bool" where
  "onJac p \<longleftrightarrow> reduced (jx p) \<and> reduced (jy p) \<and> reduced (jz p) \<and>
     (jz p = zero256 \<or> curve (fe (jx p)) (fe (jy p)) (fe (jz p)) mod p_int = 0)"

lemma curve_mod: "curve (x mod m) (y mod m) (z mod m) mod m = curve x y z mod m"
  unfolding curve_def by (intro mod_diff_cong mod_mult_cong mod_mod_trivial refl)

lemma curve_cong: "x mod m = x' mod m \<Longrightarrow> y mod m = y' mod m \<Longrightarrow> z mod m = z' mod m \<Longrightarrow> curve x y z mod m = curve x' y' z' mod m"
  by (metis curve_mod)

lemma curve_double:
  fixes x y z :: int
  defines "d \<equiv> 2 * ((x + y * y) * (x + y * y) - x * x - y * y * (y * y))" and "e \<equiv> 3 * (x * x)"
  defines "x3 \<equiv> e * e - 2 * d"
  shows "curve x3 (e * (d - x3) - 8 * (y * y * (y * y))) (2 * y * z) = 64 * (y * y * y * y * y * y) * curve x y z"
  unfolding curve_def x3_def d_def e_def by algebra

lemma jacDoubleBody_curve:
  assumes "onJac p" "curve (fe (jx p)) (fe (jy p)) (fe (jz p)) mod p_int = 0"
  shows "onJac (jacDoubleBody p)"
proof -
  let ?x = "fe (jx p)" and ?y = "fe (jy p)" and ?z = "fe (jz p)" and ?r = "jacDoubleBody p"
  define d where "d = 2 * ((?x + ?y * ?y) * (?x + ?y * ?y) - ?x * ?x - ?y * ?y * (?y * ?y))"
  define e where "e = 3 * (?x * ?x)"
  define x3 where "x3 = e * e - 2 * d"
  have cd: "fe (feDbl (feSub (feSub (feSqr (feAdd (jx p) (feSqr (jy p)))) (feSqr (jx p))) (feSqr (feSqr (jy p))))) mod p_int = d mod p_int"
    unfolding d_def mult_2 by (intro fe_congs reduced_ops refl)
  have ce: "fe (feAdd (feDbl (feSqr (jx p))) (feSqr (jx p))) mod p_int = e mod p_int"
  proof -
    have "e = ?x * ?x + ?x * ?x + ?x * ?x" by (simp add: e_def)
    then show ?thesis by (simp only:) (intro fe_congs reduced_ops refl)
  qed
  have cx: "fe (jx ?r) mod p_int = x3 mod p_int"
    unfolding jacDoubleBody_def Let_def secpJac.simps x3_def mult_2 by (intro fe_congs reduced_ops refl cd ce)
  have cy: "fe (jy ?r) mod p_int = (e * (d - x3) - 8 * (?y * ?y * (?y * ?y))) mod p_int"
  proof -
    have e8: "8 * t = t + t + (t + t) + (t + t + (t + t))" for t :: int by simp
    show ?thesis using cx unfolding jacDoubleBody_def Let_def secpJac.simps e8 by (intro fe_congs reduced_ops refl cd ce)
  qed
  have cz: "fe (jz ?r) mod p_int = (2 * ?y * ?z) mod p_int"
    unfolding jacDoubleBody_def Let_def secpJac.simps mult_2 by (intro fe_congs reduced_ops refl)
  have "curve (fe (jx ?r)) (fe (jy ?r)) (fe (jz ?r)) mod p_int = 64 * (?y * ?y * ?y * ?y * ?y * ?y) * curve ?x ?y ?z mod p_int"
    unfolding curve_cong [OF cx cy cz] unfolding x3_def d_def e_def by (simp only: curve_double)
  also have "\<dots> = 0" using assms(2) by (metis mod_mult_right_eq mult_zero_right mod_0)
  finally show ?thesis by (simp add: onJac_def jacDoubleBody_def Let_def)
qed

text \<open>Addition: \<open>c1\<close> and \<open>c2\<close> are the residues of the two points, scaled to a common denominator \<open>w\<close>.\<close>

lemma curve_add:
  fixes s t u v w :: int
  defines "h \<equiv> v - u" and "r \<equiv> 2 * (t - s)"
  defines "i \<equiv> (2 * h) * (2 * h)"
  defines "x3 \<equiv> r * r - h * i - 2 * (u * i)"
  assumes "c1 = s * s - u * u * u - 7 * (w * w * w * w * w * w)" "c2 = t * t - v * v * v - 7 * (w * w * w * w * w * w)"
  shows "curve x3 (r * (u * i - x3) - 2 * (s * (h * i))) (2 * w * h) =
    64 * h ^ 6 * c1 + 64 * h ^ 3 * ((t - s) ^ 2 - h ^ 3 - 3 * u * h ^ 2) * (c2 - c1)"
proof -
  have t: "t = s + (t - s)" and v: "v = u + h" by (simp_all add: h_def)
  define R where "R = t - s"
  have "curve x3 (r * (u * i - x3) - 2 * (s * (h * i))) (2 * w * h) =
    64 * h ^ 6 * (s * s - u * u * u - 7 * (w * w * w * w * w * w)) + 64 * h ^ 3 * (R ^ 2 - h ^ 3 - 3 * u * h ^ 2) *
      ((s + R) * (s + R) - (u + h) * (u + h) * (u + h) - (s * s - u * u * u))"
    unfolding curve_def x3_def i_def r_def R_def [symmetric] by algebra
  moreover have "c2 - c1 = (s + R) * (s + R) - (u + h) * (u + h) * (u + h) - (s * s - u * u * u)"
    unfolding assms(5,6) R_def h_def by simp
  ultimately show ?thesis unfolding assms(5) R_def by simp
qed

lemma jacAddBody_curve:
  assumes "onJac p" "curve (fe (jx p)) (fe (jy p)) (fe (jz p)) mod p_int = 0"
    "onJac q" "curve (fe (jx q)) (fe (jy q)) (fe (jz q)) mod p_int = 0"
  shows "onJac (fst (jacAddBody p q))"
proof -
  let ?x1 = "fe (jx p)" and ?y1 = "fe (jy p)" and ?z1 = "fe (jz p)"
  let ?x2 = "fe (jx q)" and ?y2 = "fe (jy q)" and ?z2 = "fe (jz q)" and ?r = "fst (jacAddBody p q)"
  define u where "u = ?x1 * (?z2 * ?z2)"
  define v where "v = ?x2 * (?z1 * ?z1)"
  define s where "s = ?y1 * (?z2 * (?z2 * ?z2))"
  define t where "t = ?y2 * (?z1 * (?z1 * ?z1))"
  define h where "h = v - u"
  define r where "r = 2 * (t - s)"
  define i where "i = (2 * h) * (2 * h)"
  define x3 where "x3 = r * r - h * i - 2 * (u * i)"
  let ?u1 = "feMul (jx p) (feSqr (jz q))" and ?u2 = "feMul (jx q) (feSqr (jz p))"
  let ?s1 = "feMul (jy p) (feMul (jz q) (feSqr (jz q)))" and ?s2 = "feMul (jy q) (feMul (jz p) (feSqr (jz p)))"
  let ?h = "feSub ?u2 ?u1" and ?rr = "feDbl (feSub ?s2 ?s1)"
  have cu: "fe ?u1 mod p_int = u mod p_int" and cs: "fe ?s1 mod p_int = s mod p_int"
    unfolding u_def s_def by (intro fe_congs refl)+
  have ch: "fe ?h mod p_int = h mod p_int"
    unfolding h_def u_def v_def by (intro fe_congs reduced_ops refl)
  have cr: "fe ?rr mod p_int = r mod p_int"
    unfolding r_def s_def t_def mult_2 by (intro fe_congs reduced_ops refl)
  have ci: "fe (feSqr (feDbl ?h)) mod p_int = i mod p_int"
    unfolding i_def mult_2 by (intro fe_congs reduced_ops ch)
  have cx: "fe (jx ?r) mod p_int = x3 mod p_int"
    unfolding jacAddBody_def Let_def fst_conv secpJac.simps x3_def mult_2 by (intro fe_congs reduced_ops cu ch cr ci)
  have cy: "fe (jy ?r) mod p_int = (r * (u * i - x3) - 2 * (s * (h * i))) mod p_int"
    using cx unfolding jacAddBody_def Let_def fst_conv secpJac.simps mult_2 by (intro fe_congs reduced_ops cu cs ch cr ci)
  have cz: "fe (jz ?r) mod p_int = (2 * (?z1 * ?z2) * h) mod p_int"
  proof -
    have e: "2 * (?z1 * ?z2) = (?z1 + ?z2) * (?z1 + ?z2) - ?z1 * ?z1 - ?z2 * ?z2" by (simp add: algebra_simps)
    show ?thesis unfolding jacAddBody_def Let_def fst_conv secpJac.simps e by (intro fe_congs reduced_ops refl ch)
  qed
  define c1 where "c1 = s * s - u * u * u - 7 * (?z1 * ?z2 * (?z1 * ?z2) * (?z1 * ?z2) * (?z1 * ?z2) * (?z1 * ?z2) * (?z1 * ?z2))"
  define c2 where "c2 = t * t - v * v * v - 7 * (?z1 * ?z2 * (?z1 * ?z2) * (?z1 * ?z2) * (?z1 * ?z2) * (?z1 * ?z2) * (?z1 * ?z2))"
  have "c1 = ?z2 ^ 6 * curve ?x1 ?y1 ?z1" "c2 = ?z1 ^ 6 * curve ?x2 ?y2 ?z2"
    unfolding c1_def c2_def s_def t_def u_def v_def curve_def by algebra+
  then have c: "p_int dvd c1" "p_int dvd c2" using assms(2,4) by (simp_all add: mod_eq_0_iff_dvd)
  have "curve (fe (jx ?r)) (fe (jy ?r)) (fe (jz ?r)) mod p_int =
      (64 * h ^ 6 * c1 + 64 * h ^ 3 * ((t - s) ^ 2 - h ^ 3 - 3 * u * h ^ 2) * (c2 - c1)) mod p_int"
    unfolding curve_cong [OF cx cy cz] unfolding x3_def i_def r_def h_def by (simp only: curve_add [OF c1_def c2_def])
  also have "\<dots> = 0" using c by (intro mod_eq_0_iff_dvd [THEN iffD2] dvd_add dvd_mult dvd_diff)
  finally show ?thesis by (simp add: onJac_def jacAddBody_def Let_def)
qed

lemma onJac_inf [simp]: "onJac jacInf"
  by (simp add: onJac_def jacInf_def)

lemma onJac_finite: "\<lbrakk>onJac p; jz p \<noteq> zero256\<rbrakk> \<Longrightarrow> curve (fe (jx p)) (fe (jy p)) (fe (jz p)) mod p_int = 0"
  by (simp add: onJac_def)

lemma secp256k1JacDouble_curve: "onJac p \<Longrightarrow> onJac (secp256k1JacDouble p)"
  using jacDoubleBody_curve [of p] onJac_finite [of p] by (simp add: secp256k1JacDouble_def Let_def mask_simps)

lemma secp256k1JacAdd_eq: "secp256k1JacAdd p q =
    (if jz q = zero256 then p else if jz p = zero256 then q
     else case jacAddBody p q of (pq, h, s1, s2) \<Rightarrow>
       if h = zero256 then if s1 = s2 then jacDoubleBody p else jacInf else pq)"
  by (simp add: secp256k1JacAdd_def Let_def mask_simps split: prod.splits)

lemma secp256k1JacAdd_curve:
  assumes "onJac p" "onJac q"
  shows "onJac (secp256k1JacAdd p q)"
  using assms jacAddBody_curve [of p q] jacDoubleBody_curve [of p] onJac_finite [of p] onJac_finite [of q]
  by (cases "jacAddBody p q") (auto simp: secp256k1JacAdd_eq)

lemma jacMul_loop_curve: "\<lbrakk>onJac base; onJac r; n \<le> 256\<rbrakk> \<Longrightarrow> onJac (jacMul_loop n base k r)"
proof (induction n arbitrary: r)
  case (Suc n)
  have "onJac (jacCmov (secp256k1JacDouble r) (secp256k1JacAdd (secp256k1JacDouble r) base) (0 - bitAt k n))"
    using Suc.prems secp256k1JacDouble_curve secp256k1JacAdd_curve by (simp add: bitAt_eq)
  then show ?case using Suc by (simp add: Let_def)
qed simp

lemma secp256k1JacMul_curve: "onJac p \<Longrightarrow> onJac (secp256k1JacMul p k)"
  by (simp add: secp256k1JacMul_def jacMul_loop_curve)

lemma onJac_gjac: "onJac gjac"
proof -
  have "uval secpGX < prime_p" "uval secpGY < prime_p"
    by (simp_all add: secpGX_def secpGY_def uval_U256 B64_def prime_p_def)
  moreover have "curve (fe secpGX) (fe secpGY) 1 mod p_int = 0"
    by (simp add: curve_def fe_def secpGX_def secpGY_def uval_U256 B64_def prime_p_def)
  ultimately show ?thesis by (simp add: onJac_def gjac_def reduced_def fe_def [of secpOne])
qed

section \<open>Keys\<close>

text \<open>A public key is the affine form of a finite point of the curve: 32 bytes for \<open>X / Z\<^sup>2\<close> and 32 for
  \<open>Y / Z\<^sup>3\<close>, where the inverse of \<open>Z\<close> is its power to \<open>p - 2\<close>.\<close>

definition zinv :: "secpJac \<Rightarrow> nat" where
  "zinv q = uval (jz q) ^ (prime_p - 2) mod prime_p"

definition pubkey_of :: "secpJac \<Rightarrow> bytes" where
  "pubkey_of q = be_bytes 32 (uval (jx q) * zinv q ^ 2 mod prime_p) @ be_bytes 32 (uval (jy q) * zinv q ^ 3 mod prime_p)"

lemma be_bytes_BytesBE: "be_bytes 32 (uval x) = BytesBE x"
  using be_bytes_be_val [of "BytesBE x" 32] by (simp add: be_val_BytesBE)

lemma uval_zinv: "uval (secp256k1FeInv (jz q)) = zinv q"
proof -
  have "uval secpPMinus2 = prime_p - 2" by (simp add: secpPMinus2_def uval_U256 prime_p_def B64_def)
  then show ?thesis by (simp add: secp256k1FeInv_def uval_fePow zinv_def)
qed

lemma jacToAffine_Some:
  assumes "jacToAffine q = Some (x, y)"
  shows "jz q \<noteq> zero256" and "BytesBE x @ BytesBE y = pubkey_of q"
proof -
  let ?i = "secp256k1FeInv (jz q)"
  have z: "jz q \<noteq> zero256" and x: "x = feMul (jx q) (feSqr ?i)" and y: "y = feMul (jy q) (feMul (feSqr ?i) ?i)"
    using assms by (auto simp: jacToAffine_def Let_def split: if_splits)
  show "jz q \<noteq> zero256" by (rule z)
  have "uval x = uval (jx q) * zinv q ^ 2 mod prime_p"
    by (simp add: x uval_feMul uval_feSqr uval_zinv mod_mult_right_eq)
  moreover have "uval y = uval (jy q) * zinv q ^ 3 mod prime_p"
    by (simp add: y uval_feMul uval_feSqr uval_zinv mod_mult_right_eq mod_mult_left_eq mult.assoc power3_eq_cube power2_eq_square)
  ultimately show "BytesBE x @ BytesBE y = pubkey_of q" by (simp add: pubkey_of_def flip: be_bytes_BytesBE)
qed

lemma pubkey_cases:
  "Secp256k1PubkeyFromSeckey k = Inl ErrInvalidPrivateKey \<or>
   (\<exists>q. onJac q \<and> jz q \<noteq> zero256 \<and> Secp256k1PubkeyFromSeckey k = Inr (pubkey_of q))"
proof -
  let ?q = "secp256k1JacMul gjac (FromBytesBE k)"
  have "onJac ?q" by (simp add: secp256k1JacMul_curve onJac_gjac)
  then show ?thesis
    using jacToAffine_Some [of ?q] by (auto simp: Secp256k1PubkeyFromSeckey_def Let_def split: option.splits)
qed

text \<open>The point with abscissa \<open>r\<close> that recovery starts from.\<close>

lemma recover_point:
  assumes "uval x < order_n" "feSqr y = feAdd (feMul (feSqr x) x) secpB" "reduced y"
  shows "onJac \<lparr>jx = x, jy = y, jz = secpOne\<rparr>"
proof -
  have x: "reduced x" using assms(1) order_less by (simp add: reduced_def)
  have one: "fe secpOne = 1" "fe secpB = 7" by (simp_all add: fe_def)
  have "(fe y * fe y) mod p_int = fe (feSqr y) mod p_int" by (simp add: fe_sqr)
  also have "\<dots> = (fe x * fe x * fe x + 7) mod p_int" unfolding assms(2) by (intro fe_congs refl) (simp add: one)
  finally have "(fe y * fe y - (fe x * fe x * fe x + 7)) mod p_int = 0" by (simp add: mod_eq_dvd_iff mod_eq_0_iff_dvd)
  then show ?thesis using x assms(3) by (simp add: onJac_def curve_def one algebra_simps)
qed

lemma fe_neg: "reduced y \<Longrightarrow> fe (feNeg y) = (- fe y) mod p_int"
proof -
  assume r: "reduced y"
  then have "uval y \<le> prime_p" by (simp add: reduced_def)
  then have "fe (feNeg y) = (p_int - fe y) mod p_int"
    using r uval_feNeg [of y] by (simp add: fe_def reduced_def zmod_int of_nat_diff)
  then show ?thesis by (metis minus_mod_self1 uminus_add_conv_diff diff_conv_add_uminus add.commute mod_add_self2)
qed

lemma recover_point_neg:
  assumes "onJac \<lparr>jx = x, jy = y, jz = z\<rparr>"
  shows "onJac \<lparr>jx = x, jy = feNeg y, jz = z\<rparr>"
proof -
  have y: "reduced y" using assms by (simp add: onJac_def)
  then have "reduced (feNeg y)" by (simp add: reduced_def uval_feNeg)
  moreover have "curve (fe x) (fe (feNeg y)) (fe z) mod p_int = curve (fe x) (- fe y) (fe z) mod p_int"
    using y by (intro curve_cong) (simp_all add: fe_neg)
  moreover have "curve (fe x) (- fe y) (fe z) = curve (fe x) (fe y) (fe z)" by (simp add: curve_def)
  ultimately show ?thesis using assms by (simp add: onJac_def)
qed

lemma reduced_fePow [simp]: "reduced (fePow a e)"
  by (simp add: reduced_def uval_fePow)

lemma feSqrt_Some: "feSqrt a = Some y \<Longrightarrow> feSqr y = a \<and> reduced y"
  by (auto simp: feSqrt_def Let_def mask_simps split: if_splits)

lemma EcRecover_cases:
  "EcRecover hash v r s = Inl ErrInvalidSignature \<or>
   (\<exists>q. onJac q \<and> jz q \<noteq> zero256 \<and> EcRecover hash v r s = Inr (pubkey_of q))"
proof (cases "EcRecover hash v r s")
  case (Inr pub)
  let ?x = "FromBytesBE r"
  obtain y where x: "Cmp ?x secpN < 0" and y: "feSqrt (feAdd (feMul (feSqr ?x) ?x) secpB) = Some y"
    using Inr by (auto simp: EcRecover_def Let_def not_le split: if_splits option.splits)
  define y' where "y' = (\<lambda>recid :: byte. if unat (w0 y AND 1) \<noteq> unat recid then feNeg y else y)"
  have "onJac \<lparr>jx = ?x, jy = y, jz = secpOne\<rparr>"
    using x feSqrt_Some [OF y] by (intro recover_point) (simp_all add: uval_secpN flip: uval_secpN)
  then have on: "onJac \<lparr>jx = ?x, jy = y' recid, jz = secpOne\<rparr>" for recid by (simp add: y'_def recover_point_neg)
  obtain recid u1 u2 where
    "(case jacToAffine (secp256k1JacAdd (secp256k1JacMul gjac u1) (secp256k1JacMul \<lparr>jx = ?x, jy = y' recid, jz = secpOne\<rparr> u2)) of
        None \<Rightarrow> Inl ErrInvalidSignature | Some (qx, qy) \<Rightarrow> Inr (BytesBE qx @ BytesBE qy)) = (Inr pub :: secp_error + bytes)"
    using Inr y unfolding EcRecover_def Let_def y'_def by (auto split: if_splits option.splits)
  moreover have "onJac (secp256k1JacAdd (secp256k1JacMul gjac u1) (secp256k1JacMul \<lparr>jx = ?x, jy = y' recid, jz = secpOne\<rparr> u2))"
    by (intro secp256k1JacAdd_curve secp256k1JacMul_curve onJac_gjac on)
  ultimately show ?thesis using Inr jacToAffine_Some by (auto split: option.splits)
next
  case (Inl e)
  moreover have "e = ErrInvalidSignature"
    using Inl by (auto simp: EcRecover_def Let_def split: if_splits option.splits)
  ultimately show ?thesis by simp
qed

lemma EcRecover_high_s: "uval secpNHalf < uval (FromBytesBE s) \<Longrightarrow> EcRecover hash v r s = Inl ErrInvalidSignature"
  by (simp add: EcRecover_def Let_def split: option.splits)

lemma length_pubkey_of [simp]: "length (pubkey_of q) = 64"
  by (simp add: pubkey_of_def)

end
