(* ===== verification/Hashes.thy ===== *)
theory Hashes
  imports Keccak
begin

text \<open>
  The hash functions of the precompiled contracts (\<open>c2block/precompiles.go\<close>): RIPEMD-160 and the
  compression function of BLAKE2b, which the repository implements, and SHA-256, which it takes
  from the Go standard library (\<open>crypto/sha256\<close>, modelled from FIPS 180-4). The lemmas give the lengths
  of what they return.
\<close>

section \<open>Definitions\<close>

text \<open>\<open>binary.LittleEndian\<close> and \<open>binary.BigEndian\<close> on 32-bit words and on lists of words.\<close>

definition Uint32_LE :: "bytes \<Rightarrow> u32" where
  "Uint32_LE b = ucast (b ! 0) OR push_bit 8 (ucast (b ! 1)) OR push_bit 16 (ucast (b ! 2)) OR push_bit 24 (ucast (b ! 3))"

definition PutUint32_LE :: "u32 \<Rightarrow> bytes" where
  "PutUint32_LE x = map (\<lambda>i. ucast (drop_bit (8 * i) x)) [0..<4]"

definition PutUint64_LE :: "u64 \<Rightarrow> bytes" where
  "PutUint64_LE x = map (\<lambda>i. ucast (drop_bit (8 * i) x)) [0..<8]"

definition Uint32_BE :: "bytes \<Rightarrow> u32" where
  "Uint32_BE b = push_bit 24 (ucast (b ! 0)) OR push_bit 16 (ucast (b ! 1)) OR push_bit 8 (ucast (b ! 2)) OR ucast (b ! 3)"

definition PutUint32_BE :: "u32 \<Rightarrow> bytes" where
  "PutUint32_BE x = map (\<lambda>i. ucast (drop_bit (8 * (3 - i)) x)) [0..<4]"

subsection \<open>SHA-256\<close>

definition sha256_IV :: "u32 list" where
  "sha256_IV =
     [0x6a09e667, 0xbb67ae85, 0x3c6ef372, 0xa54ff53a,
      0x510e527f, 0x9b05688c, 0x1f83d9ab, 0x5be0cd19]"

definition sha256_K :: "u32 list" where
  "sha256_K =
     [0x428a2f98, 0x71374491, 0xb5c0fbcf, 0xe9b5dba5, 0x3956c25b, 0x59f111f1, 0x923f82a4, 0xab1c5ed5,
      0xd807aa98, 0x12835b01, 0x243185be, 0x550c7dc3, 0x72be5d74, 0x80deb1fe, 0x9bdc06a7, 0xc19bf174,
      0xe49b69c1, 0xefbe4786, 0x0fc19dc6, 0x240ca1cc, 0x2de92c6f, 0x4a7484aa, 0x5cb0a9dc, 0x76f988da,
      0x983e5152, 0xa831c66d, 0xb00327c8, 0xbf597fc7, 0xc6e00bf3, 0xd5a79147, 0x06ca6351, 0x14292967,
      0x27b70a85, 0x2e1b2138, 0x4d2c6dfc, 0x53380d13, 0x650a7354, 0x766a0abb, 0x81c2c92e, 0x92722c85,
      0xa2bfe8a1, 0xa81a664b, 0xc24b8b70, 0xc76c51a3, 0xd192e819, 0xd6990624, 0xf40e3585, 0x106aa070,
      0x19a4c116, 0x1e376c08, 0x2748774c, 0x34b0bcb5, 0x391c0cb3, 0x4ed8aa4a, 0x5b9cca4f, 0x682e6ff3,
      0x748f82ee, 0x78a5636f, 0x84c87814, 0x8cc70208, 0x90befffa, 0xa4506ceb, 0xbef9a3f7, 0xc67178f2]"

definition rotr32 :: "nat \<Rightarrow> u32 \<Rightarrow> u32" where
  "rotr32 n x = drop_bit n x OR push_bit (32 - n) x"

text \<open>The message schedule: the 16 words of the block, extended one word at a time to 64.\<close>

fun sha256_extend :: "nat \<Rightarrow> u32 list \<Rightarrow> u32 list" where
  "sha256_extend 0 w = w"
| "sha256_extend (Suc n) w =
     (let t = length w;
          a = w ! (t - 15);
          b = w ! (t - 2);
          s0 = rotr32 7 a XOR rotr32 18 a XOR drop_bit 3 a;
          s1 = rotr32 17 b XOR rotr32 19 b XOR drop_bit 10 b
      in sha256_extend n (w @ [w ! (t - 16) + s0 + w ! (t - 7) + s1]))"

fun sha256_round :: "u32 list \<Rightarrow> u32 \<times> u32 \<Rightarrow> u32 list" where
  "sha256_round [a, b, c, d, e, f, g, h] (k, w) =
     (let S1 = rotr32 6 e XOR rotr32 11 e XOR rotr32 25 e;
          ch = (e AND f) XOR (NOT e AND g);
          t1 = h + S1 + ch + k + w;
          S0 = rotr32 2 a XOR rotr32 13 a XOR rotr32 22 a;
          maj = (a AND b) XOR (a AND c) XOR (b AND c)
      in [t1 + (S0 + maj), a, b, c, d + t1, e, f, g])"
| "sha256_round st kw = st"

definition sha256_block :: "u32 list \<Rightarrow> bytes \<Rightarrow> u32 list" where
  "sha256_block h blk =
     (let w = sha256_extend 48 (map (\<lambda>j. Uint32_BE (drop (4 * j) blk)) [0..<16])
      in map2 (+) h (foldl sha256_round h (zip sha256_K w)))"

definition sha256_pad :: "bytes \<Rightarrow> bytes" where
  "sha256_pad msg =
     msg @ [0x80] @ replicate ((119 - length msg mod 64) mod 64) 0 @ PutUint64_BE (of_nat (length msg * 8))"

definition sha256_Sum256 :: "bytes \<Rightarrow> bytes" where
  "sha256_Sum256 msg =
     (let p = sha256_pad msg;
          h = foldl (\<lambda>h i. sha256_block h (take 64 (drop (64 * i) p))) sha256_IV [0..<length p div 64]
      in concat (map PutUint32_BE h))"

subsection \<open>RIPEMD-160\<close>

definition ripemdIV :: "u32 list" where
  "ripemdIV = [0x67452301, 0xefcdab89, 0x98badcfe, 0x10325476, 0xc3d2e1f0]"

definition ripemd_f :: "nat \<Rightarrow> u32 \<Rightarrow> u32 \<Rightarrow> u32 \<Rightarrow> u32" where
  "ripemd_f i x y z =
     (if i = 0 then x XOR y XOR z
      else if i = 1 then (x AND y) OR (NOT x AND z)
      else if i = 2 then (x OR NOT y) XOR z
      else if i = 3 then (x AND z) OR (y AND NOT z)
      else x XOR (y OR NOT z))"

definition ripemd_kl :: "u32 list" where
  "ripemd_kl = [0x00000000, 0x5a827999, 0x6ed9eba1, 0x8f1bbcdc, 0xa953fd4e]"

definition ripemd_kr :: "u32 list" where
  "ripemd_kr = [0x50a28be6, 0x5c4dd124, 0x6d703ef3, 0x7a6d76e9, 0x00000000]"

definition ripemd_rl :: "nat list" where
  "ripemd_rl =
     [0, 1, 2, 3, 4, 5, 6, 7, 8, 9, 10, 11, 12, 13, 14, 15,
      7, 4, 13, 1, 10, 6, 15, 3, 12, 0, 9, 5, 2, 14, 11, 8,
      3, 10, 14, 4, 9, 15, 8, 1, 2, 7, 0, 6, 13, 11, 5, 12,
      1, 9, 11, 10, 0, 8, 12, 4, 13, 3, 7, 15, 14, 5, 6, 2,
      4, 0, 5, 9, 7, 12, 2, 10, 14, 1, 3, 8, 11, 6, 15, 13]"

definition ripemd_rr :: "nat list" where
  "ripemd_rr =
     [5, 14, 7, 0, 9, 2, 11, 4, 13, 6, 15, 8, 1, 10, 3, 12,
      6, 11, 3, 7, 0, 13, 5, 10, 14, 15, 8, 12, 4, 9, 1, 2,
      15, 5, 1, 3, 7, 14, 6, 9, 11, 8, 12, 2, 10, 0, 4, 13,
      8, 6, 4, 1, 3, 11, 15, 0, 5, 12, 2, 13, 9, 7, 10, 14,
      12, 15, 10, 4, 1, 5, 8, 7, 6, 2, 13, 14, 0, 3, 9, 11]"

definition ripemd_sl :: "nat list" where
  "ripemd_sl =
     [11, 14, 15, 12, 5, 8, 7, 9, 11, 13, 14, 15, 6, 7, 9, 8,
      7, 6, 8, 13, 11, 9, 7, 15, 7, 12, 15, 9, 11, 7, 13, 12,
      11, 13, 6, 7, 14, 9, 13, 15, 14, 8, 13, 6, 5, 12, 7, 5,
      11, 12, 14, 15, 14, 15, 9, 8, 9, 14, 5, 6, 8, 6, 5, 12,
      9, 15, 5, 11, 6, 8, 13, 12, 5, 12, 13, 14, 11, 8, 5, 6]"

definition ripemd_sr :: "nat list" where
  "ripemd_sr =
     [8, 9, 9, 11, 13, 15, 15, 5, 7, 7, 8, 11, 14, 14, 12, 6,
      9, 13, 15, 7, 12, 8, 9, 11, 7, 7, 12, 7, 6, 15, 13, 11,
      9, 7, 15, 11, 8, 6, 6, 14, 12, 13, 5, 14, 13, 13, 7, 5,
      15, 5, 8, 11, 14, 14, 6, 14, 6, 9, 12, 9, 12, 5, 15, 8,
      8, 5, 12, 9, 12, 5, 14, 6, 8, 13, 6, 5, 15, 13, 11, 11]"

definition rotl32 :: "u32 \<Rightarrow> nat \<Rightarrow> u32" where
  "rotl32 x n = push_bit n x OR drop_bit (32 - n) x"

text \<open>One line of the loop body, on \<open>(a, b, c, d, e)\<close>; the left line uses function \<open>j / 16\<close> and the right
  line \<open>4 - j / 16\<close>.\<close>

fun ripemd_line :: "nat \<Rightarrow> u32 \<Rightarrow> u32 \<Rightarrow> nat \<Rightarrow> u32 \<times> u32 \<times> u32 \<times> u32 \<times> u32 \<Rightarrow> u32 \<times> u32 \<times> u32 \<times> u32 \<times> u32" where
  "ripemd_line fn k x s (a, b, c, d, e) =
     (let t = rotl32 (a + ripemd_f fn b c d + x + k) s + e
      in (e, t, b, rotl32 c 10, d))"

text \<open>The 80 steps on one block; the arguments are the words of the block and the two lines.\<close>

definition ripemd_step :: "u32 list \<Rightarrow> (u32 \<times> u32 \<times> u32 \<times> u32 \<times> u32) \<times> (u32 \<times> u32 \<times> u32 \<times> u32 \<times> u32) \<Rightarrow> nat \<Rightarrow>
    (u32 \<times> u32 \<times> u32 \<times> u32 \<times> u32) \<times> (u32 \<times> u32 \<times> u32 \<times> u32 \<times> u32)" where
  "ripemd_step x st j =
     (let fn = j div 16
      in (ripemd_line fn (ripemd_kl ! fn) (x ! (ripemd_rl ! j)) (ripemd_sl ! j) (fst st),
          ripemd_line (4 - fn) (ripemd_kr ! fn) (x ! (ripemd_rr ! j)) (ripemd_sr ! j) (snd st)))"

definition ripemd_block :: "u32 list \<Rightarrow> bytes \<Rightarrow> u32 list" where
  "ripemd_block h blk =
     (let x = map (\<lambda>j. Uint32_LE (drop (4 * j) blk)) [0..<16];
          l = (h ! 0, h ! 1, h ! 2, h ! 3, h ! 4)
      in case foldl (ripemd_step x) (l, l) [0..<80] of
           ((al, bl, cl, dl, el), (ar, br, cr, dr, er)) \<Rightarrow>
             [h ! 1 + cl + dr, h ! 2 + dl + er, h ! 3 + el + ar, h ! 4 + al + br, h ! 0 + bl + cr])"

definition ripemd_pad :: "bytes \<Rightarrow> bytes" where
  "ripemd_pad msg =
     (let mlen = length msg;
          nfull = mlen + 1 + 8;
          nblk = (nfull + 63) div 64
      in msg @ [0x80] @ replicate (nblk * 64 - nfull) 0 @ PutUint64_LE (of_nat mlen * 8))"

definition ripemd160Sum :: "bytes \<Rightarrow> bytes" where
  "ripemd160Sum msg =
     (let buf = ripemd_pad msg;
          h = foldl (\<lambda>h i. ripemd_block h (drop (i * 64) buf)) ripemdIV [0..<length buf div 64]
      in concat (map PutUint32_LE h))"

subsection \<open>BLAKE2b\<close>

definition blakeIV :: "u64 list" where
  "blakeIV =
     [0x6a09e667f3bcc908, 0xbb67ae8584caa73b, 0x3c6ef372fe94f82b, 0xa54ff53a5f1d36f1,
      0x510e527fade682d1, 0x9b05688c2b3e6c1f, 0x1f83d9abfb41bd6b, 0x5be0cd19137e2179]"

definition blakeSigma :: "nat list list" where
  "blakeSigma =
     [[0, 1, 2, 3, 4, 5, 6, 7, 8, 9, 10, 11, 12, 13, 14, 15],
      [14, 10, 4, 8, 9, 15, 13, 6, 1, 12, 0, 2, 11, 7, 5, 3],
      [11, 8, 12, 0, 5, 2, 15, 13, 10, 14, 3, 6, 7, 1, 9, 4],
      [7, 9, 3, 1, 13, 12, 11, 14, 2, 6, 5, 10, 4, 0, 15, 8],
      [9, 0, 5, 7, 2, 4, 10, 15, 14, 1, 11, 12, 6, 8, 3, 13],
      [2, 12, 6, 10, 0, 11, 8, 3, 4, 13, 7, 5, 15, 14, 1, 9],
      [12, 5, 1, 15, 14, 13, 4, 10, 0, 7, 6, 3, 9, 2, 8, 11],
      [13, 11, 7, 14, 12, 1, 3, 9, 5, 0, 15, 4, 8, 6, 2, 10],
      [6, 15, 14, 9, 11, 3, 0, 8, 12, 2, 13, 7, 1, 4, 10, 5],
      [10, 2, 8, 4, 7, 6, 1, 5, 15, 11, 9, 14, 3, 12, 13, 0]]"

definition rotr64 :: "u64 \<Rightarrow> nat \<Rightarrow> u64" where
  "rotr64 x n = drop_bit n x OR push_bit (64 - n) x"

definition blake_g :: "u64 list \<Rightarrow> nat \<Rightarrow> nat \<Rightarrow> nat \<Rightarrow> nat \<Rightarrow> u64 \<Rightarrow> u64 \<Rightarrow> u64 list" where
  "blake_g v a b c d x y =
     (let v = v[a := v ! a + v ! b + x];
          v = v[d := rotr64 (v ! d XOR v ! a) 32];
          v = v[c := v ! c + v ! d];
          v = v[b := rotr64 (v ! b XOR v ! c) 24];
          v = v[a := v ! a + v ! b + y];
          v = v[d := rotr64 (v ! d XOR v ! a) 16];
          v = v[c := v ! c + v ! d]
      in v[b := rotr64 (v ! b XOR v ! c) 63])"

definition blake_round :: "u64 list \<Rightarrow> nat \<Rightarrow> u64 list \<Rightarrow> u64 list" where
  "blake_round m r v =
     (let s = blakeSigma ! (r mod 10);
          v = blake_g v 0 4 8 12 (m ! (s ! 0)) (m ! (s ! 1));
          v = blake_g v 1 5 9 13 (m ! (s ! 2)) (m ! (s ! 3));
          v = blake_g v 2 6 10 14 (m ! (s ! 4)) (m ! (s ! 5));
          v = blake_g v 3 7 11 15 (m ! (s ! 6)) (m ! (s ! 7));
          v = blake_g v 0 5 10 15 (m ! (s ! 8)) (m ! (s ! 9));
          v = blake_g v 1 6 11 12 (m ! (s ! 10)) (m ! (s ! 11));
          v = blake_g v 2 7 8 13 (m ! (s ! 12)) (m ! (s ! 13))
      in blake_g v 3 4 9 14 (m ! (s ! 14)) (m ! (s ! 15)))"

fun blake_rounds :: "nat \<Rightarrow> nat \<Rightarrow> u64 list \<Rightarrow> u64 list \<Rightarrow> u64 list" where
  "blake_rounds 0 r m v = v"
| "blake_rounds (Suc n) r m v = blake_rounds n (Suc r) m (blake_round m r v)"

definition blake2F :: "u64 list \<Rightarrow> u64 list \<Rightarrow> u64 \<Rightarrow> u64 \<Rightarrow> bool \<Rightarrow> u32 \<Rightarrow> u64 list" where
  "blake2F h m t0 t1 f rounds =
     (let v = h @ blakeIV;
          v = v[12 := v ! 12 XOR t0];
          v = v[13 := v ! 13 XOR t1];
          v = (if f then v[14 := NOT (v ! 14)] else v);
          v = blake_rounds (unat rounds) 0 m v
      in map (\<lambda>i. h ! i XOR (v ! i XOR v ! (i + 8))) [0..<8])"

section \<open>Lengths\<close>

lemma length_words [simp]:
  "length (PutUint32_LE x) = 4" "length (PutUint32_BE x) = 4" "length (PutUint64_LE y) = 8"
  by (simp_all add: PutUint32_LE_def PutUint32_BE_def PutUint64_LE_def)

lemma length_concat_const: "(\<And>x. length (f x) = n) \<Longrightarrow> length (concat (map f xs)) = n * length xs"
  by (induction xs) simp_all

lemma length_foldl: "(\<And>h x. length h = n \<Longrightarrow> length (f h x) = n) \<Longrightarrow> length h = n \<Longrightarrow> length (foldl f h xs) = n"
  by (induction xs arbitrary: h) simp_all

lemma length_sha256_round: "length (sha256_round st kw) = length st"
  by (cases "(st, kw)" rule: sha256_round.cases) (simp_all add: Let_def)

lemma length_sha256_block: "length h = n \<Longrightarrow> length (sha256_block h blk) = n"
  by (simp add: sha256_block_def Let_def length_foldl length_sha256_round)

lemma length_sha256 [simp]: "length (sha256_Sum256 msg) = 32"
proof -
  have "length (foldl (\<lambda>h i. sha256_block h (take 64 (drop (64 * i) p))) sha256_IV is) = 8" for p and "is" :: "nat list"
    by (rule length_foldl) (simp_all add: length_sha256_block sha256_IV_def)
  then show ?thesis by (simp add: sha256_Sum256_def Let_def length_concat_const)
qed

lemma length_ripemd_block: "length (ripemd_block h blk) = 5"
  by (simp add: ripemd_block_def Let_def split: prod.splits)

lemma length_ripemd [simp]: "length (ripemd160Sum msg) = 20"
proof -
  have "length (foldl (\<lambda>h i. ripemd_block h (drop (i * 64) p)) ripemdIV is) = 5" for p and "is" :: "nat list"
    by (rule length_foldl) (simp_all add: length_ripemd_block ripemdIV_def)
  then show ?thesis by (simp add: ripemd160Sum_def Let_def length_concat_const)
qed

lemma length_blake2F [simp]: "length (blake2F h m t0 t1 f rounds) = 8"
  by (simp add: blake2F_def Let_def)

text \<open>The padded message is a whole number of blocks, so no block is cut short.\<close>

lemma length_ripemd_pad: "length (ripemd_pad msg) mod 64 = 0" "length msg + 9 \<le> length (ripemd_pad msg)"
proof -
  define n where "n = (length msg + 1 + 8 + 63) div 64"
  have le: "length msg + 9 \<le> n * 64" unfolding n_def by simp
  have "length (ripemd_pad msg) = length msg + 9 + (n * 64 - (length msg + 9))"
    by (simp add: ripemd_pad_def Let_def n_def)
  then have "length (ripemd_pad msg) = n * 64" using le by linarith
  then show "length (ripemd_pad msg) mod 64 = 0" "length msg + 9 \<le> length (ripemd_pad msg)" using le by simp_all
qed

end
