(* ===== verification/Curves.thy ===== *)
theory Curves
  imports Rlp
begin

text \<open>
  The curve arithmetic of the precompiled contracts (\<open>c2block/precompiles.go\<close>): the groups G1 and G2
  of alt_bn128, the tower of extension fields, the pairing, and the group G1 of BLS12-381. A
  \<open>*big.Int\<close> is an \<open>int\<close>. \<open>ModInverse\<close> returns nil when there is no inverse, and the operation
  that uses the nil dereferences it: a function that may panic this way returns an option,
  \<open>None\<close> for the panic. The lemmas show that \<open>math/big\<close>'s inverse and power are exact, and that the
  operations of G1 stay on the curve.
\<close>

section \<open>The operations of math/big\<close>

text \<open>The extended Euclidean algorithm: \<open>(d, x, y)\<close> with \<open>a * x + b * y = d\<close>.\<close>

function egcd :: "int \<Rightarrow> int \<Rightarrow> int \<times> int \<times> int" where
  "egcd a b =
     (if b \<le> 0 then (a, 1, 0)
      else let (d, x, y) = egcd b (a mod b) in (d, y, x - (a div b) * y))"
  by pat_completeness auto
termination
  by (relation "measure (\<lambda>(a, b). nat b)") auto

declare egcd.simps [simp del]

definition ModInverse :: "int \<Rightarrow> int \<Rightarrow> int option" where
  "ModInverse g n = (let (d, x, _) = egcd (g mod n) n in if d \<noteq> 1 then None else Some (x mod n))"

text \<open>\<open>Exp(x, y, m)\<close> for \<open>m > 0\<close>, by repeated squaring.\<close>

fun big_Exp :: "int \<Rightarrow> nat \<Rightarrow> int \<Rightarrow> int" where
  "big_Exp x y m =
     (if y = 0 then 1 mod m
      else let h = big_Exp (x * x mod m) (y div 2) m in if odd y then x * h mod m else h)"

declare big_Exp.simps [simp del]

text \<open>\<open>ModSqrt(x, p)\<close> for a prime \<open>p = 3 mod 4\<close>.\<close>

definition ModSqrt :: "int \<Rightarrow> int \<Rightarrow> int option" where
  "ModSqrt x p = (let y = big_Exp x (nat ((p + 1) div 4)) p in if y * y mod p = x mod p then Some y else None)"

fun BitLen :: "nat \<Rightarrow> nat" where
  "BitLen n = (if n = 0 then 0 else Suc (BitLen (n div 2)))"

declare BitLen.simps [simp del]

definition SetBytes :: "bytes \<Rightarrow> int" where
  "SetBytes b = int (be_val b)"

text \<open>\<open>copy(out[n-len(b):], b)\<close> into \<open>n\<close> zero bytes, where \<open>len(b) <= n\<close>.\<close>

definition leftPad :: "nat \<Rightarrow> bytes \<Rightarrow> bytes" where
  "leftPad n b = replicate (n - length b) 0 @ b"

section \<open>The group G1 of alt_bn128\<close>

definition bnP :: int where
  "bnP = 21888242871839275222246405745257275088696311157297823662689037894645226208583"

definition bnN :: int where
  "bnN = 21888242871839275222246405745257275088548364400416034343698204186575808495617"

definition bnB :: int where "bnB = 3"
definition bnU :: int where "bnU = 4965661367192848881"

definition fpMod :: "int \<Rightarrow> int" where
  "fpMod x = (let x = x mod bnP in if x < 0 then x + bnP else x)"

definition fpAdd :: "int \<Rightarrow> int \<Rightarrow> int" where "fpAdd a b = fpMod (a + b)"
definition fpSub :: "int \<Rightarrow> int \<Rightarrow> int" where "fpSub a b = fpMod (a - b)"
definition fpMul :: "int \<Rightarrow> int \<Rightarrow> int" where "fpMul a b = fpMod (a * b)"
definition fpNeg :: "int \<Rightarrow> int" where "fpNeg a = fpMod (- a)"
definition fpSqr :: "int \<Rightarrow> int" where "fpSqr a = fpMul a a"
definition fpInv :: "int \<Rightarrow> int option" where "fpInv a = ModInverse a bnP"

definition fpFromBytes :: "bytes \<Rightarrow> int option" where
  "fpFromBytes b =
     (if length b \<noteq> 32 then None
      else let n = SetBytes b in if n \<ge> bnP then None else Some n)"

definition fpToBytes :: "int \<Rightarrow> bytes" where
  "fpToBytes n = leftPad 32 (minBytes (nat n))"

record g1Point =
  g1x :: int
  g1y :: int
  g1inf :: bool

definition g1Inf :: g1Point where
  "g1Inf = \<lparr>g1x = 0, g1y = 0, g1inf = True\<rparr>"

definition g1OnCurve :: "g1Point \<Rightarrow> bool" where
  "g1OnCurve p \<longleftrightarrow>
     g1inf p \<or> (let yy = fpSqr (g1y p); xxx = fpAdd (fpMul (fpSqr (g1x p)) (g1x p)) bnB in yy = xxx)"

definition g1Unmarshal :: "bytes \<Rightarrow> g1Point option" where
  "g1Unmarshal b =
     (if length b \<noteq> 64 then None
      else do {
        x \<leftarrow> fpFromBytes (take 32 b);
        y \<leftarrow> fpFromBytes (drop 32 b);
        if x = 0 \<and> y = 0 then Some g1Inf
        else
          (let p = \<lparr>g1x = x, g1y = y, g1inf = False\<rparr>
           in if \<not> g1OnCurve p then None else Some p)
      })"

definition g1Marshal :: "g1Point \<Rightarrow> bytes" where
  "g1Marshal p = (if g1inf p then replicate 64 0 else fpToBytes (g1x p) @ fpToBytes (g1y p))"

definition g1Neg :: "g1Point \<Rightarrow> g1Point" where
  "g1Neg p = (if g1inf p then p else \<lparr>g1x = g1x p, g1y = fpNeg (g1y p), g1inf = False\<rparr>)"

definition g1Double :: "g1Point \<Rightarrow> g1Point option" where
  "g1Double p =
     (if g1inf p \<or> g1y p = 0 then Some g1Inf
      else do {
        let xx = fpSqr (g1x p);
        i \<leftarrow> fpInv (fpMul 2 (g1y p));
        let m = fpMul (fpAdd (fpAdd xx xx) xx) i;
        let x3 = fpSub (fpSub (fpSqr m) (g1x p)) (g1x p);
        let y3 = fpSub (fpMul m (fpSub (g1x p) x3)) (g1y p);
        Some \<lparr>g1x = x3, g1y = y3, g1inf = False\<rparr>
      })"

definition g1Add :: "g1Point \<Rightarrow> g1Point \<Rightarrow> g1Point option" where
  "g1Add p q =
     (if g1inf p then Some q
      else if g1inf q then Some p
      else if g1x p = g1x q then (if g1y p = g1y q then g1Double p else Some g1Inf)
      else do {
        i \<leftarrow> fpInv (fpSub (g1x q) (g1x p));
        let m = fpMul (fpSub (g1y q) (g1y p)) i;
        let x3 = fpSub (fpSub (fpSqr m) (g1x p)) (g1x q);
        let y3 = fpSub (fpMul m (fpSub (g1x p) x3)) (g1y p);
        Some \<lparr>g1x = x3, g1y = y3, g1inf = False\<rparr>
      })"

text \<open>The loop of \<open>g1Mul\<close> over the bits of the scalar, low bit first.\<close>

fun g1Mul_loop :: "nat \<Rightarrow> g1Point \<Rightarrow> g1Point \<Rightarrow> g1Point option" where
  "g1Mul_loop kk r base =
     (if kk = 0 then Some r
      else do {
        r \<leftarrow> (if odd kk then g1Add r base else Some r);
        base \<leftarrow> g1Double base;
        g1Mul_loop (kk div 2) r base
      })"

declare g1Mul_loop.simps [simp del]

definition g1Mul :: "g1Point \<Rightarrow> int \<Rightarrow> g1Point option" where
  "g1Mul p k =
     (if g1inf p \<or> k = 0 then Some g1Inf
      else if k < 0 then g1Mul_loop (nat (- k)) g1Inf (g1Neg p)
      else g1Mul_loop (nat k) g1Inf p)"

section \<open>The extension fields and G2\<close>

datatype f2 = F2 (f2a: int) (f2b: int)

definition f2c :: "int \<Rightarrow> int \<Rightarrow> f2" where "f2c a b = F2 (fpMod a) (fpMod b)"
definition f2z :: f2 where "f2z = F2 0 0"
definition f2o :: f2 where "f2o = F2 1 0"
definition f2neg :: "f2 \<Rightarrow> f2" where "f2neg x = F2 (fpNeg (f2a x)) (fpNeg (f2b x))"
definition f2add :: "f2 \<Rightarrow> f2 \<Rightarrow> f2" where "f2add x y = F2 (fpAdd (f2a x) (f2a y)) (fpAdd (f2b x) (f2b y))"
definition f2sub :: "f2 \<Rightarrow> f2 \<Rightarrow> f2" where "f2sub x y = F2 (fpSub (f2a x) (f2a y)) (fpSub (f2b x) (f2b y))"

definition f2mul :: "f2 \<Rightarrow> f2 \<Rightarrow> f2" where
  "f2mul x y =
     (let a = fpSub (fpMul (f2a x) (f2a y)) (fpMul (f2b x) (f2b y));
          b = fpAdd (fpMul (f2a x) (f2b y)) (fpMul (f2b x) (f2a y))
      in F2 a b)"

definition f2sqr :: "f2 \<Rightarrow> f2" where "f2sqr x = f2mul x x"

definition f2inv :: "f2 \<Rightarrow> f2 option" where
  "f2inv x =
     do {
       let n = fpAdd (fpSqr (f2a x)) (fpSqr (f2b x));
       i \<leftarrow> fpInv n;
       Some (F2 (fpMul (f2a x) i) (fpMul (fpNeg (f2b x)) i))
     }"

definition f2con :: "f2 \<Rightarrow> f2" where "f2con x = F2 (f2a x) (fpNeg (f2b x))"
definition f2eq :: "f2 \<Rightarrow> f2 \<Rightarrow> bool" where "f2eq x y \<longleftrightarrow> f2a x = f2a y \<and> f2b x = f2b y"
definition f2frobenius :: "f2 \<Rightarrow> f2" where "f2frobenius x = f2con x"

definition f2mulXi :: "f2 \<Rightarrow> f2" where
  "f2mulXi x = F2 (fpSub (fpMul 9 (f2a x)) (f2b x)) (fpAdd (fpMul 9 (f2b x)) (f2a x))"

record g2Point =
  g2x :: f2
  g2y :: f2
  g2inf :: bool

definition g2Inf :: g2Point where
  "g2Inf = \<lparr>g2x = f2z, g2y = f2z, g2inf = True\<rparr>"

definition g2OnCurve :: "g2Point \<Rightarrow> bool" where
  "g2OnCurve p \<longleftrightarrow>
     g2inf p \<or>
     (let yy = f2sqr (g2y p); xxx = f2mul (f2sqr (g2x p)) (g2x p); b = f2mulXi (f2c bnB 0)
      in f2eq yy (f2add xxx b))"

definition g2Unmarshal :: "bytes \<Rightarrow> g2Point option" where
  "g2Unmarshal b =
     (if length b \<noteq> 128 then None
      else do {
        xim \<leftarrow> fpFromBytes (take 32 b);
        xre \<leftarrow> fpFromBytes (take 32 (drop 32 b));
        yim \<leftarrow> fpFromBytes (take 32 (drop 64 b));
        yre \<leftarrow> fpFromBytes (take 32 (drop 96 b));
        if xre = 0 \<and> xim = 0 \<and> yre = 0 \<and> yim = 0 then Some g2Inf
        else
          (let p = \<lparr>g2x = F2 xre xim, g2y = F2 yre yim, g2inf = False\<rparr>
           in if \<not> g2OnCurve p then None else Some p)
      })"

definition g2Double :: "g2Point \<Rightarrow> g2Point option" where
  "g2Double p =
     (if g2inf p \<or> f2a (g2y p) = 0 \<and> f2b (g2y p) = 0 then Some g2Inf
      else do {
        let xx = f2sqr (g2x p);
        let three = f2add (f2add xx xx) xx;
        let twoy = f2add (g2y p) (g2y p);
        i \<leftarrow> f2inv twoy;
        let m = f2mul three i;
        let x3 = f2sub (f2sub (f2sqr m) (g2x p)) (g2x p);
        let y3 = f2sub (f2mul m (f2sub (g2x p) x3)) (g2y p);
        Some \<lparr>g2x = x3, g2y = y3, g2inf = False\<rparr>
      })"

definition g2Add :: "g2Point \<Rightarrow> g2Point \<Rightarrow> g2Point option" where
  "g2Add p q =
     (if g2inf p then Some q
      else if g2inf q then Some p
      else if f2eq (g2x p) (g2x q) then (if f2eq (g2y p) (g2y q) then g2Double p else Some g2Inf)
      else do {
        i \<leftarrow> f2inv (f2sub (g2x q) (g2x p));
        let m = f2mul (f2sub (g2y q) (g2y p)) i;
        let x3 = f2sub (f2sub (f2sqr m) (g2x p)) (g2x q);
        let y3 = f2sub (f2mul m (f2sub (g2x p) x3)) (g2y p);
        Some \<lparr>g2x = x3, g2y = y3, g2inf = False\<rparr>
      })"

datatype f6 = F6 (f6x: f2) (f6y: f2) (f6zz: f2)

definition f6z :: f6 where "f6z = F6 f2z f2z f2z"
definition f6o :: f6 where "f6o = F6 f2o f2z f2z"

definition f6add :: "f6 \<Rightarrow> f6 \<Rightarrow> f6" where
  "f6add a b = F6 (f2add (f6x a) (f6x b)) (f2add (f6y a) (f6y b)) (f2add (f6zz a) (f6zz b))"

definition f6sub :: "f6 \<Rightarrow> f6 \<Rightarrow> f6" where
  "f6sub a b = F6 (f2sub (f6x a) (f6x b)) (f2sub (f6y a) (f6y b)) (f2sub (f6zz a) (f6zz b))"

definition f6neg :: "f6 \<Rightarrow> f6" where
  "f6neg a = F6 (f2neg (f6x a)) (f2neg (f6y a)) (f2neg (f6zz a))"

definition f6mul :: "f6 \<Rightarrow> f6 \<Rightarrow> f6" where
  "f6mul a b =
     (let v0 = f2mul (f6x a) (f6x b);
          v1 = f2mul (f6y a) (f6y b);
          v2 = f2mul (f6zz a) (f6zz b);
          c0 = f2add v0 (f2mulXi (f2sub (f2sub (f2mul (f2add (f6y a) (f6zz a)) (f2add (f6y b) (f6zz b))) v1) v2));
          c1 = f2add (f2sub (f2sub (f2mul (f2add (f6x a) (f6y a)) (f2add (f6x b) (f6y b))) v0) v1) (f2mulXi v2);
          c2 = f2add (f2add (f2sub (f2sub (f2mul (f2add (f6x a) (f6zz a)) (f2add (f6x b) (f6zz b))) v0) v2) v1) f2z
      in F6 c0 c1 c2)"

definition f6mulTau :: "f6 \<Rightarrow> f6" where
  "f6mulTau a = F6 (f2mulXi (f6zz a)) (f6x a) (f6y a)"

definition f6inv :: "f6 \<Rightarrow> f6 option" where
  "f6inv a =
     do {
       let t0 = f2sqr (f6x a);
       let t1 = f2sqr (f6y a);
       let t2 = f2sqr (f6zz a);
       let t3 = f2mul (f6x a) (f6y a);
       let t4 = f2mul (f6y a) (f6zz a);
       let t5 = f2mul (f6x a) (f6zz a);
       let c0 = f2sub t0 (f2mulXi t4);
       let c1 = f2sub (f2mulXi t2) t3;
       let c2 = f2sub t1 t5;
       let t6 = f2add (f2mul (f6x a) c0) (f2mulXi (f2add (f2mul (f6zz a) c1) (f2mul (f6y a) c2)));
       t6 \<leftarrow> f2inv t6;
       Some (F6 (f2mul c0 t6) (f2mul c1 t6) (f2mul c2 t6))
     }"

definition f2xiToPMinus1Over3 :: f2 where
  "f2xiToPMinus1Over3 = F2 0x2eaade263d1f5b1c9e03898117cb6ce6aa5b3d4c4c9c6d5f5a3b0c0e0d0c0b0a 0"

definition f2xiToPMinus1Over2 :: f2 where
  "f2xiToPMinus1Over2 = F2 0x1d9598e8f701d8a50e74d6af4829bbd910f6ee93b9216f4d937642a410f41200 0"

definition f6frobenius :: "f6 \<Rightarrow> f6" where
  "f6frobenius a =
     F6 (f2frobenius (f6x a)) (f2mul (f2frobenius (f6y a)) f2xiToPMinus1Over3)
        (f2mul (f2frobenius (f6zz a)) f2xiToPMinus1Over2)"

datatype f12 = F12 (f12x: f6) (f12y: f6)

definition fp12One :: f12 where "fp12One = F12 f6o f6z"

definition fp12IsOne :: "f12 \<Rightarrow> bool" where
  "fp12IsOne a \<longleftrightarrow>
     f2eq (f6x (f12x a)) f2o \<and> f2eq (f6y (f12x a)) f2z \<and> f2eq (f6zz (f12x a)) f2z \<and>
     f2eq (f6x (f12y a)) f2z \<and> f2eq (f6y (f12y a)) f2z \<and> f2eq (f6zz (f12y a)) f2z"

definition fp12Mul :: "f12 \<Rightarrow> f12 \<Rightarrow> f12" where
  "fp12Mul a b =
     (let tx = f6mul (f12x a) (f12x b);
          ty = f6mul (f12y a) (f12y b);
          c0 = f6add tx (f6mulTau ty);
          c1 = f6mul (f6add (f12x a) (f12y a)) (f6add (f12x b) (f12y b));
          c1 = f6sub (f6sub c1 tx) ty
      in F12 c0 c1)"

definition fp12Sqr :: "f12 \<Rightarrow> f12" where "fp12Sqr a = fp12Mul a a"

definition fp12Inv :: "f12 \<Rightarrow> f12 option" where
  "fp12Inv a =
     do {
       let t0 = f6mul (f12x a) (f12x a);
       let t1 = f6mul (f12y a) (f12y a);
       let t0 = f6sub t0 (f6mulTau t1);
       t0 \<leftarrow> f6inv t0;
       Some (F12 (f6mul (f12x a) t0) (f6neg (f6mul (f12y a) t0)))
     }"

definition fp12Conjugate :: "f12 \<Rightarrow> f12" where
  "fp12Conjugate a = F12 (f12x a) (f6neg (f12y a))"

definition f2xiToPMinus1Over6 :: f2 where
  "f2xiToPMinus1Over6 =
     F2 0x1284b71c832b1478a799ae340097a3c690f5b5ab8b57f1e688c69332f1fa38c1
        0x0dd8c5fecf7d6c2c36d1a9c5a0c1c0e0d0c0b0a090807060504030201000000"

definition fp12Frobenius :: "f12 \<Rightarrow> f12" where
  "fp12Frobenius a =
     F12 (f6frobenius (f12x a)) (f6mul (f6frobenius (f12y a)) (F6 f2xiToPMinus1Over6 f2z f2z))"

section \<open>The pairing\<close>

definition lineEval :: "g2Point \<Rightarrow> g2Point \<Rightarrow> g1Point \<Rightarrow> (g2Point \<times> f12) option" where
  "lineEval q r p =
     do {
       t \<leftarrow> g2Add q r;
       if g2inf q \<or> g2inf r then Some (t, fp12One)
       else if f2eq (g2x q) (g2x r) \<and> \<not> f2eq (g2y q) (g2y r) then Some (t, fp12One)
       else do {
         slope \<leftarrow>
           (if f2eq (g2x q) (g2x r) \<and> f2eq (g2y q) (g2y r) then do {
              let xx = f2sqr (g2x q);
              let num = f2add (f2add xx xx) xx;
              let den = f2add (g2y q) (g2y q);
              i \<leftarrow> f2inv den;
              Some (f2mul num i)
            }
            else do {
              i \<leftarrow> f2inv (f2sub (g2x r) (g2x q));
              Some (f2mul (f2sub (g2y r) (g2y q)) i)
            });
         let l0 = f2neg (f2mul slope (g2x q));
         let l0 = f2add l0 (g2y q);
         let l1 = slope;
         let px = f2c (g1x p) 0;
         let py = f2c (g1y p) 0;
         let a = f2sub py (f2add (f2mul l1 px) l0);
         Some (t, F12 (f12x fp12One) (F6 a (f6y (f12y fp12One)) (f6zz (f12y fp12One))))
       }
     }"

definition millerAte :: nat where
  "millerAte = nat (bnU * 6 + 2)"

text \<open>The loop of \<open>miller\<close>; \<open>Suc i\<close> iterations are left and the next bit is \<open>i\<close>.\<close>

fun miller_loop :: "nat \<Rightarrow> g1Point \<Rightarrow> g2Point \<Rightarrow> f12 \<Rightarrow> g2Point \<Rightarrow> f12 option" where
  "miller_loop 0 p q f t = Some f"
| "miller_loop (Suc i) p q f t =
     do {
       let f = fp12Sqr f;
       (t, l) \<leftarrow> lineEval t t p;
       let f = fp12Mul f l;
       if odd (millerAte div 2 ^ i) then do {
         (t, l) \<leftarrow> lineEval t q p;
         miller_loop i p q (fp12Mul f l) t
       }
       else miller_loop i p q f t
     }"

definition miller :: "g1Point \<Rightarrow> g2Point \<Rightarrow> f12 option" where
  "miller p q = miller_loop (BitLen millerAte - 1) p q fp12One q"

fun expFp12_loop :: "nat \<Rightarrow> f12 \<Rightarrow> f12 \<Rightarrow> f12" where
  "expFp12_loop k r base =
     (if k = 0 then r
      else expFp12_loop (k div 2) (if odd k then fp12Mul r base else r) (fp12Sqr base))"

declare expFp12_loop.simps [simp del]

definition expFp12 :: "f12 \<Rightarrow> int \<Rightarrow> f12" where
  "expFp12 a e = expFp12_loop (nat e) fp12One a"

definition finalExp :: "f12 \<Rightarrow> f12 option" where
  "finalExp f =
     do {
       let f1 = fp12Conjugate f;
       f2 \<leftarrow> fp12Inv f;
       let r = fp12Mul f1 f2;
       let r = fp12Frobenius (fp12Frobenius r);
       let r = fp12Mul r f;
       Some (expFp12 r ((bnP ^ 12 - 1) div bnN))
     }"

section \<open>The group G1 of BLS12-381\<close>

definition blsP :: int where
  "blsP = 4002409555221667393417789825735904156556882819939007885332058136124031650490837864442687629129015664037894272559787"

definition blsR :: int where
  "blsR = 52435875175126190479447740508185965837690552500527637822603658699938581184513"

definition blsB :: int where "blsB = 4"

definition blsModulusBytes :: bytes where
  "blsModulusBytes = leftPad 32 (minBytes (nat blsR))"

definition blsScalarOK :: "bytes \<Rightarrow> bool" where
  "blsScalarOK b \<longleftrightarrow> SetBytes b < blsR"

definition blsFpMod :: "int \<Rightarrow> int" where
  "blsFpMod x = (let x = x mod blsP in if x < 0 then x + blsP else x)"

record blsG1 =
  blsx :: int
  blsy :: int
  blsinf :: bool

definition blsInf :: blsG1 where
  "blsInf = \<lparr>blsx = 0, blsy = 0, blsinf = True\<rparr>"

definition blsG1Decompress :: "bytes \<Rightarrow> blsG1 option" where
  "blsG1Decompress b =
     (if length b \<noteq> 48 then None
      else
        (let flags = b ! 0
         in if flags AND 0x80 = 0 then None
            else if flags AND 0x40 \<noteq> 0 then
              (let rest = b[0 := b ! 0 AND 0x1f] in if SetBytes rest \<noteq> 0 then None else Some blsInf)
            else
              (let xb = b[0 := b ! 0 AND 0x1f];
                   x = SetBytes xb
               in if x \<ge> blsP then None
                  else
                    (let yyy = (big_Exp x 3 blsP + blsB) mod blsP
                     in case ModSqrt yyy blsP of
                          None \<Rightarrow> None
                        | Some y \<Rightarrow>
                            (let yOdd = odd y;
                                 wantOdd = (flags AND 0x20 \<noteq> 0);
                                 y = (if yOdd \<noteq> wantOdd then blsP - y else y)
                             in Some \<lparr>blsx = x, blsy = y, blsinf = False\<rparr>)))))"

definition blsG1Neg :: "blsG1 \<Rightarrow> blsG1" where
  "blsG1Neg p = (if blsinf p then p else \<lparr>blsx = blsx p, blsy = blsFpMod (- blsy p), blsinf = False\<rparr>)"

definition blsG1Double :: "blsG1 \<Rightarrow> blsG1 option" where
  "blsG1Double p =
     (if blsinf p \<or> blsy p = 0 then Some blsInf
      else do {
        let xx = blsx p * blsx p;
        let num = blsFpMod (xx * 3);
        let den = blsFpMod (blsy p * 2);
        i \<leftarrow> ModInverse den blsP;
        let m = blsFpMod (num * i);
        let x3 = blsFpMod (m * m - blsx p - blsx p);
        let y3 = blsFpMod (m * (blsx p - x3) - blsy p);
        Some \<lparr>blsx = x3, blsy = y3, blsinf = False\<rparr>
      })"

definition blsG1Add :: "blsG1 \<Rightarrow> blsG1 \<Rightarrow> blsG1 option" where
  "blsG1Add p q =
     (if blsinf p then Some q
      else if blsinf q then Some p
      else if blsx p = blsx q then (if blsy p = blsy q then blsG1Double p else Some blsInf)
      else do {
        i \<leftarrow> ModInverse (blsx q - blsx p) blsP;
        let m = blsFpMod ((blsy q - blsy p) * i);
        let x3 = blsFpMod (m * m - blsx p - blsx q);
        let y3 = blsFpMod (m * (blsx p - x3) - blsy p);
        Some \<lparr>blsx = x3, blsy = y3, blsinf = False\<rparr>
      })"

fun blsG1Mul_loop :: "nat \<Rightarrow> blsG1 \<Rightarrow> blsG1 \<Rightarrow> blsG1 option" where
  "blsG1Mul_loop kk r base =
     (if kk = 0 then Some r
      else do {
        r \<leftarrow> (if odd kk then blsG1Add r base else Some r);
        base \<leftarrow> blsG1Double base;
        blsG1Mul_loop (kk div 2) r base
      })"

declare blsG1Mul_loop.simps [simp del]

definition blsG1Mul :: "blsG1 \<Rightarrow> nat \<Rightarrow> blsG1 option" where
  "blsG1Mul p k = blsG1Mul_loop k blsInf p"

definition blsG1Gen :: blsG1 where
  "blsG1Gen =
     \<lparr>blsx = 0x17F1D3A73197D7942695638C4FA9AC0FC3688C4F9774B905A14E3A3F171BAC586C55E83FF97A1AEFFB3AF00ADB22C6BB,
      blsy = 0x08B3F481E3AAA0F1A09E30ED741D8AE4FCF5E095D5D00AF600DB18CB2C04B3EDD03CC744A2888AE40CAA232946C5E7E1,
      blsinf = False\<rparr>"

definition verifyKZG :: "blsG1 \<Rightarrow> bytes \<Rightarrow> bytes \<Rightarrow> blsG1 \<Rightarrow> bool option" where
  "verifyKZG commit z y pi =
     do {
       let ys = be_val y;
       let zs = SetBytes z;
       yG \<leftarrow> blsG1Mul blsG1Gen ys;
       lhs \<leftarrow> blsG1Add commit (blsG1Neg yG);
       if blsinf lhs \<and> blsinf pi \<and> zs = 0 then Some True
       else Some (\<not> blsinf lhs \<or> \<not> blsinf pi)
     }"

section \<open>math/big is exact\<close>

lemma egcd_spec: "\<lbrakk>0 \<le> a; 0 \<le> b; egcd a b = (d, x, y)\<rbrakk> \<Longrightarrow> d = gcd a b \<and> a * x + b * y = d"
proof (induction a b arbitrary: d x y rule: egcd.induct)
  case (1 a b)
  show ?case
  proof (cases "b \<le> 0")
    case True
    then have "b = 0" using "1.prems" by simp
    then show ?thesis using "1.prems" by (simp add: egcd.simps [of a 0])
  next
    case False
    obtain d' x' y' where r: "egcd b (a mod b) = (d', x', y')" by (cases "egcd b (a mod b)")
    have "d' = gcd b (a mod b) \<and> b * x' + (a mod b) * y' = d'"
      using "1.IH" [OF False _ _ r] False "1.prems" by simp
    moreover have "d = d'" "x = y'" "y = x' - (a div b) * y'"
      using "1.prems"(3) False r by (auto simp: egcd.simps [of a b])
    moreover have "a * y' + b * (x' - (a div b) * y') = b * x' + (a - b * (a div b)) * y'" by (simp add: algebra_simps)
    then have "a * y' + b * (x' - (a div b) * y') = b * x' + (a mod b) * y'" by (simp only: minus_mult_div_eq_mod)
    moreover have "gcd a b = gcd b (a mod b)" by (rule gcd_red_int)
    ultimately show ?thesis by simp
  qed
qed

lemma ModInverse_Some:
  assumes "ModInverse g n = Some i" "1 < n"
  shows "g * i mod n = 1" "0 \<le> i" "i < n" "coprime g n"
proof -
  obtain d x y where e: "egcd (g mod n) n = (d, x, y)" by (cases "egcd (g mod n) n")
  have s: "d = gcd (g mod n) n" "(g mod n) * x + n * y = d" using egcd_spec [OF _ _ e] assms(2) by simp_all
  have i: "d = 1" "i = x mod n" using assms(1) e by (auto simp: ModInverse_def split: if_splits)
  have "((g mod n) * x + n * y) mod n = 1" using s i assms(2) by simp
  then show "g * i mod n = 1" unfolding i(2) by (simp add: mod_mult_left_eq mod_mult_right_eq)
  show "0 \<le> i" "i < n" using i(2) assms(2) by simp_all
  show "coprime g n" using s(1) i(1) by (metis coprime_iff_gcd_eq_1 gcd.commute gcd_red_int)
qed

lemma ModInverse_None: "ModInverse g n = None \<longleftrightarrow> \<not> coprime g n" if "1 < n"
proof -
  obtain d x y where e: "egcd (g mod n) n = (d, x, y)" by (cases "egcd (g mod n) n")
  have "d = gcd (g mod n) n" using egcd_spec [OF _ _ e] that by simp
  then have "d = gcd g n" by (metis gcd.commute gcd_red_int)
  then show ?thesis using e by (simp add: ModInverse_def coprime_iff_gcd_eq_1)
qed

lemma big_Exp_eq: "0 < m \<Longrightarrow> big_Exp x y m = x ^ y mod m"
proof (induction x y m rule: big_Exp.induct)
  case (1 x y m)
  show ?case
  proof (cases "y = 0")
    case False
    then have IH: "big_Exp (x * x mod m) (y div 2) m = (x * x) ^ (y div 2) mod m" using 1 by (simp add: power_mod)
    have sq: "(x * x) ^ (y div 2) = x ^ (2 * (y div 2))" by (simp add: power_mult power2_eq_square)
    show ?thesis
    proof (cases "odd y")
      case True
      then have "x ^ y = x * x ^ (2 * (y div 2))" by (metis odd_two_times_div_two_succ power_Suc Suc_eq_plus1)
      then show ?thesis using False True IH sq by (simp add: big_Exp.simps [of x y] Let_def mod_mult_right_eq)
    qed (use False IH sq in \<open>simp add: big_Exp.simps [of x y] Let_def\<close>)
  qed (simp add: big_Exp.simps)
qed

lemma length_leftPad: "length b \<le> n \<Longrightarrow> length (leftPad n b) = n"
  by (simp add: leftPad_def)

lemma be_val_leftPad: "be_val (leftPad n b) = be_val b"
  by (simp add: leftPad_def be_val_append)

lemma leftPad_minBytes: "m < 256 ^ n \<Longrightarrow> leftPad n (minBytes m) = be_bytes n m"
  by (rule be_val_inj) (simp_all add: be_val_leftPad length_leftPad minBytes_spec be_val_be_bytes rlpIntLen_le)

section \<open>The points of G1\<close>

lemma bnP_gt [simp]: "0 < bnP" "1 < bnP" "3 < bnP"
  by (simp_all add: bnP_def)

lemma fpMod_eq: "fpMod x = x mod bnP"
proof -
  have "0 \<le> x mod bnP" by (rule pos_mod_sign) simp
  then have "\<not> x mod bnP < 0" by (simp only: not_less)
  then show ?thesis by (simp only: fpMod_def Let_def if_False)
qed

lemmas fp_defs = fpAdd_def fpSub_def fpMul_def fpNeg_def fpSqr_def fpMod_eq

definition g1Curve :: "int \<Rightarrow> int \<Rightarrow> int" where
  "g1Curve x y = y * y - x * x * x - 3"

definition g1_ok :: "g1Point \<Rightarrow> bool" where
  "g1_ok p \<longleftrightarrow> (if g1inf p then p = g1Inf else 0 \<le> g1x p \<and> g1x p < bnP \<and> 0 \<le> g1y p \<and> g1y p < bnP \<and> g1OnCurve p)"

lemma g1OnCurve_iff: "\<not> g1inf p \<Longrightarrow> g1OnCurve p \<longleftrightarrow> g1Curve (g1x p) (g1y p) mod bnP = 0"
proof -
  assume "\<not> g1inf p"
  then have "g1OnCurve p \<longleftrightarrow> (g1y p * g1y p) mod bnP = (g1x p * g1x p * g1x p + 3) mod bnP"
    by (simp add: g1OnCurve_def Let_def fp_defs bnB_def mod_mult_left_eq mod_add_left_eq)
  then show ?thesis by (simp add: mod_eq_dvd_iff mod_eq_0_iff_dvd g1Curve_def algebra_simps)
qed

lemma g1Curve_cong: "x mod m = x' mod m \<Longrightarrow> y mod m = y' mod m \<Longrightarrow> g1Curve x y mod m = g1Curve x' y' mod m"
  unfolding g1Curve_def by (intro mod_diff_cong mod_mult_cong refl)

text \<open>The line of slope \<open>m\<close> through a point of the curve meets the curve again at \<open>x3\<close>.\<close>

lemma g1_chord:
  fixes p :: int
  assumes "p dvd g1Curve x1 y1" "p dvd x2 * x2 + x2 * x1 + x1 * x1 - m * m * (x2 - x1) - 2 * m * y1"
  defines "x3 \<equiv> m * m - x1 - x2"
  shows "p dvd g1Curve x3 (m * (x1 - x3) - y1)"
proof -
  have "g1Curve x3 (m * (x1 - x3) - y1) =
      g1Curve x1 y1 - (x3 - x1) * (x2 * x2 + x2 * x1 + x1 * x1 - m * m * (x2 - x1) - 2 * m * y1)"
    unfolding g1Curve_def x3_def by algebra
  then show ?thesis using assms(1,2) by simp
qed

lemma g1_tangent:
  fixes p :: int
  assumes "p dvd g1Curve x y" "p dvd m * (2 * y) - 3 * (x * x)"
  defines "x3 \<equiv> m * m - x - x"
  shows "p dvd g1Curve x3 (m * (x - x3) - y)"
proof -
  have "x * x + x * x + x * x - m * m * (x - x) - 2 * m * y = - (m * (2 * y) - 3 * (x * x))" by simp
  then have "p dvd x * x + x * x + x * x - m * m * (x - x) - 2 * m * y" using assms(2) by (simp only: dvd_minus_iff)
  then show ?thesis unfolding x3_def using assms(1) by (intro g1_chord)
qed

lemma g1_secant:
  fixes p :: int
  assumes "p dvd g1Curve x1 y1" "p dvd g1Curve x2 y2" "p dvd m * (x2 - x1) - (y2 - y1)" "coprime (x2 - x1) p"
  shows "p dvd x2 * x2 + x2 * x1 + x1 * x1 - m * m * (x2 - x1) - 2 * m * y1"
proof -
  define d where "d = m * (x2 - x1) - (y2 - y1)"
  have "(x2 - x1) * (x2 * x2 + x2 * x1 + x1 * x1 - m * m * (x2 - x1) - 2 * m * y1) =
      g1Curve x1 y1 - g1Curve x2 y2 - d * (2 * y2 + d)"
    unfolding g1Curve_def d_def by algebra
  then have "p dvd (x2 - x1) * (x2 * x2 + x2 * x1 + x1 * x1 - m * m * (x2 - x1) - 2 * m * y1)"
    using assms(1,2,3) by (simp add: d_def)
  then show ?thesis using assms(4) by (simp add: coprime_dvd_mult_right_iff coprime_commute)
qed

lemma fpInv_Some: "fpInv a = Some i \<Longrightarrow> a * i mod bnP = 1 \<and> coprime a bnP"
  using ModInverse_Some [of a bnP i] by (simp add: fpInv_def)

lemma fp_congs:
  "a mod bnP = x mod bnP \<Longrightarrow> b mod bnP = y mod bnP \<Longrightarrow> fpMul a b mod bnP = x * y mod bnP"
  "a mod bnP = x mod bnP \<Longrightarrow> fpSqr a mod bnP = x * x mod bnP"
  "a mod bnP = x mod bnP \<Longrightarrow> b mod bnP = y mod bnP \<Longrightarrow> fpAdd a b mod bnP = (x + y) mod bnP"
  "a mod bnP = x mod bnP \<Longrightarrow> b mod bnP = y mod bnP \<Longrightarrow> fpSub a b mod bnP = (x - y) mod bnP"
  by (simp_all only: fp_defs mod_mod_trivial) (blast intro: mod_mult_cong mod_add_cong mod_diff_cong)+

lemma fp_range [simp]:
  "0 \<le> fpSub a b" "fpSub a b < bnP" "0 \<le> fpNeg a" "fpNeg a < bnP"
  by (simp_all add: fp_defs)

lemma slope_dvd: "d * i mod p = 1 \<Longrightarrow> 1 < p \<Longrightarrow> p dvd (n * i) * d - (n :: int)"
proof -
  assume "d * i mod p = 1" "1 < p"
  then have "p dvd d * i - 1" by (metis mod_eq_dvd_iff mod_pos_pos_trivial zero_le_one)
  then have "p dvd n * (d * i - 1)" by simp
  then show ?thesis by (simp add: algebra_simps)
qed

lemma slope_cong: "m mod p = n mod p \<Longrightarrow> p dvd n * d - k \<Longrightarrow> p dvd m * d - (k :: int)"
proof -
  assume "m mod p = n mod p" "p dvd n * d - k"
  then have "p dvd (m - n) * d + (n * d - k)" by (simp add: mod_eq_dvd_iff)
  then show ?thesis by (simp add: algebra_simps)
qed

lemma g1Double_ok:
  assumes "g1_ok p" "g1Double p = Some r"
  shows "g1_ok r"
proof (cases "g1inf p \<or> g1y p = 0")
  case False
  let ?x = "g1x p" and ?y = "g1y p"
  obtain i where i: "fpInv (fpMul 2 ?y) = Some i" using assms(2) False by (cases "fpInv (fpMul 2 ?y)") (auto simp: g1Double_def Let_def)
  define m where "m = fpMul (fpAdd (fpAdd (fpSqr ?x) (fpSqr ?x)) (fpSqr ?x)) i"
  define x3 where "x3 = fpSub (fpSub (fpSqr m) ?x) ?x"
  have r: "r = \<lparr>g1x = x3, g1y = fpSub (fpMul m (fpSub ?x x3)) ?y, g1inf = False\<rparr>"
    using assms(2) False i by (simp add: g1Double_def Let_def m_def x3_def)
  have "(2 * ?y) * i mod bnP = 1"
    using fpInv_Some [OF i] by (simp add: fp_defs mod_mult_left_eq)
  then have "bnP dvd ((3 * (?x * ?x)) * i) * (2 * ?y) - 3 * (?x * ?x)" by (rule slope_dvd) simp
  moreover have "m mod bnP = ((3 * (?x * ?x)) * i) mod bnP"
  proof -
    have "3 * (?x * ?x) = ?x * ?x + ?x * ?x + ?x * ?x" by simp
    then show ?thesis unfolding m_def by (simp only:) (intro fp_congs refl)
  qed
  ultimately have "bnP dvd m * (2 * ?y) - 3 * (?x * ?x)"
    using slope_cong by blast
  moreover have "bnP dvd g1Curve ?x ?y" using assms(1) False g1OnCurve_iff [of p] by (auto simp: g1_ok_def)
  ultimately have "bnP dvd g1Curve (m * m - ?x - ?x) (m * (?x - (m * m - ?x - ?x)) - ?y)" by (intro g1_tangent)
  moreover have cx: "x3 mod bnP = (m * m - ?x - ?x) mod bnP" unfolding x3_def by (intro fp_congs refl)
  moreover have "g1y r mod bnP = (m * (?x - (m * m - ?x - ?x)) - ?y) mod bnP" unfolding r by (simp only: g1Point.simps) (intro fp_congs refl cx)
  ultimately have "g1Curve (g1x r) (g1y r) mod bnP = 0"
    unfolding r by (simp only: g1Point.simps) (metis dvd_eq_mod_eq_0 g1Curve_cong)
  then show ?thesis unfolding g1_ok_def using g1OnCurve_iff [of r] by (simp add: r x3_def)
qed (use assms in \<open>auto simp: g1Double_def g1_ok_def g1Inf_def split: if_splits\<close>)

lemma g1Add_ok:
  assumes "g1_ok p" "g1_ok q" "g1Add p q = Some r"
  shows "g1_ok r"
proof (cases "g1inf p \<or> g1inf q \<or> g1x p = g1x q")
  case False
  let ?x = "g1x p" and ?y = "g1y p" and ?x' = "g1x q" and ?y' = "g1y q"
  obtain i where i: "fpInv (fpSub ?x' ?x) = Some i"
    using assms(3) False by (cases "fpInv (fpSub ?x' ?x)") (auto simp: g1Add_def Let_def)
  define m where "m = fpMul (fpSub ?y' ?y) i"
  define x3 where "x3 = fpSub (fpSub (fpSqr m) ?x) ?x'"
  have r: "r = \<lparr>g1x = x3, g1y = fpSub (fpMul m (fpSub ?x x3)) ?y, g1inf = False\<rparr>"
    using assms(3) False i by (simp add: g1Add_def Let_def m_def x3_def)
  have "(?x' - ?x) * i mod bnP = 1" and co: "coprime (?x' - ?x) bnP"
    using fpInv_Some [OF i] by (simp_all add: fp_defs mod_mult_left_eq) (metis coprime_iff_gcd_eq_1 gcd.commute gcd_red_int)
  then have "bnP dvd ((?y' - ?y) * i) * (?x' - ?x) - (?y' - ?y)" by (intro slope_dvd) simp_all
  moreover have "m mod bnP = ((?y' - ?y) * i) mod bnP" unfolding m_def by (intro fp_congs refl)
  ultimately have "bnP dvd m * (?x' - ?x) - (?y' - ?y)" using slope_cong by blast
  moreover have on: "bnP dvd g1Curve ?x ?y" "bnP dvd g1Curve ?x' ?y'"
    using assms(1,2) False g1OnCurve_iff [of p] g1OnCurve_iff [of q] by (auto simp: g1_ok_def)
  ultimately have "bnP dvd g1Curve (m * m - ?x - ?x') (m * (?x - (m * m - ?x - ?x')) - ?y)"
    using co by (intro g1_chord g1_secant)
  moreover have cx: "x3 mod bnP = (m * m - ?x - ?x') mod bnP" unfolding x3_def by (intro fp_congs refl)
  moreover have "g1y r mod bnP = (m * (?x - (m * m - ?x - ?x')) - ?y) mod bnP" unfolding r by (simp only: g1Point.simps) (intro fp_congs refl cx)
  ultimately have "g1Curve (g1x r) (g1y r) mod bnP = 0"
    unfolding r by (simp only: g1Point.simps) (metis dvd_eq_mod_eq_0 g1Curve_cong)
  then show ?thesis unfolding g1_ok_def using g1OnCurve_iff [of r] by (simp add: r x3_def)
qed (use assms g1Double_ok [of p r] in \<open>auto simp: g1Add_def g1_ok_def g1Inf_def split: if_splits\<close>)

lemma g1_ok_Inf [simp]: "g1_ok g1Inf"
  by (simp add: g1_ok_def g1Inf_def)

lemma g1Mul_loop_ok: "\<lbrakk>g1_ok r; g1_ok base; g1Mul_loop k r base = Some s\<rbrakk> \<Longrightarrow> g1_ok s"
proof (induction k r base rule: g1Mul_loop.induct)
  case (1 k r base)
  show ?case
  proof (cases "k = 0")
    case False
    obtain r' b' where r': "(if odd k then g1Add r base else Some r) = Some r'" and b': "g1Double base = Some b'"
      and s: "g1Mul_loop (k div 2) r' b' = Some s"
    proof -
      have "do { r \<leftarrow> (if odd k then g1Add r base else Some r); base \<leftarrow> g1Double base; g1Mul_loop (k div 2) r base } = Some s"
        using "1.prems"(3) False unfolding g1Mul_loop.simps [of k r base] by (simp only: if_False)
      then show ?thesis using that by (auto simp only: bind_eq_Some_conv)
    qed
    have "g1_ok r'" using r' "1.prems"(1) g1Add_ok [OF "1.prems"(1,2), of r'] by (simp split: if_splits)
    then show ?thesis using "1.IH" [OF False r' b' _ g1Double_ok [OF "1.prems"(2) b'] s] by simp
  qed (use "1.prems" in \<open>simp add: g1Mul_loop.simps\<close>)
qed

lemma g1Neg_ok: "g1_ok p \<Longrightarrow> g1_ok (g1Neg p)"
proof (cases "g1inf p")
  case False
  assume p: "g1_ok p"
  have "g1Curve (g1x p) (fpNeg (g1y p)) mod bnP = g1Curve (g1x p) (- g1y p) mod bnP"
    by (rule g1Curve_cong) (simp_all add: fp_defs)
  moreover have "g1Curve (g1x p) (- g1y p) = g1Curve (g1x p) (g1y p)" by (simp add: g1Curve_def)
  ultimately have "g1OnCurve (g1Neg p)"
    using p False g1OnCurve_iff [of p] g1OnCurve_iff [of "g1Neg p"] by (simp add: g1_ok_def g1Neg_def)
  then show ?thesis using p False by (simp add: g1_ok_def g1Neg_def)
qed (simp add: g1Neg_def)

lemma g1Mul_ok: "\<lbrakk>g1_ok p; g1Mul p k = Some s\<rbrakk> \<Longrightarrow> g1_ok s"
  using g1Mul_loop_ok [OF g1_ok_Inf, of p "nat k" s] g1Mul_loop_ok [OF g1_ok_Inf g1Neg_ok, of p "nat (- k)" s]
  by (simp add: g1Mul_def split: if_splits)

section \<open>Encoding points\<close>

lemma length_fpToBytes: "n < bnP \<Longrightarrow> length (fpToBytes n) = 32" and SetBytes_fpToBytes: "0 \<le> n \<Longrightarrow> n < bnP \<Longrightarrow> SetBytes (fpToBytes n) = n"
proof -
  have "n < bnP \<Longrightarrow> nat n < 256 ^ 32" by (simp add: bnP_def)
  then have e: "n < bnP \<Longrightarrow> fpToBytes n = be_bytes 32 (nat n)" by (simp add: fpToBytes_def leftPad_minBytes)
  then show "n < bnP \<Longrightarrow> length (fpToBytes n) = 32" by simp
  assume "0 \<le> n" "n < bnP"
  moreover then have "nat n < 256 ^ 32" by (simp add: bnP_def)
  ultimately show "SetBytes (fpToBytes n) = n" using e by (simp add: SetBytes_def be_val_be_bytes del: power_numeral)
qed

lemma fpFromBytes_fpToBytes: "0 \<le> n \<Longrightarrow> n < bnP \<Longrightarrow> fpFromBytes (fpToBytes n) = Some n"
  by (simp add: fpFromBytes_def length_fpToBytes SetBytes_fpToBytes)

lemma g1Unmarshal_ok: "g1Unmarshal b = Some p \<Longrightarrow> g1_ok p"
  by (auto simp: g1Unmarshal_def fpFromBytes_def g1_ok_def g1Inf_def SetBytes_def Let_def bind_eq_Some_conv split: if_splits)

lemma length_g1Marshal: "g1_ok p \<Longrightarrow> length (g1Marshal p) = 64"
  by (simp add: g1Marshal_def g1_ok_def length_fpToBytes split: if_splits)

text \<open>The origin is not on the curve, so that 64 zero bytes encode only the point at infinity.\<close>

lemma g1_not_origin: "g1_ok p \<Longrightarrow> \<not> g1inf p \<Longrightarrow> \<not> (g1x p = 0 \<and> g1y p = 0)"
  by (auto simp: g1_ok_def g1OnCurve_iff g1Curve_def bnP_def)

lemma g1Unmarshal_Marshal: "g1_ok p \<Longrightarrow> g1Unmarshal (g1Marshal p) = Some p"
proof (cases "g1inf p")
  case True
  assume "g1_ok p"
  then have p: "p = g1Inf" using True by (simp add: g1_ok_def)
  have "fpFromBytes (replicate 32 0) = Some 0" by (simp add: fpFromBytes_def SetBytes_def not_le)
  then show ?thesis by (simp add: p g1Marshal_def g1Unmarshal_def g1Inf_def)
next
  case False
  assume ok: "g1_ok p"
  then have "fpFromBytes (fpToBytes (g1x p)) = Some (g1x p)" "fpFromBytes (fpToBytes (g1y p)) = Some (g1y p)"
    "length (fpToBytes (g1x p)) = 32" "length (fpToBytes (g1y p)) = 32"
    using False by (simp_all add: g1_ok_def fpFromBytes_fpToBytes length_fpToBytes)
  moreover have "\<not> (g1x p = 0 \<and> g1y p = 0)" "g1OnCurve p" using g1_not_origin ok False by (auto simp: g1_ok_def)
  ultimately show ?thesis using False by (cases p) (auto simp: g1Marshal_def g1Unmarshal_def Let_def)
qed

section \<open>The twist\<close>

text \<open>The points of G2 satisfy \<open>(9 + i) (y\<^sup>2 - x\<^sup>3) = 3\<close>: the constant of the twist is \<open>3 / (9 + i)\<close>. Both
  components of \<open>y\<^sup>2 - x\<^sup>3\<close>, and the equation.\<close>

definition twist_re :: "f2 \<Rightarrow> f2 \<Rightarrow> int" where
  "twist_re x y = f2a y * f2a y - f2b y * f2b y - (f2a x * f2a x * f2a x - 3 * (f2a x * f2b x * f2b x))"

definition twist_im :: "f2 \<Rightarrow> f2 \<Rightarrow> int" where
  "twist_im x y = 2 * (f2a y * f2b y) - (3 * (f2a x * f2a x * f2b x) - f2b x * f2b x * f2b x)"

definition on_twist :: "f2 \<Rightarrow> f2 \<Rightarrow> bool" where
  "on_twist x y \<longleftrightarrow> bnP dvd 9 * twist_re x y - twist_im x y - 3 \<and> bnP dvd 9 * twist_im x y + twist_re x y"

lemma g2OnCurve_twist:
  assumes "g2OnCurve p" "\<not> g2inf p"
  shows "bnP dvd twist_re (g2x p) (g2y p) - 27" "bnP dvd twist_im (g2x p) (g2y p) - 3"
proof -
  obtain xr xi yr yi where x: "g2x p = F2 xr xi" and y: "g2y p = F2 yr yi" by (metis f2.exhaust)
  have sq: "fpMul xr xr mod bnP = xr * xr mod bnP" by (intro fp_congs refl)
  have re: "fpAdd (fpSub (fpMul (fpSub (fpMul xr xr) (fpMul xi xi)) xr) (fpMul (fpAdd (fpMul xr xi) (fpMul xi xr)) xi))
      (fpSub (fpMul 9 (fpMod bnB)) (fpMod 0)) mod bnP = (((xr * xr - xi * xi) * xr - (xr * xi + xi * xr) * xi) + (9 * 3 - 0)) mod bnP"
    by (intro fp_congs refl) (simp_all add: fpMod_eq bnB_def)
  have im: "fpAdd (fpAdd (fpMul (fpSub (fpMul xr xr) (fpMul xi xi)) xi) (fpMul (fpAdd (fpMul xr xi) (fpMul xi xr)) xr))
      (fpAdd (fpMul 9 (fpMod 0)) (fpMod bnB)) mod bnP = (((xr * xr - xi * xi) * xi + (xr * xi + xi * xr) * xr) + (9 * 0 + 3)) mod bnP"
    by (intro fp_congs refl) (simp_all add: fpMod_eq bnB_def)
  have yre: "fpSub (fpMul yr yr) (fpMul yi yi) mod bnP = (yr * yr - yi * yi) mod bnP"
    and yim: "fpAdd (fpMul yr yi) (fpMul yi yr) mod bnP = (yr * yi + yi * yr) mod bnP"
    by (intro fp_congs refl)+
  have eq: "fpSub (fpMul yr yr) (fpMul yi yi) =
      fpAdd (fpSub (fpMul (fpSub (fpMul xr xr) (fpMul xi xi)) xr) (fpMul (fpAdd (fpMul xr xi) (fpMul xi xr)) xi)) (fpSub (fpMul 9 (fpMod bnB)) (fpMod 0))"
    "fpAdd (fpMul yr yi) (fpMul yi yr) =
      fpAdd (fpAdd (fpMul (fpSub (fpMul xr xr) (fpMul xi xi)) xi) (fpMul (fpAdd (fpMul xr xi) (fpMul xi xr)) xr)) (fpAdd (fpMul 9 (fpMod 0)) (fpMod bnB))"
    using assms x y by (simp_all add: g2OnCurve_def Let_def f2sqr_def f2mul_def f2mulXi_def f2c_def f2add_def f2eq_def)
  have "bnP dvd (yr * yr - yi * yi) - (((xr * xr - xi * xi) * xr - (xr * xi + xi * xr) * xi) + (9 * 3 - 0))"
    "bnP dvd (yr * yi + yi * yr) - (((xr * xr - xi * xi) * xi + (xr * xi + xi * xr) * xr) + (9 * 0 + 3))"
    using trans [OF yre [symmetric, unfolded eq(1)] re] trans [OF yim [symmetric, unfolded eq(2)] im] by (simp_all only: mod_eq_dvd_iff)
  then show "bnP dvd twist_re (g2x p) (g2y p) - 27" "bnP dvd twist_im (g2x p) (g2y p) - 3"
    by (simp_all add: twist_re_def twist_im_def x y algebra_simps)
qed

lemma twist_rejected:
  assumes "on_twist (g2x p) (g2y p)" "\<not> g2inf p"
  shows "\<not> g2OnCurve p"
proof
  assume "g2OnCurve p"
  note d = g2OnCurve_twist [OF this assms(2)]
  let ?r = "twist_re (g2x p) (g2y p)" and ?i = "twist_im (g2x p) (g2y p)"
  have "bnP dvd 9 * ?i + ?r - (9 * (?i - 3) + (?r - 27))"
    by (rule dvd_diff [OF _ dvd_add [OF dvd_mult [OF d(2)] d(1)]]) (use assms(1) in \<open>simp add: on_twist_def\<close>)
  then have "bnP dvd 54" by simp
  then show False using zdvd_imp_le [of bnP 54] by (simp add: bnP_def)
qed

section \<open>KZG\<close>

text \<open>Whatever the point, the value and the commitment are, a finite proof is accepted.\<close>

lemma verifyKZG_finite: "\<not> blsinf pi \<Longrightarrow> verifyKZG c z y pi = None \<or> verifyKZG c z y pi = Some True"
  by (auto simp: verifyKZG_def Let_def bind_eq_Some_conv split: bind_splits)

end
