(* ===== verification/Precompiles.thy ===== *)
theory Precompiles
  imports Secp256k1 Hashes Curves
begin

text \<open>
  \<open>RunPrecompile\<close> and the ten precompiled contracts of \<open>c2block/precompiles.go\<close>. A contract returns
  its output, the gas that is left and an error; an \<open>outcome\<close> adds the panic of a dereferenced nil
  inverse. The lemmas bound the gas and the length of the output, show that the modular exponentiation
  contract computes the power, and that the points the curve contracts return are valid.
\<close>

section \<open>Definitions\<close>

datatype pc_error = ErrPrecompileOOG | ErrPrecompileExec

type_synonym pc_result = "bytes \<times> u64 \<times> pc_error option"

definition chargePC :: "u64 \<Rightarrow> u64 \<Rightarrow> u64 option" where
  "chargePC gas cost = (if gas < cost then None else Some (gas - cost))"

definition words32 :: "int \<Rightarrow> u64" where
  "words32 n = (if n \<le> 0 then 0 else (of_int n + 31) div 32)"

definition pad32 :: "bytes \<Rightarrow> nat \<Rightarrow> bytes" where
  "pad32 inp n = (if length inp \<ge> n then take n inp else inp @ replicate (n - length inp) 0)"

text \<open>\<open>if err != nil { return nil, 0, err }\<close> after a charge, and the failure of a contract.\<close>

definition charged :: "u64 \<Rightarrow> u64 \<Rightarrow> (u64 \<Rightarrow> pc_result outcome) \<Rightarrow> pc_result outcome" where
  "charged gas cost k = (case chargePC gas cost of None \<Rightarrow> Done ([], 0, Some ErrPrecompileOOG) | Some left \<Rightarrow> k left)"

definition pcFail :: "pc_result outcome" where
  "pcFail = Done ([], 0, Some ErrPrecompileExec)"

definition pcEcrecover :: "bytes \<Rightarrow> u64 \<Rightarrow> pc_result outcome" where
  "pcEcrecover inp gas =
     charged gas 3000 (\<lambda>left.
       let inp = pad32 inp 128;
           hash = take 32 inp;
           v = inp ! 63;
           r = take 32 (drop 64 inp);
           s = take 32 (drop 96 inp)
       in case EcRecover hash v r s of
            Inl _ \<Rightarrow> Done ([], left, None)
          | Inr pub \<Rightarrow> Done (replicate 12 0 @ drop 12 (Keccak256 pub), left, None))"

definition pcSHA256 :: "bytes \<Rightarrow> u64 \<Rightarrow> pc_result outcome" where
  "pcSHA256 inp gas =
     charged gas (60 + 12 * words32 (int (length inp))) (\<lambda>left. Done (sha256_Sum256 inp, left, None))"

definition pcRIPEMD160 :: "bytes \<Rightarrow> u64 \<Rightarrow> pc_result outcome" where
  "pcRIPEMD160 inp gas =
     charged gas (600 + 120 * words32 (int (length inp))) (\<lambda>left. Done (replicate 12 0 @ ripemd160Sum inp, left, None))"

definition pcIdentity :: "bytes \<Rightarrow> u64 \<Rightarrow> pc_result outcome" where
  "pcIdentity inp gas =
     charged gas (15 + 3 * words32 (int (length inp))) (\<lambda>left. Done (inp, left, None))"

definition modexpIter :: "nat \<Rightarrow> bytes \<Rightarrow> u64" where
  "modexpIter expLen exp =
     (if expLen \<le> 32 then
        (let e = be_val exp in if e = 0 then 0 else of_nat (BitLen e - 1))
      else
        (let iter = 8 * of_nat (expLen - 32);
             n = (if length exp > 32 then 32 else length exp);
             head = leftPad 32 (take n exp);
             e = be_val head
         in if e \<noteq> 0 then iter + of_nat (BitLen e - 1) else iter))"

definition modexpGas :: "nat \<Rightarrow> nat \<Rightarrow> nat \<Rightarrow> bytes \<Rightarrow> u64" where
  "modexpGas baseLen expLen modLen exp =
     (let mlen = (if modLen > baseLen then modLen else baseLen);
          words = of_nat ((mlen + 7) div 8);
          mult = words * words;
          iter = modexpIter expLen exp;
          gas = mult * iter div 3
      in if gas < 200 then 200 else gas)"

definition pcModexp :: "bytes \<Rightarrow> u64 \<Rightarrow> pc_result outcome" where
  "pcModexp inp gas =
     (let hd = pad32 inp 96;
          baseLen = of_nat (be_val (take 32 hd)) :: u64;
          expLen = of_nat (be_val (take 32 (drop 32 hd))) :: u64;
          modLen = of_nat (be_val (take 32 (drop 64 hd))) :: u64
      in if baseLen > 1024 \<or> expLen > 1024 \<or> modLen > 1024 then pcFail
         else
           (let bl = unat baseLen; el = unat expLen; ml = unat modLen;
                need = 96 + bl + el + ml;
                buf = pad32 inp need;
                base = take bl (drop 96 buf);
                exp = take el (drop (96 + bl) buf);
                modu = drop (96 + bl + el) buf
            in charged gas (modexpGas bl el ml exp) (\<lambda>left.
                 let out = replicate ml 0
                 in if ml = 0 then Done (out, left, None)
                    else
                      (let m = SetBytes modu
                       in if m = 0 then Done (out, left, None)
                          else
                            (let r = big_Exp (SetBytes base) (be_val exp) m;
                                 rb = minBytes (nat r);
                                 rb = (if length rb > ml then drop (length rb - ml) rb else rb)
                             in Done (leftPad ml rb, left, None))))))"

definition pcEcAdd :: "bytes \<Rightarrow> u64 \<Rightarrow> pc_result outcome" where
  "pcEcAdd inp gas =
     charged gas 150 (\<lambda>left.
       let inp = pad32 inp 128
       in case g1Unmarshal (take 64 inp) of
            None \<Rightarrow> pcFail
          | Some p \<Rightarrow>
              (case g1Unmarshal (take 64 (drop 64 inp)) of
                 None \<Rightarrow> pcFail
               | Some q \<Rightarrow> seq (lift (g1Add p q)) (\<lambda>r. Done (g1Marshal r, left, None))))"

definition pcEcMul :: "bytes \<Rightarrow> u64 \<Rightarrow> pc_result outcome" where
  "pcEcMul inp gas =
     charged gas 6000 (\<lambda>left.
       let inp = pad32 inp 96
       in case g1Unmarshal (take 64 inp) of
            None \<Rightarrow> pcFail
          | Some p \<Rightarrow>
              (let s = SetBytes (take 32 (drop 64 inp))
               in seq (lift (g1Mul p s)) (\<lambda>r. Done (g1Marshal r, left, None))))"

text \<open>The loop of \<open>pcEcPairing\<close> on the chunks that are left; \<open>None\<close> is a chunk that does not decode.\<close>

fun pairing_loop :: "nat \<Rightarrow> bytes \<Rightarrow> f12 \<Rightarrow> f12 option outcome" where
  "pairing_loop 0 inp acc = Done (Some acc)"
| "pairing_loop (Suc k) inp acc =
     (case g1Unmarshal (take 64 inp) of
        None \<Rightarrow> Done None
      | Some p \<Rightarrow>
          (case g2Unmarshal (take 128 (drop 64 inp)) of
             None \<Rightarrow> Done None
           | Some q \<Rightarrow>
               if g1inf p \<or> g2inf q then pairing_loop k (drop 192 inp) acc
               else seq (lift (miller p q)) (\<lambda>l. pairing_loop k (drop 192 inp) (fp12Mul acc l))))"

definition pcEcPairing :: "bytes \<Rightarrow> u64 \<Rightarrow> pc_result outcome" where
  "pcEcPairing inp gas =
     (if length inp mod 192 \<noteq> 0 then pcFail
      else
        (let k = length inp div 192
         in charged gas (45000 + of_nat k * 34000) (\<lambda>left.
              seq (pairing_loop k inp fp12One) (\<lambda>acc.
                case acc of
                  None \<Rightarrow> pcFail
                | Some acc \<Rightarrow>
                    seq (lift (finalExp acc)) (\<lambda>acc.
                      Done (replicate 31 0 @ [if fp12IsOne acc then 1 else 0], left, None))))))"

definition pcBlake2F :: "bytes \<Rightarrow> u64 \<Rightarrow> pc_result outcome" where
  "pcBlake2F inp gas =
     (if length inp \<noteq> 213 then pcFail
      else
        (let rounds = Uint32_BE inp
         in charged gas (ucast rounds) (\<lambda>left.
              if inp ! 212 \<noteq> 0 \<and> inp ! 212 \<noteq> 1 then pcFail
              else
                (let h = map (\<lambda>i. le_lane (drop (4 + i * 8) inp)) [0..<8];
                     m = map (\<lambda>i. le_lane (drop (68 + i * 8) inp)) [0..<16];
                     t0 = le_lane (drop 196 inp);
                     t1 = le_lane (drop 204 inp);
                     f = (inp ! 212 = 1)
                 in Done (concat (map PutUint64_LE (blake2F h m t0 t1 f rounds)), left, None)))))"

definition pcKZG :: "bytes \<Rightarrow> u64 \<Rightarrow> pc_result outcome" where
  "pcKZG inp gas =
     charged gas 50000 (\<lambda>left.
       if length inp \<noteq> 192 then pcFail
       else
         (let versioned = take 32 inp;
              z = take 32 (drop 32 inp);
              y = take 32 (drop 64 inp);
              commit = take 48 (drop 96 inp);
              pi = take 48 (drop 144 inp);
              sum256 = (sha256_Sum256 commit)[0 := 0x01]
          in if versioned ! 0 \<noteq> 0x01 then pcFail
             else if sum256 \<noteq> versioned then pcFail
             else if \<not> blsScalarOK z \<or> \<not> blsScalarOK y then pcFail
             else
               (case blsG1Decompress commit of
                  None \<Rightarrow> pcFail
                | Some c \<Rightarrow>
                    (case blsG1Decompress pi of
                       None \<Rightarrow> pcFail
                     | Some p \<Rightarrow>
                         seq (lift (verifyKZG c z y p)) (\<lambda>ok.
                           if \<not> ok then pcFail
                           else Done (replicate 24 0 @ PutUint64_BE 4096 @ blsModulusBytes, left, None))))))"

definition RunPrecompile :: "u64 \<Rightarrow> bytes \<Rightarrow> u64 \<Rightarrow> pc_result outcome" where
  "RunPrecompile addr inp gas =
     (if addr = 1 then pcEcrecover inp gas
      else if addr = 2 then pcSHA256 inp gas
      else if addr = 3 then pcRIPEMD160 inp gas
      else if addr = 4 then pcIdentity inp gas
      else if addr = 5 then pcModexp inp gas
      else if addr = 6 then pcEcAdd inp gas
      else if addr = 7 then pcEcMul inp gas
      else if addr = 8 then pcEcPairing inp gas
      else if addr = 9 then pcBlake2F inp gas
      else if addr = 10 then pcKZG inp gas
      else Done ([], gas, Some ErrPrecompileExec))"

section \<open>Gas and output\<close>

lemma charged_Done:
  assumes "charged gas cost k = Done r"
  obtains (oog) "gas < cost" "r = ([], 0, Some ErrPrecompileOOG)" | (paid) "cost \<le> gas" "k (gas - cost) = Done r"
  using assms by (auto simp: charged_def chargePC_def not_less split: if_splits)

text \<open>A result of a contract that had \<open>gas\<close>: at most that much is left, and the output has a length in \<open>ns\<close>.\<close>

definition pc_fine :: "u64 \<Rightarrow> nat set \<Rightarrow> pc_result outcome \<Rightarrow> bool" where
  "pc_fine gas ns r \<longleftrightarrow> r \<noteq> NoFuel \<and>
     (\<forall>out left err. r = Done (out, left, err) \<longrightarrow> left \<le> gas \<and> (err = None \<longrightarrow> length out \<in> ns))"

lemma pc_fine_intros:
  "pc_fine gas ns pcFail" "pc_fine gas ns Panic"
  "left \<le> gas \<Longrightarrow> length out \<in> ns \<Longrightarrow> pc_fine gas ns (Done (out, left, None))"
  "(\<And>left. left \<le> gas \<Longrightarrow> pc_fine gas ns (k left)) \<Longrightarrow> pc_fine gas ns (charged gas cost k)"
  "(\<And>x. m = Some x \<Longrightarrow> pc_fine gas ns (h x)) \<Longrightarrow> pc_fine gas ns (seq (lift m) h)"
  by (auto simp: pc_fine_def pcFail_def charged_def chargePC_def not_less split: if_splits intro: word_sub_le)
    (cases m; simp)+

lemma length_pad32 [simp]: "length (pad32 inp n) = n"
  by (simp add: pad32_def)

lemma length_blsModulusBytes [simp]: "length blsModulusBytes = 32"
proof -
  have "nat blsR < 256 ^ 32" by (simp add: blsR_def)
  then show ?thesis by (simp add: blsModulusBytes_def leftPad_minBytes)
qed

lemma pcEcrecover_fine: "pc_fine gas {0, 32} (pcEcrecover inp gas)"
  unfolding pcEcrecover_def Let_def
  by (intro pc_fine_intros) (simp add: length_Keccak256 pc_fine_intros split: sum.split)

lemma pcSHA256_fine: "pc_fine gas {32} (pcSHA256 inp gas)"
  unfolding pcSHA256_def by (intro pc_fine_intros) simp_all

lemma pcRIPEMD160_fine: "pc_fine gas {32} (pcRIPEMD160 inp gas)"
  unfolding pcRIPEMD160_def by (intro pc_fine_intros) simp_all

lemma pcIdentity_fine: "pc_fine gas {length inp} (pcIdentity inp gas)"
  unfolding pcIdentity_def by (intro pc_fine_intros) simp_all

text \<open>The three lengths and the three operands that the exponentiation contract reads. A length is a 32-byte number,
  of which \<open>Uint64()\<close> keeps the low 64 bits (the documentation of \<open>math/big\<close> leaves its result open above that).\<close>

definition mx_len :: "bytes \<Rightarrow> nat \<Rightarrow> u64" where
  "mx_len inp i = of_nat (be_val (take 32 (drop (32 * i) (pad32 inp 96))))"

definition mx_ok :: "bytes \<Rightarrow> bool" where
  "mx_ok inp \<longleftrightarrow> mx_len inp 0 \<le> 1024 \<and> mx_len inp 1 \<le> 1024 \<and> mx_len inp 2 \<le> 1024"

definition mx_buf :: "bytes \<Rightarrow> bytes" where
  "mx_buf inp = drop 96 (pad32 inp (96 + unat (mx_len inp 0) + unat (mx_len inp 1) + unat (mx_len inp 2)))"

definition mx_base :: "bytes \<Rightarrow> nat" where
  "mx_base inp = be_val (take (unat (mx_len inp 0)) (mx_buf inp))"

definition mx_exp :: "bytes \<Rightarrow> bytes" where
  "mx_exp inp = take (unat (mx_len inp 1)) (drop (unat (mx_len inp 0)) (mx_buf inp))"

definition mx_mod :: "bytes \<Rightarrow> nat" where
  "mx_mod inp = be_val (drop (unat (mx_len inp 0) + unat (mx_len inp 1)) (mx_buf inp))"

definition mx_cost :: "bytes \<Rightarrow> u64" where
  "mx_cost inp = modexpGas (unat (mx_len inp 0)) (unat (mx_len inp 1)) (unat (mx_len inp 2)) (mx_exp inp)"

lemma power_result:
  assumes "be_val b \<noteq> 0" "length b = n"
  shows "leftPad n (let rb = minBytes (nat (big_Exp (int x) e (int (be_val b)))) in if length rb > n then drop (length rb - n) rb else rb) =
    be_bytes n (x ^ e mod be_val b)"
proof -
  have r: "nat (big_Exp (int x) e (int (be_val b))) = x ^ e mod be_val b"
    using assms(1) by (simp add: big_Exp_eq nat_mod_distrib flip: of_nat_power zmod_int)
  have "x ^ e mod be_val b < 256 ^ n" using be_val_bound [of b] assms by (metis mod_less_divisor less_trans gr0I)
  moreover then have "length (minBytes (x ^ e mod be_val b)) \<le> n" by (simp add: minBytes_spec rlpIntLen_le)
  ultimately show ?thesis by (simp add: r Let_def leftPad_minBytes)
qed

lemma pcModexp_eq:
  "pcModexp inp gas =
     (if \<not> mx_ok inp then pcFail
      else charged gas (mx_cost inp) (\<lambda>left.
        Done (be_bytes (unat (mx_len inp 2)) (if mx_mod inp = 0 then 0 else mx_base inp ^ be_val (mx_exp inp) mod mx_mod inp), left, None)))"
proof -
  let ?bl = "unat (mx_len inp 0)" and ?el = "unat (mx_len inp 1)" and ?ml = "unat (mx_len inp 2)"
  define mb where "mb = drop (?bl + ?el) (mx_buf inp)"
  have len: "length mb = ?ml" by (simp add: mb_def mx_buf_def)
  have z: "be_bytes n 0 = replicate n 0" for n by (rule be_val_inj) (simp_all add: be_val_be_bytes)
  have m: "mx_mod inp = be_val mb" by (simp add: mx_mod_def mb_def)
  have buf: "drop (96 + k) (pad32 inp (96 + ?bl + ?el + ?ml)) = drop k (mx_buf inp)" for k
    by (simp add: mx_buf_def add.commute)
  have "pcModexp inp gas =
     (if \<not> mx_ok inp then pcFail
      else charged gas (mx_cost inp) (\<lambda>left.
        if ?ml = 0 then Done (replicate ?ml 0, left, None)
        else if SetBytes mb = 0 then Done (replicate ?ml 0, left, None)
        else Done (leftPad ?ml (let rb = minBytes (nat (big_Exp (SetBytes (take ?bl (mx_buf inp))) (be_val (mx_exp inp)) (SetBytes mb)))
                                in if length rb > ?ml then drop (length rb - ?ml) rb else rb), left, None)))"
    using buf [of 0] buf [of ?bl] buf [of "?bl + ?el"]
    by (simp add: pcModexp_def Let_def mx_ok_def mx_cost_def mx_exp_def mb_def mx_len_def not_le add.assoc cong: if_cong)
  moreover have "(if ?ml = 0 then Done (replicate ?ml 0, left, None)
        else if SetBytes mb = 0 then Done (replicate ?ml 0, left, None)
        else Done (leftPad ?ml (let rb = minBytes (nat (big_Exp (SetBytes (take ?bl (mx_buf inp))) (be_val (mx_exp inp)) (SetBytes mb)))
                                in if length rb > ?ml then drop (length rb - ?ml) rb else rb), left, None)) =
      (Done (be_bytes ?ml (if mx_mod inp = 0 then 0 else mx_base inp ^ be_val (mx_exp inp) mod mx_mod inp), left, None) :: pc_result outcome)"
    for left
    using len power_result [of mb ?ml "mx_base inp" "be_val (mx_exp inp)"] by (auto simp: m z mx_base_def SetBytes_def)
  ultimately show ?thesis by (simp only:)
qed

lemma pcModexp_fine: "pc_fine gas {unat (mx_len inp 2)} (pcModexp inp gas)"
  unfolding pcModexp_eq by (auto intro!: pc_fine_intros)

lemma g1Add_result: "\<lbrakk>g1Unmarshal a = Some p; g1Unmarshal b = Some q; g1Add p q = Some r\<rbrakk> \<Longrightarrow> g1_ok r"
  by (rule g1Add_ok [OF g1Unmarshal_ok g1Unmarshal_ok])

lemma g1Mul_result: "\<lbrakk>g1Unmarshal a = Some p; g1Mul p k = Some r\<rbrakk> \<Longrightarrow> g1_ok r"
  by (rule g1Mul_ok [OF g1Unmarshal_ok])

lemma pcEcAdd_fine: "pc_fine gas {64} (pcEcAdd inp gas)"
  unfolding pcEcAdd_def Let_def
  by (intro pc_fine_intros) (auto split: option.split intro!: pc_fine_intros length_g1Marshal dest: g1Add_result)

lemma pcEcMul_fine: "pc_fine gas {64} (pcEcMul inp gas)"
  unfolding pcEcMul_def Let_def
  by (intro pc_fine_intros) (auto split: option.split intro!: pc_fine_intros length_g1Marshal dest: g1Mul_result)

lemma pairing_loop_fuel: "pairing_loop k inp acc \<noteq> NoFuel"
proof (induction k inp acc rule: pairing_loop.induct)
  case (2 k inp acc)
  have "seq (lift m) h = NoFuel \<longleftrightarrow> (\<exists>x. m = Some x \<and> h x = NoFuel)" for m :: "f12 option" and h :: "f12 \<Rightarrow> f12 option outcome"
    by (cases m) simp_all
  then show ?case using 2 by (auto split: option.split)
qed simp

lemma pcEcPairing_fine: "pc_fine gas {32} (pcEcPairing inp gas)"
proof -
  have step: "pc_fine gas {32} (seq (pairing_loop k inp fp12One) (\<lambda>acc. case acc of None \<Rightarrow> pcFail
      | Some acc \<Rightarrow> seq (lift (finalExp acc)) (\<lambda>acc. Done (replicate 31 0 @ [if fp12IsOne acc then 1 else 0], left, None))))"
    if "left \<le> gas" for k left
    using pairing_loop_fuel [of k inp fp12One] that
    by (cases "pairing_loop k inp fp12One") (auto split: option.split intro!: pc_fine_intros)
  show ?thesis unfolding pcEcPairing_def Let_def by (auto intro!: pc_fine_intros step)
qed

lemma pcBlake2F_fine: "pc_fine gas {64} (pcBlake2F inp gas)"
  unfolding pcBlake2F_def Let_def by (auto intro!: pc_fine_intros simp: length_concat_const)

lemma pcKZG_fine: "pc_fine gas {64} (pcKZG inp gas)"
  unfolding pcKZG_def Let_def by (intro pc_fine_intros) (auto split: option.split intro!: pc_fine_intros)

definition pc_outLens :: "u64 \<Rightarrow> bytes \<Rightarrow> nat set" where
  "pc_outLens addr inp =
     (if addr = 1 then {0, 32} else if addr = 2 \<or> addr = 3 \<or> addr = 8 then {32}
      else if addr = 4 then {length inp} else if addr = 5 then {unat (mx_len inp 2)} else {64})"

lemma RunPrecompile_fine: "pc_fine gas (pc_outLens addr inp) (RunPrecompile addr inp gas)"
  using pcEcrecover_fine pcSHA256_fine pcRIPEMD160_fine pcIdentity_fine pcModexp_fine pcEcAdd_fine pcEcMul_fine
    pcEcPairing_fine pcBlake2F_fine pcKZG_fine
  by (simp add: RunPrecompile_def pc_outLens_def) (simp add: pc_fine_def)

lemma RunPrecompile_gas: "RunPrecompile addr inp gas = Done (out, left, err) \<Longrightarrow> left \<le> gas"
  and RunPrecompile_fuel: "RunPrecompile addr inp gas \<noteq> NoFuel"
  using RunPrecompile_fine [of gas addr inp] by (auto simp: pc_fine_def)

text \<open>The points that the curve contracts encode.\<close>

lemma curve_results:
  "\<lbrakk>seq (lift (g1Add p q)) (\<lambda>r. Done (g1Marshal r, l, None)) = Done (out, left, err); g1Unmarshal a = Some p; g1Unmarshal b = Some q\<rbrakk> \<Longrightarrow>
    \<exists>r. g1_ok r \<and> out = g1Marshal r"
  "\<lbrakk>seq (lift (g1Mul p k)) (\<lambda>r. Done (g1Marshal r, l, None)) = Done (out, left, err); g1Unmarshal a = Some p\<rbrakk> \<Longrightarrow>
    \<exists>r. g1_ok r \<and> out = g1Marshal r"
  by (cases "g1Add p q", auto dest: g1Add_result) (cases "g1Mul p k", auto dest: g1Mul_result)

section \<open>Refusals\<close>

text \<open>The lengths of the exponentiation contract, as numbers.\<close>

lemma mx_len_value: "unat (mx_len inp i) = be_val (take 32 (drop (32 * i) (pad32 inp 96))) mod 2 ^ 64"
  by (simp add: mx_len_def unat_of_nat)

text \<open>The contract 1: its output comes from a point of the curve, and a large \<open>s\<close> gives none.\<close>

lemma pcEcrecover_output:
  assumes "pcEcrecover inp gas = Done (out, left, err)" "out \<noteq> []"
  shows "\<exists>q. onJac q \<and> jz q \<noteq> zero256 \<and> out = replicate 12 0 @ drop 12 (Keccak256 (pubkey_of q))"
proof -
  have "\<exists>hash v r s pub. EcRecover hash v r s = Inr pub \<and> out = replicate 12 0 @ drop 12 (Keccak256 pub)"
    using assms by (force simp: pcEcrecover_def charged_def Let_def split: option.splits sum.splits)
  then show ?thesis using EcRecover_cases by (metis Inr_inject Inl_Inr_False)
qed

lemma pcEcrecover_high_s:
  assumes "uval secpNHalf < uval (FromBytesBE (take 32 (drop 96 (pad32 inp 128))))"
  shows "pcEcrecover inp gas = (if gas < 3000 then Done ([], 0, Some ErrPrecompileOOG) else Done ([], gas - 3000, None))"
  using EcRecover_high_s [OF assms] by (simp add: pcEcrecover_def charged_def chargePC_def Let_def)

text \<open>The encoding of a finite point of G2 with reduced coordinates, as \<open>g2Unmarshal\<close> reads it.\<close>

definition f2_reduced :: "f2 \<Rightarrow> bool" where
  "f2_reduced x \<longleftrightarrow> 0 \<le> f2a x \<and> f2a x < bnP \<and> 0 \<le> f2b x \<and> f2b x < bnP"

definition g2Encode :: "f2 \<Rightarrow> f2 \<Rightarrow> bytes" where
  "g2Encode x y = fpToBytes (f2b x) @ fpToBytes (f2a x) @ fpToBytes (f2b y) @ fpToBytes (f2a y)"

lemma g2Unmarshal_twist:
  assumes "on_twist x y" "f2_reduced x" "f2_reduced y"
  shows "g2Unmarshal (g2Encode x y) = None"
proof -
  have "\<not> g2OnCurve \<lparr>g2x = F2 (f2a x) (f2b x), g2y = F2 (f2a y) (f2b y), g2inf = False\<rparr>"
    using twist_rejected [of "\<lparr>g2x = x, g2y = y, g2inf = False\<rparr>"] assms(1) by simp
  moreover have "\<not> (f2a x = 0 \<and> f2b x = 0 \<and> f2a y = 0 \<and> f2b y = 0)"
  proof
    assume "f2a x = 0 \<and> f2b x = 0 \<and> f2a y = 0 \<and> f2b y = 0"
    then have "bnP dvd - 3" using assms(1) by (simp add: on_twist_def twist_re_def twist_im_def)
    then have "bnP dvd 3" by simp
    then show False using zdvd_imp_le [of bnP 3] by (simp add: bnP_def)
  qed
  ultimately show ?thesis using assms(2,3)
    by (auto simp: g2Unmarshal_def g2Encode_def f2_reduced_def length_fpToBytes fpFromBytes_fpToBytes Let_def)
qed

lemma pairing_loop_refuses:
  "i < k \<Longrightarrow> g2Unmarshal (take 128 (drop (192 * i + 64) inp)) = None \<Longrightarrow> pairing_loop k inp acc \<noteq> Done (Some acc')"
proof (induction k arbitrary: i inp acc)
  case (Suc k)
  have nxt: "pairing_loop k (drop 192 inp) acc1 \<noteq> Done (Some acc')" if i: "i \<noteq> 0" for acc1
  proof -
    obtain j where j: "i = Suc j" using i by (cases i) auto
    have "g2Unmarshal (take 128 (drop (192 * j + 64) (drop 192 inp))) = None" using Suc.prems(2) j by (simp add: add.commute)
    then show ?thesis using Suc.IH [of j] Suc.prems(1) j by simp
  qed
  have lft: "seq (lift m) h = Done y \<longleftrightarrow> (\<exists>x. m = Some x \<and> h x = Done y)" for m :: "f12 option" and h :: "f12 \<Rightarrow> f12 option outcome" and y
    by (cases m) simp_all
  show ?case using Suc.prems(2) nxt by (cases "i = 0") (auto simp: lft split: option.split)
qed simp

lemma pairing_refuses:
  assumes "on_twist x y" "f2_reduced x" "f2_reduced y" "i < length inp div 192" "take 128 (drop (192 * i + 64) inp) = g2Encode x y"
  shows "RunPrecompile 8 inp gas \<noteq> Done (out, left, None)"
proof
  let ?k = "length inp div 192"
  assume "RunPrecompile 8 inp gas = Done (out, left, None)"
  moreover have "pairing_loop ?k inp fp12One \<noteq> Done (Some acc)" for acc
    using pairing_loop_refuses [OF assms(4)] g2Unmarshal_twist [OF assms(1-3)] assms(5) by simp
  ultimately show False
    by (cases "pairing_loop ?k inp fp12One")
      (auto simp: RunPrecompile_def pcEcPairing_def charged_def pcFail_def Let_def split: if_splits option.splits)
qed

end
