(* ===== verification/Call_Context.thy ===== *)
theory Call_Context
  imports Arena Precompiles
begin

text \<open>
  \<open>c2block/call_context.go\<close>: the environment of a transaction, message calls, contract creation
  and the instructions that need the environment. An operation that may panic returns an
  option; the mutually recursive \<open>run\<close> and \<open>execFrame\<close> return an \<open>outcome\<close>, in which running out
  of fuel is a value of its own.

  The argument \<open>so\<close> gives the order in which Go iterates over the storage map when an account is
  deleted. The pointer \<open>e.state\<close> that the
  environment shares with the \<open>boundState\<close> of a frame is one \<open>StateTrie\<close> in the environment; \<open>stepBound\<close> lends
  it to the frame for one step.
\<close>

section \<open>Definitions\<close>

text \<open>The types of \<open>c2block/types.go\<close>; an \<open>Address\<close> is 20 bytes and a \<open>Hash\<close> 32.\<close>

type_synonym Address = bytes
type_synonym Hash = bytes

abbreviation zeroAddress :: Address where "zeroAddress \<equiv> replicate 20 0"

record BlockHeader =
  h_ParentHash :: Hash
  h_Coinbase :: Address
  h_StateRoot :: Hash
  h_ReceiptsRoot :: Hash
  h_Bloom :: bytes
  h_Number :: u64
  h_GasLimit :: u64
  h_GasUsed :: u64
  h_Timestamp :: u64
  h_Extra :: bytes
  h_MixDigest :: Hash
  h_Nonce :: u64
  h_BaseFee :: Uint256
  h_BlobGasUsed :: u64
  h_ExcessBlobGas :: u64
  h_Difficulty :: Uint256
  h_ChainID :: Uint256

record Log =
  l_Address :: Address
  l_Topics :: "Hash list"
  l_Data :: bytes

definition maxCallDepth :: int where "maxCallDepth = 1024"
definition maxCodeSize :: nat where "maxCodeSize = 24576"
definition maxInitSize :: u64 where "maxInitSize = 49152"
definition gasCallStipend :: u64 where "gasCallStipend = 2300"
definition gasCallValue :: u64 where "gasCallValue = 9000"
definition gasNewAccount :: u64 where "gasNewAccount = 25000"
definition gasCreate :: u64 where "gasCreate = 32000"
definition gasCodeDeposit :: u64 where "gasCodeDeposit = 200"
definition gasLog :: u64 where "gasLog = 375"
definition gasLogTopic :: u64 where "gasLogTopic = 375"
definition gasLogData :: u64 where "gasLogData = 8"
definition gasCallWarm :: u64 where "gasCallWarm = 100"
definition gasCopyWord :: u64 where "gasCopyWord = 3"

lemmas gas_consts = gasCallStipend_def gasCallValue_def gasNewAccount_def gasCreate_def gasCodeDeposit_def
  gasLog_def gasLogTopic_def gasLogData_def gasCallWarm_def gasCopyWord_def

record boundState =
  bs_trie :: StateTrie
  bs_addr :: Uint256
  bs_readOnly :: bool
  bs_wrote :: bool

definition boundGet :: "boundState \<Rightarrow> Uint256 \<Rightarrow> Uint256 \<Rightarrow> Uint256" where
  "boundGet b addr key = GetStorage (bs_trie b) (bs_addr b) key"

definition boundSet :: "boundState \<Rightarrow> Uint256 \<Rightarrow> Uint256 \<Rightarrow> Uint256 \<Rightarrow> boundState" where
  "boundSet b addr key v =
     (if bs_readOnly b then b\<lparr>bs_wrote := True\<rparr>
      else b\<lparr>bs_trie := SetStorage (bs_trie b) (bs_addr b) key v\<rparr>)"

type_synonym frame = "boundState ExecutionFrame"

record vmEnv =
  e_state :: StateTrie
  e_header :: BlockHeader
  e_origin :: Address
  e_gasPrice :: Uint256
  e_logs :: "Log list"
  e_retData :: bytes
  e_depth :: int
  e_refund :: u64
  e_touched :: "Address set"
  e_touchJournal :: "Address list"
  e_createdInTx :: "Address set"
  e_createJournal :: "Address list"
  e_suicided :: "Address set"
  e_suicideJournal :: "Address list"

record callParams =
  cp_caller :: Address
  cp_addr :: Address
  cp_codeAddr :: Address
  cp_origin :: Address
  cp_value :: Uint256
  cp_callVal :: Uint256
  cp_data :: bytes
  cp_code :: bytes
  cp_gas :: u64
  cp_readOnly :: bool
  cp_kind :: byte

definition eip150 :: "u64 \<Rightarrow> u64" where
  "eip150 available = available - available div 64"

definition callGas :: "u64 \<Rightarrow> u64 \<Rightarrow> u64" where
  "callGas available requested = (let mx = eip150 available in if requested > mx then mx else requested)"

definition addrToU256 :: "Address \<Rightarrow> Uint256" where
  "addrToU256 a = FromBytesBE (replicate 12 0 @ a)"

definition u256ToAddr :: "Uint256 \<Rightarrow> Address" where
  "u256ToAddr z = drop 12 (BytesBE z)"

definition isPrecompile :: "Address \<Rightarrow> u64 option" where
  "isPrecompile a =
     (if \<exists>i < 19. a ! i \<noteq> 0 then None
      else if a ! 19 \<ge> 1 \<and> a ! 19 \<le> 10 then Some (ucast (a ! 19)) else None)"

subsection \<open>Accounts\<close>

text \<open>\<open>&statetrie.Account{}\<close>.\<close>

definition zeroAccount :: Account where
  "zeroAccount = \<lparr>Nonce = 0, Balance = zero256, StorageRoot = replicate 32 0, CodeHash = replicate 32 0, Code = []\<rparr>"

definition accountOf :: "vmEnv \<Rightarrow> Address \<Rightarrow> Account" where
  "accountOf e addr = (case GetAccount (e_state e) (addrToU256 addr) of None \<Rightarrow> zeroAccount | Some acc \<Rightarrow> acc)"

definition codeOf :: "vmEnv \<Rightarrow> Address \<Rightarrow> bytes" where
  "codeOf e addr = (if isPrecompile addr \<noteq> None then [] else Code (accountOf e addr))"

text \<open>The order of the storage map matters to \<open>SetAccount\<close> only when it deletes an account.\<close>

definition setCode :: "vmEnv \<Rightarrow> Address \<Rightarrow> bytes \<Rightarrow> vmEnv" where
  "setCode e addr code =
     e\<lparr>e_state := SetAccount [] (e_state e) (addrToU256 addr)
         (Some ((accountOf e addr)\<lparr>Code := code, CodeHash := Keccak256 code\<rparr>))\<rparr>"

definition setNonce :: "vmEnv \<Rightarrow> Address \<Rightarrow> u64 \<Rightarrow> vmEnv" where
  "setNonce e addr n =
     e\<lparr>e_state := SetAccount [] (e_state e) (addrToU256 addr) (Some ((accountOf e addr)\<lparr>Nonce := n\<rparr>))\<rparr>"

definition getNonce :: "vmEnv \<Rightarrow> Address \<Rightarrow> u64" where
  "getNonce e addr = Nonce (accountOf e addr)"

definition emptyAccount :: "vmEnv \<Rightarrow> Address \<Rightarrow> bool" where
  "emptyAccount e addr =
     (let acc = accountOf e addr in Nonce acc = 0 \<and> IsZero (Balance acc) \<and> length (Code acc) = 0)"

definition touch :: "vmEnv \<Rightarrow> Address \<Rightarrow> vmEnv" where
  "touch e a =
     (if a \<in> e_touched e then e
      else e\<lparr>e_touched := insert a (e_touched e), e_touchJournal := e_touchJournal e @ [a]\<rparr>)"

definition markCreated :: "vmEnv \<Rightarrow> Address \<Rightarrow> vmEnv" where
  "markCreated e a =
     (if a \<in> e_createdInTx e then e
      else e\<lparr>e_createdInTx := insert a (e_createdInTx e), e_createJournal := e_createJournal e @ [a]\<rparr>)"

definition markSuicided :: "vmEnv \<Rightarrow> Address \<Rightarrow> vmEnv" where
  "markSuicided e a =
     (if a \<in> e_suicided e then e
      else e\<lparr>e_suicided := insert a (e_suicided e), e_suicideJournal := e_suicideJournal e @ [a]\<rparr>)"

definition revertTouched :: "vmEnv \<Rightarrow> nat \<Rightarrow> vmEnv" where
  "revertTouched e mark =
     e\<lparr>e_touched := e_touched e - set (drop mark (e_touchJournal e)), e_touchJournal := take mark (e_touchJournal e)\<rparr>"

definition revertCreated :: "vmEnv \<Rightarrow> nat \<Rightarrow> vmEnv" where
  "revertCreated e mark =
     e\<lparr>e_createdInTx := e_createdInTx e - set (drop mark (e_createJournal e)), e_createJournal := take mark (e_createJournal e)\<rparr>"

definition revertSuicided :: "vmEnv \<Rightarrow> nat \<Rightarrow> vmEnv" where
  "revertSuicided e mark =
     e\<lparr>e_suicided := e_suicided e - set (drop mark (e_suicideJournal e)), e_suicideJournal := take mark (e_suicideJournal e)\<rparr>"

definition transfer :: "vmEnv \<Rightarrow> Address \<Rightarrow> Address \<Rightarrow> Uint256 \<Rightarrow> vmEnv \<times> trie_error option" where
  "transfer e src dst v =
     (let e = touch (touch e src) dst
      in if IsZero v then (e, None)
         else
           (case SubBalance (e_state e) (addrToU256 src) v of
              Inl err \<Rightarrow> (e, Some err)
            | Inr t \<Rightarrow> (e\<lparr>e_state := AddBalance t (addrToU256 dst) v\<rparr>, None)))"

text \<open>\<open>cleanTouchedEmptyAccounts\<close> iterates over two maps, in the orders \<open>ts\<close> and \<open>ss\<close>.\<close>

fun cleanTouched :: "(StateTrie \<Rightarrow> storageKey list) \<Rightarrow> Address list \<Rightarrow> vmEnv \<Rightarrow> vmEnv" where
  "cleanTouched so [] e = e"
| "cleanTouched so (a # as) e =
     cleanTouched so as
       (if emptyAccount e a then e\<lparr>e_state := SetAccount (so (e_state e)) (e_state e) (addrToU256 a) None\<rparr> else e)"

fun cleanSuicided :: "(StateTrie \<Rightarrow> storageKey list) \<Rightarrow> Address list \<Rightarrow> vmEnv \<Rightarrow> vmEnv" where
  "cleanSuicided so [] e = e"
| "cleanSuicided so (a # as) e =
     cleanSuicided so as
       (if a \<in> e_createdInTx e then e\<lparr>e_state := SetAccount (so (e_state e)) (e_state e) (addrToU256 a) None\<rparr> else e)"

definition cleanTouchedEmptyAccounts :: "(StateTrie \<Rightarrow> storageKey list) \<Rightarrow> Address list \<Rightarrow> Address list \<Rightarrow> vmEnv \<Rightarrow> vmEnv" where
  "cleanTouchedEmptyAccounts so ts ss e = cleanSuicided so ss (cleanTouched so ts e)"

definition rlpBytesEnc :: "bytes \<Rightarrow> bytes" where
  "rlpBytesEnc b = RlpEncodeBytes b"

definition rlpListEnc :: "bytes list \<Rightarrow> bytes" where
  "rlpListEnc items = RlpEncodeListHeader (length (concat items)) @ concat items"

definition rlpU64Enc :: "u64 \<Rightarrow> bytes" where
  "rlpU64Enc n = (if n = 0 then [0x80] else rlpBytesEnc (minBytes (unat n)))"

definition createAddress :: "Address \<Rightarrow> u64 \<Rightarrow> Address" where
  "createAddress sender nonce = drop 12 (Keccak256 (rlpListEnc [rlpBytesEnc sender, rlpU64Enc nonce]))"

definition create2Address :: "Address \<Rightarrow> Hash \<Rightarrow> Hash \<Rightarrow> Address" where
  "create2Address sender salt initHash = drop 12 (Keccak256 ([0xff] @ sender @ salt @ initHash))"

subsection \<open>The instructions of the host\<close>

definition isHostOp :: "byte \<Rightarrow> bool" where
  "isHostOp op \<longleftrightarrow> op \<ge> 0x30 \<and> op \<le> 0x48 \<or> op \<ge> 0xa0 \<and> op \<le> 0xa4 \<or>
     op \<in> {0xf0, 0xf1, 0xf2, 0xf3, 0xf4, 0xf5, 0xfa, 0xff}"

definition hostGas :: "byte \<Rightarrow> u64" where
  "hostGas op =
     (if op \<in> {0x30, 0x32, 0x33, 0x34, 0x36, 0x38, 0x3a, 0x3d, 0x41, 0x42, 0x43, 0x44, 0x45, 0x46, 0x48} then 2
      else if op = 0x35 then 3
      else if op \<in> {0x37, 0x39, 0x3e} then 3
      else if op \<in> {0x31, 0x3b, 0x3c, 0x3f} then 2600
      else if op = 0x40 then 20
      else if op = 0x47 then 5
      else if op \<in> {0xf0, 0xf5} then gasCreate
      else if op \<in> {0xf1, 0xf2, 0xf4, 0xfa} then gasCallWarm
      else if op = 0xf3 then 0
      else if op = 0xff then 5000
      else if op \<ge> 0xa0 \<and> op \<le> 0xa4 then gasLog
      else 0)"

text \<open>\<open>requireStack\<close>, \<open>requireRoom\<close>, \<open>asU64\<close> and \<open>chargeMem\<close> repeat the functions of the stepper; as there, \<open>Some\<close> of a
  halted frame is the result \<open>false\<close> of the first two.\<close>

definition hostRequireStack :: "frame \<Rightarrow> int \<Rightarrow> frame option" where
  "hostRequireStack f n = (if SP f < n then Some (f\<lparr>Status := StatusStackUnderflow, Gas := 0\<rparr>) else None)"

definition hostRequireRoom :: "frame \<Rightarrow> frame option" where
  "hostRequireRoom f = (if SP f \<ge> 1024 then Some (f\<lparr>Status := StatusStackOverflow, Gas := 0\<rparr>) else None)"

definition asU64 :: "Uint256 \<Rightarrow> u64 option" where
  "asU64 x = (if (w1 x OR w2 x OR w3 x) \<noteq> 0 then None else Some (w0 x))"

definition hostChargeMem :: "frame \<Rightarrow> u64 \<Rightarrow> u64 \<Rightarrow> frame option" where
  "hostChargeMem f offset sz =
     (if sz = 0 then Some f
      else if offset \<ge> 65536 \<or> sz > 65536 - offset then None
      else
        (let end = offset + sz;
             words = (end + 31) div 32;
             newSize = words * 32
         in if newSize > 65536 then None
            else if newSize \<le> ucast (MemorySize f) then Some f
            else
              (let oldWords = (ucast (MemorySize f) + 31) div 32;
                   oldCost = 3 * oldWords + oldWords * oldWords div 512;
                   newCost = 3 * words + words * words div 512
               in if newCost < oldCost \<or> Gas f < newCost - oldCost then None
                  else Some (f\<lparr>Gas := Gas f - (newCost - oldCost), MemorySize := ucast newSize\<rparr>))))"

definition haltOOG :: "frame \<Rightarrow> frame" where
  "haltOOG f = f\<lparr>Status := StatusOutOfGas, Gas := 0\<rparr>"

text \<open>\<open>f.Stack[f.SP] = v; f.SP++\<close> after \<open>requireRoom\<close>, and the replacement of the topmost word after \<open>requireStack(f, 1)\<close>.\<close>

definition hostPush :: "frame \<Rightarrow> Uint256 \<Rightarrow> frame option" where
  "hostPush f v = orElse (hostRequireRoom f) (do { f \<leftarrow> setStack f (SP f) v; Some (f\<lparr>SP := SP f + 1\<rparr>) })"

definition hostTop :: "frame \<Rightarrow> (Uint256 \<Rightarrow> Uint256) \<Rightarrow> frame option" where
  "hostTop f g = orElse (hostRequireStack f 1)
     (do { x \<leftarrow> stackAt f (SP f - 1); setStack f (SP f - 1) (g x) })"

text \<open>\<open>n\<close> bytes of \<open>src\<close> from the index \<open>off\<close>, which wraps at 64 bits, with zeros beyond its end.\<close>

definition padded :: "bytes \<Rightarrow> u64 \<Rightarrow> nat \<Rightarrow> bytes" where
  "padded src off n =
     map (\<lambda>i. let idx = off + of_nat i in if idx < of_nat (length src) then src ! unat idx else 0) [0..<n]"

definition copyBytes :: "frame \<Rightarrow> u64 \<Rightarrow> u64 \<Rightarrow> bytes \<Rightarrow> u64 \<Rightarrow> frame option" where
  "copyBytes f memOff sz src srcOff =
     (case hostChargeMem f memOff sz of
        None \<Rightarrow> Some (haltOOG f)
      | Some f \<Rightarrow>
          (let words = words32 (sint sz);
               cost = gasCopyWord * words
           in if Gas f < cost then Some (haltOOG f)
              else
                (let f = f\<lparr>Gas := Gas f - cost\<rparr>
                 in if sz = 0 then Some f
                    else memCopy f memOff (memOff + sz) (padded src srcOff (unat sz)))))"

definition opCopy :: "frame \<Rightarrow> bytes \<Rightarrow> frame option" where
  "opCopy f src = orElse (hostRequireStack f 3)
     (do { x1 \<leftarrow> stackAt f (SP f - 1);
           x2 \<leftarrow> stackAt f (SP f - 2);
           x3 \<leftarrow> stackAt f (SP f - 3);
           let f = f\<lparr>SP := SP f - 3\<rparr>
           in case (asU64 x1, asU64 x2, asU64 x3) of
                (Some memOff, Some dataOff, Some sz) \<Rightarrow> copyBytes f memOff sz src dataOff
              | _ \<Rightarrow> Some (haltOOG f) })"

definition opExtCopy :: "vmEnv \<Rightarrow> frame \<Rightarrow> frame option" where
  "opExtCopy e f = orElse (hostRequireStack f 4)
     (do { x1 \<leftarrow> stackAt f (SP f - 1);
           x2 \<leftarrow> stackAt f (SP f - 2);
           x3 \<leftarrow> stackAt f (SP f - 3);
           x4 \<leftarrow> stackAt f (SP f - 4);
           let f = f\<lparr>SP := SP f - 4\<rparr>
           in case (asU64 x2, asU64 x3, asU64 x4) of
                (Some memOff, Some codeOff, Some sz) \<Rightarrow> copyBytes f memOff sz (codeOf e (u256ToAddr x1)) codeOff
              | _ \<Rightarrow> Some (haltOOG f) })"

definition opReturn :: "frame \<Rightarrow> bool \<Rightarrow> frame option" where
  "opReturn f rvt = orElse (hostRequireStack f 2)
     (do { x1 \<leftarrow> stackAt f (SP f - 1);
           x2 \<leftarrow> stackAt f (SP f - 2);
           case (asU64 x1, asU64 x2) of
             (Some off, Some sz) \<Rightarrow>
               (case hostChargeMem f off sz of
                  None \<Rightarrow> Some (haltOOG f)
                | Some f \<Rightarrow> Some (f\<lparr>ReturnDataOffset := ucast off, ReturnDataSize := ucast sz, SP := SP f - 2,
                                  Status := (if rvt then StatusRevert else StatusSuccess)\<rparr>))
           | _ \<Rightarrow> Some (haltOOG f) })"

text \<open>The opcodes 0x30 to 0x48, which only read the environment.\<close>

definition callDataLoad :: "bytes \<Rightarrow> Uint256 \<Rightarrow> Uint256" where
  "callDataLoad data x = (case asU64 x of None \<Rightarrow> zero256 | Some off \<Rightarrow> FromBytesBE (padded data off 32))"

definition extCodeHash :: "vmEnv \<Rightarrow> Uint256 \<Rightarrow> Uint256" where
  "extCodeHash e x =
     (let a = u256ToAddr x
      in if emptyAccount e a then zero256 else FromBytesBE (CodeHash (accountOf e a)))"

definition hostRead :: "vmEnv \<Rightarrow> callParams \<Rightarrow> bytes \<Rightarrow> byte \<Rightarrow> frame \<Rightarrow> frame option" where
  "hostRead e p code op f =
     (if op = 0x30 then hostPush f (addrToU256 (cp_addr p))
      else if op = 0x31 then hostTop f (\<lambda>x. GetBalance (e_state e) (addrToU256 (u256ToAddr x)))
      else if op = 0x32 then hostPush f (addrToU256 (cp_origin p))
      else if op = 0x33 then hostPush f (addrToU256 (cp_caller p))
      else if op = 0x34 then hostPush f (cp_callVal p)
      else if op = 0x35 then hostTop f (callDataLoad (cp_data p))
      else if op = 0x36 then hostPush f (FromU64 (of_nat (length (cp_data p))))
      else if op = 0x37 then opCopy f (cp_data p)
      else if op = 0x38 then hostPush f (FromU64 (of_nat (length code)))
      else if op = 0x39 then opCopy f code
      else if op = 0x3a then hostPush f (e_gasPrice e)
      else if op = 0x3b then hostTop f (\<lambda>x. FromU64 (of_nat (length (codeOf e (u256ToAddr x)))))
      else if op = 0x3c then opExtCopy e f
      else if op = 0x3d then hostPush f (FromU64 (of_nat (length (e_retData e))))
      else if op = 0x3e then opCopy f (e_retData e)
      else if op = 0x3f then hostTop f (extCodeHash e)
      else if op = 0x40 then hostTop f (\<lambda>_. zero256)
      else if op = 0x41 then hostPush f (addrToU256 (h_Coinbase (e_header e)))
      else if op = 0x42 then hostPush f (FromU64 (h_Timestamp (e_header e)))
      else if op = 0x43 then hostPush f (FromU64 (h_Number (e_header e)))
      else if op = 0x44 then hostPush f (h_Difficulty (e_header e))
      else if op = 0x45 then hostPush f (FromU64 (h_GasLimit (e_header e)))
      else if op = 0x46 then hostPush f (h_ChainID (e_header e))
      else if op = 0x47 then hostPush f (GetBalance (e_state e) (addrToU256 (cp_addr p)))
      else hostPush f (h_BaseFee (e_header e)))"

definition opLog :: "vmEnv \<Rightarrow> frame \<Rightarrow> Address \<Rightarrow> nat \<Rightarrow> (vmEnv \<times> frame) option" where
  "opLog e f addr nTopics =
     (let need = 2 + int nTopics
      in case hostRequireStack f need of
           Some f \<Rightarrow> Some (e, f)
         | None \<Rightarrow>
             do { x1 \<leftarrow> stackAt f (SP f - 1);
                  x2 \<leftarrow> stackAt f (SP f - 2);
                  case (asU64 x1, asU64 x2) of
                    (Some off, Some sz) \<Rightarrow>
                      (case hostChargeMem f off sz of
                         None \<Rightarrow> Some (e, haltOOG f)
                       | Some f \<Rightarrow>
                           (let extra = of_nat nTopics * gasLogTopic + sz * gasLogData
                            in if Gas f < extra then Some (e, haltOOG f)
                               else
                                 (let f = f\<lparr>Gas := Gas f - extra\<rparr>
                                  in do { topics \<leftarrow> those (map (\<lambda>i. map_option BytesBE (stackAt f (SP f - 3 - int i))) [0..<nTopics]);
                                          data \<leftarrow> memSlice f off (off + sz);
                                          Some (e\<lparr>e_logs := e_logs e @ [\<lparr>l_Address = addr, l_Topics = topics, l_Data = data\<rparr>]\<rparr>,
                                                f\<lparr>SP := SP f - need\<rparr>) })))
                  | _ \<Rightarrow> Some (e, haltOOG f) })"

definition opSelfdestruct :: "(StateTrie \<Rightarrow> storageKey list) \<Rightarrow> vmEnv \<Rightarrow> frame \<Rightarrow> callParams \<Rightarrow> (vmEnv \<times> frame) option" where
  "opSelfdestruct so e f p =
     (case hostRequireStack f 1 of
        Some f \<Rightarrow> Some (e, f)
      | None \<Rightarrow>
          do { x \<leftarrow> stackAt f (SP f - 1);
               let beneficiary = u256ToAddr x;
                   f = f\<lparr>SP := SP f - 1\<rparr>;
                   bal = Balance (accountOf e (cp_addr p));
                   e = fst (transfer e (cp_addr p) beneficiary bal);
                   e = markSuicided (touch (touch e (cp_addr p)) beneficiary) (cp_addr p);
                   e = (if cp_addr p \<in> e_createdInTx e
                        then e\<lparr>e_state := SetAccount (so (e_state e)) (e_state e) (addrToU256 (cp_addr p)) None\<rparr> else e)
               in Some (e, f\<lparr>Status := StatusSuccess\<rparr>) })"

text \<open>\<open>opCreate\<close> and \<open>opCall\<close> take the function \<open>e.run\<close> as an argument.\<close>

type_synonym runner = "vmEnv \<Rightarrow> callParams \<Rightarrow> (bytes \<times> u64 \<times> bool \<times> vmEnv) outcome"

definition withFrame :: "vmEnv \<Rightarrow> frame option \<Rightarrow> (vmEnv \<times> frame) outcome" where
  "withFrame e r = (case r of None \<Rightarrow> Panic | Some f \<Rightarrow> Done (e, f))"

definition createParams :: "callParams \<Rightarrow> Address \<Rightarrow> Uint256 \<Rightarrow> bytes \<Rightarrow> u64 \<Rightarrow> bool \<Rightarrow> callParams" where
  "createParams p dest v init fwd is2 =
     \<lparr>cp_caller = cp_addr p, cp_addr = dest, cp_codeAddr = zeroAddress, cp_origin = cp_origin p, cp_value = v,
      cp_callVal = v, cp_data = [], cp_code = init, cp_gas = fwd, cp_readOnly = False,
      cp_kind = (if is2 then 0xf5 else 0xf0)\<rparr>"

text \<open>The part of \<open>opCreate\<close> after the memory has been charged.\<close>

definition createIn :: "runner \<Rightarrow> vmEnv \<Rightarrow> frame \<Rightarrow> callParams \<Rightarrow> bool \<Rightarrow> Uint256 \<Rightarrow> Hash \<Rightarrow> bytes \<Rightarrow> (vmEnv \<times> frame) outcome" where
  "createIn rec e f p is2 v salt init =
     (let nonce = getNonce e (cp_addr p);
          e = setNonce e (cp_addr p) (nonce + 1);
          dest = (if is2 then create2Address (cp_addr p) salt (Keccak256 init) else createAddress (cp_addr p) nonce)
      in if \<not> emptyAccount e dest \<and> length (codeOf e dest) \<noteq> 0 then withFrame e (hostPush f zero256)
         else
           (let fwd = eip150 (Gas f);
                f = f\<lparr>Gas := Gas f - fwd\<rparr>
            in seq (rec e (createParams p dest v init fwd is2)) (\<lambda>(_, left, ok, e).
                 let f = f\<lparr>Gas := Gas f + left\<rparr>
                 in withFrame e (hostPush f (if ok then addrToU256 dest else zero256)))))"

definition opCreate :: "runner \<Rightarrow> vmEnv \<Rightarrow> frame \<Rightarrow> callParams \<Rightarrow> bool \<Rightarrow> (vmEnv \<times> frame) outcome" where
  "opCreate rec e f p is2 =
     (let n = (if is2 then 4 else 3)
      in case hostRequireStack f n of
           Some f \<Rightarrow> Done (e, f)
         | None \<Rightarrow>
             seq (lift (do { v \<leftarrow> stackAt f (SP f - 1); x2 \<leftarrow> stackAt f (SP f - 2); x3 \<leftarrow> stackAt f (SP f - 3);
                             x4 \<leftarrow> (if is2 then stackAt f (SP f - 4) else Some zero256); Some (v, x2, x3, x4) }))
             (\<lambda>(v, x2, x3, x4).
               case (asU64 x2, asU64 x3) of
                 (Some off, Some sz) \<Rightarrow>
                   (let salt = (if is2 then BytesBE x4 else replicate 32 0);
                        f = f\<lparr>SP := SP f - n\<rparr>
                    in case hostChargeMem f off sz of
                         None \<Rightarrow> Done (e, haltOOG f)
                       | Some f \<Rightarrow>
                           if sz > maxInitSize then Done (e, haltOOG f)
                           else
                             (let words = words32 (sint sz)
                              in if Gas f < words * 2 then Done (e, haltOOG f)
                                 else
                                   (let f = f\<lparr>Gas := Gas f - words * 2\<rparr>
                                    in seq (lift (memSlice f off (off + sz))) (createIn rec e f p is2 v salt))))
               | _ \<Rightarrow> Done (e, haltOOG f)))"

definition callParamsOf :: "vmEnv \<Rightarrow> callParams \<Rightarrow> byte \<Rightarrow> Address \<Rightarrow> Uint256 \<Rightarrow> bytes \<Rightarrow> u64 \<Rightarrow> callParams" where
  "callParamsOf e p kind dest v input fwd =
     (let caller = (if kind = 0xf4 then cp_caller p else cp_addr p);
          cval = (if kind = 0xf4 then cp_callVal p else v);
          callee = (if kind = 0xf4 \<or> kind = 0xf2 then cp_addr p else dest)
      in \<lparr>cp_caller = caller, cp_addr = callee, cp_codeAddr = dest, cp_origin = cp_origin p, cp_value = cval,
          cp_callVal = cval, cp_data = input, cp_code = codeOf e dest, cp_gas = fwd,
          cp_readOnly = cp_readOnly p \<or> kind = 0xfa, cp_kind = kind\<rparr>)"

text \<open>The end of \<open>opCall\<close>: the returned bytes go to the memory, the success to the stack.\<close>

definition afterCall :: "frame \<Rightarrow> bytes \<Rightarrow> bool \<Rightarrow> u64 \<Rightarrow> u64 \<Rightarrow> frame option" where
  "afterCall f ret ok outOff outSz =
     (let ncopy = (if of_nat (length ret) > outSz then outSz else of_nat (length ret))
      in do { f \<leftarrow> (if ncopy > 0 then memCopy f outOff (outOff + ncopy) (take (unat ncopy) ret) else Some f);
              hostPush f (if ok then FromU64 1 else zero256) })"

text \<open>The part of \<open>opCall\<close> from the charge for the value on.\<close>

definition callIn :: "runner \<Rightarrow> vmEnv \<Rightarrow> frame \<Rightarrow> callParams \<Rightarrow> byte \<Rightarrow> u64 \<Rightarrow> Address \<Rightarrow> Uint256 \<Rightarrow> u64 \<Rightarrow> u64 \<Rightarrow> u64 \<Rightarrow> u64 \<Rightarrow>
    (vmEnv \<times> frame) outcome" where
  "callIn rec e f p kind reqGas dest v inOff inSz outOff outSz =
     (let extra = (if \<not> IsZero v then gasCallValue + (if emptyAccount e dest then gasNewAccount else 0) else 0)
      in if Gas f < extra then Done (e, haltOOG f)
         else
           (let f = f\<lparr>Gas := Gas f - extra\<rparr>;
                fwd = callGas (Gas f) reqGas;
                f = f\<lparr>Gas := Gas f - fwd\<rparr>;
                fwd = (if \<not> IsZero v then fwd + gasCallStipend else fwd)
            in seq (lift (memSlice f inOff (inOff + inSz))) (\<lambda>input.
               seq (rec e (callParamsOf e p kind dest v input fwd)) (\<lambda>(ret, left, ok, e).
                 withFrame e (afterCall (f\<lparr>Gas := Gas f + left\<rparr>) ret ok outOff outSz)))))"

definition opCall :: "runner \<Rightarrow> vmEnv \<Rightarrow> frame \<Rightarrow> callParams \<Rightarrow> byte \<Rightarrow> (vmEnv \<times> frame) outcome" where
  "opCall rec e f p kind =
     (let n = (if kind = 0xf4 \<or> kind = 0xfa then 6 else 7);
          idx = (if kind = 0xf1 \<or> kind = 0xf2 then 4 else 3)
      in case hostRequireStack f n of
           Some f \<Rightarrow> Done (e, f)
         | None \<Rightarrow>
             seq (lift (do { x0 \<leftarrow> stackAt f (SP f - 1); xto \<leftarrow> stackAt f (SP f - 2);
                             v \<leftarrow> (if kind = 0xf1 \<or> kind = 0xf2 then stackAt f (SP f - 3) else Some zero256);
                             x1 \<leftarrow> stackAt f (SP f - idx); x2 \<leftarrow> stackAt f (SP f - idx - 1);
                             x3 \<leftarrow> stackAt f (SP f - idx - 2); x4 \<leftarrow> stackAt f (SP f - idx - 3);
                             Some (x0, xto, v, x1, x2, x3, x4) }))
             (\<lambda>(x0, xto, v, x1, x2, x3, x4).
               let f = f\<lparr>SP := SP f - n\<rparr>
               in case (asU64 x0, asU64 x1, asU64 x2, asU64 x3, asU64 x4) of
                    (Some reqGas, Some inOff, Some inSz, Some outOff, Some outSz) \<Rightarrow>
                      (case hostChargeMem f inOff inSz of
                         None \<Rightarrow> Done (e, haltOOG f)
                       | Some f \<Rightarrow>
                           (case hostChargeMem f outOff outSz of
                              None \<Rightarrow> Done (e, haltOOG f)
                            | Some f \<Rightarrow>
                                if kind = 0xfa \<and> \<not> IsZero v then Done (e, haltOOG f)
                                else if cp_readOnly p \<and> \<not> IsZero v
                                then Done (e, f\<lparr>Status := StatusInvalidOpcode, Gas := 0\<rparr>)
                                else callIn rec e f p kind reqGas (u256ToAddr xto) v inOff inSz outOff outSz))
                  | _ \<Rightarrow> Done (e, haltOOG f)))"

definition execHost :: "runner \<Rightarrow> (StateTrie \<Rightarrow> storageKey list) \<Rightarrow> vmEnv \<Rightarrow> frame \<Rightarrow> callParams \<Rightarrow> bytes \<Rightarrow> byte \<Rightarrow> (vmEnv \<times> frame) outcome" where
  "execHost rec so e f p code op =
     (let cost = hostGas op
      in if Gas f < cost then Done (e, haltOOG f)
         else
           (let f = f\<lparr>Gas := Gas f - cost, PC := PC f + 1\<rparr>
            in if 0x30 \<le> op \<and> op \<le> 0x48 then withFrame e (hostRead e p code op f)
               else if 0xa0 \<le> op \<and> op \<le> 0xa4 then lift (opLog e f (cp_addr p) (unat (op - 0xa0)))
               else if op = 0xf3 then withFrame e (opReturn f False)
               else if op = 0xf0 then opCreate rec e f p False
               else if op = 0xf5 then opCreate rec e f p True
               else if op \<in> {0xf1, 0xf2, 0xf4, 0xfa} then opCall rec e f p op
               else if op = 0xff then lift (opSelfdestruct so e f p)
               else Done (e, f\<lparr>Status := StatusInvalidOpcode, Gas := 0\<rparr>)))"

subsection \<open>Calls\<close>

definition stepBound :: "vmEnv \<Rightarrow> frame \<Rightarrow> bytes \<Rightarrow> (vmEnv \<times> frame) option" where
  "stepBound e f code =
     map_option (\<lambda>f'. (case StateDB f' of None \<Rightarrow> e | Some b \<Rightarrow> e\<lparr>e_state := bs_trie b\<rparr>, f'))
       (StepOne boundGet boundSet code
          (f\<lparr>StateDB := map_option (\<lambda>b. b\<lparr>bs_trie := e_state e\<rparr>) (StateDB f)\<rparr>))"

text \<open>The opcodes that \<open>execFrame\<close> refuses in a static call.\<close>

definition writesState :: "byte \<Rightarrow> bool" where
  "writesState op \<longleftrightarrow> op = 0x55 \<or> op = 0xf0 \<or> op = 0xf5 \<or> op = 0xff \<or> 0xa0 \<le> op \<and> op \<le> 0xa4"

text \<open>The end of \<open>execFrame\<close>: the returned bytes and the status.\<close>

definition frameResult :: "frame \<Rightarrow> (bytes \<times> Status) option" where
  "frameResult f =
     (if Status f = StatusSuccess \<or> Status f = StatusRevert then
        (let off = ucast (ReturnDataOffset f) :: u64; sz = ucast (ReturnDataSize f) :: u64
         in if sz = 0 then Some ([], Status f)
            else
              (let end = off + sz
               in if end > 65536 then Some ([], StatusOutOfGas)
                  else do { ret \<leftarrow> memSlice f off end; Some (ret, Status f) }))
      else Some ([], Status f))"

text \<open>The marks that \<open>run\<close> takes at its entry, and the five statements that undo everything since.\<close>

record marks =
  mk_rev :: nat
  mk_log :: nat
  mk_touch :: nat
  mk_create :: nat
  mk_suicide :: nat

definition takeMarks :: "vmEnv \<Rightarrow> vmEnv \<times> marks" where
  "takeMarks e =
     (let (t, rev) = Snapshot (e_state e)
      in (e\<lparr>e_state := t\<rparr>,
          \<lparr>mk_rev = rev, mk_log = length (e_logs e), mk_touch = length (e_touchJournal e),
           mk_create = length (e_createJournal e), mk_suicide = length (e_suicideJournal e)\<rparr>))"

definition rollback :: "vmEnv \<Rightarrow> marks \<Rightarrow> vmEnv option" where
  "rollback e m =
     do { t \<leftarrow> RevertToSnapshot (e_state e) (int (mk_rev m));
          let e = e\<lparr>e_state := t, e_logs := take (mk_log m) (e_logs e)\<rparr>
          in Some (revertSuicided (revertCreated (revertTouched e (mk_touch m)) (mk_create m)) (mk_suicide m)) }"

definition isCreate :: "callParams \<Rightarrow> bool" where
  "isCreate p \<longleftrightarrow> cp_kind p = 0xf0 \<or> cp_kind p = 0xf5"

text \<open>\<open>run\<close> up to the transfer, and after \<open>execFrame\<close>.\<close>

definition enterCall :: "vmEnv \<Rightarrow> callParams \<Rightarrow> vmEnv \<times> marks \<times> trie_error option" where
  "enterCall e p =
     (let (e, m) = takeMarks e;
          e = (if isCreate p then markCreated e (cp_addr p) else e);
          e = touch (touch e (cp_caller p)) (cp_addr p);
          (e, err) = (if cp_kind p \<noteq> 0xf4 then transfer e (cp_caller p) (cp_addr p) (cp_callVal p) else (e, None))
      in (e, m, err))"

definition refuse :: "vmEnv \<Rightarrow> marks \<Rightarrow> u64 \<Rightarrow> (bytes \<times> u64 \<times> bool \<times> vmEnv) outcome" where
  "refuse e m gas = seq (lift (rollback e m)) (\<lambda>e. Done ([], gas, False, e))"

definition leaveCall :: "vmEnv \<Rightarrow> frame \<Rightarrow> callParams \<Rightarrow> marks \<Rightarrow> (bytes \<times> u64 \<times> bool \<times> vmEnv) outcome" where
  "leaveCall e f p m =
     seq (lift (frameResult f)) (\<lambda>(ret, status).
       let wrote = (case StateDB f of None \<Rightarrow> False | Some b \<Rightarrow> bs_wrote b);
           status = (if wrote then StatusInvalidOpcode else status);
           gas = (if wrote then 0 else Gas f)
       in if status \<noteq> StatusSuccess then
            seq (lift (rollback e m)) (\<lambda>e.
              Done (ret, if status = StatusRevert then gas else 0, False, e\<lparr>e_retData := ret\<rparr>))
          else
            (let e = e\<lparr>e_refund := e_refund e + Refund f\<rparr>
             in if isCreate p then
                  if cp_addr p \<in> e_suicided e then Done ([], gas, True, e\<lparr>e_retData := []\<rparr>)
                  else if length ret > maxCodeSize then refuse e m 0
                  else
                    (let deposit = of_nat (length ret) * gasCodeDeposit
                     in if gas < deposit then refuse e m 0
                        else
                          (let e = markCreated (setNonce (setCode e (cp_addr p) ret) (cp_addr p) 1) (cp_addr p)
                           in Done (ret, gas - deposit, True, e\<lparr>e_retData := ret\<rparr>)))
                else Done (ret, gas, True, e\<lparr>e_retData := ret\<rparr>)))"

definition newFrame :: "vmEnv \<Rightarrow> callParams \<Rightarrow> frame" where
  "newFrame e p =
     \<lparr>Stack = (\<lambda>_. zero256), SP = 0, PC = 0, Gas = cp_gas p, Refund = 0, Status = StatusRunning,
      Memory = (\<lambda>_. 0), MemorySize = 0, ReturnDataOffset = 0, ReturnDataSize = 0,
      StateDB = Some \<lparr>bs_trie = e_state e, bs_addr = addrToU256 (cp_addr p), bs_readOnly = cp_readOnly p, bs_wrote = False\<rparr>\<rparr>"

text \<open>The deferred \<open>e.depth--\<close>.\<close>

definition leaveDepth :: "(bytes \<times> u64 \<times> bool \<times> vmEnv) outcome \<Rightarrow> (bytes \<times> u64 \<times> bool \<times> vmEnv) outcome" where
  "leaveDepth r = seq r (\<lambda>(ret, left, ok, e). Done (ret, left, ok, e\<lparr>e_depth := e_depth e - 1\<rparr>))"

fun run :: "nat \<Rightarrow> (StateTrie \<Rightarrow> storageKey list) \<Rightarrow> vmEnv \<Rightarrow> callParams \<Rightarrow> (bytes \<times> u64 \<times> bool \<times> vmEnv) outcome"
  and execFrame :: "nat \<Rightarrow> (StateTrie \<Rightarrow> storageKey list) \<Rightarrow> vmEnv \<Rightarrow> frame \<Rightarrow> callParams \<Rightarrow> bytes \<Rightarrow> (vmEnv \<times> frame) outcome"
where
  "run 0 so e p = NoFuel"
| "run (Suc n) so e p =
     (if e_depth e \<ge> maxCallDepth then Done ([], cp_gas p, False, e)
      else leaveDepth
        (let (e, m, err) = enterCall (e\<lparr>e_depth := e_depth e + 1\<rparr>) p
         in if err \<noteq> None then refuse e m (cp_gas p)
            else
              (let pcAddr = (if cp_codeAddr p \<noteq> zeroAddress then cp_codeAddr p else cp_addr p)
               in case (if isCreate p then None else isPrecompile pcAddr) of
                    Some i \<Rightarrow>
                      seq (RunPrecompile i (cp_data p) (cp_gas p)) (\<lambda>(out, g, perr).
                        if perr \<noteq> None then refuse e m 0
                        else Done (out, g, True, e\<lparr>e_retData := out\<rparr>))
                  | None \<Rightarrow>
                      (let code = (if isCreate p \<or> cp_kind p = 0xf2 \<or> cp_kind p = 0xf4 then cp_code p else codeOf e (cp_addr p))
                       in if length code = 0 \<and> \<not> isCreate p then Done ([], cp_gas p, True, e\<lparr>e_retData := []\<rparr>)
                          else seq (execFrame n so e (newFrame e p) p code) (\<lambda>(e, f). leaveCall e f p m)))))"
| "execFrame 0 so e f p code = NoFuel"
| "execFrame (Suc n) so e f p code =
     (if Status f \<noteq> StatusRunning then Done (e, f)
      else if unat (PC f) \<ge> length code then Done (e, f\<lparr>Status := StatusSuccess\<rparr>)
      else
        (let op = code ! unat (PC f)
         in if cp_readOnly p \<and> writesState op then Done (e, f\<lparr>Status := StatusInvalidOpcode, Gas := 0\<rparr>)
            else if isHostOp op then
              seq (execHost (\<lambda>e p. run n so e p) so e f p code op) (\<lambda>(e, f). execFrame n so e f p code)
            else
              seq (lift (stepBound e f code)) (\<lambda>(e, f). execFrame n so e f p code)))"

end
