(* ===== verification/Call_Correct.thy ===== *)
theory Call_Correct
  imports Call_Context
begin

text \<open>
  The message calls of \<open>Call_Context\<close>: gas and termination, the undoing of failed calls, static
  calls, and the sum of all balances.
\<close>

section \<open>Frames\<close>

text \<open>The helpers of the host are those of the stepper.\<close>

lemma host_helpers:
  "hostRequireStack f n = requireStack f n" "hostRequireRoom f = requireRoom f" "asU64 x = u256AsU64 x"
  "haltOOG f = haltEx f StatusOutOfGas" "hostPush f v = pushValue f v"
  by (simp_all add: hostRequireStack_def requireStack_def hostRequireRoom_def requireRoom_def asU64_def u256AsU64_def
      haltOOG_def haltEx_def hostPush_def pushValue_def)

lemma hostChargeMem_eq: "hostChargeMem f off sz = chargeMem f off sz"
  by (simp add: hostChargeMem_def chargeMem_def memGas_def Let_def)

text \<open>A computation that, if it returns, keeps the frame well-formed and its database, and adds no gas.\<close>

definition keeps :: "frame \<Rightarrow> frame option \<Rightarrow> bool" where
  "keeps f r \<longleftrightarrow> (\<forall>f'. r = Some f' \<longrightarrow> frame_ok f' \<and> Gas f' \<le> Gas f \<and> StateDB f' = StateDB f)"

lemma keeps_halt: "frame_ok f \<Longrightarrow> Gas f \<le> Gas g \<Longrightarrow> StateDB f = StateDB g \<Longrightarrow> keeps g (Some (haltEx f st))"
  by (simp add: keeps_def haltEx_def frame_ok_def)

lemma keeps_require:
  assumes "frame_ok f" "n \<le> SP f \<Longrightarrow> keeps f r"
  shows "keeps f (orElse (requireStack f n) r)"
  using assms keeps_halt [of f f] by (simp add: orElse_def requireStack_def)

lemma keeps_bind: "(\<And>v. x = Some v \<Longrightarrow> keeps f (k v)) \<Longrightarrow> keeps f (x \<bind> k)"
  by (auto simp: keeps_def bind_eq_Some_conv)

lemma keeps_push: "frame_ok f \<Longrightarrow> keeps f (pushValue f v)"
  by (auto simp: keeps_def pushValue_def step_defs haltEx_def frame_ok_def split: if_splits)

lemma keeps_top: "frame_ok f \<Longrightarrow> keeps f (hostTop f g)"
  by (auto simp: keeps_def hostTop_def host_helpers step_defs haltEx_def frame_ok_def split: if_splits)

lemma keeps_trans: "keeps g r \<Longrightarrow> Gas g \<le> Gas f \<Longrightarrow> StateDB g = StateDB f \<Longrightarrow> keeps f r"
  by (auto simp: keeps_def intro: order_trans)

lemma chargeMem_db: "chargeMem f off sz = Some g \<Longrightarrow> StateDB g = StateDB f"
  by (auto simp: chargeMem_def Let_def split: if_splits)

lemma keeps_charge:
  assumes "frame_ok f" "\<And>g. \<lbrakk>chargeMem f off sz = Some g; frame_ok g; Gas g \<le> Gas f; StateDB g = StateDB f; SP g = SP f\<rbrakk> \<Longrightarrow> keeps g (k g)"
  shows "keeps f (case chargeMem f off sz of None \<Rightarrow> Some (haltEx f st) | Some g \<Rightarrow> k g)"
proof (cases "chargeMem f off sz")
  case None
  then show ?thesis using assms(1) by (simp add: keeps_halt)
next
  case (Some g)
  note ok = chargeMem_ok [OF assms(1) Some]
  show ?thesis using Some assms(2) [OF Some ok(1,2) chargeMem_db [OF Some]] ok(2) chargeMem_db [OF Some] chargeMem_keeps [OF Some]
    by (auto intro: keeps_trans)
qed

lemma keeps_memCopy: "frame_ok f \<Longrightarrow> keeps f (memCopy f lo hi bs)"
  by (simp add: keeps_def memCopy_def frame_ok_def)

lemma gas_sub_le: "c \<le> g \<Longrightarrow> g - c \<le> (g :: u64)"
  by (rule word_sub_le)

lemma keeps_copyBytes:
  assumes "frame_ok f"
  shows "keeps f (copyBytes f memOff sz src srcOff)"
  unfolding copyBytes_def hostChargeMem_eq host_helpers
proof (rule keeps_charge [OF assms])
  fix g :: frame
  let ?c = "gasCopyWord * words32 (sint sz)"
  assume g: "frame_ok g"
  show "keeps g (let words = words32 (sint sz); cost = gasCopyWord * words
     in if Gas g < cost then Some (haltEx g StatusOutOfGas)
        else let f = g\<lparr>Gas := Gas g - cost\<rparr>
             in if sz = 0 then Some f else memCopy f memOff (memOff + sz) (padded src srcOff (unat sz)))"
    using g keeps_halt [of g g] keeps_trans [OF keeps_memCopy, of "g\<lparr>Gas := Gas g - ?c\<rparr>" g] gas_sub_le [of ?c "Gas g"]
    by (auto simp: Let_def not_less keeps_def [of _ "Some (_\<lparr>Gas := _\<rparr>)"])
qed

text \<open>Three words as 64-bit numbers.\<close>

lemma keeps_u64:
  assumes "frame_ok f" "\<And>n. x = Some n \<Longrightarrow> keeps f (k n)"
  shows "keeps f (case x of None \<Rightarrow> Some (haltEx f st) | Some n \<Rightarrow> k n)"
  using assms keeps_halt [of f f] by (cases x) simp_all

lemma frame_ok_pop [simp]: "frame_ok f \<Longrightarrow> 0 \<le> k \<Longrightarrow> k \<le> SP f \<Longrightarrow> frame_ok (f\<lparr>SP := SP f - k\<rparr>)"
  by (simp add: frame_ok_def)

lemma keeps_popped:
  assumes "frame_ok f" "0 \<le> k" "k \<le> SP f" "\<And>g. frame_ok g \<Longrightarrow> keeps g (r g)"
  shows "keeps f (r (f\<lparr>SP := SP f - k\<rparr>))"
  by (rule keeps_trans [OF assms(4)]) (use assms in simp_all)

lemma keeps_opCopy: 
  assumes "frame_ok f"
  shows "keeps f (opCopy f src)"
  unfolding opCopy_def host_helpers Let_def
proof (intro keeps_require keeps_bind assms)
  fix x1 x2 x3
  assume "3 \<le> SP f"
  then show "keeps f (case (u256AsU64 x1, u256AsU64 x2, u256AsU64 x3) of
      (Some memOff, Some dataOff, Some sz) \<Rightarrow> copyBytes (f\<lparr>SP := SP f - 3\<rparr>) memOff sz src dataOff
    | _ \<Rightarrow> Some (haltEx (f\<lparr>SP := SP f - 3\<rparr>) StatusOutOfGas))"
    using assms by (auto intro!: keeps_popped keeps_halt keeps_copyBytes split: option.splits)
qed

lemma keeps_opExtCopy: 
  assumes "frame_ok f"
  shows "keeps f (opExtCopy e f)"
  unfolding opExtCopy_def host_helpers Let_def
proof (intro keeps_require keeps_bind assms)
  fix x1 x2 x3 x4
  assume "4 \<le> SP f"
  then show "keeps f (case (u256AsU64 x2, u256AsU64 x3, u256AsU64 x4) of
      (Some memOff, Some codeOff, Some sz) \<Rightarrow> copyBytes (f\<lparr>SP := SP f - 4\<rparr>) memOff sz (codeOf e (u256ToAddr x1)) codeOff
    | _ \<Rightarrow> Some (haltEx (f\<lparr>SP := SP f - 4\<rparr>) StatusOutOfGas))"
    using assms by (auto intro!: keeps_popped keeps_halt keeps_copyBytes split: option.splits)
qed

lemma keeps_hostRead: "frame_ok f \<Longrightarrow> keeps f (hostRead e p code op f)"
  unfolding hostRead_def by (simp add: host_helpers keeps_push keeps_top keeps_opCopy keeps_opExtCopy)

lemma keeps_opReturn: 
  assumes "frame_ok f"
  shows "keeps f (opReturn f r)"
  unfolding opReturn_def host_helpers hostChargeMem_eq
proof (intro keeps_require keeps_bind assms)
  fix x1 x2
  assume sp: "2 \<le> SP f"
  show "keeps f (case (u256AsU64 x1, u256AsU64 x2) of
      (Some off, Some sz) \<Rightarrow>
        (case chargeMem f off sz of None \<Rightarrow> Some (haltEx f StatusOutOfGas)
         | Some f \<Rightarrow> Some (f\<lparr>ReturnDataOffset := ucast off, ReturnDataSize := ucast sz, SP := SP f - 2,
                          Status := if r then StatusRevert else StatusSuccess\<rparr>))
    | _ \<Rightarrow> Some (haltEx f StatusOutOfGas))"
    by (cases "u256AsU64 x1"; cases "u256AsU64 x2")
      (use assms sp in \<open>auto intro!: keeps_charge keeps_halt simp: keeps_def [of _ "Some (_\<lparr>Status := _\<rparr>)"] frame_ok_def\<close>)
qed

lemma opReturn_halts: "opReturn f r = Some f' \<Longrightarrow> Status f' \<noteq> StatusRunning"
  by (auto simp: opReturn_def host_helpers step_defs haltEx_def split: if_splits option.splits)


text \<open>Among the instructions of the stepper only SSTORE changes the database, by one \<open>put\<close>.\<close>

definition same_db :: "'db ExecutionFrame \<Rightarrow> 'db ExecutionFrame option \<Rightarrow> bool" where
  "same_db f r \<longleftrightarrow> (\<forall>f'. r = Some f' \<longrightarrow> StateDB f' = StateDB f)"

lemma chargeMem_same_db: "chargeMem f off sz = Some g \<Longrightarrow> StateDB g = StateDB f"
  by (auto simp: chargeMem_def Let_def split: if_splits)

lemma stack_same_db: "setStack f i v = Some g \<Longrightarrow> StateDB g = StateDB f" "memCopy f lo hi bs = Some g \<Longrightarrow> StateDB g = StateDB f"
  by (auto simp: setStack_def memCopy_def split: if_splits)

lemmas db_defs = same_db_def orElse_def requireStack_def requireRoom_def haltEx_def Let_def bind_eq_Some_conv

lemma same_db_plain:
  "same_db f (execBinop f fn)" "same_db f (execCmp f cf)" "same_db f (execTernop f fn3)" "same_db f (execUnop f fn1)"
  "same_db f (step_pop f)" "same_db f (step_signextend f)" "same_db f (step_byte f)" "same_db f (step_exp f)"
  "same_db f (pushValue f v)" "same_db f (execPush f code n)" "same_db f (step_sload get f)"
  "same_db f (step_dup op f)" "same_db f (step_swap op f)"
  by (auto simp: db_defs execBinop_def execCmp_def execTernop_def execUnop_def step_pop_def step_signextend_def
      step_byte_def step_exp_def pushValue_def execPush_def step_sload_def step_dup_def step_swap_def
      dest!: stack_same_db split: if_splits option.splits prod.splits)

lemma same_db_jumps: "same_db f (step_jump code f)" "same_db f (step_jumpi code f)"
  by (auto simp: db_defs step_jump_def step_jumpi_def dest!: stack_same_db split: if_splits option.splits)

lemma same_db_intros:
  "same_db f r \<Longrightarrow> same_db f (orElse (requireStack f n) r)"
  "(\<And>v. x = Some v \<Longrightarrow> same_db f (k v)) \<Longrightarrow> same_db f (x \<bind> k)"
  "same_db f r \<Longrightarrow> (\<And>v. x = Some v \<Longrightarrow> same_db f (k v)) \<Longrightarrow> same_db f (case x of None \<Rightarrow> r | Some v \<Rightarrow> k v)"
  by (auto simp: db_defs split: option.splits)

lemma same_db_memory:
  "same_db f (step_mload f)" "same_db f (step_mstore f)" "same_db f (step_mstore8 f)" "same_db f (step_keccak f)"
  "same_db f (step_revert f)"
  unfolding step_mload_def step_mstore_def step_mstore8_def step_keccak_def step_revert_def
  by (intro same_db_intros; auto simp: db_defs dest!: stack_same_db chargeMem_same_db split: if_splits)+

lemma same_db_groups: "same_db f (step_arith op f)" "same_db f (step_logic op f)"
  unfolding step_arith_def step_logic_def by (simp_all add: same_db_plain) (auto simp: db_defs)?


lemma step_sstore_db:
  assumes "step_sstore get put f = Some f'"
  shows "StateDB f' = StateDB f \<or> (\<exists>db k v. StateDB f = Some db \<and> StateDB f' = Some (put db zeroAddr k v))"
proof (cases "StateDB f")
  case None
  then show ?thesis using assms by (auto simp: step_sstore_def db_defs split: if_splits)
next
  case (Some db)
  then have "same_db (f\<lparr>StateDB := Some (put db zeroAddr k v)\<rparr>)
      (Some ((if c then f\<lparr>StateDB := Some (put db zeroAddr k v), Refund := r\<rparr> else f\<lparr>StateDB := Some (put db zeroAddr k v)\<rparr>)\<lparr>SP := i\<rparr>))"
    for k v c r i by (simp add: same_db_def)
  then show ?thesis using assms Some
    by (cases "SP f < 2"; auto simp: step_sstore_def db_defs split del: if_split; blast)
qed

lemma same_db_dispatch:
  assumes "op \<noteq> 0x55"
  shows "same_db f (dispatch get put op code f)"
  unfolding dispatch_def using assms
  by (simp add: same_db_plain same_db_jumps same_db_memory same_db_groups) (auto simp: db_defs)

lemma StepOne_db:
  assumes "StepOne get put code f = Some f'"
  shows "StateDB f' = StateDB f \<or> (Status f = StatusRunning \<and> unat (PC f) < length code \<and> code ! unat (PC f) = 0x55 \<and>
    (\<exists>db k v. StateDB f = Some db \<and> StateDB f' = Some (put db zeroAddr k v)))"
proof (cases "Status f = StatusRunning \<and> unat (PC f) < length code")
  case True
  let ?op = "code ! unat (PC f)"
  let ?g = "f\<lparr>Gas := Gas f - opGas ?op, PC := PC f + 1\<rparr>"
  consider "StateDB f' = StateDB f" | "dispatch get put ?op code ?g = Some f'"
    using assms True by (auto simp: StepOne_def Let_def haltEx_def split: if_splits)
  then show ?thesis
  proof cases
    case 2
    show ?thesis
    proof (cases "?op = 0x55")
      case True
      then have "step_sstore get put ?g = Some f'" using 2 by (simp add: dispatch_def)
      then show ?thesis using step_sstore_db [of get put ?g f'] True \<open>Status f = StatusRunning \<and> _\<close> by auto
    next
      case False
      then show ?thesis using same_db_dispatch [OF False, of ?g get put code] 2 by (simp add: same_db_def)
    qed
  qed simp
qed (use assms in \<open>auto simp: StepOne_def split: if_splits\<close>)

section \<open>The state\<close>

text \<open>The sum of all balances.\<close>

definition balOf :: "StateTrie \<Rightarrow> Uint256 \<Rightarrow> nat" where
  "balOf t a = (case accounts t a of None \<Rightarrow> 0 | Some acc \<Rightarrow> uval (Balance acc))"

definition totalSupply :: "StateTrie \<Rightarrow> nat" where
  "totalSupply t = (\<Sum>a \<in> dom (accounts t). balOf t a)"

lemma supply_cong: "accounts t' = accounts t \<Longrightarrow> totalSupply t' = totalSupply t"
  by (simp add: totalSupply_def balOf_def)

lemma balOf_le_supply: "finite (dom (accounts t)) \<Longrightarrow> balOf t a \<le> totalSupply t"
  unfolding totalSupply_def by (cases "a \<in> dom (accounts t)") (auto intro: member_le_sum simp: balOf_def domIff)

lemma supply_split:
  assumes "finite (dom (accounts t))"
  shows "totalSupply t = balOf t a + (\<Sum>x \<in> dom (accounts t) - {a}. balOf t x)"
proof (cases "a \<in> dom (accounts t)")
  case False
  then have "balOf t a = 0" by (auto simp: balOf_def domIff)
  then show ?thesis using False by (simp add: totalSupply_def)
qed (use assms in \<open>simp add: totalSupply_def sum.remove\<close>)

lemma supply_update:
  assumes "finite (dom (accounts t))" "accounts t' = (accounts t)(a := x)"
  shows "totalSupply t' + balOf t a = totalSupply t + balOf t' a"
proof -
  have "finite (dom (accounts t'))" "dom (accounts t') - {a} = dom (accounts t) - {a}" using assms by (auto split: if_splits)
  moreover have "(\<Sum>y \<in> dom (accounts t) - {a}. balOf t' y) = (\<Sum>y \<in> dom (accounts t) - {a}. balOf t y)"
    using assms(2) by (intro sum.cong) (simp_all add: balOf_def)
  ultimately show ?thesis using supply_split [of t a] supply_split [of t' a] assms(1) by simp
qed

lemma accounts_clearStorage [simp]: "accounts (clearStorage a ks t) = accounts t"
  using clearStorage_journaled by blast

lemma accounts_SetAccount: "accounts (SetAccount ks t a acc) = (accounts t)(normalizeAddr (Some a) := acc)"
  by (cases acc) (simp_all add: SetAccount_def Let_def)

lemma accounts_AddBalance:
  "accounts (AddBalance t a v) = accounts t \<and> IsZero v \<or>
   (\<exists>acc. accounts (AddBalance t a v) = (accounts t)(normalizeAddr (Some a) \<mapsto> acc) \<and>
     Balance acc = Add256 (GetBalance t a) v)"
  by (auto simp: AddBalance_def ensureAccount_def Let_def GetBalance_def split: option.splits simp del: normalizeAddr.simps)

lemma accounts_SubBalance:
  assumes "SubBalance t a v = Inr t'"
  shows "uval v \<le> balOf t (normalizeAddr (Some a))"
    "accounts t' = accounts t \<and> uval v = 0 \<or> (\<exists>acc. accounts t' = (accounts t)(normalizeAddr (Some a) \<mapsto> acc) \<and>
      uval (Balance acc) = balOf t (normalizeAddr (Some a)) - uval v)"
  using assms
  by (auto simp: SubBalance_def ensureAccount_def Let_def balOf_def Cmp_less uval_Sub256_le IsZero_iff uval_eq_0_iff
      split: option.splits if_splits simp del: normalizeAddr.simps)


lemma supply_AddBalance:
  assumes "finite (dom (accounts t))" "totalSupply t + uval v < 2 ^ 256"
  shows "totalSupply (AddBalance t a v) = totalSupply t + uval v"
  using accounts_AddBalance [of t a v]
proof (elim disjE exE conjE)
  fix acc
  assume acc: "accounts (AddBalance t a v) = (accounts t)(normalizeAddr (Some a) \<mapsto> acc)" "Balance acc = Add256 (GetBalance t a) v"
  have "uval (GetBalance t a) = balOf t (normalizeAddr (Some a))"
    by (simp add: GetBalance_def balOf_def split: option.splits)
  moreover have "balOf t (normalizeAddr (Some a)) \<le> totalSupply t" by (rule balOf_le_supply [OF assms(1)])
  ultimately have "uval (Balance acc) = balOf t (normalizeAddr (Some a)) + uval v"
    using assms(2) acc(2) by (simp add: uval_Add256)
  moreover have "balOf (AddBalance t a v) (normalizeAddr (Some a)) = uval (Balance acc)"
    unfolding balOf_def using acc(1) by simp
  ultimately show ?thesis using supply_update [OF assms(1) acc(1)] by simp
qed (simp add: totalSupply_def balOf_def)

lemma supply_SubBalance:
  assumes "finite (dom (accounts t))" "SubBalance t a v = Inr t'"
  shows "totalSupply t' + uval v = totalSupply t"
  using accounts_SubBalance(2) [OF assms(2)]
proof (elim disjE exE conjE)
  fix acc
  assume acc: "accounts t' = (accounts t)(normalizeAddr (Some a) \<mapsto> acc)"
    "uval (Balance acc) = balOf t (normalizeAddr (Some a)) - uval v"
  have "balOf t' (normalizeAddr (Some a)) = uval (Balance acc)" unfolding balOf_def using acc(1) by simp
  then show ?thesis
    using supply_update [OF assms(1) acc(1)] acc(2) accounts_SubBalance(1) [OF assms(2)]
      balOf_le_supply [OF assms(1), of "normalizeAddr (Some a)"] by linarith
qed (simp add: totalSupply_def balOf_def)

lemma supply_delete:
  assumes "finite (dom (accounts t))"
  shows "totalSupply (SetAccount ks t a None) \<le> totalSupply t"
  using supply_update [OF assms accounts_SetAccount, of ks a None]
  by (simp add: balOf_def [of "SetAccount ks t a None"] accounts_SetAccount del: normalizeAddr.simps)

lemma supply_SetAccount:
  assumes "finite (dom (accounts t))" "uval (Balance acc) = balOf t (normalizeAddr (Some a))"
  shows "totalSupply (SetAccount ks t a (Some acc)) = totalSupply t"
  using supply_update [OF assms(1) accounts_SetAccount, of ks a "Some acc"] assms(2)
  by (simp add: balOf_def [of "SetAccount ks t a (Some acc)"] accounts_SetAccount del: normalizeAddr.simps)

text \<open>Steps of the trie keep the domain of the accounts finite and the open snapshots open.\<close>

lemma finite_dom_upd: "finite (dom m) \<Longrightarrow> finite (dom (m(a := x)))"
  by (cases x) simp_all

lemma finite_foldr_revert: "finite (dom (accounts t)) \<Longrightarrow> finite (dom (accounts (foldr applyRevert es t)))"
proof (induction es)
  case (Cons x es)
  show ?case
  proof (cases x)
    case (journalAcc a prev)
    have "accounts (foldr applyRevert (x # es) t) = (accounts (foldr applyRevert es t))(a := prev)"
      unfolding journalAcc by simp
    then show ?thesis using finite_dom_upd [OF Cons.IH [OF Cons.prems]] by metis
  qed (use Cons in simp)
qed simp

lemma trie_step_finite: "trie_step b t t' \<Longrightarrow> finite (dom (accounts t)) \<Longrightarrow> finite (dom (accounts t'))"
proof (induction rule: trie_step.induct)
  case (set_account t order a acc)
  then show ?case unfolding accounts_SetAccount by (rule finite_dom_upd)
next
  case (add_balance t a d)
  then show ?case using accounts_AddBalance [of t a d] by (metis finite_dom_upd)
next
  case (sub_balance t a d t')
  then show ?case using accounts_SubBalance(2) [OF sub_balance.hyps] by (metis finite_dom_upd)
next
  case (revert r t t')
  then show ?case
    by (auto simp: RevertToSnapshot_def Let_def finite_foldr_revert split: if_splits)
qed (auto simp: SetStorage_def Snapshot_def DiscardSnapshot_def Let_def)

lemma trie_step_open: "trie_step b t t' \<Longrightarrow> b < int (length (reverts t)) \<Longrightarrow> b < int (length (reverts t'))"
proof (induction rule: trie_step.induct)
  case (set_account t order a acc)
  then show ?case by (simp add: j_SetAccount.reverts_same)
next
  case (add_balance t a d)
  then show ?case by (simp add: j_AddBalance.reverts_same)
next
  case (sub_balance t a d t')
  then show ?case using j_SubBalance.reverts_same [of t a d] by simp
next
  case (set_storage t a k v)
  then show ?case by (simp add: j_SetStorage.reverts_same)
qed (auto simp: Snapshot_def RevertToSnapshot_def DiscardSnapshot_def Let_def split: if_splits)

lemma trie_step_weaken: "trie_step b t t' \<Longrightarrow> c \<le> b \<Longrightarrow> trie_step c t t'"
proof (induction rule: trie_step.induct)
  case (revert r t t')
  then show ?case by (intro trie_step.revert [of c r]) simp_all
qed (auto intro: trie_step.intros)

lemma trie_steps_weaken: "(trie_step b)\<^sup>*\<^sup>* t t' \<Longrightarrow> c \<le> b \<Longrightarrow> (trie_step c)\<^sup>*\<^sup>* t t'"
  by (induction rule: rtranclp_induct) (auto intro: trie_step_weaken rtranclp.rtrancl_into_rtrancl)

lemma trie_steps_keep:
  assumes "(trie_step b)\<^sup>*\<^sup>* t t'"
  shows "journal_ok t \<Longrightarrow> journal_ok t'" "finite (dom (accounts t)) \<Longrightarrow> finite (dom (accounts t'))"
    "b < int (length (reverts t)) \<Longrightarrow> b < int (length (reverts t'))"
  using assms by (induction rule: rtranclp_induct) (auto intro: journal_ok_step trie_step_finite trie_step_open)


section \<open>The environment\<close>

text \<open>The three sets are those of the addresses in their journals.\<close>

definition tracked :: "vmEnv \<Rightarrow> bool" where
  "tracked e \<longleftrightarrow> e_touched e = set (e_touchJournal e) \<and> distinct (e_touchJournal e) \<and>
     e_createdInTx e = set (e_createJournal e) \<and> distinct (e_createJournal e) \<and>
     e_suicided e = set (e_suicideJournal e) \<and> distinct (e_suicideJournal e)"

definition env_ok :: "vmEnv \<Rightarrow> bool" where
  "env_ok e \<longleftrightarrow> journal_ok (e_state e) \<and> finite (dom (accounts (e_state e))) \<and> tracked e"

text \<open>
  What may happen to the environment while the snapshot \<open>b\<close> is open: the state takes steps that keep the
  snapshot, logs and journals grow, the sum of balances does not, and under \<open>ro\<close> (a static call)
  accounts, storage and logs stay as they are.
\<close>

definition evolves :: "bool \<Rightarrow> int \<Rightarrow> vmEnv \<Rightarrow> vmEnv \<Rightarrow> bool" where
  "evolves ro b e e' \<longleftrightarrow> (trie_step b)\<^sup>*\<^sup>* (e_state e) (e_state e') \<and> tracked e' \<and>
     (\<exists>l. e_logs e' = e_logs e @ l \<and> (ro \<longrightarrow> l = [])) \<and> (\<exists>l. e_touchJournal e' = e_touchJournal e @ l) \<and>
     (\<exists>l. e_createJournal e' = e_createJournal e @ l) \<and> (\<exists>l. e_suicideJournal e' = e_suicideJournal e @ l) \<and>
     e_depth e' = e_depth e \<and> e_header e' = e_header e \<and> e_origin e' = e_origin e \<and> e_gasPrice e' = e_gasPrice e \<and>
     (ro \<longrightarrow> world (e_state e') = world (e_state e)) \<and>
     (totalSupply (e_state e) < 2 ^ 256 \<longrightarrow> totalSupply (e_state e') \<le> totalSupply (e_state e))"

lemma evolves_ok: "evolves ro b e e' \<Longrightarrow> env_ok e \<Longrightarrow> env_ok e'"
  using trie_steps_keep [of b "e_state e" "e_state e'"] by (simp add: evolves_def env_ok_def)

lemma evolves_open:
  "evolves ro b e e' \<Longrightarrow> b < int (length (reverts (e_state e))) \<Longrightarrow> b < int (length (reverts (e_state e')))"
  using trie_steps_keep(3) [of b "e_state e" "e_state e'"] by (simp add: evolves_def)

lemma evolves_refl: "tracked e \<Longrightarrow> evolves ro b e e"
  by (simp add: evolves_def)

lemma evolves_trans:
  assumes 1: "evolves ro b e e'" and 2: "evolves ro b e' e''"
  shows "evolves ro b e e''"
proof -
  have "(trie_step b)\<^sup>*\<^sup>* (e_state e) (e_state e'')" using 1 2 unfolding evolves_def by (metis rtranclp_trans)
  moreover have "\<exists>l. e_logs e'' = e_logs e @ l \<and> (ro \<longrightarrow> l = [])" using 1 2 unfolding evolves_def by fastforce
  moreover have "\<exists>l. e_touchJournal e'' = e_touchJournal e @ l" "\<exists>l. e_createJournal e'' = e_createJournal e @ l"
    "\<exists>l. e_suicideJournal e'' = e_suicideJournal e @ l" using 1 2 unfolding evolves_def by fastforce+
  moreover have "totalSupply (e_state e) < 2 ^ 256 \<longrightarrow> totalSupply (e_state e'') \<le> totalSupply (e_state e)"
    using 1 2 unfolding evolves_def by linarith
  moreover have "tracked e''" "e_depth e'' = e_depth e" "e_header e'' = e_header e" "e_origin e'' = e_origin e"
    "e_gasPrice e'' = e_gasPrice e" "ro \<longrightarrow> world (e_state e'') = world (e_state e)"
    using 1 2 unfolding evolves_def by simp_all
  ultimately show ?thesis unfolding evolves_def by (intro conjI)
qed

lemma evolves_weaken: "evolves ro b e e' \<Longrightarrow> ro' \<longrightarrow> ro \<Longrightarrow> c \<le> b \<Longrightarrow> evolves ro' c e e'"
  using trie_steps_weaken [of b "e_state e" "e_state e'" c] by (auto simp: evolves_def)

text \<open>The elementary changes.\<close>

lemma evolves_touch: "tracked e \<Longrightarrow> evolves ro b e (touch e a)"
  by (auto simp: evolves_def touch_def tracked_def)

lemma evolves_markCreated: "tracked e \<Longrightarrow> evolves ro b e (markCreated e a)"
  by (auto simp: evolves_def markCreated_def tracked_def)

lemma evolves_markSuicided: "tracked e \<Longrightarrow> evolves ro b e (markSuicided e a)"
  by (auto simp: evolves_def markSuicided_def tracked_def)

lemma evolves_outputs: "tracked e \<Longrightarrow> evolves ro b e (e\<lparr>e_retData := d, e_refund := r\<rparr>)"
  "tracked e \<Longrightarrow> evolves ro b e (e\<lparr>e_retData := d\<rparr>)" "tracked e \<Longrightarrow> evolves ro b e (e\<lparr>e_refund := r\<rparr>)"
  by (simp_all add: evolves_def tracked_def)

lemma evolves_log: "tracked e \<Longrightarrow> evolves False b e (e\<lparr>e_logs := e_logs e @ [l]\<rparr>)"
  by (simp add: evolves_def tracked_def)

lemma evolves_state:
  assumes "tracked e" "(trie_step b)\<^sup>*\<^sup>* (e_state e) t" "totalSupply (e_state e) < 2 ^ 256 \<Longrightarrow> totalSupply t \<le> totalSupply (e_state e)"
  shows "evolves False b e (e\<lparr>e_state := t\<rparr>)"
  using assms by (simp add: evolves_def tracked_def)

lemma evolves_tracked: "evolves ro b e e' \<Longrightarrow> tracked e'"
  by (simp add: evolves_def)


lemma balance_accountOf:
  "uval (Balance (accountOf e a)) = balOf (e_state e) (normalizeAddr (Some (addrToU256 a)))"
  by (simp add: accountOf_def GetAccount_def balOf_def zeroAccount_def split: option.splits)

lemma evolves_setNonce: "env_ok e \<Longrightarrow> evolves False b e (setNonce e a n)"
  unfolding setNonce_def
  by (intro evolves_state) (auto simp: env_ok_def supply_SetAccount balance_accountOf simp del: normalizeAddr.simps
      intro: trie_step.set_account)

lemma evolves_setCode: "env_ok e \<Longrightarrow> evolves False b e (setCode e a code)"
  unfolding setCode_def
  by (intro evolves_state) (auto simp: env_ok_def supply_SetAccount balance_accountOf simp del: normalizeAddr.simps
      intro: trie_step.set_account)

lemma evolves_delete: "env_ok e \<Longrightarrow> evolves False b e (e\<lparr>e_state := SetAccount ks (e_state e) a None\<rparr>)"
  by (intro evolves_state) (auto simp: env_ok_def supply_delete intro: trie_step.set_account)

lemma evolves_transfer:
  assumes "env_ok e" "ro \<longrightarrow> IsZero v"
  shows "evolves ro b e (fst (transfer e src dst v))"
proof -
  define g where "g = touch (touch e src) dst"
  have g: "evolves ro b e g"
    unfolding g_def using assms(1) by (intro evolves_trans [OF evolves_touch evolves_touch]) (auto simp: env_ok_def touch_def tracked_def)
  show ?thesis
  proof (cases "IsZero v")
    case False
    show ?thesis
    proof (cases "SubBalance (e_state g) (addrToU256 src) v")
      case (Inr t)
      have ok: "env_ok g" by (rule evolves_ok [OF g assms(1)])
      then have fin: "finite (dom (accounts (e_state g)))" by (simp add: env_ok_def)
      have st: "trie_step b (e_state g) t" by (rule trie_step.sub_balance [OF Inr])
      have "totalSupply (AddBalance t (addrToU256 dst) v) \<le> totalSupply (e_state g)" if "totalSupply (e_state g) < 2 ^ 256"
        using supply_SubBalance [OF fin Inr] that supply_AddBalance [OF trie_step_finite [OF st fin], of v "addrToU256 dst"] by simp
      moreover have "(trie_step b)\<^sup>*\<^sup>* (e_state g) (AddBalance t (addrToU256 dst) v)"
        using st trie_step.add_balance by (metis converse_rtranclp_into_rtranclp rtranclp.rtrancl_refl)
      ultimately have "evolves False b g (g\<lparr>e_state := AddBalance t (addrToU256 dst) v\<rparr>)"
        using ok by (intro evolves_state) (simp_all add: env_ok_def)
      moreover have "\<not> ro" using False assms(2) by blast
      ultimately have "evolves ro b e (g\<lparr>e_state := AddBalance t (addrToU256 dst) v\<rparr>)" using evolves_trans [OF g] by simp
      then show ?thesis using Inr False by (simp add: transfer_def Let_def g_def)
    qed (use g False in \<open>simp add: transfer_def Let_def g_def\<close>)
  qed (use g in \<open>simp add: transfer_def Let_def g_def\<close>)
qed

lemma takeMarks_eq:
  assumes "takeMarks e = (e1, m)"
  shows "e1 = e\<lparr>e_state := fst (Snapshot (e_state e))\<rparr>" "mk_rev m = length (reverts (e_state e))" "mk_log m = length (e_logs e)"
    "mk_touch m = length (e_touchJournal e)" "mk_create m = length (e_createJournal e)" "mk_suicide m = length (e_suicideJournal e)"
  using assms by (auto simp: takeMarks_def Snapshot_def)

lemma evolves_takeMarks:
  assumes "takeMarks e = (e1, m)" "tracked e"
  shows "evolves ro b e e1"
proof -
  have "trie_step b (e_state e) (fst (Snapshot (e_state e)))" by (rule trie_step.snapshot [OF surjective_pairing])
  then have "(trie_step b)\<^sup>*\<^sup>* (e_state e) (fst (Snapshot (e_state e)))" by blast
  then show ?thesis using assms(2) unfolding takeMarks_eq(1) [OF assms(1)]
    by (simp add: evolves_def tracked_def Snapshot_def world_def totalSupply_def balOf_def)
qed

text \<open>Rolling back restores everything but the return data and the refund counter.\<close>

lemma rollback_restores:
  assumes ok: "env_ok e" and m: "takeMarks e = (e1, m)" and ev: "evolves ro (int (mk_rev m)) e1 e2"
  shows "rollback e2 m = Some (e\<lparr>e_retData := e_retData e2, e_refund := e_refund e2\<rparr>)"
proof -
  note mk = takeMarks_eq [OF m]
  have "Snapshot (e_state e) = (e_state e1, mk_rev m)" using mk by (simp add: Snapshot_def)
  then have st: "RevertToSnapshot (e_state e2) (int (mk_rev m)) = Some (e_state e)"
    using ok ev by (intro snapshot_revert [of _ "e_state e1"]) (simp_all add: env_ok_def evolves_def)
  obtain l1 l2 l3 l4 where l: "e_logs e2 = e_logs e @ l1" "e_touchJournal e2 = e_touchJournal e @ l2"
      "e_createJournal e2 = e_createJournal e @ l3" "e_suicideJournal e2 = e_suicideJournal e @ l4"
    using ev mk(1) unfolding evolves_def by auto
  have same: "e_depth e2 = e_depth e" "e_header e2 = e_header e" "e_origin e2 = e_origin e" "e_gasPrice e2 = e_gasPrice e"
    using ev mk(1) unfolding evolves_def by simp_all
  have sets: "e_touched e2 - set l2 = e_touched e" "e_createdInTx e2 - set l3 = e_createdInTx e" "e_suicided e2 - set l4 = e_suicided e"
    using evolves_tracked [OF ev] ok l by (auto simp: tracked_def env_ok_def)
  show ?thesis using st l sets same mk
    by (cases e; cases e2) (simp add: rollback_def revertTouched_def revertCreated_def revertSuicided_def)
qed


section \<open>Entering and leaving a call\<close>

text \<open>A call that must not change the state.\<close>

definition static :: "callParams \<Rightarrow> bool" where
  "static p \<longleftrightarrow> cp_readOnly p \<and> \<not> isCreate p \<and> (cp_kind p = 0xf4 \<or> IsZero (cp_callVal p))"

lemma enterCall_spec:
  assumes "env_ok e" "enterCall e p = (e2, m, err)"
  obtains e1 where "takeMarks e = (e1, m)" "env_ok e1" "\<And>b. evolves (static p) b e1 e2"
proof -
  obtain e1 m' where tm: "takeMarks e = (e1, m')" by fastforce
  define g where "g = touch (touch (if isCreate p then markCreated e1 (cp_addr p) else e1) (cp_caller p)) (cp_addr p)"
  have ok: "env_ok e1" using evolves_ok [OF evolves_takeMarks [OF tm]] assms(1) by (simp add: env_ok_def)
  then have tr: "tracked e1" by (simp add: env_ok_def)
  have "evolves (static p) b e1 (if isCreate p then markCreated e1 (cp_addr p) else e1)" for b
    using tr by (simp add: evolves_markCreated evolves_refl)
  then have g: "evolves (static p) b e1 g" for b
    unfolding g_def using evolves_trans evolves_touch evolves_tracked by meson
  have r: "m' = m" "e2 = fst (if cp_kind p \<noteq> 0xf4 then transfer g (cp_caller p) (cp_addr p) (cp_callVal p) else (g, None))"
    using assms(2) unfolding enterCall_def tm g_def Let_def by (auto split: prod.splits)
  have "evolves (static p) b e1 e2" for b
  proof (cases "cp_kind p = 0xf4")
    case False
    then have "evolves (static p) b g (fst (transfer g (cp_caller p) (cp_addr p) (cp_callVal p)))"
      using evolves_ok [OF g ok] by (intro evolves_transfer) (simp_all add: static_def)
    then show ?thesis using evolves_trans [OF g] r(2) False by simp
  qed (use g r(2) in simp)
  then show ?thesis using that tm ok r(1) by blast
qed

text \<open>What a finished call promises: \<open>e0\<close> is the environment before it.\<close>

definition call_result :: "bool \<Rightarrow> int \<Rightarrow> vmEnv \<Rightarrow> u64 \<Rightarrow> u64 \<Rightarrow> bool \<Rightarrow> vmEnv \<Rightarrow> bool" where
  "call_result ro b e0 gas left ok e' \<longleftrightarrow> left \<le> gas \<and> evolves ro b e0 e' \<and>
     (\<not> ok \<longrightarrow> (\<exists>d r. e' = e0\<lparr>e_retData := d, e_refund := r\<rparr>))"

lemma refuse_spec:
  assumes "env_ok e0" "takeMarks e0 = (e1, m)" "evolves ro (int (mk_rev m)) e1 e" "g \<le> gas"
  shows "\<exists>e'. refuse e m g = Done ([], g, False, e') \<and> call_result ro b e0 gas g False e'"
  using rollback_restores [OF assms(1-3)] assms(1,4) evolves_outputs(1) [of e0 ro b]
  by (auto simp: refuse_def call_result_def env_ok_def)

lemma success_spec:
  assumes "env_ok e0" "takeMarks e0 = (e1, m)" "evolves ro (int (mk_rev m)) e1 e" "g \<le> gas" "b < int (length (reverts (e_state e0)))"
  shows "call_result ro b e0 gas g True e"
proof -
  have "b \<le> int (mk_rev m)" using assms(5) takeMarks_eq(2) [OF assms(2)] by simp
  then have "evolves ro b e1 e" using evolves_weaken [OF assms(3)] by blast
  then show ?thesis using evolves_trans [OF evolves_takeMarks [OF assms(2)]] assms(1,4) by (simp add: call_result_def env_ok_def)
qed

lemma leaveCall_spec:
  assumes ok: "env_ok e0" and m: "takeMarks e0 = (e1, m)" and ev: "evolves (static p) (int (mk_rev m)) e1 e"
    and b: "b < int (length (reverts (e_state e0)))" and gas: "Gas f \<le> gas"
  shows "leaveCall e f p m \<noteq> NoFuel"
    "leaveCall e f p m = Done (ret, left, k, e') \<Longrightarrow> call_result (static p) b e0 gas left k e'"
proof -
  define P where "P = (\<lambda>r :: (bytes \<times> u64 \<times> bool \<times> vmEnv) outcome. r \<noteq> NoFuel \<and> (\<forall>ret left k e'. r = Done (ret, left, k, e') \<longrightarrow> call_result (static p) b e0 gas left k e'))"
  have tr: "tracked e" by (rule evolves_tracked [OF ev])
  have ok1: "env_ok e1" using evolves_ok [OF evolves_takeMarks [OF m]] ok by (simp add: env_ok_def)
  note rf = refuse_spec [OF ok m]
  have success: "P (Done (r, g, True, e3))" if "evolves (static p) (int (mk_rev m)) e e3" "g \<le> gas" for r g e3
    using success_spec [OF ok m evolves_trans [OF ev that(1)] that(2) b] by (simp add: P_def)
  have failed: "P (seq (lift (rollback e m)) (\<lambda>e. Done (r, g, False, e\<lparr>e_retData := r\<rparr>)))" if "g \<le> gas" for r g
  proof -
    have sw: "e0\<lparr>e_refund := x, e_retData := y\<rparr> = e0\<lparr>e_retData := y, e_refund := x\<rparr>" for x y by simp
    show ?thesis
      using rollback_restores [OF ok m ev] that ok evolves_outputs(1) [of e0 "static p" b]
      by (auto simp: call_result_def env_ok_def sw P_def)
  qed
  define e2 where "e2 = e\<lparr>e_refund := e_refund e + Refund f\<rparr>"
  have e2: "evolves (static p) (int (mk_rev m)) e e2" unfolding e2_def by (rule evolves_outputs(3) [OF tr])
  have tr2: "tracked e2" by (rule evolves_tracked [OF e2])
  have refused: "P (refuse e2 m 0)" using rf [OF evolves_trans [OF ev e2], of 0 gas b] by (auto simp: P_def)
  have created: "evolves (static p) (int (mk_rev m)) e
      ((markCreated (setNonce (setCode e2 (cp_addr p) r) (cp_addr p) 1) (cp_addr p))\<lparr>e_retData := r\<rparr>)" if "isCreate p" for r
  proof -
    have ns: "static p = False" using that by (simp add: static_def)
    have ok2: "env_ok e2" by (rule evolves_ok [OF e2 evolves_ok [OF ev ok1]])
    have 1: "evolves False (int (mk_rev m)) e2 (setCode e2 (cp_addr p) r)" by (rule evolves_setCode [OF ok2])
    have 2: "evolves False (int (mk_rev m)) (setCode e2 (cp_addr p) r) (setNonce (setCode e2 (cp_addr p) r) (cp_addr p) 1)"
      by (rule evolves_setNonce [OF evolves_ok [OF 1 ok2]])
    note 3 = evolves_markCreated [OF evolves_tracked [OF 2], of False "int (mk_rev m)" "cp_addr p"]
    note 4 = evolves_outputs(2) [OF evolves_tracked [OF 3], of False "int (mk_rev m)" r]
    show ?thesis unfolding ns
      by (rule evolves_trans [OF e2 [unfolded ns] evolves_trans [OF 1 evolves_trans [OF 2 evolves_trans [OF 3 4]]]])
  qed
  have plain: "evolves (static p) (int (mk_rev m)) e (e2\<lparr>e_retData := r\<rparr>)" for r
    by (rule evolves_trans [OF e2 evolves_outputs(2) [OF tr2]])
  have "P (leaveCall e f p m)"
  proof (cases "frameResult f")
    case (Some rs)
    obtain r st where rs: "rs = (r, st)" by fastforce
    define wrote where "wrote = (case StateDB f of None \<Rightarrow> False | Some b \<Rightarrow> bs_wrote b)"
    define st' where "st' = (if wrote then StatusInvalidOpcode else st)"
    define g where "g = (if wrote then 0 else Gas f)"
    have g0: "g \<le> gas" using gas by (simp add: g_def)
    have g: "g - d \<le> gas" if "\<not> g < d" for d :: u64
      using g0 that gas_sub_le [of d g] by (simp add: not_less)
    have eq: "leaveCall e f p m =
       (if st' \<noteq> StatusSuccess then seq (lift (rollback e m)) (\<lambda>e. Done (r, if st' = StatusRevert then g else 0, False, e\<lparr>e_retData := r\<rparr>))
        else if isCreate p then
          if cp_addr p \<in> e_suicided e2 then Done ([], g, True, e2\<lparr>e_retData := []\<rparr>)
          else if length r > maxCodeSize then refuse e2 m 0
          else if g < of_nat (length r) * gasCodeDeposit then refuse e2 m 0
          else Done (r, g - of_nat (length r) * gasCodeDeposit, True,
                 (markCreated (setNonce (setCode e2 (cp_addr p) r) (cp_addr p) 1) (cp_addr p))\<lparr>e_retData := r\<rparr>)
        else Done (r, g, True, e2\<lparr>e_retData := r\<rparr>))"
      by (simp only: leaveCall_def Some rs lift.simps seq.simps prod.case Let_def wrote_def [symmetric] st'_def [symmetric]
          g_def [symmetric] e2_def [symmetric])
    show ?thesis unfolding eq
      using success [OF plain] success [OF created] refused failed g g0
      by (cases "st' = StatusSuccess"; cases "isCreate p"; cases "cp_addr p \<in> e_suicided e2"; cases "length r > maxCodeSize";
          cases "g < of_nat (length r) * gasCodeDeposit") simp_all
  qed (simp add: leaveCall_def P_def)
  then show "leaveCall e f p m \<noteq> NoFuel"
    "leaveCall e f p m = Done (ret, left, k, e') \<Longrightarrow> call_result (static p) b e0 gas left k e'" unfolding P_def by blast+
qed


section \<open>Instructions\<close>

text \<open>What an instruction of the host leaves: at most \<open>g\<close> gas, the same database, an environment that has evolved.\<close>

definition host_result :: "bool \<Rightarrow> int \<Rightarrow> vmEnv \<Rightarrow> frame \<Rightarrow> vmEnv \<times> frame \<Rightarrow> bool" where
  "host_result ro b e f r \<longleftrightarrow> frame_ok (snd r) \<and> Gas (snd r) \<le> Gas f \<and> StateDB (snd r) = StateDB f \<and> evolves ro b e (fst r)"

lemma host_keeps: "keeps f r \<Longrightarrow> r = Some f' \<Longrightarrow> tracked e \<Longrightarrow> host_result ro b e f (e, f')"
  by (simp add: keeps_def host_result_def evolves_refl)

lemma host_halt: "\<lbrakk>frame_ok g; Gas g \<le> Gas f; StateDB g = StateDB f; tracked e\<rbrakk> \<Longrightarrow> host_result ro b e f (e, haltEx g st)"
  by (simp add: host_result_def evolves_refl haltEx_def frame_ok_def)

lemma opLog_spec:
  assumes "frame_ok f" "tracked e" "opLog e f a n = Some r"
  shows "host_result False b e f r"
proof (cases "2 + int n \<le> SP f")
  case True
  obtain x1 x2 where x: "opLog e f a n = (case (u256AsU64 x1, u256AsU64 x2) of (Some off, Some sz) \<Rightarrow>
      (case chargeMem f off sz of None \<Rightarrow> Some (e, haltEx f StatusOutOfGas)
       | Some g \<Rightarrow> let extra = of_nat n * gasLogTopic + sz * gasLogData in
           if Gas g < extra then Some (e, haltEx g StatusOutOfGas)
           else let g = g\<lparr>Gas := Gas g - extra\<rparr> in
             do { topics \<leftarrow> those (map (\<lambda>i. map_option BytesBE (stackAt g (SP g - 3 - int i))) [0..<n]);
                  data \<leftarrow> memSlice g off (off + sz);
                  Some (e\<lparr>e_logs := e_logs e @ [\<lparr>l_Address = a, l_Topics = topics, l_Data = data\<rparr>]\<rparr>, g\<lparr>SP := SP g - (2 + int n)\<rparr>) })
    | _ \<Rightarrow> Some (e, haltEx f StatusOutOfGas))"
    using True stackAt_ok [OF assms(1), of 1] stackAt_ok [OF assms(1), of 2]
    unfolding opLog_def host_helpers hostChargeMem_eq Let_def by (simp add: requireStack_def)
  show ?thesis
  proof (cases "u256AsU64 x1 = None \<or> u256AsU64 x2 = None")
    case True
    then have "r = (e, haltEx f StatusOutOfGas)" using assms(3) unfolding x by (auto split: option.splits)
    then show ?thesis using assms by (simp add: host_halt)
  next
    case False
    then obtain off sz where u: "u256AsU64 x1 = Some off" "u256AsU64 x2 = Some sz" by auto
    show ?thesis
    proof (cases "chargeMem f off sz")
      case None
      then show ?thesis using assms u unfolding x by (auto intro: host_halt)
    next
      case (Some g)
      note g = chargeMem_ok [OF assms(1) Some] chargeMem_db [OF Some] chargeMem_keeps [OF Some]
      let ?x = "of_nat n * gasLogTopic + sz * gasLogData"
      show ?thesis
      proof (cases "Gas g < ?x")
        case False
        then have "Gas g - ?x \<le> Gas f" using g(2) gas_sub_le [of ?x "Gas g"] by (simp add: not_less)
        then show ?thesis using assms(2,3) u Some False True g evolves_log [OF assms(2)] \<open>2 + int n \<le> SP f\<close> unfolding x
          by (auto simp: Let_def bind_eq_Some_conv host_result_def frame_ok_def)
      qed (use assms u Some g in \<open>auto simp: x Let_def intro: host_halt\<close>)
    qed
  qed
qed (use assms in \<open>auto simp: opLog_def host_helpers requireStack_def Let_def intro: host_halt\<close>)

lemma opSelfdestruct_spec:
  assumes "frame_ok f" "env_ok e" "opSelfdestruct so e f p = Some r"
  shows "host_result False b e f r"
proof (cases "SP f < 1")
  case False
  define x where "x = u256ToAddr (Stack f (nat (SP f - 1)))"
  define e1 where "e1 = fst (transfer e (cp_addr p) x (Balance (accountOf e (cp_addr p))))"
  define e2 where "e2 = markSuicided (touch (touch e1 (cp_addr p)) x) (cp_addr p)"
  define e3 where "e3 = (if cp_addr p \<in> e_createdInTx e2
      then e2\<lparr>e_state := SetAccount (so (e_state e2)) (e_state e2) (addrToU256 (cp_addr p)) None\<rparr> else e2)"
  have r: "r = (e3, f\<lparr>SP := SP f - 1, Status := StatusSuccess\<rparr>)"
    using assms(3) False stackAt_ok [OF assms(1), of 1]
    unfolding opSelfdestruct_def host_helpers Let_def e3_def e2_def e1_def x_def
    by (auto simp: requireStack_def split del: if_split)
  have 1: "evolves False b e e1" unfolding e1_def using assms(2) by (intro evolves_transfer) simp_all
  have 2: "evolves False b e1 e2"
    unfolding e2_def using evolves_tracked [OF 1] by (meson evolves_trans evolves_touch evolves_markSuicided evolves_tracked)
  have 12: "evolves False b e e2" by (rule evolves_trans [OF 1 2])
  have "evolves False b e2 e3"
    unfolding e3_def using evolves_delete [OF evolves_ok [OF 12 assms(2)]] evolves_refl [OF evolves_tracked [OF 12]] by simp
  then have "evolves False b e e3" by (rule evolves_trans [OF 12])
  then show ?thesis using r assms(1) False by (simp add: host_result_def)
qed (use assms in \<open>auto simp: opSelfdestruct_def host_helpers requireStack_def env_ok_def intro: host_halt\<close>)

lemma stepBound_spec:
  assumes "frame_ok f" "env_ok e" "StateDB f = Some bs" "stepBound e f code = Some (e', f')" "Status f = StatusRunning"
  shows "frame_ok f'" "Gas f' \<le> Gas f" "Status f' = StatusRunning \<Longrightarrow> Gas f' < Gas f"
    "\<exists>bs'. StateDB f' = Some bs' \<and> bs_readOnly bs' = bs_readOnly bs" "evolves (bs_readOnly bs) b e e'"
proof -
  define g where "g = f\<lparr>StateDB := Some (bs\<lparr>bs_trie := e_state e\<rparr>)\<rparr>"
  have g: "frame_ok g" "Gas g = Gas f" "Status g = StatusRunning" using assms(1,5) by (simp_all add: g_def frame_ok_def)
  have st: "StepOne boundGet boundSet code g = Some f'" "e' = (case StateDB f' of None \<Rightarrow> e | Some b \<Rightarrow> e\<lparr>e_state := bs_trie b\<rparr>)"
    using assms(3,4) by (auto simp: stepBound_def g_def)
  show "frame_ok f'" "Gas f' \<le> Gas f" "Status f' = StatusRunning \<Longrightarrow> Gas f' < Gas f"
    using StepOne_good [OF g(1), of boundGet boundSet code] g st(1) by (metis option.inject)+
  have tr: "tracked e" using assms(2) by (simp add: env_ok_def)
  consider "StateDB f' = Some (bs\<lparr>bs_trie := e_state e\<rparr>)"
    | k v where "StateDB f' = Some (boundSet (bs\<lparr>bs_trie := e_state e\<rparr>) zeroAddr k v)"
    using StepOne_db [OF st(1)] by (auto simp: g_def)
  then have "(\<exists>bs'. StateDB f' = Some bs' \<and> bs_readOnly bs' = bs_readOnly bs) \<and> evolves (bs_readOnly bs) b e e'"
  proof cases
    case 1
    then show ?thesis using st(2) tr by (simp add: evolves_refl)
  next
    case (2 k v)
    show ?thesis
    proof (cases "bs_readOnly bs")
      case True
      then show ?thesis using 2 st(2) tr by (simp add: boundSet_def evolves_refl)
    next
      case False
      have "totalSupply (SetStorage (e_state e) (bs_addr bs) k v) = totalSupply (e_state e)"
        by (rule supply_cong) (simp add: SetStorage_def Let_def)
      then have "evolves False b e (e\<lparr>e_state := SetStorage (e_state e) (bs_addr bs) k v\<rparr>)"
        using tr by (intro evolves_state) (auto intro: trie_step.set_storage)
      then show ?thesis using False 2 st(2) by (simp add: boundSet_def)
    qed
  qed
  then show "\<exists>bs'. StateDB f' = Some bs' \<and> bs_readOnly bs' = bs_readOnly bs" "evolves (bs_readOnly bs) b e e'" by blast+
qed


text \<open>Gas given to a call and returned by it.\<close>

lemma gas_return:
  fixes g fwd left :: u64
  assumes "fwd \<le> g" "left \<le> fwd"
  shows "g - fwd + left \<le> g"
proof -
  have "unat (g - fwd) + unat left \<le> unat g" using assms by (simp add: word_le_nat_alt unat_sub)
  moreover from this have "unat (g - fwd + left) = unat (g - fwd) + unat left"
    using unat_lt_B64 [of g] by (intro unat_add_small) linarith
  ultimately show ?thesis by (simp add: word_le_nat_alt)
qed

lemma gas_stipend:
  fixes g extra fwd left :: u64
  assumes "9000 \<le> extra" "extra \<le> g" "fwd \<le> g - extra" "left \<le> fwd + 2300"
  shows "g - extra - fwd + left \<le> g" "unat (fwd + 2300) \<le> unat g"
proof -
  have 1: "unat (g - extra) = unat g - unat extra" "unat (g - extra - fwd) = unat g - unat extra - unat fwd"
    "9000 \<le> unat extra" "unat extra \<le> unat g" "unat fwd \<le> unat g - unat extra"
    using assms by (simp_all add: word_le_nat_alt unat_sub)
  have 2: "unat (fwd + 2300) = unat fwd + 2300"
  proof -
    have "unat (2300 :: u64) = 2300" by simp
    moreover from this have "unat fwd + unat (2300 :: u64) < B64" using 1 unat_lt_B64 [of g] by linarith
    ultimately show ?thesis by (simp only: unat_add_small)
  qed
  show "unat (fwd + 2300) \<le> unat g" using 1 2 by linarith
  have 3: "unat left \<le> unat fwd + 2300" using assms(4) 2 by (simp add: word_le_nat_alt)
  have "unat (g - extra - fwd + left) = unat (g - extra - fwd) + unat left"
    using 1 3 unat_lt_B64 [of g] by (intro unat_add_small) linarith
  then show "g - extra - fwd + left \<le> g" using 1 3 by (simp add: word_le_nat_alt)
qed

lemma eip150_le: "eip150 g \<le> g"
proof -
  have "g div 64 \<le> g" by (simp add: word_le_nat_alt unat_div)
  then show ?thesis unfolding eip150_def by (rule word_sub_le)
qed

lemma callGas_le: "callGas g r \<le> g"
  using eip150_le [of g] by (auto simp: callGas_def Let_def)

text \<open>An instruction that behaves: its result, and that it has one when the gas is below the bound \<open>k\<close>.\<close>

definition behaves :: "nat \<Rightarrow> bool \<Rightarrow> int \<Rightarrow> vmEnv \<Rightarrow> frame \<Rightarrow> (vmEnv \<times> frame) outcome \<Rightarrow> bool" where
  "behaves k ro b e f r \<longleftrightarrow> (\<forall>x. r = Done x \<longrightarrow> host_result ro b e f x) \<and> (unat (Gas f) < k \<longrightarrow> r \<noteq> NoFuel)"

text \<open>
  The contract of \<open>run\<close> with the instructions that call it: what a returned call promises, and that it
  does return when its gas is below the bound \<open>k\<close>.
\<close>

locale call_runner =
  fixes rec :: runner and k :: nat
  assumes returns: "\<lbrakk>env_ok e; b < int (length (reverts (e_state e))); rec e p = Done (ret, left, ok, e')\<rbrakk> \<Longrightarrow>
      call_result (static p) b e (cp_gas p) left ok e'"
    and fuel: "\<lbrakk>env_ok e; unat (cp_gas p) < k\<rbrakk> \<Longrightarrow> rec e p \<noteq> NoFuel"
begin

lemma behaves_withFrame: "keeps f r \<Longrightarrow> tracked e \<Longrightarrow> behaves k ro b e f (withFrame e r)"
  by (auto simp: behaves_def withFrame_def host_keeps split: option.splits)

lemma behaves_halt: "\<lbrakk>frame_ok g; Gas g \<le> Gas f; StateDB g = StateDB f; tracked e\<rbrakk> \<Longrightarrow> behaves k ro b e f (Done (e, haltEx g st))"
  by (simp add: behaves_def host_halt)

lemma behaves_lift: "(\<And>x. r = Some x \<Longrightarrow> behaves k ro b e f (h x)) \<Longrightarrow> behaves k ro b e f (seq (lift r) h)"
  by (cases r) (simp_all add: behaves_def)

lemma behaves_if:
  "(c \<Longrightarrow> behaves k ro b e f r) \<Longrightarrow> (\<not> c \<Longrightarrow> behaves k ro b e f r') \<Longrightarrow> behaves k ro b e f (if c then r else r')"
  by simp

lemma behaves_from:
  assumes "behaves k ro b e g r" "Gas g \<le> Gas f" "StateDB g = StateDB f"
  shows "behaves k ro b e f r"
proof -
  have "unat (Gas g) \<le> unat (Gas f)" using assms(2) by (simp add: word_le_nat_alt)
  then show ?thesis using assms unfolding behaves_def host_result_def by (intro conjI allI impI) auto
qed

lemma behaves_charge:
  assumes "frame_ok f" "tracked e"
    "\<And>g. \<lbrakk>frame_ok g; Gas g \<le> Gas f; StateDB g = StateDB f; SP g = SP f\<rbrakk> \<Longrightarrow> behaves k ro b e g (h g)"
  shows "behaves k ro b e f (case chargeMem f off sz of None \<Rightarrow> Done (e, haltEx f st) | Some g \<Rightarrow> h g)"
proof (cases "chargeMem f off sz")
  case None
  then show ?thesis using assms(1,2) by (simp add: behaves_halt)
next
  case (Some g)
  note g = chargeMem_ok [OF assms(1) Some] chargeMem_db [OF Some] chargeMem_keeps [OF Some]
  then show ?thesis using Some assms(3) [of g] by (auto intro: behaves_from)
qed

text \<open>A call whose gas comes from the frame, followed by instructions that keep the frame.\<close>

lemma behaves_call:
  assumes "env_ok e" "b < int (length (reverts (e_state e)))" "static p \<or> \<not> ro"
    and "unat (cp_gas p) \<le> unat (Gas f)" "frame_ok g" "StateDB g = StateDB f"
    and "\<And>left. left \<le> cp_gas p \<Longrightarrow> Gas g + left \<le> Gas f"
    and "\<And>left e' ret ok g'. \<lbrakk>frame_ok g'; Gas g' = Gas g + left; StateDB g' = StateDB g\<rbrakk> \<Longrightarrow> keeps g' (h ret ok g')"
  shows "behaves k ro b e f (seq (rec e p) (\<lambda>(ret, left, ok, e'). withFrame e' (h ret ok (g\<lparr>Gas := Gas g + left\<rparr>))))"
proof (cases "rec e p")
  case (Done x)
  obtain ret left ok e' where x: "x = (ret, left, ok, e')" by (metis surj_pair)
  have r: "call_result (static p) b e (cp_gas p) left ok e'" using returns [OF assms(1,2)] Done x by blast
  have ev: "evolves ro b e e'" using r assms(3) evolves_weaken by (auto simp: call_result_def)
  have "keeps (g\<lparr>Gas := Gas g + left\<rparr>) (h ret ok (g\<lparr>Gas := Gas g + left\<rparr>))" using assms(5,8) by simp
  moreover have "Gas g + left \<le> Gas f" using r assms(7) by (simp add: call_result_def)
  ultimately have "keeps f (h ret ok (g\<lparr>Gas := Gas g + left\<rparr>))" using assms(6) keeps_trans by simp
  then show ?thesis using Done x ev
    by (cases "h ret ok (g\<lparr>Gas := Gas g + left\<rparr>)") (simp_all add: behaves_def withFrame_def keeps_def host_result_def)
next
  case NoFuel
  then have "\<not> unat (cp_gas p) < k" using fuel [OF assms(1)] by blast
  then show ?thesis using NoFuel assms(4) by (simp add: behaves_def)
qed (simp add: behaves_def)

lemma createIn_behaves:
  assumes "env_ok e" "frame_ok f" "b < int (length (reverts (e_state e)))"
  shows "behaves k False b e f (createIn rec e f p is2 v salt init)"
proof -
  define e1 where "e1 = setNonce e (cp_addr p) (getNonce e (cp_addr p) + 1)"
  define dest where "dest = (if is2 then create2Address (cp_addr p) salt (Keccak256 init) else createAddress (cp_addr p) (getNonce e (cp_addr p)))"
  let ?g = "f\<lparr>Gas := Gas f - eip150 (Gas f)\<rparr>"
  let ?h = "\<lambda>ret ok g. pushValue g (if ok then addrToU256 dest else zero256)"
  have ev: "evolves False b e e1" unfolding e1_def by (rule evolves_setNonce [OF assms(1)])
  have "behaves k False b e1 f (withFrame e1 (pushValue f zero256))"
    using keeps_push [OF assms(2)] evolves_tracked [OF ev] by (rule behaves_withFrame)
  moreover have "behaves k False b e1 f (seq (rec e1 (createParams p dest v init (eip150 (Gas f)) is2))
      (\<lambda>(ret, left, ok, e'). withFrame e' (?h ret ok (?g\<lparr>Gas := Gas ?g + left\<rparr>))))"
    by (rule behaves_call)
      (use evolves_ok [OF ev assms(1)] evolves_open [OF ev assms(3)] assms(2) eip150_le [of "Gas f"] gas_return in
        \<open>simp_all add: createParams_def static_def isCreate_def word_le_nat_alt [symmetric] keeps_push\<close>)
  ultimately have "behaves k False b e1 f (createIn rec e f p is2 v salt init)"
    unfolding createIn_def Let_def host_helpers e1_def [symmetric] dest_def [symmetric] by (simp add: case_prod_unfold)
  then show ?thesis using evolves_trans [OF ev] by (auto simp: behaves_def host_result_def)
qed

lemma callIn_behaves:
  assumes "env_ok e" "frame_ok f" "b < int (length (reverts (e_state e)))" "kind \<in> {0xf1, 0xf2, 0xf4, 0xfa}"
    "cp_readOnly p \<longrightarrow> IsZero v"
  shows "behaves k (cp_readOnly p) b e f (callIn rec e f p kind reqGas dest v inOff inSz outOff outSz)"
proof -
  define extra where "extra = (if \<not> IsZero v then gasCallValue + (if emptyAccount e dest then gasNewAccount else 0) else 0)"
  define fwd where "fwd = callGas (Gas f - extra) reqGas"
  define fwd' where "fwd' = (if \<not> IsZero v then fwd + gasCallStipend else fwd)"
  define g where "g = f\<lparr>Gas := Gas f - extra - fwd\<rparr>"
  have h: "keeps f (afterCall f ret ok outOff outSz)" if "frame_ok f" for ret ok f
    unfolding afterCall_def Let_def host_helpers
    by (intro keeps_bind, rule keeps_trans [OF keeps_push])
      (use that keeps_memCopy [OF that, of outOff] in \<open>auto simp: keeps_def split: if_splits\<close>)
  have fwd: "fwd \<le> Gas f - extra" unfolding fwd_def by (rule callGas_le)
  have ret: "Gas f - extra - fwd + left \<le> Gas f" "unat fwd' \<le> unat (Gas f)" if "left \<le> fwd'" "extra \<le> Gas f" for left
  proof -
    have "Gas f - extra - fwd + left \<le> Gas f \<and> unat fwd' \<le> unat (Gas f)"
    proof (cases "IsZero v")
      case True
      then show ?thesis using fwd that gas_return [of fwd "Gas f" left]
        by (simp add: extra_def fwd'_def word_le_nat_alt)
    next
      case False
      then have "9000 \<le> extra" by (simp add: extra_def gas_consts)
      then show ?thesis using False fwd that gas_stipend [of extra "Gas f" fwd left]
        by (simp add: fwd'_def gas_consts)
    qed
    then show "Gas f - extra - fwd + left \<le> Gas f" "unat fwd' \<le> unat (Gas f)" by blast+
  qed
  have st: "static (callParamsOf e p kind dest v input fwd') \<or> \<not> cp_readOnly p" for input
    using assms(4,5) by (auto simp: static_def callParamsOf_def isCreate_def Let_def)
  have call: "behaves k (cp_readOnly p) b e f (seq (rec e (callParamsOf e p kind dest v input fwd'))
      (\<lambda>(ret, left, ok, e'). withFrame e' (afterCall (g\<lparr>Gas := Gas g + left\<rparr>) ret ok outOff outSz)))" if "extra \<le> Gas f" for input
    by (rule behaves_call [where h = "\<lambda>ret ok f. afterCall f ret ok outOff outSz", OF assms(1,3) st])
      (use ret [OF _ that] ret(2) [OF order_refl that] assms(2) h in \<open>simp_all add: callParamsOf_def Let_def g_def\<close>)
  show ?thesis
  proof (cases "Gas f < extra")
    case True
    then show ?thesis
      using assms(1,2) unfolding callIn_def Let_def host_helpers extra_def [symmetric] by (simp add: behaves_halt env_ok_def)
  next
    case False
    have "callIn rec e f p kind reqGas dest v inOff inSz outOff outSz =
        seq (lift (memSlice g inOff (inOff + inSz))) (\<lambda>input. seq (rec e (callParamsOf e p kind dest v input fwd'))
          (\<lambda>(ret, left, ok, e'). withFrame e' (afterCall (g\<lparr>Gas := Gas g + left\<rparr>) ret ok outOff outSz)))"
      using False unfolding callIn_def extra_def [symmetric] by (simp add: Let_def g_def fwd'_def fwd_def)
    then show ?thesis using call False by (simp add: behaves_lift)
  qed
qed

lemma opCreate_behaves:
  assumes "env_ok e" "frame_ok f" "b < int (length (reverts (e_state e)))"
  shows "behaves k False b e f (opCreate rec e f p is2)"
proof (cases "SP f < (if is2 then 4 else 3)")
  case True
  then show ?thesis using assms by (auto simp: opCreate_def host_helpers requireStack_def env_ok_def intro: behaves_halt)
next
  case False
  define n :: int where "n = (if is2 then 4 else 3)"
  have n: "0 \<le> n" "n \<le> SP f" using False by (auto simp: n_def split: if_splits)
  have tr: "tracked e" using assms(1) by (simp add: env_ok_def)
  define g where "g = f\<lparr>SP := SP f - n\<rparr>"
  have g: "frame_ok g" "Gas g = Gas f" "StateDB g = StateDB f" using n assms(2) by (simp_all add: g_def)
  have body: "behaves k False b e g (case chargeMem g off sz of None \<Rightarrow> Done (e, haltEx g StatusOutOfGas)
       | Some f \<Rightarrow> if sz > maxInitSize then Done (e, haltEx f StatusOutOfGas)
           else let words = words32 (sint sz) in if Gas f < words * 2 then Done (e, haltEx f StatusOutOfGas)
             else let f = f\<lparr>Gas := Gas f - words * 2\<rparr> in seq (lift (memSlice f off (off + sz))) (createIn rec e f p is2 v salt))"
    for off sz v salt
  proof (rule behaves_charge [OF g(1) tr])
    fix h :: frame
    assume h: "frame_ok h"
    let ?w = "words32 (sint sz) * 2"
    have "behaves k False b e h (seq (lift (memSlice (h\<lparr>Gas := Gas h - ?w\<rparr>) off (off + sz)))
        (createIn rec e (h\<lparr>Gas := Gas h - ?w\<rparr>) p is2 v salt))" if "?w \<le> Gas h"
      by (intro behaves_lift behaves_from [OF createIn_behaves [OF assms(1) _ assms(3)]])
        (use h that in \<open>simp_all add: gas_sub_le\<close>)
    then show "behaves k False b e h (if sz > maxInitSize then Done (e, haltEx h StatusOutOfGas)
        else let words = words32 (sint sz) in if Gas h < words * 2 then Done (e, haltEx h StatusOutOfGas)
          else let f = h\<lparr>Gas := Gas h - words * 2\<rparr> in seq (lift (memSlice f off (off + sz))) (createIn rec e f p is2 v salt))"
      using behaves_halt [OF h order_refl refl tr] by (simp add: Let_def not_less)
  qed
  note halt = behaves_halt [OF assms(2) order_refl refl tr]
  show ?thesis
    unfolding opCreate_def Let_def host_helpers hostChargeMem_eq n_def [symmetric] g_def [symmetric]
    using n body [unfolded Let_def, THEN behaves_from [OF _ eq_refl]] g halt
    by (auto simp: requireStack_def intro!: behaves_lift split: option.split)
qed

lemma opCall_behaves:
  assumes "env_ok e" "frame_ok f" "b < int (length (reverts (e_state e)))" "kind \<in> {0xf1, 0xf2, 0xf4, 0xfa}"
  shows "behaves k (cp_readOnly p) b e f (opCall rec e f p kind)"
proof (cases "SP f < (if kind = 0xf4 \<or> kind = 0xfa then 6 else 7)")
  case True
  then show ?thesis using assms by (auto simp: opCall_def host_helpers requireStack_def env_ok_def Let_def intro: behaves_halt)
next
  case False
  define n :: int where "n = (if kind = 0xf4 \<or> kind = 0xfa then 6 else 7)"
  have n: "0 \<le> n" "n \<le> SP f" using False by (auto simp: n_def split: if_splits)
  have tr: "tracked e" using assms(1) by (simp add: env_ok_def)
  define g where "g = f\<lparr>SP := SP f - n\<rparr>"
  have g: "frame_ok g" "Gas g \<le> Gas f" "StateDB g = StateDB f" using n assms(2) by (simp_all add: g_def)
  have body: "behaves k (cp_readOnly p) b e g (case chargeMem g inOff inSz of None \<Rightarrow> Done (e, haltEx g StatusOutOfGas)
     | Some f \<Rightarrow> (case chargeMem f outOff outSz of None \<Rightarrow> Done (e, haltEx f StatusOutOfGas)
        | Some f \<Rightarrow> if kind = 0xfa \<and> \<not> IsZero v then Done (e, haltEx f StatusOutOfGas)
            else if cp_readOnly p \<and> \<not> IsZero v then Done (e, f\<lparr>Status := StatusInvalidOpcode, Gas := 0\<rparr>)
            else callIn rec e f p kind reqGas dest v inOff inSz outOff outSz))" for inOff inSz outOff outSz reqGas dest v
  proof (intro behaves_charge g(1) tr)
    fix f :: frame
    assume f: "frame_ok f"
    note halt = behaves_halt [OF f order_refl refl tr, unfolded haltEx_def]
    show "behaves k (cp_readOnly p) b e f (if kind = 0xfa \<and> \<not> IsZero v then Done (e, haltEx f StatusOutOfGas)
            else if cp_readOnly p \<and> \<not> IsZero v then Done (e, f\<lparr>Status := StatusInvalidOpcode, Gas := 0\<rparr>)
            else callIn rec e f p kind reqGas dest v inOff inSz outOff outSz)"
      using halt callIn_behaves [OF assms(1) f assms(3,4)] by (simp add: haltEx_def del: IsZero_iff)
  qed
  show ?thesis
    unfolding opCall_def Let_def host_helpers hostChargeMem_eq n_def [symmetric] g_def [symmetric]
    using n behaves_from [OF body g(2,3)] behaves_halt [OF g tr]
    by (auto simp: requireStack_def simp del: IsZero_iff intro!: behaves_lift split: option.split)
qed

text \<open>A whole instruction of the host. Only RETURN is free, and it ends the frame.\<close>

lemma execHost_behaves:
  assumes ok: "env_ok e" "frame_ok f" "b < int (length (reverts (e_state e)))"
    and op: "isHostOp op" "\<not> (cp_readOnly p \<and> writesState op)" and gas: "hostGas op \<le> Gas f"
  shows "behaves k (cp_readOnly p) b e (f\<lparr>Gas := Gas f - hostGas op, PC := PC f + 1\<rparr>) (execHost rec so e f p code op)"
proof -
  define g where "g = f\<lparr>Gas := Gas f - hostGas op, PC := PC f + 1\<rparr>"
  have g: "frame_ok g" using ok(2) by (simp add: g_def)
  have tr: "tracked e" using ok(1) by (simp add: env_ok_def)
  have lifted: "behaves k False b e g (lift r)" if "\<And>x. r = Some x \<Longrightarrow> host_result False b e g x" for r
    using that by (cases r) (auto simp: behaves_def)
  have inv: "behaves k ro b e g (Done (e, g\<lparr>Status := StatusInvalidOpcode, Gas := 0\<rparr>))" for ro
    using behaves_halt [OF g order_refl refl tr] by (simp add: haltEx_def)
  have log: "behaves k False b e g (lift (opLog e g (cp_addr p) n))" for n
    by (rule lifted) (rule opLog_spec [OF g tr])
  have sd: "behaves k False b e g (lift (opSelfdestruct so e g p))"
    by (rule lifted) (rule opSelfdestruct_spec [OF g ok(1)])
  have eq: "execHost rec so e f p code op =
      (if 0x30 \<le> op \<and> op \<le> 0x48 then withFrame e (hostRead e p code op g)
       else if 0xa0 \<le> op \<and> op \<le> 0xa4 then lift (opLog e g (cp_addr p) (unat (op - 0xa0)))
       else if op = 0xf3 then withFrame e (opReturn g False)
       else if op = 0xf0 then opCreate rec e g p False
       else if op = 0xf5 then opCreate rec e g p True
       else if op \<in> {0xf1, 0xf2, 0xf4, 0xfa} then opCall rec e g p op
       else if op = 0xff then lift (opSelfdestruct so e g p)
       else Done (e, g\<lparr>Status := StatusInvalidOpcode, Gas := 0\<rparr>))"
    unfolding execHost_def Let_def g_def [symmetric] using gas by (simp only: not_less [symmetric] if_False)
  have ro: "behaves k (cp_readOnly p) b e g r" if "writesState op" "behaves k False b e g r" for r
    using op(2) that by simp
  show ?thesis unfolding eq g_def [symmetric]
  proof (intro behaves_if)
    show "behaves k (cp_readOnly p) b e g (withFrame e (hostRead e p code op g))"
      "behaves k (cp_readOnly p) b e g (withFrame e (opReturn g False))"
      using behaves_withFrame [OF keeps_hostRead [OF g] tr] behaves_withFrame [OF keeps_opReturn [OF g] tr] by blast+
    show "behaves k (cp_readOnly p) b e g (opCall rec e g p op)" if "op \<in> {0xf1, 0xf2, 0xf4, 0xfa}"
      by (rule opCall_behaves [OF ok(1) g ok(3) that])
    show "behaves k (cp_readOnly p) b e g (lift (opLog e g (cp_addr p) (unat (op - 0xa0))))" if "0xa0 \<le> op \<and> op \<le> 0xa4"
      by (rule ro [OF _ log]) (simp add: writesState_def that)
    show "behaves k (cp_readOnly p) b e g (opCreate rec e g p False)" if "op = 0xf0"
      by (rule ro [OF _ opCreate_behaves [OF ok(1) g ok(3)]]) (simp add: writesState_def that)
    show "behaves k (cp_readOnly p) b e g (opCreate rec e g p True)" if "op = 0xf5"
      by (rule ro [OF _ opCreate_behaves [OF ok(1) g ok(3)]]) (simp add: writesState_def that)
    show "behaves k (cp_readOnly p) b e g (lift (opSelfdestruct so e g p))" if "op = 0xff"
      by (rule ro [OF _ sd]) (simp add: writesState_def that)
  qed (rule inv)
qed

end

lemma hostGas_pos: "isHostOp op \<Longrightarrow> op \<noteq> 0xf3 \<Longrightarrow> 0 < hostGas op"
proof -
  have hi: "op \<in> {0x30 .. 0x48} \<Longrightarrow> op \<in> set [0x30, 0x31, 0x32, 0x33, 0x34, 0x35, 0x36, 0x37, 0x38, 0x39, 0x3a, 0x3b, 0x3c,
      0x3d, 0x3e, 0x3f, 0x40, 0x41, 0x42, 0x43, 0x44, 0x45, 0x46, 0x47, 0x48]"
  proof -
    assume "op \<in> {0x30 .. 0x48}"
    then have "unat op \<in> {48..72}" by (auto simp: word_le_nat_alt)
    then have "unat op \<in> set [48..<73]" unfolding set_upt by simp
    then have "of_nat (unat op) \<in> (of_nat :: nat \<Rightarrow> byte) ` set [48..<73]" by blast
    then show ?thesis by (simp add: upt_rec)
  qed
  assume "isHostOp op" "op \<noteq> 0xf3"
  then show ?thesis using hi unfolding isHostOp_def hostGas_def
    by (elim disjE conjE) (auto simp: gas_consts)
qed


section \<open>Calls\<close>

text \<open>A frame bound to the contract of its call.\<close>

definition bound_to :: "callParams \<Rightarrow> frame \<Rightarrow> bool" where
  "bound_to p f \<longleftrightarrow> frame_ok f \<and> (\<exists>bs. StateDB f = Some bs \<and> bs_readOnly bs = cp_readOnly p)"

definition frame_runs :: "nat \<Rightarrow> (StateTrie \<Rightarrow> storageKey list) \<Rightarrow> bool" where
  "frame_runs n so \<longleftrightarrow> (\<forall>e f p code b. env_ok e \<longrightarrow> bound_to p f \<longrightarrow> b < int (length (reverts (e_state e))) \<longrightarrow>
     (\<forall>e' f'. execFrame n so e f p code = Done (e', f') \<longrightarrow> Gas f' \<le> Gas f \<and> evolves (cp_readOnly p) b e e') \<and>
     (2 * unat (Gas f) + 1 < n \<longrightarrow> execFrame n so e f p code \<noteq> NoFuel))"

text \<open>One instruction, then the rest of the frame.\<close>

lemma frame_continues:
  assumes fr: "frame_runs n so" and pre: "env_ok e" "frame_ok f" "b < int (length (reverts (e_state e)))"
    and step: "\<And>e1 f1. r = Done (e1, f1) \<Longrightarrow> bound_to p f1 \<and> Gas f1 \<le> Gas f \<and> evolves (cp_readOnly p) b e e1 \<and>
        (Status f1 = StatusRunning \<longrightarrow> Gas f1 < Gas f)"
    and fuel: "2 * unat (Gas f) < n \<Longrightarrow> r \<noteq> NoFuel"
  shows "(\<forall>e' f'. seq r (\<lambda>(e, f). execFrame n so e f p code) = Done (e', f') \<longrightarrow>
      Gas f' \<le> Gas f \<and> evolves (cp_readOnly p) b e e') \<and>
    (2 * unat (Gas f) < n \<longrightarrow> seq r (\<lambda>(e, f). execFrame n so e f p code) \<noteq> NoFuel)"
proof (cases r)
  case (Done x)
  obtain e1 f1 where x: "x = (e1, f1)" by fastforce
  note s = step [OF Done [unfolded x]]
  have ev: "evolves (cp_readOnly p) b e e1" and le: "Gas f1 \<le> Gas f" using s by blast+
  have IH: "execFrame n so e1 f1 p code = Done (e', f') \<Longrightarrow> Gas f' \<le> Gas f1 \<and> evolves (cp_readOnly p) b e1 e'"
    "2 * unat (Gas f1) + 1 < n \<Longrightarrow> execFrame n so e1 f1 p code \<noteq> NoFuel" for e' f'
    using fr s evolves_ok [OF ev pre(1)] evolves_open [OF ev pre(3)] unfolding frame_runs_def by blast+
  have nf: "execFrame n so e1 f1 p code \<noteq> NoFuel" if "2 * unat (Gas f) < n"
  proof (cases "Status f1 = StatusRunning")
    case True
    then have "unat (Gas f1) < unat (Gas f)" using s by (simp add: word_less_nat_alt)
    then show ?thesis using that by (intro IH(2)) linarith
  next
    case False
    then show ?thesis using that by (cases n) simp_all
  qed
  show ?thesis using Done x IH(1) le nf evolves_trans [OF ev] by (auto intro: order_trans)
qed (use fuel in auto)

lemma execFrame_step:
  assumes "call_runner (run n so) ((n - 1) div 2)" "frame_runs n so"
  shows "frame_runs (Suc n) so"
  unfolding frame_runs_def
proof (intro allI impI)
  fix e f p b and code :: bytes
  assume pre: "env_ok e" "bound_to p f" "b < int (length (reverts (e_state e)))"
  let ?op = "code ! unat (PC f)"
  let ?goal = "\<lambda>r. (\<forall>e' f'. r = Done (e', f') \<longrightarrow> Gas f' \<le> Gas f \<and> evolves (cp_readOnly p) b e e') \<and>
      (2 * unat (Gas f) < n \<longrightarrow> r \<noteq> NoFuel)"
  obtain bs where f: "frame_ok f" "StateDB f = Some bs" "bs_readOnly bs = cp_readOnly p" using pre(2) by (auto simp: bound_to_def)
  have tr: "tracked e" using pre(1) by (simp add: env_ok_def)
  have "?goal (execFrame (Suc n) so e f p code)"
  proof (cases "Status f = StatusRunning \<and> unat (PC f) < length code \<and> \<not> (cp_readOnly p \<and> writesState ?op)")
    case False
    then show ?thesis using tr evolves_refl [OF tr] by (auto simp: Let_def not_less)
  next
    case run: True
    show ?thesis
    proof (cases "isHostOp ?op")
      case host: True
      let ?r = "execHost (\<lambda>e p. run n so e p) so e f p code ?op"
      let ?g = "f\<lparr>Gas := Gas f - hostGas ?op, PC := PC f + 1\<rparr>"
      have eq: "execFrame (Suc n) so e f p code = seq ?r (\<lambda>(e, f). execFrame n so e f p code)"
        using run host by (auto simp: Let_def)
      show ?thesis unfolding eq
      proof (rule frame_continues [OF assms(2) pre(1) f(1) pre(3)])
        have cheap: "Gas f < hostGas ?op \<Longrightarrow> ?r = Done (e, haltOOG f)" by (simp add: execHost_def)
        have bh: "behaves ((n - 1) div 2) (cp_readOnly p) b e ?g ?r" if "hostGas ?op \<le> Gas f"
          using call_runner.execHost_behaves [OF assms(1) pre(1) f(1) pre(3) host _ that] run by blast
        have free: "Gas ?g < Gas f" if "hostGas ?op \<le> Gas f" "?op \<noteq> 0xf3"
          using hostGas_pos [OF host that(2)] that(1) by (simp add: word_less_nat_alt word_le_nat_alt unat_sub)
        fix e1 f1
        assume d: "?r = Done (e1, f1)"
        show "bound_to p f1 \<and> Gas f1 \<le> Gas f \<and> evolves (cp_readOnly p) b e e1 \<and> (Status f1 = StatusRunning \<longrightarrow> Gas f1 < Gas f)"
        proof (cases "hostGas ?op \<le> Gas f")
          case True
          then have h: "host_result (cp_readOnly p) b e ?g (e1, f1)" using bh d by (simp add: behaves_def)
          have "Gas ?g \<le> Gas f" using True by (simp add: gas_sub_le)
          moreover have "Gas f1 < Gas f" if "Status f1 = StatusRunning"
          proof (cases "?op = 0xf3")
            case True
            then have "opReturn ?g False = Some f1" using d by (simp add: execHost_def hostGas_def withFrame_def split: option.splits)
            then show ?thesis using opReturn_halts that by blast
          next
            case False
            then show ?thesis using free [OF True] h by (auto simp: host_result_def)
          qed
          ultimately show ?thesis using h f by (auto simp: host_result_def bound_to_def)
        next
          case False
          then show ?thesis using d cheap f evolves_refl [OF tr] by (auto simp: haltOOG_def bound_to_def)
        qed
      next
        assume fuel: "2 * unat (Gas f) < n"
        show "?r \<noteq> NoFuel"
        proof (cases "hostGas ?op \<le> Gas f \<and> ?op \<noteq> 0xf3")
          case True
          then have "unat (Gas ?g) < unat (Gas f)" using hostGas_pos [OF host] by (simp add: word_less_nat_alt word_le_nat_alt unat_sub)
          then have "unat (Gas ?g) < (n - 1) div 2" using fuel by linarith
          then show ?thesis
            using call_runner.execHost_behaves [OF assms(1) pre(1) f(1) pre(3) host] run True
            by (auto simp: behaves_def)
        next
          case False
          then consider "Gas f < hostGas ?op" | "?op = 0xf3" by (auto simp: not_le)
          then show ?thesis
          proof cases
            case 2
            then show ?thesis by (simp add: execHost_def hostGas_def withFrame_def split: option.splits)
          qed (simp add: execHost_def)
        qed
      qed
    next
      case False
      have eq: "execFrame (Suc n) so e f p code = seq (lift (stepBound e f code)) (\<lambda>(e, f). execFrame n so e f p code)"
        using run False by (auto simp: Let_def)
      have lift: "lift r = Done x \<longleftrightarrow> r = Some x" "lift r \<noteq> NoFuel" for r :: "(vmEnv \<times> frame) option" and x by (cases r; simp)+
      show ?thesis unfolding eq
        by (rule frame_continues [OF assms(2) pre(1) f(1) pre(3)])
          (use stepBound_spec [OF f(1) pre(1) f(2)] f(3) run in \<open>auto simp: lift bound_to_def\<close>)
    qed
  qed
  then show "(\<forall>e' f'. execFrame (Suc n) so e f p code = Done (e', f') \<longrightarrow> Gas f' \<le> Gas f \<and> evolves (cp_readOnly p) b e e') \<and>
     (2 * unat (Gas f) + 1 < Suc n \<longrightarrow> execFrame (Suc n) so e f p code \<noteq> NoFuel)" by simp
qed


text \<open>The body of \<open>run\<close>, between the changes of the depth.\<close>

definition runBody :: "nat \<Rightarrow> (StateTrie \<Rightarrow> storageKey list) \<Rightarrow> vmEnv \<Rightarrow> callParams \<Rightarrow> (bytes \<times> u64 \<times> bool \<times> vmEnv) outcome" where
  "runBody n so e p =
     (let (e, m, err) = enterCall e p
      in if err \<noteq> None then refuse e m (cp_gas p)
         else
           (let pcAddr = (if cp_codeAddr p \<noteq> zeroAddress then cp_codeAddr p else cp_addr p)
            in case (if isCreate p then None else isPrecompile pcAddr) of
                 Some i \<Rightarrow>
                   seq (RunPrecompile i (cp_data p) (cp_gas p)) (\<lambda>(out, g, perr).
                     if perr \<noteq> None then refuse e m 0
                     else Done (out, g, True, e\<lparr>e_retData := out\<rparr>))
               | None \<Rightarrow>
                   (let code = (if isCreate p \<or> cp_kind p = 0xf2 \<or> cp_kind p = 0xf4 then cp_code p else codeOf e (cp_addr p))
                    in if length code = 0 \<and> \<not> isCreate p then Done ([], cp_gas p, True, e\<lparr>e_retData := []\<rparr>)
                       else seq (execFrame n so e (newFrame e p) p code) (\<lambda>(e, f). leaveCall e f p m))))"

lemma run_Suc:
  "run (Suc n) so e p =
     (if e_depth e \<ge> maxCallDepth then Done ([], cp_gas p, False, e)
      else leaveDepth (runBody n so (e\<lparr>e_depth := e_depth e + 1\<rparr>) p))"
  by (simp only: run.simps runBody_def)

declare run.simps(2) [simp del]

lemma runBody_spec:
  assumes fr: "frame_runs n so" and ok: "env_ok e" and b: "b < int (length (reverts (e_state e)))"
  shows "(\<forall>ret left k e'. runBody n so e p = Done (ret, left, k, e') \<longrightarrow> call_result (static p) b e (cp_gas p) left k e') \<and>
    (2 * unat (cp_gas p) + 1 < n \<longrightarrow> runBody n so e p \<noteq> NoFuel)"
proof -
  define P where "P = (\<lambda>r :: (bytes \<times> u64 \<times> bool \<times> vmEnv) outcome.
    (\<forall>ret left k e'. r = Done (ret, left, k, e') \<longrightarrow> call_result (static p) b e (cp_gas p) left k e') \<and>
    (2 * unat (cp_gas p) + 1 < n \<longrightarrow> r \<noteq> NoFuel))"
  obtain e2 m err where en: "enterCall e p = (e2, m, err)" by (metis surj_pair)
  obtain e1 where e1: "takeMarks e = (e1, m)" "env_ok e1" "\<And>b. evolves (static p) b e1 e2"
    using enterCall_spec [OF ok en] by blast
  have ok2: "env_ok e2" by (rule evolves_ok [OF e1(3) e1(2)])
  have refused: "P (refuse e2 m g)" if "g \<le> cp_gas p" for g
    using refuse_spec [OF ok e1(1,3) that, of b] by (auto simp: P_def)
  have fin: "P (Done (d, g, True, e2\<lparr>e_retData := r\<rparr>))" if "g \<le> cp_gas p" for d g r
    using success_spec [OF ok e1(1) evolves_trans [OF e1(3) evolves_outputs(2)] that b, of r] ok2
    by (auto simp: P_def env_ok_def)
  have frame: "P (seq (execFrame n so e2 (newFrame e2 p) p code) (\<lambda>(e, f). leaveCall e f p m))" for code
  proof -
    have bt: "bound_to p (newFrame e2 p)" and g0: "Gas (newFrame e2 p) = cp_gas p"
      by (simp_all add: bound_to_def newFrame_def frame_ok_def)
    have "int (mk_rev m) < int (length (reverts (e_state e1)))"
      using takeMarks_eq [OF e1(1)] by (simp add: Snapshot_def)
    then have open2: "int (mk_rev m) < int (length (reverts (e_state e2)))" by (rule evolves_open [OF e1(3)])
    show ?thesis
    proof (cases "execFrame n so e2 (newFrame e2 p) p code")
      case (Done x)
      obtain e3 f where x: "x = (e3, f)" by fastforce
      have "Gas f \<le> cp_gas p" and "evolves (cp_readOnly p) (int (mk_rev m)) e2 e3"
        using fr ok2 bt open2 Done x g0 unfolding frame_runs_def by fastforce+
      then have "evolves (static p) (int (mk_rev m)) e1 e3" "Gas f \<le> cp_gas p"
        using evolves_trans [OF e1(3) evolves_weaken] by (auto simp: static_def)
      then show ?thesis using leaveCall_spec [OF ok e1(1) _ b, of p e3 f "cp_gas p"] Done x by (auto simp: P_def)
    next
      case NoFuel
      then have "\<not> 2 * unat (cp_gas p) + 1 < n" using fr ok2 bt open2 g0 unfolding frame_runs_def by metis
      then show ?thesis using NoFuel by (simp add: P_def)
    qed (simp add: P_def)
  qed
  have pcd: "P (seq (RunPrecompile i (cp_data p) (cp_gas p)) (\<lambda>(out, g, perr).
      if perr \<noteq> None then refuse e2 m 0 else Done (out, g, True, e2\<lparr>e_retData := out\<rparr>)))" for i
  proof (cases "RunPrecompile i (cp_data p) (cp_gas p)")
    case (Done x)
    then show ?thesis using refused [of 0] fin RunPrecompile_gas [of i "cp_data p" "cp_gas p"] by (cases x) auto
  qed (simp_all add: P_def RunPrecompile_fuel)
  have "P (runBody n so e p)"
    unfolding runBody_def Let_def en prod.case
    using refused [of "cp_gas p"] fin [of "cp_gas p"] frame pcd by (auto split: option.split)
  then show ?thesis unfolding P_def .
qed

lemma leaveDepth_result:
  assumes "call_result ro b (e\<lparr>e_depth := d + 1\<rparr>) gas left k e'" "e_depth e = d"
  shows "call_result ro b e gas left k (e'\<lparr>e_depth := e_depth e' - 1\<rparr>)"
proof -
  have "evolves ro b e (e'\<lparr>e_depth := e_depth e' - 1\<rparr>)"
    using assms by (auto simp: call_result_def evolves_def tracked_def)
  moreover have "\<exists>x y. e'\<lparr>e_depth := e_depth e' - 1\<rparr> = e\<lparr>e_retData := x, e_refund := y\<rparr>" if nk: "\<not> k"
  proof -
    obtain x y where "e' = e\<lparr>e_depth := d + 1, e_retData := x, e_refund := y\<rparr>" using assms(1) nk by (auto simp: call_result_def)
    then have "e'\<lparr>e_depth := e_depth e' - 1\<rparr> = e\<lparr>e_retData := x, e_refund := y\<rparr>" using assms(2) by (cases e) simp
    then show ?thesis by blast
  qed
  ultimately show ?thesis using assms(1) by (simp add: call_result_def)
qed

lemma run_step:
  assumes "frame_runs n so"
  shows "call_runner (run (Suc n) so) (n div 2)"
proof (unfold_locales, goal_cases)
  case (1 e b p ret left ok e')
  show ?case
  proof (cases "e_depth e \<ge> maxCallDepth")
    case True
    then have "left = cp_gas p" "\<not> ok" "e' = e" using 1(3) by (simp_all add: run_Suc)
    moreover have "e = e\<lparr>e_retData := e_retData e, e_refund := e_refund e\<rparr>" by simp
    ultimately show ?thesis using 1(1) evolves_refl [of e] unfolding call_result_def env_ok_def by blast
  next
    case False
    let ?e = "e\<lparr>e_depth := e_depth e + 1\<rparr>"
    have ok: "env_ok ?e" using 1(1) by (simp add: env_ok_def tracked_def)
    obtain r where r: "runBody n so ?e p = Done r" using 1(3) False by (cases "runBody n so ?e p") (simp_all add: run_Suc leaveDepth_def)
    obtain ret1 left1 ok1 e1 where r1: "r = (ret1, left1, ok1, e1)" by (metis surj_pair)
    have "call_result (static p) b ?e (cp_gas p) left1 ok1 e1"
      using runBody_spec [OF assms ok, of b p] 1(2) r r1 by simp
    moreover have "left = left1" "ok = ok1" "e' = e1\<lparr>e_depth := e_depth e1 - 1\<rparr>"
      using 1(3) False r r1 by (simp_all add: run_Suc leaveDepth_def)
    ultimately show ?thesis using leaveDepth_result [OF _ refl] by simp
  qed
next
  case (2 e p)
  have "env_ok (e\<lparr>e_depth := e_depth e + 1\<rparr>)" using 2(1) by (simp add: env_ok_def tracked_def)
  then have "runBody n so (e\<lparr>e_depth := e_depth e + 1\<rparr>) p \<noteq> NoFuel"
    using runBody_spec [OF assms, of "e\<lparr>e_depth := e_depth e + 1\<rparr>" "- 1" p] 2(2) by simp
  then show ?case by (cases "runBody n so (e\<lparr>e_depth := e_depth e + 1\<rparr>) p") (auto simp: run_Suc leaveDepth_def)
qed

theorem run_runner: "call_runner (run n so) ((n - 1) div 2)"
proof -
  have "call_runner (run n so) ((n - 1) div 2) \<and> frame_runs n so"
  proof (induction n)
    case 0
    show ?case by (simp add: frame_runs_def) (unfold_locales; simp)
  next
    case (Suc n)
    then show ?case using execFrame_step run_step by simp
  qed
  then show ?thesis by blast
qed

text \<open>The laws of \<open>call_runner\<close> hold of the machine itself, with enough fuel for half of \<open>n\<close>.\<close>

interpretation machine: call_runner "run n so" "(n - 1) div 2" for n so
  by (rule run_runner)

end
