(* ===== verification/Block_Processor.thy ===== *)
theory Block_Processor
  imports Call_Correct Batch_Poster
begin

text \<open>
  \<open>c2block/block_processor.go\<close>: transactions and blocks. The \<open>BlockProcessor\<close> is its state, a \<open>StateTrie\<close>; the
  header, which \<open>ProcessBlock\<close> modifies in place, is returned. A \<open>schedule\<close> holds what Go leaves open: the orders
  in which maps are iterated. \<open>n\<close> is the fuel of \<open>run\<close>.
\<close>

section \<open>Definitions\<close>

datatype block_error = ErrNonce | ErrInsufficientFunds | ErrIntrinsicGas | ErrFeeCap | ErrGasLimit | ErrState trie_error

record Receipt =
  r_Status :: u64
  r_CumulativeGasUsed :: u64
  r_Bloom :: bytes
  r_Logs :: "Log list"
  r_TxHash :: Hash
  r_ContractAddress :: Address
  r_GasUsed :: u64
  r_ReturnData :: bytes

record BlockResult =
  b_Receipts :: "Receipt list"
  b_GasUsed :: u64
  b_ReceiptsRoot :: Hash
  b_Bloom :: bytes
  b_StateRoot :: Hash

record schedule =
  sch_storage :: "StateTrie \<Rightarrow> storageKey list"
  sch_accounts :: "StateTrie \<Rightarrow> Uint256 list"
  sch_addrs :: "Address set \<Rightarrow> Address list"

subsection \<open>Fees\<close>

definition nonceOf :: "StateTrie \<Rightarrow> Address \<Rightarrow> u64" where
  "nonceOf t addr = (case GetAccount t (addrToU256 addr) of None \<Rightarrow> 0 | Some acc \<Rightarrow> Nonce acc)"

definition bpSetNonce :: "StateTrie \<Rightarrow> Address \<Rightarrow> u64 \<Rightarrow> StateTrie" where
  "bpSetNonce t addr n =
     (let acc = (case GetAccount t (addrToU256 addr) of None \<Rightarrow> zeroAccount | Some acc \<Rightarrow> acc)
      in SetAccount [] t (addrToU256 addr) (Some (acc\<lparr>Nonce := n\<rparr>)))"

fun dataGas :: "u64 \<Rightarrow> bytes \<Rightarrow> u64" where
  "dataGas gas [] = gas"
| "dataGas gas (b # bs) = dataGas (if b = 0 then gas + 4 else gas + 16) bs"

fun accessGas :: "u64 \<Rightarrow> (bytes \<times> bytes list) list \<Rightarrow> u64" where
  "accessGas gas [] = gas"
| "accessGas gas (t # ts) = accessGas (gas + (2400 + of_nat (length (snd t)) * 1900)) ts"

definition intrinsicGas :: "Transaction \<Rightarrow> u64" where
  "intrinsicGas tx =
     (let gas = (if tx_To tx = None then 53000 + words32 (int (length (tx_Data tx))) * 2 else 21000)
      in accessGas (dataGas gas (tx_Data tx)) (tx_AccessList tx))"

definition minU256 :: "Uint256 \<Rightarrow> Uint256 \<Rightarrow> Uint256" where
  "minU256 a b = (if Cmp a b \<le> 0 then a else b)"

definition effectiveFees :: "BlockHeader \<Rightarrow> Transaction \<Rightarrow> block_error + Uint256 \<times> Uint256" where
  "effectiveFees header tx =
     (let base = h_BaseFee header
      in if tx_Type tx = 2 \<or> tx_Type tx = 3 then
           if Cmp (tx_GasFeeCap tx) base < 0 then Inl ErrFeeCap
           else
             (let room = Sub256 (tx_GasFeeCap tx) base;
                  tip = minU256 (tx_GasTipCap tx) room
              in Inr (Add256 base tip, tip))
         else if \<not> IsZero base \<and> Cmp (tx_GasPrice tx) base < 0 then Inl ErrFeeCap
         else Inr (tx_GasPrice tx, if IsZero base then tx_GasPrice tx else Sub256 (tx_GasPrice tx) base))"

definition u256MulU64 :: "Uint256 \<Rightarrow> u64 \<Rightarrow> Uint256" where
  "u256MulU64 a n = Mul256 a (FromU64 n)"

subsection \<open>Blooms and receipts\<close>

fun addBloomBits :: "bytes \<Rightarrow> bytes \<Rightarrow> nat list \<Rightarrow> bytes" where
  "addBloomBits h b [] = b"
| "addBloomBits h b (i # is) =
     (let bit = unat ((push_bit 8 (ucast (h ! (i * 2))) OR ucast (h ! (i * 2 + 1)) :: u64) AND 2047);
          j = 255 - bit div 8
      in addBloomBits h (b[j := b ! j OR push_bit (bit mod 8) 1]) is)"

definition addBloom :: "bytes \<Rightarrow> bytes \<Rightarrow> bytes" where
  "addBloom b data = addBloomBits (Keccak256 data) b [0, 1, 2]"

definition logsBloom :: "Log list \<Rightarrow> bytes" where
  "logsBloom logs = foldl (\<lambda>b l. foldl addBloom (addBloom b (l_Address l)) (l_Topics l)) (replicate 256 0) logs"

definition encodeLogs :: "Log list \<Rightarrow> bytes" where
  "encodeLogs logs =
     rlpListEnc (map (\<lambda>l. rlpListEnc [rlpBytesEnc (l_Address l), rlpListEnc (map rlpBytesEnc (l_Topics l)), rlpBytesEnc (l_Data l)]) logs)"

definition LogsHash :: "Log list \<Rightarrow> Hash" where
  "LogsHash logs = Keccak256 (encodeLogs logs)"

definition encodeReceipt :: "Receipt \<Rightarrow> bytes" where
  "encodeReceipt r =
     rlpListEnc [rlpU64Enc (r_Status r), rlpU64Enc (r_CumulativeGasUsed r), rlpBytesEnc (r_Bloom r), encodeLogs (r_Logs r)]"

definition mptHashRoot :: "mptNode option \<Rightarrow> Hash option" where
  "mptHashRoot n = (case n of None \<Rightarrow> Some (Keccak256 [0x80]) | Some n \<Rightarrow> map_option Keccak256 (mptEncode 2048 n))"

fun receiptsTrie :: "mptNode option \<Rightarrow> nat \<Rightarrow> Receipt list \<Rightarrow> mptNode option option" where
  "receiptsTrie n i [] = Some n"
| "receiptsTrie n i (r # rs) =
     do { n \<leftarrow> mptInsert n (bytesToNibbles (rlpU64Enc (of_nat i))) (encodeReceipt r); receiptsTrie (Some n) (Suc i) rs }"

definition receiptsRoot :: "Receipt list \<Rightarrow> Hash option" where
  "receiptsRoot recs =
     (if length recs = 0 then Some (Keccak256 [0x80]) else receiptsTrie None 0 recs \<bind> mptHashRoot)"

subsection \<open>Transactions\<close>

definition newEnv :: "StateTrie \<Rightarrow> BlockHeader \<Rightarrow> Transaction \<Rightarrow> Uint256 \<Rightarrow> vmEnv" where
  "newEnv t header tx eff =
     \<lparr>e_state = t, e_header = header, e_origin = tx_From tx, e_gasPrice = eff, e_logs = [], e_retData = [], e_depth = 0,
      e_refund = 0, e_touched = {}, e_touchJournal = [], e_createdInTx = {}, e_createJournal = [], e_suicided = {},
      e_suicideJournal = []\<rparr>"

definition txParams :: "Transaction \<Rightarrow> u64 \<Rightarrow> callParams" where
  "txParams tx gasLeft =
     (case tx_To tx of
        None \<Rightarrow>
          \<lparr>cp_caller = tx_From tx, cp_addr = createAddress (tx_From tx) (tx_Nonce tx), cp_codeAddr = zeroAddress,
           cp_origin = tx_From tx, cp_value = tx_Value tx, cp_callVal = tx_Value tx, cp_data = [],
           cp_code = tx_Data tx, cp_gas = gasLeft, cp_readOnly = False, cp_kind = 0xf0\<rparr>
      | Some to \<Rightarrow>
          \<lparr>cp_caller = tx_From tx, cp_addr = to, cp_codeAddr = zeroAddress, cp_origin = tx_From tx,
           cp_value = tx_Value tx, cp_callVal = tx_Value tx, cp_data = tx_Data tx, cp_code = [], cp_gas = gasLeft,
           cp_readOnly = False, cp_kind = 0xf1\<rparr>)"

text \<open>The gas used and the gas left, with the refund.\<close>

definition settleGas :: "u64 \<Rightarrow> u64 \<Rightarrow> u64 \<Rightarrow> u64 \<times> u64" where
  "settleGas gas gasLeft refund =
     (let used = gas - gasLeft;
          (used, gasLeft) = (if used > gas then (gas, 0) else (used, gasLeft));
          refundCap = used div 5;
          actualRefund = (if refund > refundCap then refundCap else refund)
      in if actualRefund > 0 then (gas - (gasLeft + actualRefund), gasLeft + actualRefund) else (used, gasLeft))"

text \<open>\<open>ProcessTransaction\<close> after \<open>run\<close>: \<open>m\<close> are the marks taken before it.\<close>

definition addNonZero :: "StateTrie \<Rightarrow> Uint256 \<Rightarrow> Uint256 \<Rightarrow> StateTrie" where
  "addNonZero t a v = (if \<not> IsZero v then AddBalance t a v else t)"

definition finishTransaction :: "schedule \<Rightarrow> BlockHeader \<Rightarrow> Transaction \<Rightarrow> Uint256 \<Rightarrow> Uint256 \<Rightarrow> marks \<Rightarrow> bytes \<Rightarrow> u64 \<Rightarrow> bool \<Rightarrow> vmEnv \<Rightarrow>
    (StateTrie \<times> Receipt) option" where
  "finishTransaction sch header tx eff tip m ret gasLeft ok e =
     do { e \<leftarrow> (if \<not> ok then rollback e m
               else Some (if tx_To tx = None then markCreated e (createAddress (tx_From tx) (tx_Nonce tx)) else e));
          let (used, gasLeft) = settleGas (tx_Gas tx) gasLeft (e_refund e);
              e = e\<lparr>e_state := addNonZero (e_state e) (addrToU256 (tx_From tx)) (u256MulU64 eff gasLeft)\<rparr>;
              e = e\<lparr>e_state := addNonZero (e_state e) (addrToU256 (h_Coinbase header)) (u256MulU64 tip used)\<rparr>;
              e = cleanTouchedEmptyAccounts (sch_storage sch) (sch_addrs sch (e_touched e)) (sch_addrs sch (e_suicided e)) e
          in Some (e_state e,
               \<lparr>r_Status = (if ok then 1 else 0), r_CumulativeGasUsed = 0, r_Bloom = logsBloom (e_logs e), r_Logs = e_logs e,
                r_TxHash = tx_Hash tx,
                r_ContractAddress = (if tx_To tx = None then createAddress (tx_From tx) (tx_Nonce tx) else zeroAddress),
                r_GasUsed = used, r_ReturnData = ret\<rparr>) }"

text \<open>The environment in which \<open>run\<close> is called, and its marks.\<close>

definition startTransaction :: "StateTrie \<Rightarrow> BlockHeader \<Rightarrow> Transaction \<Rightarrow> Uint256 \<Rightarrow> vmEnv \<times> marks" where
  "startTransaction t header tx eff =
     (let e = touch (touch (newEnv t header tx eff) (tx_From tx)) (h_Coinbase header);
          e = (case tx_To tx of None \<Rightarrow> e | Some to \<Rightarrow> touch e to)
      in takeMarks e)"

definition ProcessTransaction :: "nat \<Rightarrow> schedule \<Rightarrow> StateTrie \<Rightarrow> BlockHeader \<Rightarrow> Transaction \<Rightarrow>
    (StateTrie \<times> (block_error + Receipt)) outcome" where
  "ProcessTransaction n sch t header tx =
     (if h_GasLimit header \<noteq> 0 \<and> tx_Gas tx > h_GasLimit header then Done (t, Inl ErrGasLimit)
      else
        (let ig = intrinsicGas tx
         in if tx_Gas tx < ig then Done (t, Inl ErrIntrinsicGas)
            else
              (case effectiveFees header tx of
                 Inl err \<Rightarrow> Done (t, Inl err)
               | Inr (eff, tip) \<Rightarrow>
                   if nonceOf t (tx_From tx) \<noteq> tx_Nonce tx then Done (t, Inl ErrNonce)
                   else
                     (let cost = Add256 (u256MulU64 eff (tx_Gas tx)) (tx_Value tx);
                          fromU = addrToU256 (tx_From tx)
                      in if Cmp (GetBalance t fromU) cost < 0 then Done (t, Inl ErrInsufficientFunds)
                         else
                           (case SubBalance t fromU (u256MulU64 eff (tx_Gas tx)) of
                              Inl err \<Rightarrow> Done (t, Inl (ErrState err))
                            | Inr t \<Rightarrow>
                                (let t = bpSetNonce t (tx_From tx) (tx_Nonce tx + 1);
                                     (e, m) = startTransaction t header tx eff
                                 in seq (run n (sch_storage sch) e (txParams tx (tx_Gas tx - ig))) (\<lambda>(ret, gasLeft, ok, e).
                                    seq (lift (finishTransaction sch header tx eff tip m ret gasLeft ok e)) (\<lambda>(t, rec).
                                      Done (t, Inr rec))))))))) "

subsection \<open>Blocks\<close>

text \<open>The loop over the transactions: the state, the receipts and the gas used so far.\<close>

fun processTxs :: "nat \<Rightarrow> schedule \<Rightarrow> BlockHeader \<Rightarrow> StateTrie \<Rightarrow> u64 \<Rightarrow> Receipt list \<Rightarrow> Transaction list \<Rightarrow>
    (StateTrie \<times> (block_error + u64 \<times> Receipt list)) outcome" where
  "processTxs n sch header t cum recs [] = Done (t, Inr (cum, recs))"
| "processTxs n sch header t cum recs (tx # txs) =
     seq (ProcessTransaction n sch t header tx) (\<lambda>(t, r).
       case r of
         Inl err \<Rightarrow> Done (t, Inl err)
       | Inr rec \<Rightarrow>
           if h_GasLimit header \<noteq> 0 \<and> cum + r_GasUsed rec > h_GasLimit header then Done (t, Inl ErrGasLimit)
           else
             (let cum = cum + r_GasUsed rec
              in processTxs n sch header t cum (recs @ [rec\<lparr>r_CumulativeGasUsed := cum\<rparr>]) txs))"

definition ProcessBlock :: "nat \<Rightarrow> schedule \<Rightarrow> mptArena \<Rightarrow> StateTrie \<Rightarrow> BlockHeader \<Rightarrow> Transaction list \<Rightarrow>
    (mptArena \<times> StateTrie \<times> BlockHeader \<times> (block_error + BlockResult)) outcome" where
  "ProcessBlock n sch a t header txs =
     (let (t, blockRev) = Snapshot t
      in seq (processTxs n sch header t 0 [] txs) (\<lambda>(t, r).
           case r of
             Inl err \<Rightarrow> seq (lift (RevertToSnapshot t (int blockRev))) (\<lambda>t. Done (a, t, header, Inl err))
           | Inr (cum, recs) \<Rightarrow>
               (let bloom = logsBloom (concat (map r_Logs recs))
                in seq (lift (receiptsRoot recs)) (\<lambda>rr.
                   seq (lift (ComputeRoot (sch_storage sch t) (sch_accounts sch t) a t)) (\<lambda>(a, sr).
                     Done (a, Commit t,
                       header\<lparr>h_GasUsed := cum, h_Bloom := bloom, h_ReceiptsRoot := rr, h_StateRoot := sr\<rparr>,
                       Inr \<lparr>b_Receipts = recs, b_GasUsed = cum, b_ReceiptsRoot = rr, b_Bloom = bloom, b_StateRoot = sr\<rparr>))))))"


section \<open>Fees and gas\<close>

lemma uval_minU256: "uval (minU256 a b) = min (uval a) (uval b)"
  using Cmp_uval [of a b] by (auto simp: minU256_def split: if_splits)

lemma uval_Mul256: "uval (Mul256 a b) = uval a * uval b mod 2 ^ 256"
proof -
  have "unat (word_of (Mul256 a b)) = unat (word_of a) * unat (word_of b) mod 2 ^ LENGTH(256)"
    by (simp only: word_of_Mul256 unat_word_ariths(2))
  then show ?thesis by (simp only: unat_word_of) simp
qed

lemma uval_u256MulU64: "uval (u256MulU64 a n) = uval a * unat n mod 2 ^ 256"
  by (simp add: u256MulU64_def uval_Mul256)

text \<open>The price paid per unit of gas lies between base fee and fee cap; the tip is what exceeds the base fee.\<close>

lemma effectiveFees_dynamic:
  assumes "tx_Type tx = 2 \<or> tx_Type tx = 3"
  shows "uval (tx_GasFeeCap tx) < uval (h_BaseFee header) \<Longrightarrow> effectiveFees header tx = Inl ErrFeeCap"
    "\<lbrakk>uval (h_BaseFee header) \<le> uval (tx_GasFeeCap tx); effectiveFees header tx = Inr (eff, tip)\<rbrakk> \<Longrightarrow>
      uval eff = min (uval (tx_GasFeeCap tx)) (uval (h_BaseFee header) + uval (tx_GasTipCap tx)) \<and>
      uval eff = uval (h_BaseFee header) + uval tip"
proof -
  let ?b = "h_BaseFee header" and ?c = "tx_GasFeeCap tx"
  show "uval ?c < uval ?b \<Longrightarrow> effectiveFees header tx = Inl ErrFeeCap"
    using assms by (simp add: effectiveFees_def Cmp_less)
  assume le: "uval ?b \<le> uval ?c" and e: "effectiveFees header tx = Inr (eff, tip)"
  have t: "tip = minU256 (tx_GasTipCap tx) (Sub256 ?c ?b)" "eff = Add256 ?b tip"
    using e assms le by (auto simp: effectiveFees_def Cmp_less Let_def split: if_splits)
  have "uval tip = min (uval (tx_GasTipCap tx)) (uval ?c - uval ?b)" using le by (simp add: t(1) uval_minU256 uval_Sub256_le)
  moreover have "uval ?b + uval tip < 2 ^ 256"
    using calculation le uval_lt [of ?c] by (simp add: B64_4 del: uval_lt)
  ultimately show "uval eff = min (uval ?c) (uval ?b + uval (tx_GasTipCap tx)) \<and> uval eff = uval ?b + uval tip"
    using le by (simp add: t(2) uval_Add256)
qed

lemma effectiveFees_legacy:
  assumes "tx_Type tx \<noteq> 2" "tx_Type tx \<noteq> 3"
  shows "uval (tx_GasPrice tx) < uval (h_BaseFee header) \<Longrightarrow> effectiveFees header tx = Inl ErrFeeCap"
    "effectiveFees header tx = Inr (eff, tip) \<Longrightarrow> eff = tx_GasPrice tx \<and> uval eff = uval (h_BaseFee header) + uval tip"
  using assms by (auto simp: effectiveFees_def Cmp_less Let_def uval_Sub256_le not_less split: if_splits)

lemma effectiveFees_tip: "effectiveFees header tx = Inr (eff, tip) \<Longrightarrow> uval eff = uval (h_BaseFee header) + uval tip"
  using effectiveFees_dynamic(1) [of tx header] effectiveFees_dynamic(2) [of tx header eff tip] effectiveFees_legacy(2) [of tx header eff tip]
  by (cases "tx_Type tx = 2 \<or> tx_Type tx = 3"; cases "uval (tx_GasFeeCap tx) < uval (h_BaseFee header)") auto

lemma effectiveFees_spec:
  "case effectiveFees header tx of
     Inl err \<Rightarrow> err = ErrFeeCap \<and>
       (if tx_Type tx \<in> {2, 3} then uval (tx_GasFeeCap tx) else uval (tx_GasPrice tx)) < uval (h_BaseFee header)
   | Inr (eff, tip) \<Rightarrow>
       uval (h_BaseFee header) \<le> (if tx_Type tx \<in> {2, 3} then uval (tx_GasFeeCap tx) else uval (tx_GasPrice tx)) \<and>
       uval eff = (if tx_Type tx \<in> {2, 3} then min (uval (tx_GasFeeCap tx)) (uval (h_BaseFee header) + uval (tx_GasTipCap tx))
         else uval (tx_GasPrice tx))"
proof (cases "effectiveFees header tx")
  case (Inl err)
  then show ?thesis by (auto simp: effectiveFees_def Cmp_less Let_def split: if_splits)
next
  case (Inr x)
  obtain eff tip where x: "x = (eff, tip)" by fastforce
  have "uval (h_BaseFee header) \<le> (if tx_Type tx \<in> {2, 3} then uval (tx_GasFeeCap tx) else uval (tx_GasPrice tx))"
    using Inr by (auto simp: effectiveFees_def Cmp_less Let_def not_less split: if_splits)
  then show ?thesis
    using Inr x effectiveFees_dynamic(2) [of tx header eff tip] effectiveFees_legacy(2) [of tx header eff tip] by (auto split: if_splits)
qed

text \<open>The two parts of the gas add up, and the refund is at most a fifth of the gas used.\<close>

lemma settleGas_spec:
  assumes "settleGas gas gasLeft refund = (used, left)" "gasLeft \<le> gas"
  shows "unat used + unat left = unat gas" "gasLeft \<le> left" "5 * (unat left - unat gasLeft) \<le> unat gas - unat gasLeft"
proof -
  define u where "u = gas - gasLeft"
  define r where "r = (if refund > u div 5 then u div 5 else refund)"
  have u: "unat u = unat gas - unat gasLeft" "u \<le> gas" using assms(2) by (simp_all add: u_def unat_sub word_le_nat_alt)
  have r: "unat r \<le> unat u div 5" by (auto simp: r_def word_le_nat_alt word_less_nat_alt unat_div)
  have gl: "unat gasLeft \<le> unat gas" using assms(2) by (simp add: word_le_nat_alt)
  have sum: "unat (gasLeft + r) = unat gasLeft + unat r"
    using u(1) r gl unat_lt_B64 [of gas] by (intro unat_add_small) linarith
  have "(used, left) = (if r > 0 then (gas - (gasLeft + r), gasLeft + r) else (u, gasLeft))"
    using assms(1) u(2) unfolding settleGas_def Let_def u_def [symmetric] r_def by (auto split: if_splits)
  moreover have "unat (gas - (gasLeft + r)) = unat gas - unat gasLeft - unat r"
    using sum u(1) r gl by (simp add: unat_sub word_le_nat_alt)
  ultimately have "left = gasLeft + r \<and> unat used = unat gas - unat gasLeft - unat r \<or> left = gasLeft \<and> r = 0 \<and> unat used = unat gas - unat gasLeft"
    using u(1) by (auto simp: word_gt_0 split: if_splits)
  then show "unat used + unat left = unat gas" "gasLeft \<le> left" "5 * (unat left - unat gasLeft) \<le> unat gas - unat gasLeft"
    using sum u(1) r gl by (auto simp: word_le_nat_alt)
qed


section \<open>Transactions\<close>

text \<open>The state before a transaction.\<close>

definition state_ok :: "StateTrie \<Rightarrow> bool" where
  "state_ok t \<longleftrightarrow> journal_ok t \<and> finite (dom (accounts t))"

lemma state_ok_steps: "(trie_step b)\<^sup>*\<^sup>* t t' \<Longrightarrow> state_ok t \<Longrightarrow> state_ok t'"
  using trie_steps_keep by (simp add: state_ok_def)

lemma env_ok_state: "env_ok e \<longleftrightarrow> state_ok (e_state e) \<and> tracked e"
  by (auto simp: env_ok_def state_ok_def)

lemma bpSetNonce_step: "trie_step b t (bpSetNonce t a n)"
  by (simp add: bpSetNonce_def Let_def trie_step.set_account)

lemma supply_bpSetNonce: "state_ok t \<Longrightarrow> totalSupply (bpSetNonce t a n) = totalSupply t"
  unfolding bpSetNonce_def Let_def
  by (rule supply_SetAccount) (auto simp: state_ok_def GetAccount_def balOf_def zeroAccount_def split: option.splits)

lemma addNonZero_steps: "(trie_step b)\<^sup>*\<^sup>* t (addNonZero t a v)"
  by (auto simp: addNonZero_def intro: trie_step.add_balance)

lemma supply_addNonZero:
  "finite (dom (accounts t)) \<Longrightarrow> totalSupply t + uval v < 2 ^ 256 \<Longrightarrow> totalSupply (addNonZero t a v) = totalSupply t + uval v"
  by (simp add: addNonZero_def supply_AddBalance)

lemma evolves_clean:
  "env_ok e \<Longrightarrow> evolves False b e (cleanTouched so ts e)" "env_ok e \<Longrightarrow> evolves False b e (cleanSuicided so ts e)"
proof -
  have step: "evolves False b e (if c then e\<lparr>e_state := SetAccount ks (e_state e) a None\<rparr> else e)" if "env_ok e" for c e ks a
    using evolves_delete [OF that] evolves_refl [of e] that by (simp add: env_ok_def)
  show "env_ok e \<Longrightarrow> evolves False b e (cleanTouched so ts e)"
  proof (induction so ts e rule: cleanTouched.induct)
    case (2 so a as e)
    show ?case using evolves_trans [OF step [OF "2.prems"] "2.IH" [OF evolves_ok [OF step [OF "2.prems"] "2.prems"]]] by simp
  qed (simp add: evolves_refl env_ok_def)
  show "env_ok e \<Longrightarrow> evolves False b e (cleanSuicided so ts e)"
  proof (induction so ts e rule: cleanSuicided.induct)
    case (2 so a as e)
    show ?case using evolves_trans [OF step [OF "2.prems"] "2.IH" [OF evolves_ok [OF step [OF "2.prems"] "2.prems"]]] by simp
  qed (simp add: evolves_refl env_ok_def)
qed

lemma evolves_cleanTouchedEmptyAccounts: "env_ok e \<Longrightarrow> evolves False b e (cleanTouchedEmptyAccounts so ts ss e)"
  unfolding cleanTouchedEmptyAccounts_def by (metis evolves_clean evolves_trans evolves_ok)

text \<open>What \<open>finishTransaction\<close> does with the result of \<open>run\<close>: \<open>e1\<close> is the environment before the marks were taken.\<close>

lemma logs_clean: "e_logs (cleanTouchedEmptyAccounts so ts ss e) = e_logs e"
proof -
  have "e_logs (cleanTouched so ts e) = e_logs e" for e
    by (induction so ts e rule: cleanTouched.induct) auto
  moreover have "e_logs (cleanSuicided so ss e) = e_logs e" for e
    by (induction so ss e rule: cleanSuicided.induct) auto
  ultimately show ?thesis by (simp add: cleanTouchedEmptyAccounts_def)
qed

lemma finishTransaction_spec:
  assumes ok: "env_ok e1" and m: "takeMarks e1 = (e2, m)" and r: "call_result False (int (mk_rev m)) e2 g gasLeft k e3"
    and b: "b < int (length (reverts (e_state e1)))"
  obtains t rec e4 e5 used left where "finishTransaction sch header tx eff tip m ret gasLeft k e3 = Some (t, rec)"
    "evolves False b e1 e4" "\<not> k \<longrightarrow> (\<exists>d r. e4 = e1\<lparr>e_retData := d, e_refund := r\<rparr>)"
    "settleGas (tx_Gas tx) gasLeft (e_refund e4) = (used, left)" "r_GasUsed rec = used" "r_Status rec = (if k then 1 else 0)"
    "r_Logs rec = e_logs e4" "t = e_state e5"
    "evolves False b (e4\<lparr>e_state := addNonZero (addNonZero (e_state e4) (addrToU256 (tx_From tx)) (u256MulU64 eff left))
        (addrToU256 (h_Coinbase header)) (u256MulU64 tip used)\<rparr>) e5"
proof -
  let ?B = "int (mk_rev m)"
  have le: "b \<le> ?B" using b takeMarks_eq(2) [OF m] by simp
  have ev: "evolves False ?B e2 e3" using r by (simp add: call_result_def)
  have tm: "evolves False b e1 e2" by (rule evolves_takeMarks [OF m]) (use ok in \<open>simp add: env_ok_def\<close>)
  have tr1: "tracked e1" using ok by (simp add: env_ok_def)
  define e4 where "e4 = (if \<not> k then e1\<lparr>e_retData := e_retData e3, e_refund := e_refund e3\<rparr>
      else if tx_To tx = None then markCreated e3 (createAddress (tx_From tx) (tx_Nonce tx)) else e3)"
  have f4: "(if \<not> k then rollback e3 m
      else Some (if tx_To tx = None then markCreated e3 (createAddress (tx_From tx) (tx_Nonce tx)) else e3)) = Some e4"
    using rollback_restores [OF ok m ev] by (simp add: e4_def)
  have e4: "evolves False b e1 e4"
  proof (cases k)
    case True
    have "evolves False b e1 e3" by (rule evolves_trans [OF tm evolves_weaken [OF ev _ le]]) simp
    then show ?thesis using True evolves_trans [OF _ evolves_markCreated [OF evolves_tracked]] by (simp add: e4_def)
  qed (simp add: e4_def evolves_outputs(1) [OF tr1])
  obtain used left where g: "settleGas (tx_Gas tx) gasLeft (e_refund e4) = (used, left)" by fastforce
  define t5 where "t5 = addNonZero (addNonZero (e_state e4) (addrToU256 (tx_From tx)) (u256MulU64 eff left))
      (addrToU256 (h_Coinbase header)) (u256MulU64 tip used)"
  define e5 where "e5 = cleanTouchedEmptyAccounts (sch_storage sch) (sch_addrs sch (e_touched (e4\<lparr>e_state := t5\<rparr>)))
      (sch_addrs sch (e_suicided (e4\<lparr>e_state := t5\<rparr>))) (e4\<lparr>e_state := t5\<rparr>)"
  have "(trie_step b)\<^sup>*\<^sup>* (e_state e4) t5" unfolding t5_def by (rule rtranclp_trans [OF addNonZero_steps addNonZero_steps])
  then have "env_ok (e4\<lparr>e_state := t5\<rparr>)"
    using evolves_ok [OF e4 ok] state_ok_steps by (auto simp: env_ok_state tracked_def)
  then have e5: "evolves False b (e4\<lparr>e_state := t5\<rparr>) e5" unfolding e5_def by (rule evolves_cleanTouchedEmptyAccounts)
  have "\<exists>rec. finishTransaction sch header tx eff tip m ret gasLeft k e3 = Some (e_state e5, rec) \<and> r_GasUsed rec = used \<and>
      r_Status rec = (if k then 1 else 0) \<and> r_Logs rec = e_logs e5"
    unfolding finishTransaction_def f4 using g by (simp add: e5_def t5_def Let_def)
  then obtain rec where fin: "finishTransaction sch header tx eff tip m ret gasLeft k e3 = Some (e_state e5, rec)" "r_GasUsed rec = used"
    "r_Status rec = (if k then 1 else 0)" "r_Logs rec = e_logs e5" by blast
  have "\<not> k \<longrightarrow> (\<exists>d r. e4 = e1\<lparr>e_retData := d, e_refund := r\<rparr>)" by (auto simp: e4_def)
  moreover have "e_logs e5 = e_logs e4" unfolding e5_def by (simp add: logs_clean)
  ultimately show ?thesis using that fin e4 g e5 unfolding t5_def by metis
qed


text \<open>The checks that a transaction passes before it is run; \<open>t1\<close> is the state after the debit of the gas.\<close>

definition accepted :: "StateTrie \<Rightarrow> BlockHeader \<Rightarrow> Transaction \<Rightarrow> Uint256 \<Rightarrow> Uint256 \<Rightarrow> StateTrie \<Rightarrow> bool" where
  "accepted t header tx eff tip t1 \<longleftrightarrow> (h_GasLimit header = 0 \<or> tx_Gas tx \<le> h_GasLimit header) \<and> intrinsicGas tx \<le> tx_Gas tx \<and>
     effectiveFees header tx = Inr (eff, tip) \<and> nonceOf t (tx_From tx) = tx_Nonce tx \<and>
     uval (Add256 (u256MulU64 eff (tx_Gas tx)) (tx_Value tx)) \<le> uval (GetBalance t (addrToU256 (tx_From tx))) \<and>
     SubBalance t (addrToU256 (tx_From tx)) (u256MulU64 eff (tx_Gas tx)) = Inr t1"

lemma ProcessTransaction_accepted:
  assumes "accepted t header tx eff tip t1" "startTransaction (bpSetNonce t1 (tx_From tx) (tx_Nonce tx + 1)) header tx eff = (e, m)"
  shows "ProcessTransaction n sch t header tx =
    seq (run n (sch_storage sch) e (txParams tx (tx_Gas tx - intrinsicGas tx))) (\<lambda>(ret, gasLeft, ok, e).
    seq (lift (finishTransaction sch header tx eff tip m ret gasLeft ok e)) (\<lambda>(t, rec). Done (t, Inr rec)))"
  using assms by (auto simp: ProcessTransaction_def accepted_def Let_def Cmp_less not_less)

lemma ProcessTransaction_cases:
  obtains (rejected) err where "ProcessTransaction n sch t header tx = Done (t, Inl err)"
  | (runs) eff tip t1 e m where "accepted t header tx eff tip t1"
      "startTransaction (bpSetNonce t1 (tx_From tx) (tx_Nonce tx + 1)) header tx eff = (e, m)"
      "ProcessTransaction n sch t header tx =
         seq (run n (sch_storage sch) e (txParams tx (tx_Gas tx - intrinsicGas tx))) (\<lambda>(ret, gasLeft, ok, e).
         seq (lift (finishTransaction sch header tx eff tip m ret gasLeft ok e)) (\<lambda>(t, rec). Done (t, Inr rec)))"
proof (cases "\<exists>eff tip t1. accepted t header tx eff tip t1")
  case True
  then obtain eff tip t1 where a: "accepted t header tx eff tip t1" by blast
  obtain e m where st: "startTransaction (bpSetNonce t1 (tx_From tx) (tx_Nonce tx + 1)) header tx eff = (e, m)" by fastforce
  show ?thesis by (rule runs [OF a st ProcessTransaction_accepted [OF a st]])
next
  case False
  then have "\<exists>err. ProcessTransaction n sch t header tx = Done (t, Inl err)"
    by (auto simp: ProcessTransaction_def accepted_def Let_def Cmp_less not_less split: sum.split)
  then show ?thesis using rejected by blast
qed

lemma startTransaction_spec:
  assumes "state_ok t" "startTransaction t header tx eff = (e2, m)"
  obtains e1 where "env_ok e1" "e_state e1 = t" "e_logs e1 = []" "takeMarks e1 = (e2, m)"
proof -
  have touch: "tracked (touch e a) \<and> e_state (touch e a) = e_state e \<and> e_logs (touch e a) = e_logs e" if "tracked e" for e a
    using that by (auto simp: touch_def tracked_def)
  define e0 where "e0 = touch (touch (newEnv t header tx eff) (tx_From tx)) (h_Coinbase header)"
  define e1 where "e1 = (case tx_To tx of None \<Rightarrow> e0 | Some to \<Rightarrow> touch e0 to)"
  have "tracked (newEnv t header tx eff)" by (simp add: newEnv_def tracked_def)
  then have "tracked e0 \<and> e_state e0 = t \<and> e_logs e0 = []" unfolding e0_def using touch by (simp add: newEnv_def)
  then have "tracked e1 \<and> e_state e1 = t \<and> e_logs e1 = []" unfolding e1_def using touch by (simp split: option.split)
  moreover have "takeMarks e1 = (e2, m)" using assms(2) unfolding startTransaction_def Let_def e1_def e0_def .
  ultimately show ?thesis using that [of e1] assms(1) by (simp add: env_ok_state)
qed

lemma cp_gas_txParams: "cp_gas (txParams tx g) = g" "static (txParams tx g) = False"
  by (simp_all add: txParams_def static_def split: option.splits)

text \<open>What a processed transaction does to the state and to the sum of balances.\<close>

definition tx_effect :: "int \<Rightarrow> StateTrie \<Rightarrow> BlockHeader \<Rightarrow> Transaction \<Rightarrow> StateTrie \<Rightarrow> block_error + Receipt \<Rightarrow> bool" where
  "tx_effect b t header tx t' r \<longleftrightarrow> (trie_step b)\<^sup>*\<^sup>* t t' \<and>
     (case r of
        Inl _ \<Rightarrow> t' = t
      | Inr rec \<Rightarrow> \<exists>eff tip t1. accepted t header tx eff tip t1 \<and> r_GasUsed rec \<le> tx_Gas tx \<and>
          (r_Status rec \<noteq> 1 \<longrightarrow> r_Logs rec = []) \<and>
          (totalSupply t < 2 ^ 256 \<and> uval eff * unat (tx_Gas tx) < 2 ^ 256 \<longrightarrow>
             totalSupply t' + uval (h_BaseFee header) * unat (r_GasUsed rec) \<le> totalSupply t))"

lemma fees_balance:
  fixes S S1 S4 S5 eff tip base gas used left :: nat
  assumes "S1 + eff * gas = S" "S4 \<le> S1" "used + left = gas" "eff = base + tip" "S5 \<le> S4 + eff * left + tip * used"
  shows "S5 + base * used \<le> S"
proof -
  have "eff * left + tip * used + base * used = eff * gas" using assms(3,4) by (simp add: algebra_simps flip: assms(3))
  then show ?thesis using assms by linarith
qed

lemma finish_supply:
  assumes fin: "finite (dom (accounts t4))" and S: "S1 + uval eff * unat gas < 2 ^ 256" "totalSupply t4 \<le> S1"
    and g: "unat used + unat left = unat gas" and tip: "uval tip \<le> uval eff"
  shows "totalSupply (addNonZero (addNonZero t4 a (u256MulU64 eff left)) c (u256MulU64 tip used)) =
    totalSupply t4 + uval eff * unat left + uval tip * unat used"
proof -
  have split: "uval eff * unat left + uval eff * unat used = uval eff * unat gas" unfolding g [symmetric] by (simp add: algebra_simps)
  have le: "uval tip * unat used \<le> uval eff * unat used" using tip by (rule mult_le_mono1)
  have bounds: "uval eff * unat left < 2 ^ 256" "uval tip * unat used < 2 ^ 256"
    "totalSupply t4 + uval eff * unat left < 2 ^ 256" "totalSupply t4 + uval eff * unat left + uval tip * unat used < 2 ^ 256"
    using split le S by linarith+
  have u: "uval (u256MulU64 eff left) = uval eff * unat left" "uval (u256MulU64 tip used) = uval tip * unat used"
    using bounds(1,2) by (simp_all add: uval_u256MulU64)
  have 1: "totalSupply (addNonZero t4 a (u256MulU64 eff left)) = totalSupply t4 + uval eff * unat left"
    using supply_addNonZero [OF fin, of "u256MulU64 eff left" a] bounds(3) u(1) by simp
  have "finite (dom (accounts (addNonZero t4 a (u256MulU64 eff left))))"
    using trie_steps_keep(2) [OF addNonZero_steps [of 0] fin] .
  then show ?thesis using supply_addNonZero [of _ "u256MulU64 tip used" c] 1 bounds(4) u(2) by simp
qed


lemma ProcessTransaction_effect:
  assumes ok: "state_ok t" and b: "b < int (length (reverts t))"
    and d: "ProcessTransaction n sch t header tx = Done (t', r)"
  shows "tx_effect b t header tx t' r"
  using ProcessTransaction_cases [of n sch t header tx]
proof cases
  case (rejected err)
  then show ?thesis using d by (simp add: tx_effect_def)
next
  case (runs eff tip t1 e2 m)
  let ?g = "tx_Gas tx" and ?ig = "intrinsicGas tx"
  define t2 where "t2 = bpSetNonce t1 (tx_From tx) (tx_Nonce tx + 1)"
  have acc: "?ig \<le> ?g" "effectiveFees header tx = Inr (eff, tip)" "SubBalance t (addrToU256 (tx_From tx)) (u256MulU64 eff ?g) = Inr t1"
    using runs(1) by (auto simp: accepted_def)
  have s1: "trie_step b t t1" for b by (rule trie_step.sub_balance [OF acc(3)])
  have s2: "(trie_step b)\<^sup>*\<^sup>* t t2" for b
    unfolding t2_def using s1 bpSetNonce_step by (metis r_into_rtranclp rtranclp.rtrancl_into_rtrancl)
  have ok1: "state_ok t1" using state_ok_steps [of 0 t t1] s1 ok by blast
  have ok2: "state_ok t2" by (rule state_ok_steps [OF s2 ok])
  have b2: "b < int (length (reverts t2))" by (rule trie_steps_keep(3) [OF s2 b])
  obtain e1 where e1: "env_ok e1" "e_state e1 = t2" "e_logs e1 = []" "takeMarks e1 = (e2, m)"
    using startTransaction_spec [OF ok2 runs(2) [folded t2_def]] by blast
  obtain ret gasLeft k e3 where rn: "run n (sch_storage sch) e2 (txParams tx (?g - ?ig)) = Done (ret, gasLeft, k, e3)"
    using d runs(3) by (cases "run n (sch_storage sch) e2 (txParams tx (?g - ?ig))") auto
  have open2: "int (mk_rev m) < int (length (reverts (e_state e2)))"
    using takeMarks_eq [OF e1(4)] by (simp add: Snapshot_def)
  have "env_ok e2" using evolves_ok [OF evolves_takeMarks [OF e1(4)] e1(1)] e1(1) by (simp add: env_ok_def)
  then have cr: "call_result False (int (mk_rev m)) e2 (?g - ?ig) gasLeft k e3"
    using machine.returns [OF _ open2 rn] by (simp add: cp_gas_txParams)
  then have left: "gasLeft \<le> ?g" using gas_sub_le [OF acc(1)] by (auto simp: call_result_def)
  obtain rec e4 e5 used l where f: "finishTransaction sch header tx eff tip m ret gasLeft k e3 = Some (e_state e5, rec)"
    "evolves False b e1 e4" "\<not> k \<longrightarrow> (\<exists>d r. e4 = e1\<lparr>e_retData := d, e_refund := r\<rparr>)"
    "settleGas ?g gasLeft (e_refund e4) = (used, l)" "r_GasUsed rec = used" "r_Status rec = (if k then 1 else 0)" "r_Logs rec = e_logs e4"
    "evolves False b (e4\<lparr>e_state := addNonZero (addNonZero (e_state e4) (addrToU256 (tx_From tx)) (u256MulU64 eff l))
        (addrToU256 (h_Coinbase header)) (u256MulU64 tip used)\<rparr>) e5"
    using finishTransaction_spec [OF e1(1,4) cr, of b sch header tx eff tip ret] b2 e1(2) by metis
  define t5 where "t5 = addNonZero (addNonZero (e_state e4) (addrToU256 (tx_From tx)) (u256MulU64 eff l))
        (addrToU256 (h_Coinbase header)) (u256MulU64 tip used)"
  have r: "t' = e_state e5" "r = Inr rec" using d runs(3) rn f(1) by auto
  have "(trie_step b)\<^sup>*\<^sup>* t2 (e_state e4)" using f(2) e1(2) by (simp add: evolves_def)
  moreover have "(trie_step b)\<^sup>*\<^sup>* (e_state e4) t5" unfolding t5_def by (rule rtranclp_trans [OF addNonZero_steps addNonZero_steps])
  moreover have "(trie_step b)\<^sup>*\<^sup>* t5 t'" using f(8) r(1) by (simp add: evolves_def t5_def)
  ultimately have steps: "(trie_step b)\<^sup>*\<^sup>* t t'" using s2 by (meson rtranclp_trans)
  note gas = settleGas_spec [OF f(4) left]
  have sup: "totalSupply t' + uval (h_BaseFee header) * unat used \<le> totalSupply t"
    if S: "totalSupply t < 2 ^ 256" "uval eff * unat ?g < 2 ^ 256"
  proof -
    have "totalSupply t1 + uval eff * unat ?g = totalSupply t"
      using supply_SubBalance [OF _ acc(3)] ok S(2) by (simp add: state_ok_def uval_u256MulU64)
    then have S1: "totalSupply t2 + uval eff * unat ?g = totalSupply t" by (simp add: t2_def supply_bpSetNonce [OF ok1])
    then have S4: "totalSupply (e_state e4) \<le> totalSupply t2" using f(2) e1(2) S(1) by (simp add: evolves_def)
    have fin: "finite (dom (accounts (e_state e4)))" using evolves_ok [OF f(2) e1(1)] by (simp add: env_ok_def)
    have tip: "uval eff = uval (h_BaseFee header) + uval tip" by (rule effectiveFees_tip [OF acc(2)])
    have t5: "totalSupply t5 = totalSupply (e_state e4) + uval eff * unat l + uval tip * unat used"
      unfolding t5_def by (rule finish_supply [OF fin _ S4 gas(1)]) (use S1 S(1) tip in simp_all)
    have "uval tip * unat used + uval eff * unat l \<le> uval eff * unat ?g"
      unfolding gas(1) [symmetric] tip by (simp add: algebra_simps)
    then have "totalSupply t5 < 2 ^ 256" using t5 S1 S4 S(1) by linarith
    then have "totalSupply t' \<le> totalSupply t5" using f(8) r(1) by (simp add: evolves_def t5_def)
    then show ?thesis using fees_balance [OF S1 S4 gas(1) tip] t5 by simp
  qed
  have "r_GasUsed rec \<le> ?g" using gas(1) f(5) by (simp add: word_le_nat_alt)
  then show ?thesis using runs(1) steps r sup f(3,5,6,7) e1(3) unfolding tx_effect_def by fastforce
qed


lemma ProcessTransaction_fuel:
  assumes ok: "state_ok t" and n: "2 * unat (tx_Gas tx) + 2 < n"
  shows "ProcessTransaction n sch t header tx \<noteq> NoFuel"
  using ProcessTransaction_cases [of n sch t header tx]
proof cases
  case (runs eff tip t1 e2 m)
  let ?p = "txParams tx (tx_Gas tx - intrinsicGas tx)"
  have acc: "intrinsicGas tx \<le> tx_Gas tx" "SubBalance t (addrToU256 (tx_From tx)) (u256MulU64 eff (tx_Gas tx)) = Inr t1"
    using runs(1) by (auto simp: accepted_def)
  have "(trie_step 0)\<^sup>*\<^sup>* t (bpSetNonce t1 (tx_From tx) (tx_Nonce tx + 1))"
    using trie_step.sub_balance [OF acc(2)] bpSetNonce_step by (metis r_into_rtranclp rtranclp.rtrancl_into_rtrancl)
  then obtain e1 where e1: "env_ok e1" "takeMarks e1 = (e2, m)"
    using startTransaction_spec [OF state_ok_steps [OF _ ok] runs(2)] by blast
  have ok2: "env_ok e2" using evolves_ok [OF evolves_takeMarks [OF e1(2)] e1(1)] e1(1) by (simp add: env_ok_def)
  have "unat (cp_gas ?p) \<le> unat (tx_Gas tx)" using gas_sub_le [OF acc(1)] by (simp add: cp_gas_txParams word_le_nat_alt)
  then have "unat (cp_gas ?p) < (n - 1) div 2" using n by linarith
  then have "run n (sch_storage sch) e2 ?p \<noteq> NoFuel" using machine.fuel [OF ok2] by blast
  moreover have "seq (lift x) (\<lambda>(t, rec). Done (t, Inr rec)) \<noteq> NoFuel" for x :: "(StateTrie \<times> Receipt) option"
    by (cases x) auto
  ultimately show ?thesis unfolding runs(3) by (cases "run n (sch_storage sch) e2 ?p") auto
qed simp

section \<open>Blocks\<close>

lemma processTxs_steps:
  shows "\<lbrakk>state_ok t; b < int (length (reverts t)); processTxs n sch header t cum recs txs = Done (t', r)\<rbrakk> \<Longrightarrow> (trie_step b)\<^sup>*\<^sup>* t t'"
proof (induction txs arbitrary: t cum recs)
  case (Cons tx txs)
  obtain t1 r1 where 1: "ProcessTransaction n sch t header tx = Done (t1, r1)"
    using Cons.prems(3) by (cases "ProcessTransaction n sch t header tx") auto
  have s: "(trie_step b)\<^sup>*\<^sup>* t t1" using ProcessTransaction_effect [OF Cons.prems(1,2) 1] by (simp add: tx_effect_def)
  show ?case
  proof (cases "\<exists>cum recs. processTxs n sch header t1 cum recs txs = Done (t', r)")
    case True
    then show ?thesis using Cons.IH [OF state_ok_steps [OF s Cons.prems(1)] trie_steps_keep(3) [OF s Cons.prems(2)]] s by (meson rtranclp_trans)
  next
    case False
    then have "t' = t1" using Cons.prems(3) 1 by (auto simp: Let_def split: sum.splits if_splits)
    then show ?thesis using s by simp
  qed
qed simp

lemma processTxs_fuel:
  shows "\<lbrakk>state_ok t; \<forall>tx \<in> set txs. 2 * unat (tx_Gas tx) + 2 < n\<rbrakk> \<Longrightarrow> processTxs n sch header t cum recs txs \<noteq> NoFuel"
proof (induction txs arbitrary: t cum recs)
  case (Cons tx txs)
  show ?case
  proof (cases "ProcessTransaction n sch t header tx")
    case (Done x)
    obtain t1 r1 where x: "x = (t1, r1)" by fastforce
    have "(trie_step (- 1))\<^sup>*\<^sup>* t t1" using ProcessTransaction_effect [OF Cons.prems(1) _ Done [unfolded x], of "- 1"] by (simp add: tx_effect_def)
    then have "state_ok t1" by (rule state_ok_steps [OF _ Cons.prems(1)])
    then show ?thesis using Cons Done x by (auto simp: Let_def split: sum.splits)
  next
    case NoFuel
    then show ?thesis using ProcessTransaction_fuel [OF Cons.prems(1)] Cons.prems(2) by auto
  qed simp
qed simp

text \<open>The receipts of a block: one for each transaction, with the running sum of the gas.\<close>

definition receipts_ok :: "nat \<Rightarrow> Transaction list \<Rightarrow> Receipt list \<Rightarrow> bool" where
  "receipts_ok c txs recs \<longleftrightarrow> length recs = length txs \<and>
     (\<forall>i < length recs. unat (r_CumulativeGasUsed (recs ! i)) = c + sum_list (map (\<lambda>r. unat (r_GasUsed r)) (take (Suc i) recs)))"

lemma processTxs_receipts:
  shows "\<lbrakk>state_ok t; processTxs n sch header t cum recs txs = Done (t', Inr (cum', recs')); unat cum + sum_list (map (\<lambda>tx. unat (tx_Gas tx)) txs) < B64\<rbrakk> \<Longrightarrow>
    \<exists>new. recs' = recs @ new \<and> receipts_ok (unat cum) txs new \<and>
      unat cum' = unat cum + sum_list (map (\<lambda>r. unat (r_GasUsed r)) new) \<and>
      (txs \<noteq> [] \<and> h_GasLimit header \<noteq> 0 \<longrightarrow> cum' \<le> h_GasLimit header)"
proof (induction txs arbitrary: t cum recs)
  case (Cons tx txs)
  obtain t1 r1 where 1: "ProcessTransaction n sch t header tx = Done (t1, r1)"
    using Cons.prems(2) by (cases "ProcessTransaction n sch t header tx") auto
  have eff: "tx_effect (- 1) t header tx t1 r1" by (rule ProcessTransaction_effect [OF Cons.prems(1) _ 1]) simp
  then have ok1: "state_ok t1" using state_ok_steps [OF _ Cons.prems(1)] by (auto simp: tx_effect_def)
  obtain rec where rec: "r1 = Inr rec" "\<not> (h_GasLimit header \<noteq> 0 \<and> cum + r_GasUsed rec > h_GasLimit header)"
    "processTxs n sch header t1 (cum + r_GasUsed rec) (recs @ [rec\<lparr>r_CumulativeGasUsed := cum + r_GasUsed rec\<rparr>]) txs = Done (t', Inr (cum', recs'))"
    using Cons.prems(2) 1 by (auto simp: Let_def split: sum.splits if_splits)
  have "unat (r_GasUsed rec) \<le> unat (tx_Gas tx)" using eff rec(1) by (auto simp: tx_effect_def word_le_nat_alt)
  moreover from this have c: "unat (cum + r_GasUsed rec) = unat cum + unat (r_GasUsed rec)"
    using Cons.prems(3) by (intro unat_add_small) simp
  ultimately obtain new where new: "recs' = recs @ rec\<lparr>r_CumulativeGasUsed := cum + r_GasUsed rec\<rparr> # new"
    "receipts_ok (unat cum + unat (r_GasUsed rec)) txs new"
    "unat cum' = unat cum + unat (r_GasUsed rec) + sum_list (map (\<lambda>r. unat (r_GasUsed r)) new)"
    "txs \<noteq> [] \<and> h_GasLimit header \<noteq> 0 \<longrightarrow> cum' \<le> h_GasLimit header"
    using Cons.IH [OF ok1 rec(3)] Cons.prems(3) by auto
  have "txs = [] \<Longrightarrow> cum' = cum + r_GasUsed rec" using rec(3) by simp
  then have "h_GasLimit header \<noteq> 0 \<longrightarrow> cum' \<le> h_GasLimit header" using new(4) rec(2) by (cases "txs = []") auto
  moreover have "receipts_ok (unat cum) (tx # txs) (rec\<lparr>r_CumulativeGasUsed := cum + r_GasUsed rec\<rparr> # new)"
    using new(2) c by (auto simp: receipts_ok_def nth_Cons split: nat.split)
  ultimately show ?case using new(1,3) by auto
qed (simp add: receipts_ok_def)

lemma processTxs_supply:
  shows "\<lbrakk>state_ok t; processTxs n sch header t cum recs txs = Done (t', r); totalSupply t < 2 ^ 256;
      \<forall>tx \<in> set txs. \<forall>eff tip. effectiveFees header tx = Inr (eff, tip) \<longrightarrow> uval eff * unat (tx_Gas tx) < 2 ^ 256\<rbrakk> \<Longrightarrow>
    totalSupply t' \<le> totalSupply t"
proof (induction txs arbitrary: t cum recs)
  case (Cons tx txs)
  obtain t1 r1 where 1: "ProcessTransaction n sch t header tx = Done (t1, r1)"
    using Cons.prems(2) by (cases "ProcessTransaction n sch t header tx") auto
  have eff: "tx_effect (- 1) t header tx t1 r1" by (rule ProcessTransaction_effect [OF Cons.prems(1) _ 1]) simp
  then have ok1: "state_ok t1" using state_ok_steps [OF _ Cons.prems(1)] by (auto simp: tx_effect_def)
  have le: "totalSupply t1 \<le> totalSupply t"
    using eff Cons.prems(3,4) by (fastforce simp: tx_effect_def accepted_def split: sum.splits)
  show ?case
  proof (cases "\<exists>cum recs. processTxs n sch header t1 cum recs txs = Done (t', r)")
    case True
    then show ?thesis using Cons.IH [OF ok1] le Cons.prems(3,4) by fastforce
  next
    case False
    then have "t' = t1" using Cons.prems(2) 1 by (auto simp: Let_def split: sum.splits if_splits)
    then show ?thesis using le by simp
  qed
qed simp


lemma ProcessBlock_error:
  assumes ok: "state_ok t" and d: "ProcessBlock n sch a t header txs = Done (a', t', header', Inl err)"
  shows "a' = a \<and> t' = t \<and> header' = header"
proof -
  obtain t0 rv where s: "Snapshot t = (t0, rv)" by fastforce
  have st: "trie_step b t t0" for b by (rule trie_step.snapshot [OF s])
  obtain t1 r where p: "processTxs n sch header t0 0 [] txs = Done (t1, r)"
    using d s by (cases "processTxs n sch header t0 0 [] txs") (auto simp: ProcessBlock_def)
  have "int rv < int (length (reverts t0))" using s by (auto simp: Snapshot_def)
  then have "(trie_step (int rv))\<^sup>*\<^sup>* t0 t1"
    using processTxs_steps [OF _ _ p] state_ok_steps [OF r_into_rtranclp [of "trie_step 0", OF st] ok] by blast
  then have "RevertToSnapshot t1 (int rv) = Some t" using ok by (intro snapshot_revert [OF _ s]) (simp_all add: state_ok_def)
  moreover have "seq (lift x) (\<lambda>rr. seq (lift y) (\<lambda>(a, sr). Done (a, f rr sr, g rr sr, Inr (h rr sr)))) \<noteq> Done (a', t', header', Inl err)"
    for x :: "Hash option" and y :: "(mptArena \<times> bytes) option" and f g and h :: "Hash \<Rightarrow> bytes \<Rightarrow> BlockResult" by (cases x; cases y) auto
  ultimately show ?thesis using d s p by (auto simp: ProcessBlock_def Let_def split: sum.splits)
qed

lemma ProcessBlock_Inr:
  assumes "ProcessBlock n sch a t header txs = Done (a', t', header', Inr res)"
  obtains t0 rv t1 cum recs rr sr where "Snapshot t = (t0, rv)" "processTxs n sch header t0 0 [] txs = Done (t1, Inr (cum, recs))"
    "receiptsRoot recs = Some rr" "ComputeRoot (sch_storage sch t1) (sch_accounts sch t1) a t1 = Some (a', sr)" "t' = Commit t1"
    "res = \<lparr>b_Receipts = recs, b_GasUsed = cum, b_ReceiptsRoot = rr, b_Bloom = logsBloom (concat (map r_Logs recs)), b_StateRoot = sr\<rparr>"
proof -
  obtain t0 rv where s: "Snapshot t = (t0, rv)" by fastforce
  obtain t1 r where p: "processTxs n sch header t0 0 [] txs = Done (t1, r)"
    using assms s by (cases "processTxs n sch header t0 0 [] txs") (auto simp: ProcessBlock_def)
  have lift: "lift x = Done y \<longleftrightarrow> x = Some y" for x :: "'x option" and y by (cases x) auto
  have seqD: "seq q k = Done z \<longleftrightarrow> (\<exists>y. q = Done y \<and> k y = Done z)" for q :: "'q outcome" and k and z :: 'z by (cases q) auto
  show ?thesis using assms s p that
    by (cases r) (auto simp: ProcessBlock_def Let_def lift seqD split: prod.splits)
qed

lemma ProcessBlock_fuel:
  assumes "state_ok t" "\<forall>tx \<in> set txs. 2 * unat (tx_Gas tx) + 2 < n"
  shows "ProcessBlock n sch a t header txs \<noteq> NoFuel"
proof -
  obtain t0 rv where s: "Snapshot t = (t0, rv)" by fastforce
  have "trie_step 0 t t0" by (rule trie_step.snapshot [OF s])
  then have "state_ok t0" by (intro state_ok_steps [OF r_into_rtranclp assms(1)])
  then have nf: "processTxs n sch header t0 0 [] txs \<noteq> NoFuel" by (rule processTxs_fuel [OF _ assms(2)])
  have lift: "seq (lift x) k = NoFuel \<longleftrightarrow> (\<exists>y. x = Some y \<and> k y = NoFuel)" for x :: "'x option" and k :: "'x \<Rightarrow> 'y outcome"
    by (cases x) auto
  show ?thesis using nf s
    by (cases "processTxs n sch header t0 0 [] txs") (auto simp: ProcessBlock_def Let_def lift split: sum.splits)
qed

text \<open>A single receipt of more than 2048 bytes does not fit the buffer of \<open>mptHashRoot\<close>.\<close>

lemma length_RlpEncodeBytes_ge: "length b \<le> length (RlpEncodeBytes b)"
  by (simp add: RlpEncodeBytes_def Let_def)

lemma length_rlpListEnc_ge: "x \<in> set items \<Longrightarrow> length x \<le> length (rlpListEnc items)"
  using elem_length_concat [of x items] by (simp add: rlpListEnc_def)

lemma length_rlpListEnc_concat: "length (concat items) \<le> length (rlpListEnc items)"
  by (simp add: rlpListEnc_def)

text \<open>A receipt is at least as long as the data of its logs together.\<close>

lemma encodeReceipt_logs: "sum_list (map (\<lambda>l. length (l_Data l)) (r_Logs r)) \<le> length (encodeReceipt r)"
proof -
  let ?e = "\<lambda>l. rlpListEnc [rlpBytesEnc (l_Address l), rlpListEnc (map rlpBytesEnc (l_Topics l)), rlpBytesEnc (l_Data l)]"
  have e: "length (l_Data l) \<le> length (?e l)" for l
  proof -
    have "length (l_Data l) \<le> length (rlpBytesEnc (l_Data l))" by (simp add: rlpBytesEnc_def length_RlpEncodeBytes_ge)
    also have "\<dots> \<le> length (?e l)" by (rule length_rlpListEnc_ge) simp
    finally show ?thesis .
  qed
  have "sum_list (map (\<lambda>l. length (l_Data l)) (r_Logs r)) \<le> sum_list (map (\<lambda>l. length (?e l)) (r_Logs r))"
    using e by (rule sum_list_mono)
  also have "\<dots> = length (concat (map ?e (r_Logs r)))" by (simp add: length_concat comp_def)
  also have "\<dots> \<le> length (encodeLogs (r_Logs r))" unfolding encodeLogs_def by (rule length_rlpListEnc_concat)
  also have "\<dots> \<le> length (encodeReceipt r)" unfolding encodeReceipt_def by (rule length_rlpListEnc_ge) simp
  finally show ?thesis .
qed

lemma receiptsRoot_overflow:
  assumes "2048 < length (encodeReceipt r)"
  shows "receiptsRoot [r] = None"
proof -
  have "MptEncodeLeaf ns (encodeReceipt r) \<bind> fit 2048 = None" for ns
    using assms length_RlpEncodeBytes_ge [of "encodeReceipt r"] by (auto simp: MptEncodeLeaf_def fit_def Let_def)
  then show ?thesis by (simp add: receiptsRoot_def mptHashRoot_def)
qed

text \<open>A block with one transaction whose receipt does not fit.\<close>

lemma ProcessBlock_overflow:
  assumes "ProcessTransaction n sch (fst (Snapshot t)) header tx = Done (t', Inr rec)"
    and "h_GasLimit header = 0 \<or> r_GasUsed rec \<le> h_GasLimit header"
    and "2048 < sum_list (map (\<lambda>l. length (l_Data l)) (r_Logs rec))"
  shows "ProcessBlock n sch a t header [tx] = Panic"
proof -
  let ?rec = "rec\<lparr>r_CumulativeGasUsed := r_GasUsed rec\<rparr>"
  have "2048 < length (encodeReceipt ?rec)" using assms(3) encodeReceipt_logs [of ?rec] by simp
  then have "receiptsRoot [?rec] = None" by (rule receiptsRoot_overflow)
  moreover have "processTxs n sch header (fst (Snapshot t)) 0 [] [tx] = Done (t', Inr (r_GasUsed rec, [?rec]))"
    using assms(1,2) by (auto simp: Let_def)
  ultimately show ?thesis by (simp add: ProcessBlock_def split_beta Let_def)
qed

section \<open>A plain call, and what the final cleaning keeps\<close>

lemma run_codeless:
  assumes "cp_kind p = 0xf1" "IsZero (cp_callVal p)" "cp_codeAddr p = zeroAddress" "isPrecompile (cp_addr p) = None"
    and "Code (accountOf e (cp_addr p)) = []" "e_depth e < maxCallDepth"
  shows "\<exists>e'. run (Suc n) so e p = Done ([], cp_gas p, True, e') \<and> accounts (e_state e') = accounts (e_state e) \<and>
    e_createdInTx e' = e_createdInTx e \<and> e_refund e' = e_refund e"
proof -
  have touch: "e_state (touch e a) = e_state e" "e_createdInTx (touch e a) = e_createdInTx e" "e_refund (touch e a) = e_refund e" for e a
    by (simp_all add: touch_def)
  have "Code (accountOf e' (cp_addr p)) = []" if "accounts (e_state e') = accounts (e_state e)" for e'
    using that assms(5) by (simp add: accountOf_def GetAccount_def del: normalizeAddr.simps)
  then show ?thesis using assms unfolding run_Suc runBody_def
    by (simp add: enterCall_def takeMarks_def transfer_def Let_def isCreate_def codeOf_def leaveDepth_def Snapshot_def touch)
qed

lemma cleanTouched_keeps:
  "accounts (e_state e) a = Some acc \<Longrightarrow> Nonce acc \<noteq> 0 \<Longrightarrow> accounts (e_state (cleanTouched so ts e)) a = Some acc"
proof (induction so ts e rule: cleanTouched.induct)
  case (2 so x xs e)
  have "normalizeAddr (Some (addrToU256 x)) \<noteq> a" if "emptyAccount e x"
    using that "2.prems" by (auto simp: emptyAccount_def accountOf_def GetAccount_def Let_def simp del: normalizeAddr.simps)
  then show ?case using 2 by (auto simp: accounts_SetAccount simp del: normalizeAddr.simps)
qed simp

lemma created_cleanTouched: "e_createdInTx (cleanTouched so ts e) = e_createdInTx e"
  by (induction so ts e rule: cleanTouched.induct) auto

lemma cleanSuicided_none: "e_createdInTx e = {} \<Longrightarrow> cleanSuicided so ts e = e"
  by (induction so ts e rule: cleanSuicided.induct) auto


lemma accounts_AddBalance_Some:
  assumes "accounts t (normalizeAddr (Some a)) = Some acc"
  shows "accounts (AddBalance t a v) = (accounts t)(normalizeAddr (Some a) \<mapsto> acc\<lparr>Balance := Add256 (Balance acc) v\<rparr>)"
  using assms by (simp add: AddBalance_def ensureAccount_def Let_def del: normalizeAddr.simps)

lemma accounts_AddBalance_other:
  "normalizeAddr (Some a) \<noteq> b \<Longrightarrow> accounts (AddBalance t a v) b = accounts t b"
  using accounts_AddBalance [of t a v] by (auto simp del: normalizeAddr.simps)

text \<open>An address of 20 bytes is a number below \<open>2 ^ 160\<close>, which \<open>normalizeAddr\<close> keeps.\<close>

lemma addrToU256_inj:
  assumes "length a = 20" "length b = 20"
  shows "normalizeAddr (Some (addrToU256 a)) = normalizeAddr (Some (addrToU256 b)) \<longleftrightarrow> a = b"
proof -
  have u: "uval (normalizeAddr (Some (addrToU256 x))) = be_val x" if "length x = 20" for x
  proof -
    have "be_val x < 2 ^ 160" using be_val_bound [of x] that by simp
    then show ?thesis using that
      by (simp add: uval_normalizeAddr addrToU256_def uval_FromBytesBE be_val_append be_val_zeros del: normalizeAddr.simps)
  qed
  show ?thesis
  proof
    assume "normalizeAddr (Some (addrToU256 a)) = normalizeAddr (Some (addrToU256 b))"
    then have "be_val a = be_val b" using u assms by metis
    then show "a = b" using be_val_inj [of a b] assms by simp
  qed simp
qed

end
