(* ===== verification/Sequencer.thy ===== *)
theory Sequencer
  imports Mempool Block_Processor "HOL-Library.Sublist"
begin

text \<open>
  \<open>c2seq/timeboost.go\<close> and \<open>c2seq/sequencer.go\<close>: the express lane, the delayed inbox and the sequencer,
  which collects candidates from both and from the pool, selects a batch, processes it as a block and
  packs it. Pointers that the code tests against nil are options. The sequencer and its block processor
  share one state, as \<open>NewSequencer\<close> sets them up; the arena of the state is kept beside it. The order of the
  map iterations of \<open>PopBatch\<close> and of the block processor are arguments. The locks are not modelled.
\<close>

section \<open>The express lane\<close>

text \<open>\<open>ErrExpressNil\<close> stands for \<open>ErrNilTx\<close> of the pool.\<close>

definition DefaultExpressWindow :: u64 where "DefaultExpressWindow = 60"
definition MaxExpressQueue :: nat where "MaxExpressQueue = 1024"

datatype express_error = ErrExpressNil | ErrExpressWindow | ErrExpressFull

record expressItem =
  ei_tx :: Transaction
  ei_deadline :: u64

record Timeboost =
  tb_window :: u64
  tb_items :: "expressItem list"

definition NewTimeboost :: "u64 \<Rightarrow> Timeboost" where
  "NewTimeboost window = \<lparr>tb_window = (if window = 0 then DefaultExpressWindow else window), tb_items = []\<rparr>"

definition PushExpress :: "Timeboost \<Rightarrow> Transaction option \<Rightarrow> u64 \<Rightarrow> express_error + Timeboost" where
  "PushExpress t txp now =
     (case txp of
        None \<Rightarrow> Inl ErrExpressNil
      | Some tx \<Rightarrow>
          if length (tb_items t) \<ge> MaxExpressQueue then Inl ErrExpressFull
          else
            (let dl = (case SafeAddGas now (tb_window t) of Inl _ \<Rightarrow> NOT 0 | Inr d \<Rightarrow> d)
             in Inr (t\<lparr>tb_items := tb_items t @ [\<lparr>ei_tx = tx, ei_deadline = dl\<rparr>]\<rparr>)))"

text \<open>The slice \<open>keep\<close> stays empty.\<close>

definition Drain :: "Timeboost \<Rightarrow> u64 \<Rightarrow> Timeboost \<times> Transaction list" where
  "Drain t now =
     (if length (tb_items t) = 0 then (t, [])
      else (t\<lparr>tb_items := []\<rparr>, map ei_tx (filter (\<lambda>it. \<not> now > ei_deadline it) (tb_items t))))"

section \<open>The delayed inbox\<close>

record DelayedMessage =
  m_Kind :: byte
  m_From :: Address
  m_To :: "Address option"
  m_Value :: Uint256
  m_Data :: bytes
  m_GasLimit :: u64
  m_MaxFeePerGas :: Uint256
  m_Deposit :: Uint256
  m_MaxSubmissionFee :: Uint256
  m_L1BaseFee :: Uint256
  m_GasProvided :: u64
  m_PostedAt :: u64

definition MsgRetryable :: byte where "MsgRetryable = 1"

record DelayedInbox =
  di_delay :: u64
  di_q :: "DelayedMessage list"

definition NewDelayedInbox :: "u64 \<Rightarrow> DelayedInbox" where
  "NewDelayedInbox delay = \<lparr>di_delay = delay, di_q = []\<rparr>"

definition Enqueue :: "DelayedInbox \<Rightarrow> DelayedMessage \<Rightarrow> DelayedInbox" where
  "Enqueue d msg = d\<lparr>di_q := di_q d @ [msg]\<rparr>"

definition msgReady :: "u64 \<Rightarrow> u64 \<Rightarrow> DelayedMessage \<Rightarrow> bool" where
  "msgReady delay now m =
     (if now < m_PostedAt m then False
      else (case SafeSubGas now (m_PostedAt m) of Inl _ \<Rightarrow> False | Inr elapsed \<Rightarrow> \<not> elapsed < delay))"

definition PopReady :: "DelayedInbox \<Rightarrow> u64 \<Rightarrow> DelayedInbox \<times> DelayedMessage list" where
  "PopReady d now =
     (d\<lparr>di_q := filter (\<lambda>m. \<not> msgReady (di_delay d) now m) (di_q d)\<rparr>, filter (msgReady (di_delay d) now) (di_q d))"

section \<open>The sequencer\<close>

record Sequencer =
  s_Mempool :: "Mempool option"
  s_Timeboost :: "Timeboost option"
  s_DelayedInbox :: "DelayedInbox option"
  s_Retryables :: "RetryableEngine option"
  s_State :: StateTrie
  s_arena :: mptArena
  s_Header :: BlockHeader
  s_LastBatch :: bytes
  s_LastTxs :: "Transaction list"
  s_maxTxs :: int

definition zeroHeader :: BlockHeader where
  "zeroHeader =
     \<lparr>h_ParentHash = replicate 32 0, h_Coinbase = replicate 20 0, h_StateRoot = replicate 32 0, h_ReceiptsRoot = replicate 32 0,
      h_Bloom = replicate 256 0, h_Number = 0, h_GasLimit = 0, h_GasUsed = 0, h_Timestamp = 0, h_Extra = [],
      h_MixDigest = replicate 32 0, h_Nonce = 0, h_BaseFee = zero256, h_BlobGasUsed = 0, h_ExcessBlobGas = 0,
      h_Difficulty = zero256, h_ChainID = zero256\<rparr>"

definition NewSequencer :: "mptArena \<Rightarrow> StateTrie option \<Rightarrow> Sequencer" where
  "NewSequencer a st =
     \<lparr>s_Mempool = Some NewMempool, s_Timeboost = Some (NewTimeboost DefaultExpressWindow), s_DelayedInbox = Some (NewDelayedInbox 1),
      s_Retryables = Some Map.empty, s_State = (case st of None \<Rightarrow> NewStateTrie | Some t \<Rightarrow> t), s_arena = a,
      s_Header = zeroHeader\<lparr>h_GasLimit := 30000000\<rparr>, s_LastBatch = [], s_LastTxs = [], s_maxTxs = 128\<rparr>"

definition msgParams :: "DelayedMessage \<Rightarrow> RetryableParams" where
  "msgParams msg =
     \<lparr>p_From = m_From msg, p_To = m_To msg, p_CallValue = m_Value msg, p_Deposit = m_Deposit msg,
      p_MaxSubmissionFee = m_MaxSubmissionFee msg, p_ExcessFeeRefundTo = m_From msg, p_CallValueRefundTo = m_From msg,
      p_GasLimit = m_GasLimit msg, p_MaxFeePerGas = m_MaxFeePerGas msg, p_Data = m_Data msg,
      p_L1BaseFee = m_L1BaseFee msg, p_GasProvided = m_GasProvided msg\<rparr>"

text \<open>One message of the inbox: a retryable ticket, or else a deposit.\<close>

definition collectMsg :: "Sequencer \<times> Transaction list \<Rightarrow> DelayedMessage \<Rightarrow> Sequencer \<times> Transaction list" where
  "collectMsg so msg =
     (let (s, out) = so
      in if m_Kind msg = MsgRetryable then
           (case s_Retryables s of
              None \<Rightarrow> (s, out)
            | Some e \<Rightarrow>
                (case Create e (msgParams msg) of
                   Inl _ \<Rightarrow> (s, out)
                 | Inr (e, _, txp) \<Rightarrow>
                     (let s = s\<lparr>s_Retryables := Some e\<rparr>
                      in case txp of
                           None \<Rightarrow> (s, out)
                         | Some tx \<Rightarrow> (s, out @ [tx\<lparr>tx_Nonce := nonceOf (s_State s) (tx_From tx)\<rparr>]))))
         else
           (case m_To msg of
              None \<Rightarrow> (s, out)
            | Some to \<Rightarrow> (s\<lparr>s_State := AddBalance (s_State s) (addrToU256 to) (m_Value msg)\<rparr>, out)))"

fun usedGas :: "u64 \<Rightarrow> Transaction list \<Rightarrow> u64" where
  "usedGas used [] = used"
| "usedGas used (tx # txs) = (case SafeAddGas used (tx_Gas tx) of Inl _ \<Rightarrow> used | Inr next \<Rightarrow> usedGas next txs)"

definition collectInbox :: "Sequencer \<Rightarrow> u64 \<Rightarrow> Sequencer \<times> Transaction list" where
  "collectInbox s now =
     (case s_DelayedInbox s of
        None \<Rightarrow> (s, [])
      | Some d \<Rightarrow>
          (let (d, ready) = PopReady d now
           in foldl collectMsg (s\<lparr>s_DelayedInbox := Some d\<rparr>, []) ready))"

definition collectExpress :: "Sequencer \<Rightarrow> u64 \<Rightarrow> Sequencer \<times> Transaction list" where
  "collectExpress s now =
     (case s_Timeboost s of
        None \<Rightarrow> (s, [])
      | Some t \<Rightarrow> (let (t, txs) = Drain t now in (s\<lparr>s_Timeboost := Some t\<rparr>, txs)))"

definition collectPool :: "(nat \<Rightarrow> bytes list) \<Rightarrow> Sequencer \<Rightarrow> Transaction list \<Rightarrow> (Sequencer \<times> Transaction list) option" where
  "collectPool order s out =
     (let used = usedGas 0 out;
          lim = h_GasLimit (s_Header s);
          remainGas = (if lim \<noteq> 0 then (if used \<ge> lim then 0 else lim - used) else NOT 0);
          remainCount = s_maxTxs s - int (length out);
          remainCount = (if remainCount < 0 then 0 else remainCount)
      in case s_Mempool s of
           None \<Rightarrow> Some (s, out)
         | Some m \<Rightarrow>
             if remainCount > 0 \<and> remainGas > 0 then
               (case PopBatch (Suc (Count m)) order m remainGas remainCount of
                  None \<Rightarrow> None
                | Some (m, txs) \<Rightarrow> Some (s\<lparr>s_Mempool := Some m\<rparr>, out @ txs))
             else Some (s, out))"

definition collect :: "(nat \<Rightarrow> bytes list) \<Rightarrow> Sequencer \<Rightarrow> u64 \<Rightarrow> (Sequencer \<times> Transaction list) option" where
  "collect order s now =
     (let (s, delayed) = collectInbox s now;
          (s, express) = collectExpress s now
      in collectPool order s (delayed @ express))"

text \<open>The loop of \<open>ProduceBlock\<close> over the candidates. \<open>seen\<close> has the nonce that is due, per sender.\<close>

fun selectTxs :: "StateTrie \<Rightarrow> u64 \<Rightarrow> int \<Rightarrow> Transaction list \<Rightarrow> u64 \<Rightarrow> (Address \<rightharpoonup> u64) \<Rightarrow> Transaction list \<Rightarrow> Transaction list" where
  "selectTxs t lim maxTxs batch reserved seen [] = batch"
| "selectTxs t lim maxTxs batch reserved seen (tx # txs) =
     (if maxTxs > 0 \<and> int (length batch) \<ge> maxTxs then batch
      else if lim \<noteq> 0 \<and> reserved \<ge> lim then batch
      else if lim \<noteq> 0 \<and> tx_Gas tx > lim - reserved then selectTxs t lim maxTxs batch reserved seen txs
      else
        (let want = (case seen (tx_From tx) of Some w \<Rightarrow> w | None \<Rightarrow> nonceOf t (tx_From tx));
             seen = seen(tx_From tx \<mapsto> want)
         in if tx_Nonce tx \<noteq> want then selectTxs t lim maxTxs batch reserved seen txs
            else
              (case SafeAddGas reserved (tx_Gas tx) of
                 Inl _ \<Rightarrow> selectTxs t lim maxTxs batch reserved seen txs
               | Inr nextRes \<Rightarrow>
                   selectTxs t lim maxTxs (batch @ [tx]) nextRes (seen(tx_From tx \<mapsto> want + 1)) txs)))"

datatype seq_error = GasErr gas_error | BlockErr block_error | PackErr pack_error

definition ProduceBlock :: "nat \<Rightarrow> schedule \<Rightarrow> (nat \<Rightarrow> bytes list) \<Rightarrow> Sequencer \<Rightarrow> u64 \<Rightarrow>
    (Sequencer \<times> (seq_error + BlockResult)) outcome" where
  "ProduceBlock n sch order s timestamp =
     (let s = s\<lparr>s_Header := (s_Header s)\<lparr>h_ParentHash := h_StateRoot (s_Header s), h_Timestamp := timestamp\<rparr>\<rparr>
      in case SafeAddGas (h_Number (s_Header s)) 1 of
           Inl e \<Rightarrow> Done (s, Inl (GasErr e))
         | Inr next \<Rightarrow>
             (let s = s\<lparr>s_Header := (s_Header s)\<lparr>h_Number := next, h_GasUsed := 0\<rparr>\<rparr>
              in case collect order s timestamp of
                   None \<Rightarrow> NoFuel
                 | Some (s, cands) \<Rightarrow>
                     (let batch = selectTxs (s_State s) (h_GasLimit (s_Header s)) (s_maxTxs s) [] 0 Map.empty cands
                      in seq (ProcessBlock n sch (s_arena s) (s_State s) (s_Header s) batch) (\<lambda>(a, t, header, r).
                           let s = s\<lparr>s_arena := a, s_State := t, s_Header := header\<rparr>
                           in case r of
                                Inl err \<Rightarrow> Done (s, Inl (BlockErr err))
                              | Inr res \<Rightarrow>
                                  (case Pack (map Some batch) of
                                     Inl err \<Rightarrow> Done (s, Inl (PackErr err))
                                   | Inr packed \<Rightarrow> Done (s\<lparr>s_LastBatch := packed, s_LastTxs := batch\<rparr>, Inr res))))))"

section \<open>Candidates\<close>

lemma Drain_spec: "snd (Drain t now) = map ei_tx (filter (\<lambda>it. now \<le> ei_deadline it) (tb_items t))" "tb_items (fst (Drain t now)) = []"
  by (auto simp: Drain_def not_less)

lemma msgReady_iff: "msgReady delay now m \<longleftrightarrow> m_PostedAt m \<le> now \<and> delay \<le> now - m_PostedAt m"
  by (auto simp: msgReady_def SafeSubGas_iff not_less)

text \<open>A deposit changes no nonce.\<close>

lemma nonceOf_AddBalance: "nonceOf (AddBalance t b v) a = nonceOf t a"
  by (auto simp: nonceOf_def GetAccount_def AddBalance_def ensureAccount_def Let_def split: option.splits simp del: normalizeAddr.simps)

text \<open>Collecting the messages changes no nonce, and every transaction of a ticket gets the nonce of its sender.\<close>

definition tickets_due :: "StateTrie \<Rightarrow> Sequencer \<times> Transaction list \<Rightarrow> bool" where
  "tickets_due t so \<longleftrightarrow> (\<forall>a. nonceOf (s_State (fst so)) a = nonceOf t a) \<and>
     (\<forall>tx \<in> set (snd so). tx_Nonce tx = nonceOf t (tx_From tx))"

lemma collectMsg_due: "tickets_due t so \<Longrightarrow> tickets_due t (collectMsg so msg)"
  by (cases so) (auto simp: tickets_due_def collectMsg_def Let_def nonceOf_AddBalance split: option.splits sum.splits)

lemma foldl_collectMsg_due: "tickets_due t so \<Longrightarrow> tickets_due t (foldl collectMsg so msgs)"
  by (induction msgs arbitrary: so) (simp_all add: collectMsg_due)

lemma collectInbox_due: "tickets_due (s_State s) (collectInbox s now)"
proof (cases "s_DelayedInbox s")
  case (Some d)
  have "tickets_due (s_State s) (s\<lparr>s_DelayedInbox := Some d'\<rparr>, [])" for d' by (simp add: tickets_due_def)
  then show ?thesis using Some foldl_collectMsg_due by (simp add: collectInbox_def split: prod.split)
qed (simp add: collectInbox_def tickets_due_def)

text \<open>The fuel of \<open>PopBatch\<close> is enough, so that \<open>collect\<close> returns.\<close>

definition pools_ok :: "Sequencer \<Rightarrow> bool" where
  "pools_ok s \<longleftrightarrow> (\<forall>m. s_Mempool s = Some m \<longrightarrow> pool_ok m \<and> finite (dom (byHash m)))"

lemma collectPool_returns:
  assumes "pools_ok s"
  shows "\<exists>s' txs. collectPool order s out = Some (s', out @ txs) \<and> (\<exists>m'. s' = s\<lparr>s_Mempool := m'\<rparr>)"
proof (cases "s_Mempool s")
  case None
  then have "s = s\<lparr>s_Mempool := None\<rparr>" by (cases s) simp
  then have "\<exists>m'. s = s\<lparr>s_Mempool := m'\<rparr>" by blast
  then show ?thesis by (simp add: collectPool_def Let_def None)
next
  case (Some m)
  have self: "s = s\<lparr>s_Mempool := Some m\<rparr>" using Some by (cases s) simp
  have pop: "\<exists>m' txs. PopBatch (Suc (Count m)) order m g c = Some (m', txs)" for g c
    using PopBatch_popped [of m "Suc (Count m)" order g c] assms Some by (auto simp: pools_ok_def)
  have "\<exists>s' txs. (if b then
        (case PopBatch (Suc (Count m)) order m g c of None \<Rightarrow> None | Some (m, txs) \<Rightarrow> Some (s\<lparr>s_Mempool := Some m\<rparr>, out @ txs))
      else Some (s, out)) = Some (s', out @ txs) \<and> (\<exists>m'. s' = s\<lparr>s_Mempool := m'\<rparr>)" for b g c
  proof (cases b)
    case True
    obtain m' txs where "PopBatch (Suc (Count m)) order m g c = Some (m', txs)" using pop by blast
    then show ?thesis using True by auto
  next
    case False
    then show ?thesis using self by (intro exI [of _ s] exI [of _ "[]"]) (simp; blast)
  qed
  then show ?thesis unfolding collectPool_def Let_def Some option.case by blast
qed

section \<open>The selection\<close>

abbreviation sentBy :: "Address \<Rightarrow> Transaction list \<Rightarrow> Transaction list" where
  "sentBy a \<equiv> filter (\<lambda>tx. tx_From tx = a)"

text \<open>The nonces of each sender count up from the nonce of the account.\<close>

definition nonces_due :: "StateTrie \<Rightarrow> Transaction list \<Rightarrow> bool" where
  "nonces_due t batch \<longleftrightarrow>
     (\<forall>a. map tx_Nonce (sentBy a batch) = map (\<lambda>i. nonceOf t a + of_nat i) [0..<length (sentBy a batch)])"

definition selected :: "StateTrie \<Rightarrow> u64 \<Rightarrow> int \<Rightarrow> Transaction list \<Rightarrow> bool" where
  "selected t lim maxTxs batch \<longleftrightarrow> nonces_due t batch \<and> gasOf batch < B64 \<and>
     (lim \<noteq> 0 \<longrightarrow> gasOf batch \<le> unat lim) \<and> (maxTxs > 0 \<longrightarrow> int (length batch) \<le> maxTxs)"

lemma nonces_due_snoc:
  assumes "nonces_due t batch" "tx_Nonce tx = nonceOf t (tx_From tx) + of_nat (length (sentBy (tx_From tx) batch))"
  shows "nonces_due t (batch @ [tx])"
  using assms by (auto simp: nonces_due_def)

lemma selectTxs_spec:
  assumes "selected t lim maxTxs batch" "unat reserved = gasOf batch"
    "\<forall>a. (case seen a of Some w \<Rightarrow> w | None \<Rightarrow> nonceOf t a) = nonceOf t a + of_nat (length (sentBy a batch))"
  shows "selected t lim maxTxs (selectTxs t lim maxTxs batch reserved seen cands) \<and>
    (\<exists>new. selectTxs t lim maxTxs batch reserved seen cands = batch @ new \<and> subseq new cands)"
  using assms
proof (induction cands arbitrary: batch reserved seen)
  case (Cons tx txs)
  let ?want = "case seen (tx_From tx) of Some w \<Rightarrow> w | None \<Rightarrow> nonceOf t (tx_From tx)"
  let ?seen = "seen(tx_From tx \<mapsto> ?want)"
  have seen: "\<forall>a. (case ?seen a of Some w \<Rightarrow> w | None \<Rightarrow> nonceOf t a) = nonceOf t a + of_nat (length (sentBy a batch))"
    using Cons.prems(3) by auto
  consider (stop) "maxTxs > 0 \<and> int (length batch) \<ge> maxTxs \<or> lim \<noteq> 0 \<and> reserved \<ge> lim"
    | (big) "\<not> (maxTxs > 0 \<and> int (length batch) \<ge> maxTxs)" "\<not> (lim \<noteq> 0 \<and> reserved \<ge> lim)" "lim \<noteq> 0 \<and> tx_Gas tx > lim - reserved"
    | (go) "\<not> (maxTxs > 0 \<and> int (length batch) \<ge> maxTxs)" "\<not> (lim \<noteq> 0 \<and> reserved \<ge> lim)" "\<not> (lim \<noteq> 0 \<and> tx_Gas tx > lim - reserved)"
    by blast
  then show ?case
  proof cases
    case stop
    then show ?thesis using Cons.prems(1) by auto
  next
    case big
    then show ?thesis using Cons.IH [OF Cons.prems] by (auto intro: subseq_Cons')
  next
    case go
    show ?thesis
    proof (cases "tx_Nonce tx = ?want \<and> unat reserved + unat (tx_Gas tx) < B64")
      case False
      then have "selectTxs t lim maxTxs batch reserved seen (tx # txs) = selectTxs t lim maxTxs batch reserved ?seen txs"
        using go by (auto simp: Let_def SafeAddGas_iff)
      moreover have "selected t lim maxTxs (selectTxs t lim maxTxs batch reserved ?seen txs) \<and>
          (\<exists>new. selectTxs t lim maxTxs batch reserved ?seen txs = batch @ new \<and> subseq new txs)"
        by (rule Cons.IH [OF Cons.prems(1,2) seen])
      ultimately show ?thesis by (auto intro: subseq_Cons')
    next
      case True
      let ?s2 = "?seen(tx_From tx \<mapsto> ?want + 1)"
      have step: "selectTxs t lim maxTxs batch reserved seen (tx # txs) = selectTxs t lim maxTxs (batch @ [tx]) (reserved + tx_Gas tx) ?s2 txs"
        using go True by (auto simp: Let_def SafeAddGas_iff)
      have res: "unat (reserved + tx_Gas tx) = gasOf (batch @ [tx])"
        using True Cons.prems(2) by (simp add: unat_u64_arith gasOf_def)
      have "lim \<noteq> 0 \<longrightarrow> unat reserved + unat (tx_Gas tx) \<le> unat lim"
        using go(2,3) by (auto simp: word_le_nat_alt word_less_nat_alt not_less unat_sub)
      moreover have "nonces_due t (batch @ [tx])"
        using True Cons.prems(1,3) by (intro nonces_due_snoc) (simp_all add: selected_def)
      ultimately have sel: "selected t lim maxTxs (batch @ [tx])"
        using go(1) True Cons.prems(1,2) by (auto simp: selected_def gasOf_def)
      have seen2: "\<forall>a. (case ?s2 a of Some w \<Rightarrow> w | None \<Rightarrow> nonceOf t a) = nonceOf t a + of_nat (length (sentBy a (batch @ [tx])))"
        using seen Cons.prems(3) by auto
      have "selected t lim maxTxs (selectTxs t lim maxTxs (batch @ [tx]) (reserved + tx_Gas tx) ?s2 txs) \<and>
          (\<exists>new. selectTxs t lim maxTxs (batch @ [tx]) (reserved + tx_Gas tx) ?s2 txs = (batch @ [tx]) @ new \<and> subseq new txs)"
        by (rule Cons.IH [OF sel res seen2])
      then show ?thesis unfolding step by (auto intro: subseq_Cons2)
    qed
  qed
qed simp

lemma selectTxs_selected: "selected t lim maxTxs (selectTxs t lim maxTxs [] 0 Map.empty cands)"
  and selectTxs_subseq: "subseq (selectTxs t lim maxTxs [] 0 Map.empty cands) cands"
proof -
  have "selected t lim maxTxs []" by (simp add: selected_def nonces_due_def gasOf_def)
  then show "selected t lim maxTxs (selectTxs t lim maxTxs [] 0 Map.empty cands)" "subseq (selectTxs t lim maxTxs [] 0 Map.empty cands) cands"
    using selectTxs_spec [of t lim maxTxs "[]" 0 Map.empty cands] by (simp_all add: gasOf_def)
qed

text \<open>Two transactions of one sender with one nonce are never in the same batch.\<close>

lemma length_filter_distinct: "distinct (map f l) \<Longrightarrow> length (filter (\<lambda>x. f x = n) l) \<le> 1"
  by (induction l) (auto simp: filter_empty_conv image_iff)

lemma unat_of_nat_small: "n < 2 ^ 64 \<Longrightarrow> unat (of_nat n :: u64) = n"
  by (simp add: unat_of_nat)

lemma nonces_due_distinct:
  assumes "nonces_due t batch" "length batch < 2 ^ 64"
  shows "length (filter (\<lambda>tx. tx_From tx = a \<and> tx_Nonce tx = n) batch) \<le> 1"
proof -
  let ?l = "sentBy a batch"
  have "length ?l < 2 ^ 64" using assms(2) length_filter_le [of _ batch] by (rule le_less_trans [rotated])
  then have "inj_on (\<lambda>i. nonceOf t a + of_nat i :: u64) (set [0..<length ?l])"
  proof (intro inj_onI)
    fix x y assume "x \<in> set [0..<length ?l]" "y \<in> set [0..<length ?l]" "nonceOf t a + of_nat x = (nonceOf t a + of_nat y :: u64)"
    then have "x < 2 ^ 64" "y < 2 ^ 64" "(of_nat x :: u64) = of_nat y" using \<open>length ?l < 2 ^ 64\<close> by simp_all
    then show "x = y" using unat_of_nat_small by metis
  qed
  then have "distinct (map tx_Nonce ?l)" using assms(1) by (simp add: nonces_due_def distinct_map)
  then have "length (filter (\<lambda>tx. tx_Nonce tx = n) ?l) \<le> 1"
    by (rule length_filter_distinct)
  then show ?thesis by (simp add: conj_commute)
qed

section \<open>Producing a block\<close>

text \<open>The header that the block is processed with.\<close>

definition nextHeader :: "BlockHeader \<Rightarrow> u64 \<Rightarrow> BlockHeader" where
  "nextHeader h timestamp =
     h\<lparr>h_ParentHash := h_StateRoot h, h_Timestamp := timestamp, h_Number := h_Number h + 1, h_GasUsed := 0\<rparr>"

definition produced :: "(nat \<Rightarrow> bytes list) \<Rightarrow> Sequencer \<Rightarrow> u64 \<Rightarrow> (Sequencer \<times> Transaction list) option" where
  "produced order s timestamp = collect order (s\<lparr>s_Header := nextHeader (s_Header s) timestamp\<rparr>) timestamp"

lemma ProduceBlock_eq:
  "ProduceBlock n sch order s timestamp =
     (if h_Number (s_Header s) = - 1
      then Done (s\<lparr>s_Header := (s_Header s)\<lparr>h_ParentHash := h_StateRoot (s_Header s), h_Timestamp := timestamp\<rparr>\<rparr>, Inl (GasErr ErrGasOverflow))
      else case produced order s timestamp of
             None \<Rightarrow> NoFuel
           | Some (s, cands) \<Rightarrow>
               (let batch = selectTxs (s_State s) (h_GasLimit (s_Header s)) (s_maxTxs s) [] 0 Map.empty cands
                in seq (ProcessBlock n sch (s_arena s) (s_State s) (s_Header s) batch) (\<lambda>(a, t, header, r).
                     let s = s\<lparr>s_arena := a, s_State := t, s_Header := header\<rparr>
                     in case r of
                          Inl err \<Rightarrow> Done (s, Inl (BlockErr err))
                        | Inr res \<Rightarrow>
                            (case Pack (map Some batch) of
                               Inl err \<Rightarrow> Done (s, Inl (PackErr err))
                             | Inr packed \<Rightarrow> Done (s\<lparr>s_LastBatch := packed, s_LastTxs := batch\<rparr>, Inr res)))))"
proof -
  have unat_minus_one: "unat (- 1 :: u64) = B64 - 1" by (simp add: B64_def unsigned_minus_1_eq_mask mask_eq_exp_minus_1)
  have "h_Number (s_Header s) = - 1 \<longleftrightarrow> \<not> unat (h_Number (s_Header s)) + 1 < B64"
    unfolding word_unat_eq_iff [of "h_Number (s_Header s)"] unat_minus_one
    using unat_lt_B64 [of "h_Number (s_Header s)"] by linarith
  then show ?thesis
    by (simp add: ProduceBlock_def produced_def nextHeader_def SafeAddGas_iff Let_def)
qed

text \<open>A block that was produced: the selection, its receipts and its batch.\<close>

lemma ProduceBlock_Inr:
  assumes "ProduceBlock n sch order s timestamp = Done (s', Inr res)"
  obtains s1 cands a t header where "produced order s timestamp = Some (s1, cands)"
    "ProcessBlock n sch (s_arena s1) (s_State s1) (s_Header s1) (s_LastTxs s') = Done (a, t, header, Inr res)"
    "s_State s' = t" "s_Header s' = header" "Pack (map Some (s_LastTxs s')) = Inr (s_LastBatch s')"
    "s_LastTxs s' = selectTxs (s_State s1) (h_GasLimit (s_Header s1)) (s_maxTxs s1) [] 0 Map.empty cands"
proof -
  obtain s1 cands where c: "produced order s timestamp = Some (s1, cands)" and nb: "h_Number (s_Header s) \<noteq> - 1"
    using assms by (cases "produced order s timestamp") (auto simp: ProduceBlock_eq split: if_splits)
  define batch where "batch = selectTxs (s_State s1) (h_GasLimit (s_Header s1)) (s_maxTxs s1) [] 0 Map.empty cands"
  obtain a t header r where p: "ProcessBlock n sch (s_arena s1) (s_State s1) (s_Header s1) batch = Done (a, t, header, r)"
    using assms c nb by (cases "ProcessBlock n sch (s_arena s1) (s_State s1) (s_Header s1) batch") (auto simp: ProduceBlock_eq batch_def)
  have "r = Inr res \<and> Pack (map Some batch) = Inr (s_LastBatch s') \<and> s_LastTxs s' = batch \<and> s_State s' = t \<and> s_Header s' = header"
    using assms c nb p by (auto simp: ProduceBlock_eq batch_def Let_def split: sum.splits)
  then show ?thesis using that [OF c, of a t header] p batch_def by auto
qed

text \<open>A block that was refused: what the collection took is not put back.\<close>

lemma ProduceBlock_refused:
  assumes "ProduceBlock n sch order s timestamp = Done (s', Inl (BlockErr err))"
  obtains s1 cands a t header where "produced order s timestamp = Some (s1, cands)"
    "ProcessBlock n sch (s_arena s1) (s_State s1) (s_Header s1)
       (selectTxs (s_State s1) (h_GasLimit (s_Header s1)) (s_maxTxs s1) [] 0 Map.empty cands) = Done (a, t, header, Inl err)"
    "s' = s1\<lparr>s_arena := a, s_State := t, s_Header := header\<rparr>"
proof -
  obtain s1 cands where c: "produced order s timestamp = Some (s1, cands)" and nb: "h_Number (s_Header s) \<noteq> - 1"
    using assms by (cases "produced order s timestamp") (auto simp: ProduceBlock_eq split: if_splits)
  define batch where "batch = selectTxs (s_State s1) (h_GasLimit (s_Header s1)) (s_maxTxs s1) [] 0 Map.empty cands"
  obtain a t header r where p: "ProcessBlock n sch (s_arena s1) (s_State s1) (s_Header s1) batch = Done (a, t, header, r)"
    using assms c nb by (cases "ProcessBlock n sch (s_arena s1) (s_State s1) (s_Header s1) batch") (auto simp: ProduceBlock_eq batch_def)
  have "r = Inl err \<and> s' = s1\<lparr>s_arena := a, s_State := t, s_Header := header\<rparr>"
    using assms c nb p by (auto simp: ProduceBlock_eq batch_def Let_def split: sum.splits)
  then show ?thesis using that [OF c, of a t header] p batch_def by auto
qed

text \<open>The number is taken before the block is processed: it grows also if the block is refused.\<close>

lemma collectMsg_keeps: "s_Header (fst (collectMsg so msg)) = s_Header (fst so) \<and> s_maxTxs (fst (collectMsg so msg)) = s_maxTxs (fst so) \<and>
    s_arena (fst (collectMsg so msg)) = s_arena (fst so) \<and> s_Mempool (fst (collectMsg so msg)) = s_Mempool (fst so)"
  by (cases so) (auto simp: collectMsg_def Let_def split: option.splits sum.splits)

lemma foldl_collectMsg_keeps: "s_Header (fst (foldl collectMsg so msgs)) = s_Header (fst so) \<and> s_maxTxs (fst (foldl collectMsg so msgs)) = s_maxTxs (fst so) \<and>
    s_arena (fst (foldl collectMsg so msgs)) = s_arena (fst so) \<and> s_Mempool (fst (foldl collectMsg so msgs)) = s_Mempool (fst so)"
  by (induction msgs arbitrary: so) (simp_all add: collectMsg_keeps)

lemma collectInbox_keeps: "collectInbox s now = (s', txs) \<Longrightarrow>
    s_Header s' = s_Header s \<and> s_maxTxs s' = s_maxTxs s \<and> s_arena s' = s_arena s \<and> s_Mempool s' = s_Mempool s"
  using foldl_collectMsg_keeps [of "(s\<lparr>s_DelayedInbox := d\<rparr>, [])" for d]
  by (auto simp: collectInbox_def split: option.splits prod.splits) (metis fst_conv foldl_collectMsg_keeps Sequencer.select_convs Sequencer.surjective Sequencer.update_convs(3))+

text \<open>The messages change the state by deposits only.\<close>

lemma collectMsg_steps: "(trie_step b)\<^sup>*\<^sup>* t (s_State (fst so)) \<Longrightarrow> (trie_step b)\<^sup>*\<^sup>* t (s_State (fst (collectMsg so msg)))"
  by (cases so) (auto simp: collectMsg_def Let_def split: option.splits sum.splits intro: rtranclp.rtrancl_into_rtrancl trie_step.add_balance)

lemma foldl_collectMsg_steps: "(trie_step b)\<^sup>*\<^sup>* t (s_State (fst so)) \<Longrightarrow> (trie_step b)\<^sup>*\<^sup>* t (s_State (fst (foldl collectMsg so msgs)))"
  by (induction msgs arbitrary: so) (simp_all add: collectMsg_steps)

lemma collectInbox_steps: "collectInbox s now = (s', txs) \<Longrightarrow> (trie_step b)\<^sup>*\<^sup>* (s_State s) (s_State s')"
  using foldl_collectMsg_steps [of b "s_State s" "(s\<lparr>s_DelayedInbox := d\<rparr>, [])" for d]
  by (auto simp: collectInbox_def split: option.splits prod.splits) (metis fst_conv)

text \<open>What the messages leave alone, up to the inbox, the tickets and the state.\<close>

lemma collectMsg_rest: "s_Timeboost (fst (collectMsg so msg)) = s_Timeboost (fst so) \<and> s_LastBatch (fst (collectMsg so msg)) = s_LastBatch (fst so) \<and>
    s_LastTxs (fst (collectMsg so msg)) = s_LastTxs (fst so)"
  by (cases so) (auto simp: collectMsg_def Let_def split: option.splits sum.splits)

lemma foldl_collectMsg_rest: "s_Timeboost (fst (foldl collectMsg so msgs)) = s_Timeboost (fst so) \<and> s_LastBatch (fst (foldl collectMsg so msgs)) = s_LastBatch (fst so) \<and>
    s_LastTxs (fst (foldl collectMsg so msgs)) = s_LastTxs (fst so)"
  by (induction msgs arbitrary: so) (simp_all add: collectMsg_rest)

lemma collectInbox_rest:
  assumes "collectInbox s now = (s', txs)"
  shows "s_LastBatch s' = s_LastBatch s \<and> s_LastTxs s' = s_LastTxs s"
proof (cases "s_DelayedInbox s")
  case None
  then show ?thesis using assms by (simp add: collectInbox_def)
next
  case (Some d)
  then have "s' = fst (foldl collectMsg (s\<lparr>s_DelayedInbox := Some (fst (PopReady d now))\<rparr>, []) (snd (PopReady d now)))"
    using assms by (simp add: collectInbox_def split_def Let_def)
  then show ?thesis using foldl_collectMsg_rest by simp
qed

text \<open>The collection as a whole: tickets first, then the express lane, then the pool.\<close>

lemma collect_parts:
  assumes "collect order s now = Some (s', cands)"
  obtains s1 s2 tickets express where "collectInbox s now = (s1, tickets)" "collectExpress s1 now = (s2, express)"
    "collectPool order s2 (tickets @ express) = Some (s', cands)"
  using assms by (auto simp: collect_def split: prod.splits)

lemma collectPool_same:
  assumes "collectPool order s out = Some (s', cands)"
  shows "\<exists>m'. s' = s\<lparr>s_Mempool := m'\<rparr>"
proof -
  have self: "\<exists>m'. s = s\<lparr>s_Mempool := m'\<rparr>" by (intro exI [of _ "s_Mempool s"]) simp
  show ?thesis using assms self by (auto simp: collectPool_def Let_def split: option.splits if_splits)
qed

lemma collectExpress_same:
  assumes "collectExpress s now = (s', txs)"
  shows "\<exists>t'. s' = s\<lparr>s_Timeboost := t'\<rparr> \<and> (\<forall>t. t' = Some t \<longrightarrow> tb_items t = [])"
proof (cases "s_Timeboost s")
  case None
  then have "s = s\<lparr>s_Timeboost := None\<rparr>" by simp
  moreover have "s' = s" using assms None by (simp add: collectExpress_def)
  ultimately show ?thesis by (metis option.distinct(1))
next
  case (Some t)
  then have "s' = s\<lparr>s_Timeboost := Some (fst (Drain t now))\<rparr>" using assms by (auto simp: collectExpress_def split: prod.splits)
  then show ?thesis using Drain_spec(2) by blast
qed

lemma collect_keeps:
  assumes "collect order s now = Some (s', cands)"
  shows "s_Header s' = s_Header s" "s_maxTxs s' = s_maxTxs s" "(trie_step b)\<^sup>*\<^sup>* (s_State s) (s_State s')"
    "\<And>a. nonceOf (s_State s') a = nonceOf (s_State s) a" "s_LastBatch s' = s_LastBatch s" "s_LastTxs s' = s_LastTxs s"
    "\<And>t. s_Timeboost s' = Some t \<Longrightarrow> tb_items t = []"
proof -
  obtain s1 s2 tickets express where p: "collectInbox s now = (s1, tickets)" "collectExpress s1 now = (s2, express)"
    "collectPool order s2 (tickets @ express) = Some (s', cands)" using collect_parts [OF assms] .
  obtain m' where s': "s' = s2\<lparr>s_Mempool := m'\<rparr>" using collectPool_same [OF p(3)] by blast
  obtain t' where s2: "s2 = s1\<lparr>s_Timeboost := t'\<rparr>" and e: "\<forall>t. t' = Some t \<longrightarrow> tb_items t = []" using collectExpress_same [OF p(2)] by blast
  show "s_Header s' = s_Header s" "s_maxTxs s' = s_maxTxs s" using collectInbox_keeps [OF p(1)] by (simp_all add: s' s2)
  show "(trie_step b)\<^sup>*\<^sup>* (s_State s) (s_State s')" using collectInbox_steps [OF p(1)] by (simp add: s' s2)
  show "nonceOf (s_State s') a = nonceOf (s_State s) a" for a
    using collectInbox_due [of s now] by (simp add: p(1) tickets_due_def s' s2)
  show "s_LastBatch s' = s_LastBatch s" "s_LastTxs s' = s_LastTxs s" using collectInbox_rest [OF p(1)] by (simp_all add: s' s2)
  show "tb_items t = []" if "s_Timeboost s' = Some t" for t using that e by (simp add: s' s2)
qed

lemma produced_keeps:
  assumes "produced order s timestamp = Some (s1, cands)"
  shows "s_Header s1 = nextHeader (s_Header s) timestamp" "s_maxTxs s1 = s_maxTxs s" "(trie_step b)\<^sup>*\<^sup>* (s_State s) (s_State s1)"
    "\<And>a. nonceOf (s_State s1) a = nonceOf (s_State s) a" "s_LastBatch s1 = s_LastBatch s" "s_LastTxs s1 = s_LastTxs s"
    "\<And>t. s_Timeboost s1 = Some t \<Longrightarrow> tb_items t = []"
  using collect_keeps [OF assms [unfolded produced_def]] by simp_all

lemma nonces_due_cong: "(\<And>a. nonceOf t' a = nonceOf t a) \<Longrightarrow> nonces_due t' batch = nonces_due t batch"
  by (simp add: nonces_due_def)

text \<open>The header and the state after a block that was accepted.\<close>

lemma ProcessBlock_header:
  assumes "ProcessBlock n sch a t header txs = Done (a', t', header', Inr res)"
  shows "h_Number header' = h_Number header \<and> h_Timestamp header' = h_Timestamp header \<and> h_ParentHash header' = h_ParentHash header \<and>
    h_GasLimit header' = h_GasLimit header \<and> h_GasUsed header' = b_GasUsed res \<and> h_StateRoot header' = b_StateRoot res"
proof -
  obtain t0 rv t1 cum recs rr sr where b: "Snapshot t = (t0, rv)" "processTxs n sch header t0 0 [] txs = Done (t1, Inr (cum, recs))"
    "receiptsRoot recs = Some rr" "ComputeRoot (sch_storage sch t1) (sch_accounts sch t1) a t1 = Some (a', sr)"
    using ProcessBlock_Inr [OF assms] by metis
  show ?thesis using assms b by (auto simp: ProcessBlock_def Let_def)
qed

lemma ProcessBlock_state_ok:
  assumes "state_ok t" "ProcessBlock n sch a t header txs = Done (a', t', header', Inr res)"
  shows "state_ok t'"
proof -
  obtain t0 rv t1 cum recs where b: "Snapshot t = (t0, rv)" "processTxs n sch header t0 0 [] txs = Done (t1, Inr (cum, recs))" "t' = Commit t1"
    using ProcessBlock_Inr [OF assms(2)] by metis
  have "trie_step 0 t t0" by (rule trie_step.snapshot [OF b(1)])
  then have ok0: "state_ok t0" by (intro state_ok_steps [OF r_into_rtranclp assms(1)])
  have "int rv < int (length (reverts t0))" using b(1) by (auto simp: Snapshot_def)
  then have "state_ok t1" using processTxs_steps [OF ok0 _ b(2)] state_ok_steps [OF _ ok0] by blast
  then show ?thesis by (simp add: state_ok_def b(3) Commit_def journal_ok_def)
qed

lemma Pack_plain: "Pack txs = Inr packed \<Longrightarrow> \<exists>plain. packPlain txs = Inr plain \<and> brotliUncompressed plain = Inr packed"
  by (auto simp: Pack_def split: sum.splits)

lemma block_receipts_ok:
  assumes "state_ok t" "ProcessBlock n sch a t header txs = Done (a', t', header', Inr res)" "gasOf txs < B64"
  shows "receipts_ok 0 txs (b_Receipts res)"
proof -
  obtain t0 rv t1 cum recs rr sr where b: "Snapshot t = (t0, rv)" "processTxs n sch header t0 0 [] txs = Done (t1, Inr (cum, recs))"
    "b_Receipts res = recs" using ProcessBlock_Inr [OF assms(2)] by (metis BlockResult.select_convs(1))
  have "trie_step 0 t t0" by (rule trie_step.snapshot [OF b(1)])
  then have ok0: "state_ok t0" by (intro state_ok_steps [OF r_into_rtranclp assms(1)])
  show ?thesis using processTxs_receipts [OF ok0 b(2)] assms(3) by (auto simp: b(3) gasOf_def)
qed

lemma subseq_set: "subseq xs ys \<Longrightarrow> set xs \<subseteq> set ys"
  by (induction rule: list_emb.induct) auto

lemma unat_next: "n \<noteq> (- 1 :: u64) \<Longrightarrow> unat (n + 1) = unat n + 1"
  using unatSuc [of n] by (simp add: add.commute eq_neg_iff_add_eq_0)

end
