(* ===== verification/Brotli_Reader.thy ===== *)
theory Brotli_Reader
  imports Prelude
begin

text \<open>
  The bit reader of \<open>c2crypto/brotli.go\<close>, and the error monad of the decoder. A computation returns a value,
  fails with an error of the package, or panics (\<open>Crash\<close>, an index out of range); \<open>Stuck\<close> is the end of the
  fuel of a loop. The state of the decoder after an error is not observed by its callers and not kept.

  The meaning of a reader is the list of the bits that are still to come, \<open>bitsLeft\<close>: those in the
  accumulator first, then those of the input, the low bit of every byte first.
\<close>

section \<open>Computations of the decoder\<close>

datatype brotli_error = ErrBrotliArg | ErrBrotliCapacity | ErrBrotliTrunc | ErrBrotliFormat | ErrBrotliWindow | ErrBrotliDict

datatype 'a dec = Ret 'a | Fail brotli_error | Crash | Stuck

fun bindD :: "'a dec \<Rightarrow> ('a \<Rightarrow> 'b dec) \<Rightarrow> 'b dec" where
  "bindD (Ret x) k = k x"
| "bindD (Fail e) k = Fail e"
| "bindD Crash k = Crash"
| "bindD Stuck k = Stuck"

lemma bindD_cong [fundef_cong]: "m = m' \<Longrightarrow> (\<And>x. m' = Ret x \<Longrightarrow> k x = k' x) \<Longrightarrow> bindD m k = bindD m' k'"
  by (cases m') simp_all

lemma bindD_Ret: "bindD m k = Ret y \<longleftrightarrow> (\<exists>x. m = Ret x \<and> k x = Ret y)"
  by (cases m) simp_all

text \<open>Arrays: an index out of range panics.\<close>

definition at :: "'a list \<Rightarrow> nat \<Rightarrow> 'a dec" where
  "at xs i = (if i < length xs then Ret (xs ! i) else Crash)"

definition putAt :: "'a list \<Rightarrow> nat \<Rightarrow> 'a \<Rightarrow> 'a list dec" where
  "putAt xs i v = (if i < length xs then Ret (xs[i := v]) else Crash)"

lemma at_Ret [simp]: "i < length xs \<Longrightarrow> at xs i = Ret (xs ! i)"
  by (simp add: at_def)

lemma putAt_Ret [simp]: "i < length xs \<Longrightarrow> putAt xs i v = Ret (xs[i := v])"
  by (simp add: putAt_def)

text \<open>A computation that neither panics nor runs out of fuel, and whose result, if it returns one, satisfies \<open>P\<close>.\<close>

definition ends :: "'a dec \<Rightarrow> ('a \<Rightarrow> bool) \<Rightarrow> bool" where
  "ends m P = (case m of Ret x \<Rightarrow> P x | Fail _ \<Rightarrow> True | Crash \<Rightarrow> False | Stuck \<Rightarrow> False)"

lemma ends_simps [simp]: "ends (Ret x) P = P x" "ends (Fail e) P" "\<not> ends Crash P" "\<not> ends Stuck P"
  by (simp_all add: ends_def)

lemma ends_bindD: "ends (bindD m k) P = ends m (\<lambda>x. ends (k x) P)"
  by (cases m) simp_all

lemma ends_mono: "ends m P \<Longrightarrow> (\<And>x. P x \<Longrightarrow> Q x) \<Longrightarrow> ends m Q"
  by (cases m) simp_all

lemma ends_bindI: "ends m Q \<Longrightarrow> (\<And>x. Q x \<Longrightarrow> ends (k x) P) \<Longrightarrow> ends (bindD m k) P"
  by (cases m) simp_all

lemma ends_Ret: "ends m P \<Longrightarrow> m = Ret x \<Longrightarrow> P x"
  by simp

section \<open>The reader\<close>

record brT =
  br_p :: nat
  br_in :: bytes
  br_acc :: u64
  br_bits :: nat

text \<open>Little-endian bytes as a word, as \<open>brNeed\<close> combines them by shifts.\<close>

definition leBytes :: "bytes \<Rightarrow> u64" where
  "leBytes bs = foldr (\<lambda>x a. ucast x OR push_bit 8 a) bs 0"

text \<open>The loop of \<open>brNeed\<close>; \<open>Some\<close> is the error that it returns together with the reader.\<close>

function brNeed_loop :: "brT \<Rightarrow> nat \<Rightarrow> (brT \<times> brotli_error option) dec" where
  "brNeed_loop b n =
     (let left = int (length (br_in b)) - int (br_p b)
      in if \<not> br_bits b < n then Ret (b, None)
         else if left \<ge> 4 \<and> br_bits b \<le> 32 then
           brNeed_loop (b\<lparr>br_acc := br_acc b OR push_bit (br_bits b) (leBytes (take 4 (drop (br_p b) (br_in b)))),
             br_p := br_p b + 4, br_bits := br_bits b + 32\<rparr>) n
         else if left = 0 then Ret (b, Some ErrBrotliTrunc)
         else if br_bits b > 56 then Ret (b, Some ErrBrotliFormat)
         else if br_p b < length (br_in b) then
           brNeed_loop (b\<lparr>br_acc := br_acc b OR push_bit (br_bits b) (ucast (br_in b ! br_p b)),
             br_p := br_p b + 1, br_bits := br_bits b + 8\<rparr>) n
         else Crash)"
  by pat_completeness auto
termination by (relation "measure (\<lambda>(b, n). length (br_in b) - br_p b)") auto

declare brNeed_loop.simps [simp del]

definition brNeed :: "brT \<Rightarrow> nat \<Rightarrow> (brT \<times> brotli_error option) dec" where
  "brNeed b n =
     (let left = int (length (br_in b)) - int (br_p b)
      in if br_bits b \<ge> n then Ret (b, None)
         else if br_bits b = 0 \<and> left \<ge> 8 then
           (let b = b\<lparr>br_acc := leBytes (take 8 (drop (br_p b) (br_in b))), br_p := br_p b + 8, br_bits := 64\<rparr>
            in if br_bits b \<ge> n then Ret (b, None) else brNeed_loop b n)
         else brNeed_loop b n)"

text \<open>\<open>if uint(b.bits) < n { if r := brNeed(b, n); r < 0 { return r } }\<close>\<close>

definition brFill :: "brT \<Rightarrow> nat \<Rightarrow> brT dec" where
  "brFill b n =
     (if br_bits b < n then
        bindD (brNeed b n) (\<lambda>(b, r). case r of Some e \<Rightarrow> Fail e | None \<Rightarrow> Ret b)
      else Ret b)"

definition brDrop :: "brT \<Rightarrow> nat \<Rightarrow> brT" where
  "brDrop b n = b\<lparr>br_acc := drop_bit n (br_acc b), br_bits := br_bits b - n\<rparr>"

definition brPeek :: "brT \<Rightarrow> nat \<Rightarrow> (u32 \<times> brT) dec" where
  "brPeek b n =
     (if n = 0 then Ret (0, b)
      else bindD (brFill b n) (\<lambda>b. Ret (ucast (br_acc b) AND ucast (push_bit n 1 - 1 :: u64), b)))"

definition brRead :: "brT \<Rightarrow> nat \<Rightarrow> (u32 \<times> brT) dec" where
  "brRead b n =
     (if n = 0 then Ret (0, b)
      else if n > 24 then Fail ErrBrotliFormat
      else bindD (brFill b n) (\<lambda>b. Ret (ucast (br_acc b) AND ucast (push_bit n 1 - 1 :: u64), brDrop b n)))"

definition brAlign :: "brT \<Rightarrow> brT" where
  "brAlign b = (let r = br_bits b mod 8 in if r \<noteq> 0 then brDrop b r else b)"

section \<open>The bits to come\<close>

definition byteBits :: "byte \<Rightarrow> bool list" where
  "byteBits x = map (bit x) [0..<8]"

definition accBits :: "brT \<Rightarrow> bool list" where
  "accBits b = map (bit (br_acc b)) [0..<br_bits b]"

definition bitsLeft :: "brT \<Rightarrow> bool list" where
  "bitsLeft b = accBits b @ concat (map byteBits (drop (br_p b) (br_in b)))"

definition br_ok :: "brT \<Rightarrow> bool" where
  "br_ok b \<longleftrightarrow> br_p b \<le> length (br_in b) \<and> br_bits b \<le> 64 \<and> (\<forall>i \<ge> br_bits b. \<not> bit (br_acc b) i)"

lemma length_byteBits [simp]: "length (byteBits x) = 8"
  by (simp add: byteBits_def)

lemma length_concat_byteBits [simp]: "length (concat (map byteBits bs)) = 8 * length bs"
  by (induction bs) simp_all

lemma length_accBits [simp]: "length (accBits b) = br_bits b"
  by (simp add: accBits_def)

lemma length_bitsLeft: "length (bitsLeft b) = br_bits b + 8 * (length (br_in b) - br_p b)"
  by (simp add: bitsLeft_def)

lemma bit_leBytes: "bit (leBytes bs) i \<longleftrightarrow> i < 64 \<and> i < 8 * length bs \<and> concat (map byteBits bs) ! i"
proof (induction bs arbitrary: i)
  case (Cons x bs)
  have "bit (leBytes (x # bs)) i \<longleftrightarrow> i < 64 \<and> (bit x i \<or> 8 \<le> i \<and> bit (leBytes bs) (i - 8))"
    using bit_imp_le_length [of x i] by (auto simp: leBytes_def bit_simps)
  then show ?case using Cons.IH [of "i - 8"] bit_imp_le_length [of x i] by (auto simp: nth_append byteBits_def)
qed (simp add: leBytes_def)

text \<open>Loading bytes into the accumulator keeps the bits to come.\<close>

lemma load_bits:
  assumes ok: "br_ok b" and k: "br_bits b + 8 * k \<le> 64" "br_p b + k \<le> length (br_in b)"
    and b': "b' = b\<lparr>br_acc := br_acc b OR push_bit (br_bits b) (leBytes (take k (drop (br_p b) (br_in b)))),
      br_p := br_p b + k, br_bits := br_bits b + 8 * k\<rparr>"
  shows "br_ok b' \<and> bitsLeft b' = bitsLeft b"
proof -
  let ?bs = "take k (drop (br_p b) (br_in b))"
  have len: "length ?bs = k" using k(2) by simp
  have acc: "bit (br_acc b') i \<longleftrightarrow> bit (br_acc b) i \<or> br_bits b \<le> i \<and> i < 64 \<and> i - br_bits b < 8 * k \<and> concat (map byteBits ?bs) ! (i - br_bits b)" for i
    using k(2) by (auto simp: b' bit_simps bit_leBytes min_def)
  have "\<not> bit (br_acc b) i" if "br_bits b \<le> i" for i using ok that by (simp add: br_ok_def)
  then have "accBits b' = accBits b @ concat (map byteBits ?bs)"
    using acc k(1) len by (intro nth_equalityI) (auto simp: accBits_def b' nth_append)
  moreover have "concat (map byteBits ?bs) @ concat (map byteBits (drop (br_p b') (br_in b'))) = concat (map byteBits (drop (br_p b) (br_in b)))"
    unfolding concat_append [symmetric] map_append [symmetric] by (simp add: b' add.commute flip: drop_drop)
  ultimately have "bitsLeft b' = bitsLeft b" by (simp add: bitsLeft_def)
  moreover have "br_ok b'" using ok k acc by (auto simp: br_ok_def b')
  ultimately show ?thesis by simp
qed

lemma leBytes_single: "p < length bs \<Longrightarrow> leBytes (take (Suc 0) (drop p bs)) = ucast (bs ! p)"
  by (simp add: leBytes_def take_Suc_conv_app_nth)

text \<open>What a refill does: it keeps the bits to come, and gives up only when they are too few.\<close>

definition filled :: "brT \<Rightarrow> nat \<Rightarrow> brT \<times> brotli_error option \<Rightarrow> bool" where
  "filled b n r \<longleftrightarrow> br_ok (fst r) \<and> bitsLeft (fst r) = bitsLeft b \<and> br_in (fst r) = br_in b \<and>
     (case snd r of
        None \<Rightarrow> n \<le> br_bits (fst r)
      | Some e \<Rightarrow> e = ErrBrotliTrunc \<and> length (bitsLeft b) < n)"

lemma filled_cong: "filled b' n r \<Longrightarrow> bitsLeft b' = bitsLeft b \<Longrightarrow> br_in b' = br_in b \<Longrightarrow> filled b n r"
  by (simp add: filled_def split: option.splits)

lemma brNeed_loop_filled:
  "br_ok b \<Longrightarrow> n \<le> 57 \<Longrightarrow> \<exists>r. brNeed_loop b n = Ret r \<and> filled b n r"
proof (induction b n rule: brNeed_loop.induct)
  case (1 b n)
  have p: "br_p b \<le> length (br_in b)" using "1.prems"(1) by (simp add: br_ok_def)
  let ?left = "int (length (br_in b)) - int (br_p b)"
  consider (full) "n \<le> br_bits b" | (four) "br_bits b < n" "?left \<ge> 4" "br_bits b \<le> 32"
    | (none) "br_bits b < n" "?left = 0" | (one) "br_bits b < n" "?left > 0" "\<not> (?left \<ge> 4 \<and> br_bits b \<le> 32)"
    using p by linarith
  then show ?case
  proof cases
    case full
    then show ?thesis using "1.prems" by (subst brNeed_loop.simps) (simp add: filled_def)
  next
    case four
    let ?b = "b\<lparr>br_acc := br_acc b OR push_bit (br_bits b) (leBytes (take 4 (drop (br_p b) (br_in b)))), br_p := br_p b + 4, br_bits := br_bits b + 32\<rparr>"
    have l: "br_ok ?b \<and> bitsLeft ?b = bitsLeft b" by (rule load_bits [where k = 4]) (use "1.prems" four in auto)
    have "brNeed_loop b n = brNeed_loop ?b n" using four by (subst brNeed_loop.simps) simp
    moreover have "\<exists>r. brNeed_loop ?b n = Ret r \<and> filled ?b n r" using four l "1.prems" by (intro "1.IH"(1)) simp_all
    ultimately show ?thesis using l filled_cong [of ?b n _ b] by auto
  next
    case none
    then have "brNeed_loop b n = Ret (b, Some ErrBrotliTrunc)" by (subst brNeed_loop.simps) auto
    moreover have "length (bitsLeft b) < n" using none by (simp add: length_bitsLeft)
    ultimately show ?thesis using "1.prems" by (simp add: filled_def)
  next
    case one
    let ?b = "b\<lparr>br_acc := br_acc b OR push_bit (br_bits b) (ucast (br_in b ! br_p b)), br_p := br_p b + 1, br_bits := br_bits b + 8\<rparr>"
    have i: "br_p b < length (br_in b)" using one by linarith
    have "br_bits b + 8 * 1 \<le> 64" "br_p b + 1 \<le> length (br_in b)" using one(1) "1.prems"(2) i by simp_all
    then have l: "br_ok ?b \<and> bitsLeft ?b = bitsLeft b"
      by (intro load_bits [where k = 1] "1.prems"(1)) (simp_all add: leBytes_single i)
    have "brNeed_loop b n = brNeed_loop ?b n" using one i "1.prems"(2) by (subst brNeed_loop.simps) auto
    moreover have "\<exists>r. brNeed_loop ?b n = Ret r \<and> filled ?b n r" using one l i "1.prems" by (intro "1.IH"(2)) auto
    ultimately show ?thesis using l filled_cong [of ?b n _ b] by auto
  qed
qed

lemma brNeed_filled:
  assumes ok: "br_ok b" and n: "n \<le> 57"
  shows "\<exists>r. brNeed b n = Ret r \<and> filled b n r"
proof (cases "br_bits b = 0 \<and> int (length (br_in b)) - int (br_p b) \<ge> 8 \<and> 0 < n")
  case True
  let ?b = "b\<lparr>br_acc := leBytes (take 8 (drop (br_p b) (br_in b))), br_p := br_p b + 8, br_bits := 64\<rparr>"
  have "br_acc b = 0" using ok True by (intro bit_eqI) (simp add: br_ok_def)
  then have "br_ok ?b \<and> bitsLeft ?b = bitsLeft b" using True by (intro load_bits [where k = 8] ok) simp_all
  moreover have "brNeed b n = Ret (?b, None)" using True n by (simp add: brNeed_def Let_def)
  ultimately show ?thesis using n by (simp add: filled_def)
next
  case False
  show ?thesis
  proof (cases "n \<le> br_bits b")
    case True
    then show ?thesis using ok by (simp add: brNeed_def filled_def)
  next
    case f: False
    then have "brNeed b n = brNeed_loop b n" using False by (auto simp: brNeed_def Let_def)
    then show ?thesis using brNeed_loop_filled [OF ok n] by simp
  qed
qed

lemma brFill_spec:
  assumes "br_ok b" "n \<le> 57"
  shows "if n \<le> length (bitsLeft b)
    then \<exists>b'. brFill b n = Ret b' \<and> br_ok b' \<and> bitsLeft b' = bitsLeft b \<and> br_in b' = br_in b \<and> n \<le> br_bits b'
    else brFill b n = Fail ErrBrotliTrunc"
proof (cases "br_bits b < n")
  case True
  obtain b' e where r: "brNeed b n = Ret (b', e)" "filled b n (b', e)" using brNeed_filled [OF assms] by (metis prod.collapse)
  have "n \<le> br_bits b' \<Longrightarrow> n \<le> length (bitsLeft b')" by (simp add: length_bitsLeft)
  then show ?thesis using True r by (cases e) (auto simp: brFill_def filled_def)
next
  case False
  then show ?thesis using assms(1) by (simp add: brFill_def length_bitsLeft)
qed

lemma accBits_take: "n \<le> br_bits b \<Longrightarrow> take n (bitsLeft b) = map (bit (br_acc b)) [0..<n]"
  by (simp add: bitsLeft_def accBits_def take_map)

lemma brDrop_bits:
  assumes "br_ok b" "n \<le> br_bits b"
  shows "br_ok (brDrop b n) \<and> bitsLeft (brDrop b n) = drop n (bitsLeft b) \<and> br_in (brDrop b n) = br_in b"
proof -
  have "accBits (brDrop b n) = drop n (accBits b)"
    using assms(2) by (intro nth_equalityI) (simp_all add: accBits_def brDrop_def bit_simps add.commute)
  then have "bitsLeft (brDrop b n) = drop n (bitsLeft b)" using assms(2) by (simp add: bitsLeft_def brDrop_def)
  then show ?thesis using assms by (auto simp: br_ok_def brDrop_def bit_simps)
qed

text \<open>The value of bits, the low one first.\<close>

definition bitsVal :: "bool list \<Rightarrow> u32" where
  "bitsVal bs = horner_sum of_bool 2 bs"

lemma masked: "n \<le> 32 \<Longrightarrow> (ucast (a :: u64) AND ucast (push_bit n 1 - 1 :: u64) :: u32) = take_bit n (ucast a)"
  by (auto simp: mask_eq_exp_minus_1 [symmetric] push_bit_of_1 intro!: bit_eqI) (auto simp: bit_simps)

lemma masked_bits: "n \<le> br_bits b \<Longrightarrow> n \<le> 32 \<Longrightarrow>
    (ucast (br_acc b) AND ucast (push_bit n 1 - 1 :: u64) :: u32) = bitsVal (take n (bitsLeft b))"
proof -
  assume n: "n \<le> br_bits b" "n \<le> 32"
  have "map (bit (br_acc b)) [0..<n] = map (bit (ucast (br_acc b) :: u32)) [0..<n]" using n(2) by (simp add: bit_simps)
  then have "take n (bitsLeft b) = map (bit (ucast (br_acc b) :: u32)) [0..<n]" using accBits_take [OF n(1)] by simp
  then show ?thesis unfolding masked [OF n(2)] bitsVal_def by (simp only: horner_sum_bit_eq_take_bit)
qed

lemma brRead_spec:
  assumes "br_ok b" "n \<le> 24"
  shows "if n \<le> length (bitsLeft b)
    then \<exists>b'. brRead b n = Ret (bitsVal (take n (bitsLeft b)), b') \<and> br_ok b' \<and> bitsLeft b' = drop n (bitsLeft b) \<and> br_in b' = br_in b
    else brRead b n = Fail ErrBrotliTrunc"
proof (cases "n = 0")
  case True
  then show ?thesis using assms by (simp add: brRead_def bitsVal_def)
next
  case n: False
  show ?thesis
  proof (cases "n \<le> length (bitsLeft b)")
    case True
    obtain b' where b: "brFill b n = Ret b'" "br_ok b'" "bitsLeft b' = bitsLeft b" "br_in b' = br_in b" "n \<le> br_bits b'"
      using brFill_spec [OF assms(1), of n] assms(2) True by auto
    then show ?thesis using True n assms(2) brDrop_bits [OF b(2,5)] masked_bits [OF b(5)] by (auto simp: brRead_def)
  next
    case False
    then show ?thesis using n assms brFill_spec [OF assms(1), of n] by (simp add: brRead_def)
  qed
qed

lemma brPeek_spec:
  assumes "br_ok b" "n \<le> 24" "0 < n"
  shows "if n \<le> length (bitsLeft b)
    then \<exists>b'. brPeek b n = Ret (bitsVal (take n (bitsLeft b)), b') \<and> br_ok b' \<and> bitsLeft b' = bitsLeft b \<and> br_in b' = br_in b \<and> n \<le> br_bits b'
    else brPeek b n = Fail ErrBrotliTrunc"
proof (cases "n \<le> length (bitsLeft b)")
  case True
  obtain b' where b: "brFill b n = Ret b'" "br_ok b'" "bitsLeft b' = bitsLeft b" "br_in b' = br_in b" "n \<le> br_bits b'"
    using brFill_spec [OF assms(1), of n] assms(2) True by auto
  then show ?thesis using True assms(2,3) masked_bits [OF b(5)] by (auto simp: brPeek_def)
next
  case False
  then show ?thesis using assms brFill_spec [OF assms(1), of n] by (simp add: brPeek_def)
qed

lemma unat_bitsVal: "length bs \<le> 32 \<Longrightarrow> unat (bitsVal bs) < 2 ^ length bs"
proof -
  assume l: "length bs \<le> 32"
  have "take_bit (length bs) (bitsVal bs) = bitsVal bs"
    by (rule bit_eqI) (auto simp: bit_take_bit_iff bitsVal_def bit_horner_sum_bit_word_iff)
  then show ?thesis using l by (metis unsigned_take_bit_eq take_bit_nat_less_exp)
qed

text \<open>The number of bits left, for the loops that end because they read: this needs no invariant.\<close>

definition remaining :: "brT \<Rightarrow> nat" where
  "remaining b = length (bitsLeft b)"

lemma brNeed_loop_remaining: "brNeed_loop b n = Ret (b', r) \<Longrightarrow> remaining b' = remaining b \<and> (r = None \<longrightarrow> n \<le> br_bits b')"
proof (induction b n rule: brNeed_loop.induct)
  case (1 b n)
  let ?left = "int (length (br_in b)) - int (br_p b)"
  consider (full) "n \<le> br_bits b" | (four) "br_bits b < n" "?left \<ge> 4 \<and> br_bits b \<le> 32"
    | (none) "br_bits b < n" "\<not> (?left \<ge> 4 \<and> br_bits b \<le> 32)" "?left = 0 \<or> br_bits b > 56 \<or> \<not> br_p b < length (br_in b)"
    | (one) "br_bits b < n" "\<not> (?left \<ge> 4 \<and> br_bits b \<le> 32)" "?left \<noteq> 0" "\<not> br_bits b > 56" "br_p b < length (br_in b)"
    by linarith
  then show ?case
  proof cases
    case full
    then show ?thesis using "1.prems" by (subst (asm) brNeed_loop.simps) auto
  next
    case four
    then show ?thesis using "1.prems" "1.IH"(1) by (subst (asm) brNeed_loop.simps) (auto simp: remaining_def length_bitsLeft)
  next
    case none
    then show ?thesis using "1.prems" by (subst (asm) brNeed_loop.simps) (auto split: if_splits)
  next
    case one
    then show ?thesis using "1.prems" "1.IH"(2) by (subst (asm) brNeed_loop.simps) (auto simp: remaining_def length_bitsLeft)
  qed
qed

lemma brNeed_remaining: "brNeed b n = Ret (b', r) \<Longrightarrow> remaining b' = remaining b \<and> (r = None \<longrightarrow> n \<le> br_bits b')"
  by (auto simp: brNeed_def Let_def remaining_def length_bitsLeft dest!: brNeed_loop_remaining split: if_splits)

lemma brFill_remaining: "brFill b n = Ret b' \<Longrightarrow> remaining b' = remaining b \<and> n \<le> br_bits b'"
  by (auto simp: brFill_def bindD_Ret split: if_splits option.splits dest!: brNeed_remaining)

lemma brDrop_remaining: "remaining (brDrop b n) \<le> remaining b"
  by (simp add: remaining_def length_bitsLeft brDrop_def)

lemma brRead_remaining:
  assumes "brRead b n = Ret (v, b')"
  shows "remaining b' + n = remaining b" "n \<le> 24" "unat v < 2 ^ n"
proof -
  show n: "n \<le> 24" using assms by (simp add: brRead_def split: if_splits)
  have lt: "unat (take_bit n w) < 2 ^ n" for w :: u32 by (simp add: unsigned_take_bit_eq)
  show "remaining b' + n = remaining b" "unat v < 2 ^ n"
    using assms n masked [of n] lt
    by (auto simp: brRead_def bindD_Ret brDrop_def remaining_def length_bitsLeft dest!: brFill_remaining split: if_splits)
qed

end
