(* ===== verification/Brotli.thy ===== *)
theory Brotli
  imports Brotli_Reader
begin

text \<open>
  The decoder of \<open>c2crypto/brotli.go\<close>, function by function. The package keeps the code lengths, the context maps
  and the context modes in global arrays; they are the record \<open>brotliGlobals\<close>, and what earlier calls have left in
  them is an argument of \<open>BrotliL2Decompress\<close>. Counters that run over a fixed range are natural numbers.
\<close>

type_synonym u16 = "16 word"

section \<open>Tables\<close>

definition l2Win :: u32 where "l2Win = 65536"
definition l2MaxAlph :: u32 where "l2MaxAlph = 704"

definition kClOrder :: "nat list" where "kClOrder = [1, 2, 3, 4, 0, 5, 17, 6, 16, 7, 8, 9, 10, 11, 12, 13, 14, 15]"
definition kClPfxLen :: "nat list" where "kClPfxLen = [2, 2, 2, 3, 2, 2, 2, 4, 2, 2, 2, 3, 2, 2, 2, 4]"
definition kClPfxVal :: bytes where "kClPfxVal = [0, 4, 3, 2, 0, 4, 3, 1, 0, 4, 3, 2, 0, 4, 3, 5]"
definition kInsNbits :: "nat list" where
  "kInsNbits = [0, 0, 0, 0, 0, 0, 1, 1, 2, 2, 3, 3, 4, 4, 5, 5, 6, 7, 8, 9, 10, 12, 14, 24]"
definition kInsBase :: "u32 list" where
  "kInsBase = [0, 1, 2, 3, 4, 5, 6, 8, 10, 14, 18, 26, 34, 50, 66, 98, 130, 194, 322, 578, 1090, 2114, 6210, 22594]"
definition kCpyNbits :: "nat list" where
  "kCpyNbits = [0, 0, 0, 0, 0, 0, 0, 0, 1, 1, 2, 2, 3, 3, 4, 4, 5, 5, 6, 7, 8, 9, 10, 24]"
definition kCpyBase :: "u32 list" where
  "kCpyBase = [2, 3, 4, 5, 6, 7, 8, 9, 10, 12, 14, 18, 22, 30, 38, 54, 70, 102, 134, 198, 326, 582, 1094, 2118]"
definition kBlkNbits :: "nat list" where
  "kBlkNbits = [2, 2, 2, 2, 3, 3, 3, 3, 4, 4, 4, 4, 5, 5, 5, 5, 6, 6, 7, 8, 9, 10, 11, 12, 13, 24]"
definition kBlkBase :: "u32 list" where
  "kBlkBase = [1, 5, 9, 13, 17, 25, 33, 41, 49, 65, 81, 97, 113, 145, 177, 209, 241, 305, 369, 497, 753, 1265, 2289, 4337, 8433, 16625]"
definition kShortDelta :: "int list" where
  "kShortDelta = [0, 0, 0, 0, -1, 1, -2, 2, -3, 3, -1, 1, -2, 2, -3, 3]"
definition kShortWhich :: "nat list" where
  "kShortWhich = [0, 1, 2, 3, 0, 0, 0, 0, 0, 0, 1, 1, 1, 1, 1, 1]"

definition kUtf8Signed :: bytes where
  "kUtf8Signed =
     [0, 0, 0, 0, 0, 0, 0, 0, 0, 4, 4, 0, 0, 4, 0, 0,
      0, 0, 0, 0, 0, 0, 0, 0, 0, 0, 0, 0, 0, 0, 0, 0,
      8, 12, 16, 12, 12, 20, 12, 16, 24, 28, 12, 12, 32, 12, 36, 12,
      44, 44, 44, 44, 44, 44, 44, 44, 44, 44, 32, 32, 24, 40, 28, 12,
      12, 48, 52, 52, 52, 48, 52, 52, 52, 48, 52, 52, 52, 52, 52, 48,
      52, 52, 52, 52, 52, 48, 52, 52, 52, 52, 52, 24, 12, 28, 12, 12,
      12, 56, 60, 60, 60, 56, 60, 60, 60, 56, 60, 60, 60, 60, 60, 56,
      60, 60, 60, 60, 60, 56, 60, 60, 60, 60, 60, 24, 12, 28, 12, 0,
      0, 1, 0, 1, 0, 1, 0, 1, 0, 1, 0, 1, 0, 1, 0, 1,
      0, 1, 0, 1, 0, 1, 0, 1, 0, 1, 0, 1, 0, 1, 0, 1,
      0, 1, 0, 1, 0, 1, 0, 1, 0, 1, 0, 1, 0, 1, 0, 1,
      0, 1, 0, 1, 0, 1, 0, 1, 0, 1, 0, 1, 0, 1, 0, 1,
      2, 3, 2, 3, 2, 3, 2, 3, 2, 3, 2, 3, 2, 3, 2, 3,
      2, 3, 2, 3, 2, 3, 2, 3, 2, 3, 2, 3, 2, 3, 2, 3,
      2, 3, 2, 3, 2, 3, 2, 3, 2, 3, 2, 3, 2, 3, 2, 3,
      2, 3, 2, 3, 2, 3, 2, 3, 2, 3, 2, 3, 2, 3, 2, 3,
      0, 0, 0, 0, 0, 0, 0, 0, 0, 0, 0, 0, 0, 0, 0, 0,
      0, 0, 0, 0, 0, 0, 0, 0, 0, 0, 0, 0, 0, 0, 0, 0,
      0, 1, 1, 1, 1, 1, 1, 1, 1, 1, 1, 1, 1, 1, 1, 1,
      2, 2, 2, 2, 2, 2, 2, 2, 2, 2, 1, 1, 1, 1, 1, 1,
      1, 2, 2, 2, 2, 2, 2, 2, 2, 2, 2, 2, 2, 2, 2, 2,
      2, 2, 2, 2, 2, 2, 2, 2, 2, 2, 2, 1, 1, 1, 1, 1,
      1, 3, 3, 3, 3, 3, 3, 3, 3, 3, 3, 3, 3, 3, 3, 3,
      3, 3, 3, 3, 3, 3, 3, 3, 3, 3, 3, 1, 1, 1, 1, 0,
      0, 0, 0, 0, 0, 0, 0, 0, 0, 0, 0, 0, 0, 0, 0, 0,
      0, 0, 0, 0, 0, 0, 0, 0, 0, 0, 0, 0, 0, 0, 0, 0,
      0, 0, 0, 0, 0, 0, 0, 0, 0, 0, 0, 0, 0, 0, 0, 0,
      0, 0, 0, 0, 0, 0, 0, 0, 0, 0, 0, 0, 0, 0, 0, 0,
      0, 0, 0, 0, 0, 0, 0, 0, 0, 0, 0, 0, 0, 0, 0, 0,
      0, 0, 0, 0, 0, 0, 0, 0, 0, 0, 0, 0, 0, 0, 0, 0,
      2, 2, 2, 2, 2, 2, 2, 2, 2, 2, 2, 2, 2, 2, 2, 2,
      2, 2, 2, 2, 2, 2, 2, 2, 2, 2, 2, 2, 2, 2, 2, 2,
      0, 8, 8, 8, 8, 8, 8, 8, 8, 8, 8, 8, 8, 8, 8, 8,
      16, 16, 16, 16, 16, 16, 16, 16, 16, 16, 16, 16, 16, 16, 16, 16,
      16, 16, 16, 16, 16, 16, 16, 16, 16, 16, 16, 16, 16, 16, 16, 16,
      16, 16, 16, 16, 16, 16, 16, 16, 16, 16, 16, 16, 16, 16, 16, 16,
      24, 24, 24, 24, 24, 24, 24, 24, 24, 24, 24, 24, 24, 24, 24, 24,
      24, 24, 24, 24, 24, 24, 24, 24, 24, 24, 24, 24, 24, 24, 24, 24,
      24, 24, 24, 24, 24, 24, 24, 24, 24, 24, 24, 24, 24, 24, 24, 24,
      24, 24, 24, 24, 24, 24, 24, 24, 24, 24, 24, 24, 24, 24, 24, 24,
      32, 32, 32, 32, 32, 32, 32, 32, 32, 32, 32, 32, 32, 32, 32, 32,
      32, 32, 32, 32, 32, 32, 32, 32, 32, 32, 32, 32, 32, 32, 32, 32,
      32, 32, 32, 32, 32, 32, 32, 32, 32, 32, 32, 32, 32, 32, 32, 32,
      32, 32, 32, 32, 32, 32, 32, 32, 32, 32, 32, 32, 32, 32, 32, 32,
      40, 40, 40, 40, 40, 40, 40, 40, 40, 40, 40, 40, 40, 40, 40, 40,
      40, 40, 40, 40, 40, 40, 40, 40, 40, 40, 40, 40, 40, 40, 40, 40,
      40, 40, 40, 40, 40, 40, 40, 40, 40, 40, 40, 40, 40, 40, 40, 40,
      48, 48, 48, 48, 48, 48, 48, 48, 48, 48, 48, 48, 48, 48, 48, 56,
      0, 1, 1, 1, 1, 1, 1, 1, 1, 1, 1, 1, 1, 1, 1, 1,
      2, 2, 2, 2, 2, 2, 2, 2, 2, 2, 2, 2, 2, 2, 2, 2,
      2, 2, 2, 2, 2, 2, 2, 2, 2, 2, 2, 2, 2, 2, 2, 2,
      2, 2, 2, 2, 2, 2, 2, 2, 2, 2, 2, 2, 2, 2, 2, 2,
      3, 3, 3, 3, 3, 3, 3, 3, 3, 3, 3, 3, 3, 3, 3, 3,
      3, 3, 3, 3, 3, 3, 3, 3, 3, 3, 3, 3, 3, 3, 3, 3,
      3, 3, 3, 3, 3, 3, 3, 3, 3, 3, 3, 3, 3, 3, 3, 3,
      3, 3, 3, 3, 3, 3, 3, 3, 3, 3, 3, 3, 3, 3, 3, 3,
      4, 4, 4, 4, 4, 4, 4, 4, 4, 4, 4, 4, 4, 4, 4, 4,
      4, 4, 4, 4, 4, 4, 4, 4, 4, 4, 4, 4, 4, 4, 4, 4,
      4, 4, 4, 4, 4, 4, 4, 4, 4, 4, 4, 4, 4, 4, 4, 4,
      4, 4, 4, 4, 4, 4, 4, 4, 4, 4, 4, 4, 4, 4, 4, 4,
      5, 5, 5, 5, 5, 5, 5, 5, 5, 5, 5, 5, 5, 5, 5, 5,
      5, 5, 5, 5, 5, 5, 5, 5, 5, 5, 5, 5, 5, 5, 5, 5,
      5, 5, 5, 5, 5, 5, 5, 5, 5, 5, 5, 5, 5, 5, 5, 5,
      6, 6, 6, 6, 6, 6, 6, 6, 6, 6, 6, 6, 6, 6, 6, 7]"

text \<open>\<open>gCtx\<close> after \<open>ctxInit\<close>.\<close>

definition gCtx :: bytes where
  "gCtx = map (\<lambda>i. of_nat i AND 63) [0..<256] @ replicate 256 0 @ map (\<lambda>i. of_nat (i div 4)) [0..<256] @ replicate 256 0 @ kUtf8Signed"

section \<open>Prefix codes\<close>

record huffT =
  h_count :: "u16 list"
  h_first :: "u16 list"
  h_pos :: "u16 list"
  h_symbols :: "u16 list"
  h_table :: "u16 list"
  h_single :: bool
  h_singleSym :: u16

definition zeroHuff :: huffT where
  "zeroHuff =
     \<lparr>h_count = replicate 16 0, h_first = replicate 16 0, h_pos = replicate 16 0, h_symbols = replicate 704 0,
      h_table = replicate 256 0, h_single = False, h_singleSym = 0\<rparr>"

definition singleHuff :: "huffT \<Rightarrow> u16 \<Rightarrow> huffT" where
  "singleHuff h s = h\<lparr>h_single := True, h_singleSym := s\<rparr>"

function alphBits_loop :: "u32 \<Rightarrow> nat \<Rightarrow> nat" where
  "alphBits_loop x n = (if x > 0 then alphBits_loop (drop_bit 1 x) (n + 1) else n)"
  by pat_completeness auto
termination
proof (relation "measure (\<lambda>(x, _). unat x)")
  fix x :: u32 and n :: nat assume "0 < x"
  then have "0 < unat x" by (simp add: unat_gt_0)
  then show "((drop_bit 1 x, n + 1), x, n) \<in> measure (\<lambda>(x, _). unat x)" by (simp add: unat_div drop_bit_eq_div)
qed simp

declare alphBits_loop.simps [simp del]

definition alphBits :: "u32 \<Rightarrow> nat" where
  "alphBits alph = (if alph \<le> 1 then 0 else alphBits_loop (alph - 1) 0)"

text \<open>The first loop of \<open>huffBuild\<close>: \<open>None\<close> when a length 0xFF ends it early.\<close>

fun huffCount :: "bytes \<Rightarrow> nat \<Rightarrow> nat \<Rightarrow> huffT \<Rightarrow> u32 \<Rightarrow> nat \<Rightarrow> (huffT \<times> (u32 \<times> nat) option) dec" where
  "huffCount len i 0 h nz lst = Ret (h, Some (nz, lst))"
| "huffCount len i (Suc k) h nz lst =
     bindD (at len i) (\<lambda>L.
       if L = 0xFF then Ret (singleHuff h (of_nat i), None)
       else if L > 15 then Fail ErrBrotliFormat
       else if L \<noteq> 0 then
         bindD (at (h_count h) (unat L)) (\<lambda>c.
         bindD (putAt (h_count h) (unat L) (c + 1)) (\<lambda>cs.
         huffCount len (i + 1) k (h\<lparr>h_count := cs\<rparr>) (nz + 1) i))
       else huffCount len (i + 1) k h nz lst)"

definition huffFirst :: "u16 list \<Rightarrow> u16 list \<Rightarrow> u16 list" where
  "huffFirst count first =
     snd (fold (\<lambda>bits (code, first).
       let code = push_bit 1 (code + count ! (bits - 1)) in (code, first[bits := code])) [1..<16] (0, first))"

definition huffPos :: "u16 list \<Rightarrow> u16 list \<Rightarrow> u16 list \<times> u32" where
  "huffPos count pos =
     (let (_, space, pos) =
        fold (\<lambda>bits (acc, space, pos).
          (acc + count ! bits,
           if count ! bits \<noteq> 0 then space + push_bit (15 - bits) (ucast (count ! bits)) else space,
           pos[bits := acc])) [1..<16] (0, 0, pos)
      in (pos, space))"

fun bitRev8_loop :: "u16 \<Rightarrow> u16 \<Rightarrow> nat \<Rightarrow> u16" where
  "bitRev8_loop r c 0 = r"
| "bitRev8_loop r c (Suc n) = bitRev8_loop (push_bit 1 r OR (c AND 1)) (drop_bit 1 c) n"

definition bitRev8 :: "u16 \<Rightarrow> nat \<Rightarrow> u16" where
  "bitRev8 code n = bitRev8_loop 0 code n"

text \<open>\<open>for idx := rev; idx < 256; idx += 1 << L { table[idx] = pack }\<close>\<close>

function fillTable :: "u16 list \<Rightarrow> u16 \<Rightarrow> nat \<Rightarrow> nat \<Rightarrow> u16 list" where
  "fillTable tab pack L idx = (if idx < 256 then fillTable (tab[idx := pack]) pack L (idx + 2 ^ L) else tab)"
  by pat_completeness auto
termination by (relation "measure (\<lambda>(_, _, _, idx). 256 - idx)") (auto intro: diff_less_mono2)

declare fillTable.simps [simp del]

fun huffAssign :: "bytes \<Rightarrow> nat \<Rightarrow> nat \<Rightarrow> huffT \<Rightarrow> u16 list \<Rightarrow> huffT dec" where
  "huffAssign len i 0 h seen = Ret h"
| "huffAssign len i (Suc k) h seen =
     bindD (at len i) (\<lambda>L8.
       let L = unat L8
       in if L \<noteq> 0 then
         bindD (at seen L) (\<lambda>s.
         bindD (at (h_pos h) L) (\<lambda>p.
         bindD (at (h_first h) L) (\<lambda>f.
         bindD (putAt (h_symbols h) (unat (p + s)) (of_nat i)) (\<lambda>syms.
           let h = h\<lparr>h_symbols := syms\<rparr>;
               pack = of_nat i OR push_bit 12 (of_nat L);
               h = (if L \<le> 8 then h\<lparr>h_table := fillTable (h_table h) pack L (unat (bitRev8 (f + s) L))\<rparr> else h)
           in bindD (putAt seen L (s + 1)) (\<lambda>seen. huffAssign len (i + 1) k h seen)))))
       else huffAssign len (i + 1) k h seen)"

text \<open>The part of \<open>huffBuild\<close> after the lengths have been counted.\<close>

definition huffFill :: "bytes \<Rightarrow> nat \<Rightarrow> huffT \<Rightarrow> huffT dec" where
  "huffFill len n h =
     (let h = h\<lparr>h_count := (h_count h)[0 := 0]\<rparr>;
          h = h\<lparr>h_first := huffFirst (h_count h) (h_first h)\<rparr>;
          (pos, space) = huffPos (h_count h) (h_pos h);
          h = h\<lparr>h_pos := pos\<rparr>
      in if space \<noteq> 32768 then Fail ErrBrotliFormat
         else huffAssign len 0 n h (replicate 16 0))"

definition huffBuild :: "bytes \<Rightarrow> u32 \<Rightarrow> huffT dec" where
  "huffBuild len n =
     (if n = 0 \<or> n > l2MaxAlph then Fail ErrBrotliFormat
      else
        bindD (huffCount len 0 (unat n) zeroHuff 0 0) (\<lambda>(h, r).
          case r of
            None \<Rightarrow> Ret h
          | Some (nz, lst) \<Rightarrow>
              if nz = 0 then Ret (singleHuff h (of_nat lst))
              else if nz = 1 then Ret (singleHuff h (of_nat lst))
              else huffFill len (unat n) h))"

text \<open>Reading a symbol. The slow path takes the code bit by bit.\<close>

fun huffDecodeSlow_loop :: "brT \<Rightarrow> huffT \<Rightarrow> u32 \<Rightarrow> nat \<Rightarrow> nat \<Rightarrow> (u32 \<times> brT) dec" where
  "huffDecodeSlow_loop b h code len 0 = Fail ErrBrotliFormat"
| "huffDecodeSlow_loop b h code len (Suc k) =
     bindD (brRead b 1) (\<lambda>(bt, b).
       let code = push_bit 1 code OR bt
       in bindD (at (h_count h) len) (\<lambda>cnt.
         if cnt = 0 then huffDecodeSlow_loop b h code (len + 1) k
         else
           bindD (at (h_first h) len) (\<lambda>f.
             let first = ucast f
             in if code \<ge> first \<and> code - first < ucast cnt then
                  bindD (at (h_pos h) len) (\<lambda>p.
                  bindD (at (h_symbols h) (unat (p + ucast (code - first)))) (\<lambda>s. Ret (ucast s, b)))
                else huffDecodeSlow_loop b h code (len + 1) k)))"

definition huffDecodeSlow :: "brT \<Rightarrow> huffT \<Rightarrow> u32 \<Rightarrow> nat \<Rightarrow> (u32 \<times> brT) dec" where
  "huffDecodeSlow b h code start = huffDecodeSlow_loop b h code (start + 1) (15 - start)"

fun revPrefix :: "u32 \<Rightarrow> u32 \<Rightarrow> nat \<Rightarrow> u32" where
  "revPrefix code prefix 0 = code"
| "revPrefix code prefix (Suc k) = revPrefix (push_bit 1 code OR (prefix AND 1)) (drop_bit 1 prefix) k"

definition huffDecodeFast :: "brT \<Rightarrow> huffT \<Rightarrow> (u32 \<times> brT) dec" where
  "huffDecodeFast b h =
     bindD (at (h_table h) (unat (ucast (br_acc b) :: byte))) (\<lambda>e.
       let L = unat (drop_bit 12 e)
       in if L \<noteq> 0 then Ret (ucast (e AND 0x0fff), brDrop b L)
          else huffDecodeSlow (brDrop b 8) h (revPrefix 0 (ucast (br_acc b AND 0xff)) 8) 8)"

definition huffDecode :: "brT \<Rightarrow> huffT \<Rightarrow> (u32 \<times> brT) dec" where
  "huffDecode b h =
     (if h_single h then Ret (ucast (h_singleSym h), b)
      else if br_bits b < 8 then
        bindD (brNeed b 8) (\<lambda>(b, r). case r of Some _ \<Rightarrow> huffDecodeSlow b h 0 0 | None \<Rightarrow> huffDecodeFast b h)
      else huffDecodeFast b h)"

text \<open>Decoding a symbol never adds bits.\<close>

lemma huffDecodeSlow_loop_remaining: "huffDecodeSlow_loop b h code len k = Ret (s, b') \<Longrightarrow> remaining b' \<le> remaining b"
  by (induction b h code len k rule: huffDecodeSlow_loop.induct)
    (fastforce simp: bindD_Ret Let_def dest!: brRead_remaining(1) split: if_splits)+

lemma huffDecodeFast_remaining: "huffDecodeFast b h = Ret (s, b') \<Longrightarrow> remaining b' \<le> remaining b"
  using brDrop_remaining [of b 8]
  by (auto simp: huffDecodeFast_def huffDecodeSlow_def bindD_Ret Let_def intro: brDrop_remaining order.trans
      dest: huffDecodeSlow_loop_remaining split: if_splits)

lemma huffDecode_remaining:
  assumes "huffDecode b h = Ret (s, b')"
  shows "remaining b' \<le> remaining b"
proof (cases "h_single h \<or> 8 \<le> br_bits b")
  case True
  then show ?thesis using assms by (auto simp: huffDecode_def dest: huffDecodeFast_remaining split: if_splits)
next
  case False
  then obtain b1 r where b1: "brNeed b 8 = Ret (b1, r)"
    and d: "(case r of Some _ \<Rightarrow> huffDecodeSlow b1 h 0 0 | None \<Rightarrow> huffDecodeFast b1 h) = Ret (s, b')"
    using assms by (auto simp: huffDecode_def bindD_Ret)
  have "remaining b' \<le> remaining b1"
    using d by (cases r) (auto simp: huffDecodeSlow_def dest: huffDecodeSlow_loop_remaining huffDecodeFast_remaining)
  then show ?thesis using brNeed_remaining [OF b1] by simp
qed

section \<open>Code lengths\<close>

fun readSyms :: "brT \<Rightarrow> nat \<Rightarrow> u32 \<Rightarrow> nat \<Rightarrow> (u32 list \<times> brT) dec" where
  "readSyms b ab alph 0 = Ret ([], b)"
| "readSyms b ab alph (Suc k) =
     bindD (brRead b ab) (\<lambda>(s, b).
       if s \<ge> alph then Fail ErrBrotliFormat
       else bindD (readSyms b ab alph k) (\<lambda>(ss, b). Ret (s # ss, b)))"

fun setLens :: "bytes \<Rightarrow> u32 list \<Rightarrow> bytes \<Rightarrow> bytes dec" where
  "setLens len (s # ss) (l # ls) = bindD (putAt len (unat s) l) (\<lambda>len. setLens len ss ls)"
| "setLens len _ _ = Ret len"

definition readSimple :: "brT \<Rightarrow> u32 \<Rightarrow> bytes \<Rightarrow> (bytes \<times> brT) dec" where
  "readSimple b alph len =
     bindD (brRead b 2) (\<lambda>(nsm1, b).
       let nsym = unat nsm1 + 1
       in bindD (readSyms b (alphBits alph) alph nsym) (\<lambda>(syms, b).
          if \<not> distinct syms then Fail ErrBrotliFormat
          else
            bindD (if nsym = 4 then brRead b 1 else Ret (0, b)) (\<lambda>(treeSel, b).
              bindD (if nsym = 1 then putAt len (unat (syms ! 0)) 0xFF
                     else setLens len syms
                       (if nsym = 2 then [1, 1] else if nsym = 3 then [1, 2, 2] else if treeSel = 0 then [2, 2, 2, 2] else [1, 2, 3, 3]))
                (\<lambda>len. Ret (len, b)))))"

text \<open>The lengths of the code for code lengths. The arguments are the position and how many are left.\<close>

fun readClLens :: "brT \<Rightarrow> nat \<Rightarrow> nat \<Rightarrow> bytes \<Rightarrow> u32 \<Rightarrow> u32 \<Rightarrow> (bytes \<times> u32 \<times> u32 \<times> brT) dec" where
  "readClLens b i 0 cl space nc = Ret (cl, space, nc, b)"
| "readClLens b i (Suc k) cl space nc =
     bindD (brPeek b 4) (\<lambda>(ix, b).
     bindD (at kClPfxLen (unat ix)) (\<lambda>drp.
       if br_bits b < drp then Fail ErrBrotliTrunc
       else
         bindD (at kClPfxVal (unat ix)) (\<lambda>v.
         bindD (at kClOrder i) (\<lambda>o1.
         bindD (putAt cl o1 v) (\<lambda>cl.
           let b = brDrop b drp
           in if v \<noteq> 0 then
                (let space = space - drop_bit (unat v) 32; nc = nc + 1
                 in if space = 0 \<or> space > 32 then Ret (cl, space, nc, b) else readClLens b (i + 1) k cl space nc)
              else readClLens b (i + 1) k cl space nc)))))"

definition firstNonzero :: "bytes \<Rightarrow> nat" where
  "firstNonzero cl = (case filter (\<lambda>i. cl ! i \<noteq> 0) [0..<18] of [] \<Rightarrow> 0 | i # _ \<Rightarrow> i)"

text \<open>\<open>for k := 0; k < reps; k++ { array[si] = v; si++ }\<close>\<close>

fun fillRun :: "bytes \<Rightarrow> u32 \<Rightarrow> byte \<Rightarrow> nat \<Rightarrow> bytes dec" where
  "fillRun xs si v 0 = Ret xs"
| "fillRun xs si v (Suc k) = bindD (putAt xs (unat si) v) (\<lambda>xs. fillRun xs (si + 1) v k)"

text \<open>The extra bits of the repeat codes 16 and 17, and the length of the run with the new total of the run so far.\<close>

definition extraBits :: "u32 \<Rightarrow> nat" where "extraBits code = (if code = 16 then 2 else 3)"

definition nextRun :: "u32 \<Rightarrow> nat \<Rightarrow> u32 \<Rightarrow> u32 \<times> u32" where
  "nextRun oldRep extraN extra =
     (let rep = (if oldRep > 0 then push_bit extraN (oldRep - 2) else oldRep) + (extra + 3) in (rep, rep - oldRep))"

lemma unat_up: "si < alph \<Longrightarrow> unat alph - unat (si + 1 :: u32) < unat alph - unat si"
proof -
  assume "si < alph"
  then have "unat si < unat alph" "unat alph < 2 ^ 32" by (simp_all add: word_less_nat_alt) (use unsigned_less [of alph, where ?'a = nat] in simp)
  then show ?thesis by (simp add: unat_word_ariths)
qed

lemma symbol_read: "huffDecode b h = Ret x \<Longrightarrow> (c, b') = x \<Longrightarrow> si < alph \<Longrightarrow>
    remaining b' < remaining b \<or> remaining b' = remaining b \<and> unat alph - unat (si + 1 :: u32) < unat alph - unat si"
  using unat_up [of si alph] huffDecode_remaining [of b h c b'] by auto

lemma extra_read: "huffDecode b h = Ret x \<Longrightarrow> (c, b1) = x \<Longrightarrow> brRead b1 n = Ret y \<Longrightarrow> (e, b') = y \<Longrightarrow> 0 < n \<Longrightarrow> remaining b' < remaining b"
  by (auto dest!: huffDecode_remaining brRead_remaining(1))

lemma extraBits_pos: "0 < extraBits code"
  by (simp add: extraBits_def)

function readLens :: "brT \<Rightarrow> huffT \<Rightarrow> u32 \<Rightarrow> bytes \<Rightarrow> u32 \<Rightarrow> u32 \<Rightarrow> u32 \<Rightarrow> u32 \<Rightarrow> u32 \<Rightarrow> (bytes \<times> u32 \<times> brT) dec" where
  "readLens b h alph len si space prev rep repLen =
     (if si < alph \<and> space > 0 then
        bindD (huffDecode b h) (\<lambda>(code, b).
          if code < 16 then
            bindD (putAt len (unat si) (ucast code)) (\<lambda>len.
              if code \<noteq> 0 then readLens b h alph len (si + 1) (space - drop_bit (unat code) 32768) code 0 repLen
              else readLens b h alph len (si + 1) space prev 0 repLen)
          else if code \<noteq> 16 \<and> code \<noteq> 17 then Fail ErrBrotliFormat
          else
            bindD (brRead b (extraBits code)) (\<lambda>(extra, b).
              let newLen = (if code = 16 then prev else 0);
                  (rep, reps) = nextRun (if repLen \<noteq> newLen then 0 else rep) (extraBits code) extra
              in if si + reps > alph then Fail ErrBrotliFormat
                 else if newLen \<noteq> 0 then
                   bindD (fillRun len si (ucast newLen) (unat reps)) (\<lambda>len.
                     readLens b h alph len (si + reps) (space - push_bit (unat (15 - newLen)) reps) prev rep newLen)
                 else readLens b h alph len (si + reps) space prev rep newLen))
      else Ret (len, space, b))"
  by pat_completeness auto
termination
proof (relation "measures [\<lambda>(b, _). remaining b, \<lambda>(_, _, alph, _, si, _). unat alph - unat si]", goal_cases)
  case (2 b h alph len si space prev rep repLen x c y len')
  then show ?case using symbol_read [OF 2(2,3)] by simp
next
  case (3 b h alph len si space prev rep repLen x c y len')
  then show ?case using symbol_read [OF 3(2,3)] by simp
next
  case (4 b h alph len si space prev rep repLen x c y z e y')
  then show ?case using extra_read [OF 4(2,3,6,7) extraBits_pos] by simp
next
  case (5 b h alph len si space prev rep repLen x c y z e y')
  then show ?case using extra_read [OF 5(2,3,6,7) extraBits_pos] by simp
qed simp

declare readLens.simps [simp del]

text \<open>The lengths of a code that is not simple, with \<open>kind\<close> skipped entries of \<open>kClOrder\<close>.\<close>

definition readComplex :: "brT \<Rightarrow> u32 \<Rightarrow> u32 \<Rightarrow> bytes \<Rightarrow> (bytes \<times> brT) dec" where
  "readComplex b kind alph len =
     bindD (readClLens b (unat kind) (18 - unat kind) (replicate 18 0) 32 0) (\<lambda>(cl, space, nc, b).
       if \<not> (nc = 1 \<or> space = 0) then Fail ErrBrotliFormat
       else
         bindD (if nc = 1 then Ret (singleHuff zeroHuff (of_nat (firstNonzero cl))) else huffBuild cl 18) (\<lambda>hcl.
         bindD (readLens b hcl alph len 0 32768 8 0 0xFFFFFFFF) (\<lambda>(len, space, b).
           if space \<noteq> 0 then Fail ErrBrotliFormat else Ret (len, b))))"

definition readHuffmanLengths :: "brT \<Rightarrow> u32 \<Rightarrow> bytes \<Rightarrow> (bytes \<times> brT) dec" where
  "readHuffmanLengths b alph len =
     (if alph = 0 \<or> alph > l2MaxAlph then Fail ErrBrotliFormat
      else if length len < unat alph then Crash
      else
        (let len = replicate (unat alph) 0 @ drop (unat alph) len
         in bindD (brRead b 2) (\<lambda>(kind, b).
              if kind = 1 then readSimple b alph len else readComplex b kind alph len)))"

definition readHuff :: "brT \<Rightarrow> u32 \<Rightarrow> (huffT \<times> brT) dec" where
  "readHuff b alph =
     bindD (readHuffmanLengths b alph (replicate 704 0)) (\<lambda>(len, b).
     bindD (huffBuild len alph) (\<lambda>h. Ret (h, b)))"

section \<open>Small codes and context maps\<close>

definition decodeVarlenU8 :: "brT \<Rightarrow> (u32 \<times> brT) dec" where
  "decodeVarlenU8 b =
     bindD (brRead b 1) (\<lambda>(bt, b).
       if bt = 0 then Ret (0, b)
       else
         bindD (brRead b 3) (\<lambda>(n, b).
           if n = 0 then Ret (1, b)
           else bindD (brRead b (unat n)) (\<lambda>(v, b). Ret (v + push_bit (unat n) 1, b))))"

definition decodeWindowBits :: "brT \<Rightarrow> (u32 \<times> brT) dec" where
  "decodeWindowBits b =
     bindD (brRead b 1) (\<lambda>(n, b).
       if n = 0 then Ret (16, b)
       else
         bindD (brRead b 3) (\<lambda>(n, b).
           if n \<noteq> 0 then Ret (17 + n, b)
           else
             bindD (brRead b 3) (\<lambda>(n, b).
               if n = 1 then Fail ErrBrotliWindow
               else if n \<noteq> 0 then Ret (8 + n, b)
               else Ret (17, b))))"

definition readBlockCount :: "brT \<Rightarrow> huffT \<Rightarrow> (u32 \<times> brT) dec" where
  "readBlockCount b h =
     bindD (huffDecode b h) (\<lambda>(code, b).
       if code > 25 then Fail ErrBrotliFormat
       else
         bindD (at kBlkNbits (unat code)) (\<lambda>nb.
         bindD (brRead b nb) (\<lambda>(extra, b).
         bindD (at kBlkBase (unat code)) (\<lambda>base. Ret (base + extra, b)))))"

text \<open>Inverse move-to-front; the inner loop moves the entries before \<open>idx\<close> up by one.\<close>

fun imtf_loop :: "bytes \<Rightarrow> bytes \<Rightarrow> nat \<Rightarrow> nat \<Rightarrow> bytes dec" where
  "imtf_loop mtf v i 0 = Ret v"
| "imtf_loop mtf v i (Suc k) =
     bindD (at v i) (\<lambda>idx.
     bindD (at mtf (unat idx)) (\<lambda>val.
     bindD (putAt v i val) (\<lambda>v.
     imtf_loop (val # take (unat idx) mtf @ drop (unat idx + 1) mtf) v (i + 1) k)))"

definition imtf :: "bytes \<Rightarrow> u32 \<Rightarrow> bytes dec" where
  "imtf v n = imtf_loop (map of_nat [0..<256]) v 0 (unat n)"

function cmapLoop :: "brT \<Rightarrow> huffT \<Rightarrow> u32 \<Rightarrow> u32 \<Rightarrow> u32 \<Rightarrow> bytes \<Rightarrow> (bytes \<times> brT) dec" where
  "cmapLoop b h mapSize rlemax idx cmap =
     (if idx < mapSize then
        bindD (huffDecode b h) (\<lambda>(code, b).
          if code = 0 then bindD (putAt cmap (unat idx) 0) (\<lambda>cmap. cmapLoop b h mapSize rlemax (idx + 1) cmap)
          else if code > rlemax then
            bindD (putAt cmap (unat idx) (ucast (code - rlemax))) (\<lambda>cmap. cmapLoop b h mapSize rlemax (idx + 1) cmap)
          else
            bindD (brRead b (unat code)) (\<lambda>(extra, b).
              let reps = push_bit (unat code) 1 + extra
              in if idx + reps > mapSize then Fail ErrBrotliFormat
                 else bindD (fillRun cmap idx 0 (unat reps)) (\<lambda>cmap. cmapLoop b h mapSize rlemax (idx + reps) cmap)))
      else Ret (cmap, b))"
  by pat_completeness auto
termination
proof (relation "measures [\<lambda>(b, _). remaining b, \<lambda>(_, _, mapSize, _, idx, _). unat mapSize - unat idx]", goal_cases)
  case (2 b h mapSize rlemax idx cmap x c y cmap')
  then show ?case using symbol_read [OF 2(2,3,1)] by simp
next
  case (3 b h mapSize rlemax idx cmap x c y cmap')
  then show ?case using symbol_read [OF 3(2,3,1)] by simp
next
  case (4 b h mapSize rlemax idx cmap x c y z e y')
  have "0 < unat c" using 4(4) by (simp add: unat_gt_0)
  then show ?case using extra_read [OF 4(2,3,6,7)] by simp
qed simp

declare cmapLoop.simps [simp del]

definition readContextMap :: "brT \<Rightarrow> u32 \<Rightarrow> u32 \<Rightarrow> bytes \<Rightarrow> (bytes \<times> brT) dec" where
  "readContextMap b ntrees mapSize cmap =
     bindD (brRead b 1) (\<lambda>(bt, b).
     bindD (if bt \<noteq> 0 then bindD (brRead b 4) (\<lambda>(r, b). Ret (r + 1, b)) else Ret (0, b)) (\<lambda>(rlemax, b).
     bindD (readHuff b (ntrees + rlemax)) (\<lambda>(h, b).
     bindD (cmapLoop b h mapSize rlemax 0 cmap) (\<lambda>(cmap, b).
     bindD (brRead b 1) (\<lambda>(bt, b).
       if bt \<noteq> 0 then bindD (imtf cmap mapSize) (\<lambda>cmap. Ret (cmap, b)) else Ret (cmap, b))))))"

definition decodeContextMap :: "brT \<Rightarrow> u32 \<Rightarrow> bytes \<Rightarrow> (u32 \<times> bytes \<times> brT) dec" where
  "decodeContextMap b mapSize cmap =
     bindD (decodeVarlenU8 b) (\<lambda>(n, b).
       let ntrees = n + 1
       in if ntrees > 256 then Fail ErrBrotliFormat
          else if length cmap < unat mapSize then Crash
          else
            (let cmap = replicate (unat mapSize) 0 @ drop (unat mapSize) cmap
             in if ntrees \<le> 1 then Ret (ntrees, cmap, b)
                else bindD (readContextMap b ntrees mapSize cmap) (\<lambda>(cmap, b). Ret (ntrees, cmap, b))))"

section \<open>The state of the decoder\<close>

record brotliGlobals =
  gLitCl :: "bytes list"
  gCmdCl :: "bytes list"
  gDistCl :: "bytes list"
  gLitMap :: bytes
  gDistMap :: bytes
  gCtxMode :: bytes

text \<open>The package's arrays before the first call. They keep their contents from call to call.\<close>

definition zeroGlobals :: brotliGlobals where
  "zeroGlobals =
     \<lparr>gLitCl = replicate 256 (replicate 256 0), gCmdCl = replicate 256 (replicate 704 0), gDistCl = replicate 256 (replicate 520 0),
      gLitMap = replicate 16384 0, gDistMap = replicate 1024 0, gCtxMode = replicate 256 0\<rparr>"

record decT =
  d_br :: brT
  d_out :: bytes
  d_cap :: nat
  d_pos :: nat
  d_wsize :: u32
  d_distRb :: "u32 list"
  d_npostfix :: u32
  d_ndirect :: u32
  d_nbl :: "u32 list"
  d_ntreesL :: u32
  d_ntreesD :: u32
  d_distAlph :: u32
  d_btype :: "u32 list"
  d_btypePrev :: "u32 list"
  d_blen :: "u32 list"
  d_hBt :: "huffT list"
  d_hBl :: "huffT list"
  d_hLit :: huffT
  d_hCmd :: huffT
  d_hDist :: huffT
  d_litID :: int
  d_cmdID :: int
  d_distID :: int
  d_p1 :: byte
  d_p2 :: byte
  d_g :: brotliGlobals

section \<open>Output\<close>

definition emitByte :: "decT \<Rightarrow> byte \<Rightarrow> decT dec" where
  "emitByte d v =
     (if d_pos d \<ge> d_cap d then Fail ErrBrotliCapacity
      else
        bindD (putAt (d_out d) (d_pos d) v) (\<lambda>out.
        Ret (d\<lparr>d_out := out, d_pos := d_pos d + 1, d_p2 := d_p1 d, d_p1 := v\<rparr>)))"

fun emitCopy_loop :: "decT \<Rightarrow> nat \<Rightarrow> nat \<Rightarrow> decT dec" where
  "emitCopy_loop d dist 0 = Ret d"
| "emitCopy_loop d dist (Suc k) =
     bindD (at (d_out d) (d_pos d - dist)) (\<lambda>v. bindD (emitByte d v) (\<lambda>d. emitCopy_loop d dist k))"

definition emitCopy :: "decT \<Rightarrow> u32 \<Rightarrow> u32 \<Rightarrow> decT dec" where
  "emitCopy d dist len =
     (if len = 0 then Ret d
      else if d_pos d > d_cap d \<or> int (unat len) > int (d_cap d) - int (d_pos d) then Fail ErrBrotliCapacity
      else if dist = 0 then Fail ErrBrotliFormat
      else if unat dist > d_pos d \<or> dist > d_wsize d then Fail ErrBrotliDict
      else if dist > l2Win then Fail ErrBrotliWindow
      else emitCopy_loop d (unat dist) (unat len))"

text \<open>\<open>copyRaw\<close> takes whole bytes from the accumulator first, then from the input.\<close>

fun copyAcc :: "decT \<Rightarrow> nat \<Rightarrow> (decT \<times> nat) dec" where
  "copyAcc d 0 = Ret (d, 0)"
| "copyAcc d (Suc k) =
     (if br_bits (d_br d) \<ge> 8 then
        bindD (emitByte d (ucast (br_acc (d_br d) AND 0xff))) (\<lambda>d. copyAcc (d\<lparr>d_br := brDrop (d_br d) 8\<rparr>) k)
      else Ret (d, Suc k))"

fun copyIn :: "decT \<Rightarrow> nat \<Rightarrow> decT dec" where
  "copyIn d 0 = Ret d"
| "copyIn d (Suc k) =
     bindD (at (br_in (d_br d)) (br_p (d_br d))) (\<lambda>v.
     bindD (emitByte d v) (\<lambda>d.
     copyIn (d\<lparr>d_br := (d_br d)\<lparr>br_p := br_p (d_br d) + 1\<rparr>\<rparr>) k))"

definition copyRaw :: "decT \<Rightarrow> u32 \<Rightarrow> decT dec" where
  "copyRaw d mlen =
     bindD (copyAcc (d\<lparr>d_br := brAlign (d_br d)\<rparr>) (unat mlen)) (\<lambda>(d, mlen).
       let remain = int (length (br_in (d_br d))) - int (br_p (d_br d))
       in if int mlen > remain then Fail ErrBrotliTrunc
          else if d_pos d > d_cap d \<or> int mlen > int (d_cap d) - int (d_pos d) then Fail ErrBrotliCapacity
          else copyIn d mlen)"

fun skipAcc :: "brT \<Rightarrow> nat \<Rightarrow> brT \<times> nat" where
  "skipAcc b 0 = (b, 0)"
| "skipAcc b (Suc k) = (if br_bits b \<ge> 8 then skipAcc (brDrop b 8) k else (b, Suc k))"

definition skipMeta :: "decT \<Rightarrow> u32 \<Rightarrow> decT dec" where
  "skipMeta d mlen =
     (let (b, mlen) = skipAcc (brAlign (d_br d)) (unat mlen);
          remain = int (length (br_in b)) - int (br_p b)
      in if int mlen > remain then Fail ErrBrotliTrunc
         else Ret (d\<lparr>d_br := b\<lparr>br_p := br_p b + mlen\<rparr>\<rparr>))"

section \<open>Commands\<close>

text \<open>The codes of insert and copy length, and whether the distance is implicit.\<close>

definition iacSplit :: "u32 \<Rightarrow> u32 \<times> u32 \<times> bool" where
  "iacSplit code =
     (let (insOff, cpyOff, imp) =
        (if code < 128 then (0, if code < 64 then 0 else 8, True)
         else if code < 192 then (0, 0, False)
         else if code < 256 then (0, 8, False)
         else if code < 320 then (8, 0, False)
         else if code < 384 then (8, 8, False)
         else if code < 448 then (0, 16, False)
         else if code < 512 then (16, 0, False)
         else if code < 576 then (8, 16, False)
         else if code < 640 then (16, 8, False)
         else (16, 16, False))
      in (insOff + (drop_bit 3 code AND 7), cpyOff + (code AND 7), imp))"

definition resolveDistance :: "decT \<Rightarrow> u32 \<Rightarrow> u32 \<Rightarrow> (u32 \<times> bool) dec" where
  "resolveDistance d dcode extra =
     (if dcode < 16 then
        bindD (at kShortWhich (unat dcode)) (\<lambda>which.
        bindD (at kShortDelta (unat dcode)) (\<lambda>delta.
        bindD (at (d_distRb d) which) (\<lambda>rb.
          let nd = int (unat rb) + delta
          in if nd \<le> 0 then Fail ErrBrotliFormat else Ret (word_of_int nd, dcode \<noteq> 0))))
      else if dcode < 16 + d_ndirect d then Ret (dcode - 15, True)
      else
        (let npost = unat (d_npostfix d);
             mask1 = push_bit npost 1 - 1;
             dcode = dcode - (d_ndirect d + 16);
             ndistbits = 1 + drop_bit (unat (d_npostfix d + 1)) dcode
         in if ndistbits > 24 then Fail ErrBrotliFormat
            else
              (let hcode = drop_bit npost dcode;
                   lcode = dcode AND mask1;
                   offset = push_bit (unat ndistbits) (2 + (hcode AND 1)) - 4
               in Ret (push_bit npost (offset + extra) + lcode + d_ndirect d + 1, True))))"

definition loadLit :: "decT \<Rightarrow> u32 \<Rightarrow> decT dec" where
  "loadLit d tree =
     (if d_litID d = int (unat tree) then Ret d
      else if tree \<ge> d_ntreesL d then Fail ErrBrotliFormat
      else
        bindD (at (gLitCl (d_g d)) (unat tree)) (\<lambda>len.
        bindD (huffBuild len 256) (\<lambda>h. Ret (d\<lparr>d_hLit := h, d_litID := int (unat tree)\<rparr>))))"

definition loadCmd :: "decT \<Rightarrow> u32 \<Rightarrow> decT dec" where
  "loadCmd d tree =
     (if d_cmdID d = int (unat tree) then Ret d
      else if tree \<ge> d_nbl d ! 1 then Fail ErrBrotliFormat
      else
        bindD (at (gCmdCl (d_g d)) (unat tree)) (\<lambda>len.
        bindD (huffBuild len 704) (\<lambda>h. Ret (d\<lparr>d_hCmd := h, d_cmdID := int (unat tree)\<rparr>))))"

definition loadDist :: "decT \<Rightarrow> u32 \<Rightarrow> decT dec" where
  "loadDist d tree =
     (if d_distID d = int (unat tree) then Ret d
      else if tree \<ge> d_ntreesD d then Fail ErrBrotliFormat
      else
        bindD (at (gDistCl (d_g d)) (unat tree)) (\<lambda>len.
        bindD (huffBuild len (d_distAlph d)) (\<lambda>h. Ret (d\<lparr>d_hDist := h, d_distID := int (unat tree)\<rparr>))))"

text \<open>Block types: category 0 are the literals, 1 the commands, 2 the distances.\<close>

definition switchBlock :: "decT \<Rightarrow> nat \<Rightarrow> decT dec" where
  "switchBlock d cat =
     bindD (huffDecode (d_br d) (d_hBt d ! cat)) (\<lambda>(code, b).
     bindD (readBlockCount b (d_hBl d ! cat)) (\<lambda>(cnt, b).
       let btype = (if code = 1 then d_btype d ! cat + 1 else if code = 0 then d_btypePrev d ! cat else code - 2);
           btype = (if btype \<ge> d_nbl d ! cat then btype - d_nbl d ! cat else btype)
       in Ret (d\<lparr>d_br := b, d_blen := (d_blen d)[cat := cnt], d_btypePrev := (d_btypePrev d)[cat := d_btype d ! cat],
            d_btype := (d_btype d)[cat := btype]\<rparr>)))"

definition prepareCat :: "decT \<Rightarrow> nat \<Rightarrow> decT dec" where
  "prepareCat d cat = (if d_nbl d ! cat > 1 \<and> d_blen d ! cat = 0 then switchBlock d cat else Ret d)"

definition consumeCat :: "decT \<Rightarrow> nat \<Rightarrow> decT" where
  "consumeCat d cat =
     (if d_nbl d ! cat > 1 \<and> d_blen d ! cat > 0 then d\<lparr>d_blen := (d_blen d)[cat := d_blen d ! cat - 1]\<rparr> else d)"

definition litContext :: "decT \<Rightarrow> u32 dec" where
  "litContext d =
     bindD (at (gCtxMode (d_g d)) (unat (d_btype d ! 0))) (\<lambda>m.
       let mode = unat (m AND 3)
       in bindD (at gCtx (mode * 512 + unat (d_p1 d))) (\<lambda>x.
          bindD (at gCtx (mode * 512 + 256 + unat (d_p2 d))) (\<lambda>y. Ret (ucast (x OR y)))))"

definition distContext :: "u32 \<Rightarrow> u32" where
  "distContext copyLen = (if copyLen = 2 then 0 else if copyLen = 3 then 1 else if copyLen = 4 then 2 else 3)"

text \<open>The literals of a command.\<close>

definition emitLit :: "decT \<Rightarrow> u32 \<Rightarrow> decT dec" where
  "emitLit d tree =
     bindD (loadLit d tree) (\<lambda>d.
     bindD (huffDecode (d_br d) (d_hLit d)) (\<lambda>(lit, b).
       if lit > 255 then Fail ErrBrotliFormat
       else bindD (emitByte (d\<lparr>d_br := b\<rparr>) (ucast lit)) (\<lambda>d. Ret (consumeCat d 0))))"

fun emitLits :: "decT \<Rightarrow> nat \<Rightarrow> decT dec" where
  "emitLits d 0 = Ret d"
| "emitLits d (Suc k) =
     bindD (prepareCat d 0) (\<lambda>d.
     bindD (litContext d) (\<lambda>ctx.
     bindD (at (gLitMap (d_g d)) (unat (push_bit 6 (d_btype d ! 0) + ctx))) (\<lambda>tree.
     bindD (emitLit d (ucast tree)) (\<lambda>d. emitLits d k))))"

text \<open>The number of literals, the length of the copy, and whether the distance is implicit.\<close>

definition readCommand :: "decT \<Rightarrow> (u32 \<times> u32 \<times> bool \<times> decT) dec" where
  "readCommand d =
     bindD (huffDecode (d_br d) (d_hCmd d)) (\<lambda>(icode, b).
       let d = consumeCat (d\<lparr>d_br := b\<rparr>) 1
       in if icode > 703 then Fail ErrBrotliFormat
          else
            (let (insC, cpyC, imp) = iacSplit icode
             in if insC > 23 \<or> cpyC > 23 then Fail ErrBrotliFormat
                else
                  bindD (at kInsNbits (unat insC)) (\<lambda>nb.
                  bindD (brRead (d_br d) nb) (\<lambda>(extra, b).
                  bindD (at kInsBase (unat insC)) (\<lambda>base.
                    let ins = base + extra
                    in bindD (at kCpyNbits (unat cpyC)) (\<lambda>nb.
                       bindD (brRead b nb) (\<lambda>(extra, b).
                       bindD (at kCpyBase (unat cpyC)) (\<lambda>base.
                       Ret (ins, base + extra, imp, d\<lparr>d_br := b\<rparr>)))))))))"

text \<open>The distance of a command that does not give it implicitly.\<close>

definition readDistExtra :: "decT \<Rightarrow> brT \<Rightarrow> u32 \<Rightarrow> (u32 \<times> brT) dec" where
  "readDistExtra d b dcode =
     (if dcode \<ge> 16 + d_ndirect d then
        (let ndistbits = 1 + drop_bit (unat (d_npostfix d + 1)) (dcode - d_ndirect d - 16)
         in if ndistbits > 24 then Fail ErrBrotliFormat else brRead b (unat ndistbits))
      else Ret (0, b))"

definition readDistance :: "decT \<Rightarrow> u32 \<Rightarrow> (u32 \<times> bool \<times> decT) dec" where
  "readDistance d cpy =
     bindD (prepareCat d 2) (\<lambda>d.
     bindD (at (gDistMap (d_g d)) (unat (push_bit 2 (d_btype d ! 2) + distContext cpy))) (\<lambda>tree.
     bindD (loadDist d (ucast tree)) (\<lambda>d.
     bindD (huffDecode (d_br d) (d_hDist d)) (\<lambda>(dcode, b).
       if dcode \<ge> d_distAlph d then Fail ErrBrotliFormat
       else
         bindD (readDistExtra d b dcode) (\<lambda>(dextra, b).
         bindD (resolveDistance d dcode dextra) (\<lambda>(dist, push).
         Ret (dist, push, consumeCat (d\<lparr>d_br := b\<rparr>) 2)))))))"

definition pushDist :: "decT \<Rightarrow> u32 \<Rightarrow> decT" where
  "pushDist d dist = d\<lparr>d_distRb := [dist, d_distRb d ! 0, d_distRb d ! 1, d_distRb d ! 2]\<rparr>"

text \<open>The copy of a command, with its distance and the ring buffer of distances.\<close>

definition copyCommand :: "decT \<Rightarrow> u32 \<Rightarrow> bool \<Rightarrow> decT dec" where
  "copyCommand d cpy imp =
     bindD (if \<not> imp then readDistance d cpy else Ret (d_distRb d ! 0, False, d)) (\<lambda>(dist, push, d).
     bindD (emitCopy d dist cpy) (\<lambda>d. Ret (if push then pushDist d dist else d)))"

text \<open>A copy has at least two bytes: this makes the loop over the commands end.\<close>

lemma kCpyBase_bounds: "i < 24 \<Longrightarrow> 2 \<le> unat (kCpyBase ! i) \<and> unat (kCpyBase ! i) \<le> 2118"
proof -
  have "\<forall>x \<in> set kCpyBase. 2 \<le> unat x \<and> unat x \<le> 2118" by (simp add: kCpyBase_def)
  moreover assume "i < 24"
  then have "kCpyBase ! i \<in> set kCpyBase" by (intro nth_mem) (simp add: kCpyBase_def)
  ultimately show ?thesis by blast
qed

lemma readCommand_copy:
  assumes "readCommand d = Ret (ins, cpy, imp, d')"
  shows "2 \<le> unat cpy"
proof -
  obtain cpyC :: u32 and nb b extra b' base where c: "at kCpyNbits (unat cpyC) = Ret nb" "brRead b nb = Ret (extra, b')"
    "at kCpyBase (unat cpyC) = Ret base" "cpy = base + extra"
    using assms by (auto simp: readCommand_def bindD_Ret Let_def split: if_splits prod.splits)
  have "unat cpyC < 24" "base = kCpyBase ! unat cpyC" using c(3) by (auto simp: at_def kCpyBase_def split: if_splits)
  then have base: "2 \<le> unat base" "unat base \<le> 2118" using kCpyBase_bounds by auto
  have "unat extra < 2 ^ nb" "nb \<le> 24" using brRead_remaining [OF c(2)] by auto
  then have "unat extra < 2 ^ 24" by (meson less_le_trans one_le_numeral power_increasing)
  then have "unat cpy = unat base + unat extra" using base by (simp add: c(4) unat_word_ariths)
  then show ?thesis using base by simp
qed

function processLoop :: "decT \<Rightarrow> u32 \<Rightarrow> decT dec" where
  "processLoop d remain =
     (if remain > 0 then
        bindD (prepareCat d 1) (\<lambda>d.
        bindD (loadCmd d (d_btype d ! 1)) (\<lambda>d.
        bindD (readCommand d) (\<lambda>(ins, cpy, imp, d).
          if ins > remain then Fail ErrBrotliFormat
          else
            bindD (emitLits d (unat ins)) (\<lambda>d.
              if remain - ins = 0 then Ret d
              else if cpy > remain - ins then Fail ErrBrotliFormat
              else
                bindD (copyCommand d cpy imp) (\<lambda>d. processLoop d (remain - ins - cpy))))))
      else Ret d)"
  by pat_completeness auto
termination
proof (relation "measure (\<lambda>(_, remain). unat remain)", goal_cases)
  case (2 d remain d1 d2 x ins y cpy z imp d3 d4 d5)
  have "2 \<le> unat cpy" by (rule readCommand_copy [of d2 ins cpy imp d3]) (use 2(4-7) in simp)
  moreover have "unat ins \<le> unat remain" "unat cpy \<le> unat (remain - ins)" using 2(8,11) by (simp_all add: word_le_nat_alt not_less)
  ultimately show ?case using 2(8) by (simp add: unat_sub word_le_nat_alt not_less)
qed simp

declare processLoop.simps [simp del]

definition processCompressed :: "decT \<Rightarrow> u32 \<Rightarrow> decT dec" where
  "processCompressed d mlen = bindD (loadCmd d (d_btype d ! 1)) (\<lambda>d. processLoop d mlen)"

section \<open>Headers\<close>

definition readBlockCodes :: "decT \<Rightarrow> nat \<Rightarrow> decT dec" where
  "readBlockCodes d cat =
     bindD (readHuff (d_br d) (d_nbl d ! cat + 2)) (\<lambda>(h1, b).
     bindD (readHuff b 26) (\<lambda>(h2, b).
     bindD (readBlockCount b h2) (\<lambda>(cnt, b).
     Ret (d\<lparr>d_br := b, d_hBt := (d_hBt d)[cat := h1], d_hBl := (d_hBl d)[cat := h2], d_blen := (d_blen d)[cat := cnt]\<rparr>))))"

definition readBlockTypes :: "decT \<Rightarrow> nat \<Rightarrow> decT dec" where
  "readBlockTypes d cat =
     bindD (decodeVarlenU8 (d_br d)) (\<lambda>(n, b).
       if n + 1 > 256 then Fail ErrBrotliFormat
       else
         (let d = d\<lparr>d_br := b, d_nbl := (d_nbl d)[cat := n + 1], d_btype := (d_btype d)[cat := 0],
                d_btypePrev := (d_btypePrev d)[cat := 1], d_blen := (d_blen d)[cat := push_bit 24 1]\<rparr>
          in if n + 1 \<ge> 2 then readBlockCodes d cat else Ret d))"

text \<open>The loops over the bytes of a skip length and the nibbles of a meta-block length.\<close>

fun readSkip :: "brT \<Rightarrow> nat \<Rightarrow> nat \<Rightarrow> nat \<Rightarrow> u32 \<Rightarrow> (u32 \<times> brT) dec" where
  "readSkip b skipb i 0 skip = Ret (skip, b)"
| "readSkip b skipb i (Suc k) skip =
     bindD (brRead b 8) (\<lambda>(v, b).
       if i + 1 = skipb \<and> skipb > 1 \<and> v = 0 then Fail ErrBrotliFormat
       else readSkip b skipb (i + 1) k (skip OR push_bit (8 * i) v))"

fun readNibbles :: "brT \<Rightarrow> nat \<Rightarrow> nat \<Rightarrow> nat \<Rightarrow> u32 \<Rightarrow> (u32 \<times> brT) dec" where
  "readNibbles b nn i 0 m = Ret (m, b)"
| "readNibbles b nn i (Suc k) m =
     bindD (brRead b 4) (\<lambda>(n4, b).
       if i + 1 = nn \<and> nn > 4 \<and> n4 = 0 then Fail ErrBrotliFormat
       else readNibbles b nn (i + 1) k (m OR push_bit (4 * i) n4))"

record metaHeader =
  mb_mlen :: u32
  mb_isLast :: bool
  mb_isUncomp :: bool
  mb_isMeta :: bool

definition metaSkip :: "brT \<Rightarrow> bool \<Rightarrow> (metaHeader \<times> brT) dec" where
  "metaSkip b isLast =
     bindD (brRead b 1) (\<lambda>(bt, b).
       if bt \<noteq> 0 then Fail ErrBrotliFormat
       else
         bindD (brRead b 2) (\<lambda>(skipb, b).
         bindD (readSkip b (unat skipb) 0 (unat skipb) 0) (\<lambda>(skip, b).
         Ret (\<lparr>mb_mlen = (if skipb \<noteq> 0 then skip + 1 else skip), mb_isLast = isLast, mb_isUncomp = False, mb_isMeta = True\<rparr>, b))))"

definition metaLength :: "brT \<Rightarrow> bool \<Rightarrow> u32 \<Rightarrow> (metaHeader \<times> brT) dec" where
  "metaLength b isLast nib =
     bindD (readNibbles b (unat nib + 4) 0 (unat nib + 4) 0) (\<lambda>(m, b).
     bindD (if isLast then Ret (0, b) else brRead b 1) (\<lambda>(bt, b).
     Ret (\<lparr>mb_mlen = m + 1, mb_isLast = isLast, mb_isUncomp = bt \<noteq> 0, mb_isMeta = False\<rparr>, b)))"

definition decodeMetablockHeader :: "brT \<Rightarrow> (metaHeader \<times> brT) dec" where
  "decodeMetablockHeader b =
     bindD (brRead b 1) (\<lambda>(bt, b).
       let isLast = (bt \<noteq> 0)
       in bindD (if isLast then brRead b 1 else Ret (0, b)) (\<lambda>(empty, b).
          if isLast \<and> empty \<noteq> 0 then Ret (\<lparr>mb_mlen = 0, mb_isLast = isLast, mb_isUncomp = False, mb_isMeta = False\<rparr>, b)
          else bindD (brRead b 2) (\<lambda>(nib, b). if nib = 3 then metaSkip b isLast else metaLength b isLast nib)))"

fun readModes :: "brT \<Rightarrow> bytes \<Rightarrow> nat \<Rightarrow> nat \<Rightarrow> (bytes \<times> brT) dec" where
  "readModes b modes i 0 = Ret (modes, b)"
| "readModes b modes i (Suc k) =
     bindD (brRead b 2) (\<lambda>(mode, b).
     bindD (putAt modes i (ucast mode)) (\<lambda>modes. readModes b modes (i + 1) k))"

text \<open>The loops that read the code lengths of each tree into its global array; \<open>copyInto\<close> is Go's \<open>copy\<close>.\<close>

definition copyInto :: "bytes \<Rightarrow> bytes \<Rightarrow> bytes" where
  "copyInto dst src = take (length dst) src @ drop (length src) dst"

fun readTrees :: "brT \<Rightarrow> u32 \<Rightarrow> bytes \<Rightarrow> bytes list \<Rightarrow> nat \<Rightarrow> nat \<Rightarrow> (bytes list \<times> bytes \<times> brT) dec" where
  "readTrees b alph len cls i 0 = Ret (cls, len, b)"
| "readTrees b alph len cls i (Suc k) =
     bindD (readHuffmanLengths b alph len) (\<lambda>(len, b).
     bindD (at cls i) (\<lambda>dst.
     bindD (putAt cls i (copyInto dst (take (unat alph) len))) (\<lambda>cls. readTrees b alph len cls (i + 1) k)))"

definition readTables :: "decT \<Rightarrow> decT dec" where
  "readTables d =
     bindD (readModes (d_br d) (gCtxMode (d_g d)) 0 (unat (d_nbl d ! 0))) (\<lambda>(modes, b).
     bindD (decodeContextMap b (d_nbl d ! 0 * 64) (gLitMap (d_g d))) (\<lambda>(ntreesL, litMap, b).
     bindD (decodeContextMap b (d_nbl d ! 2 * 4) (gDistMap (d_g d))) (\<lambda>(ntreesD, distMap, b).
     bindD (readTrees b 256 (replicate 704 0) (gLitCl (d_g d)) 0 (unat ntreesL)) (\<lambda>(litCl, len, b).
     bindD (readTrees b 704 len (gCmdCl (d_g d)) 0 (unat (d_nbl d ! 1))) (\<lambda>(cmdCl, len, b).
     bindD (readTrees b (d_distAlph d) len (gDistCl (d_g d)) 0 (unat ntreesD)) (\<lambda>(distCl, len, b).
     Ret (d\<lparr>d_br := b, d_ntreesL := ntreesL, d_ntreesD := ntreesD, d_litID := - 1, d_cmdID := - 1, d_distID := - 1,
       d_g := \<lparr>gLitCl = litCl, gCmdCl = cmdCl, gDistCl = distCl, gLitMap = litMap, gDistMap = distMap, gCtxMode = modes\<rparr>\<rparr>)))))))"

text \<open>The parameters of the distance code, then the tables.\<close>

definition readParams :: "decT \<Rightarrow> decT dec" where
  "readParams d =
     bindD (brRead (d_br d) 2) (\<lambda>(npost, b).
     bindD (brRead b 4) (\<lambda>(ndir, b).
       let ndirect = push_bit (unat npost) ndir;
           distAlph = 16 + ndirect + push_bit (unat npost) 48
       in if ndirect > 120 then Fail ErrBrotliFormat
          else if distAlph > 520 then Fail ErrBrotliFormat
          else readTables (d\<lparr>d_br := b, d_npostfix := npost, d_ndirect := ndirect, d_distAlph := distAlph\<rparr>)))"

definition decodeCompressedHeader :: "decT \<Rightarrow> decT dec" where
  "decodeCompressedHeader d =
     bindD (readBlockTypes d 0) (\<lambda>d. bindD (readBlockTypes d 1) (\<lambda>d. bindD (readBlockTypes d 2) readParams))"

section \<open>The decoder\<close>

text \<open>One meta-block after its header; the flag tells whether the loop ends.\<close>

definition metaBlock :: "decT \<Rightarrow> metaHeader \<Rightarrow> (decT \<times> bool) dec" where
  "metaBlock d mh =
     (let mlen = mb_mlen mh; isLast = mb_isLast mh; isUncomp = mb_isUncomp mh; isMeta = mb_isMeta mh
      in if isLast \<and> mlen = 0 \<and> \<not> isMeta \<and> \<not> isUncomp then Ret (d, True)
         else if isMeta then bindD (skipMeta d mlen) (\<lambda>d. Ret (d, isLast))
         else if mlen > 0 \<and> (d_pos d > d_cap d \<or> int (unat mlen) > int (d_cap d) - int (d_pos d)) then Fail ErrBrotliCapacity
         else if isUncomp then
           if isLast then Fail ErrBrotliFormat else bindD (copyRaw d mlen) (\<lambda>d. Ret (d, isLast))
         else if mlen = 0 then Ret (d, isLast)
         else
           bindD (decodeCompressedHeader d) (\<lambda>d.
           bindD (processCompressed d mlen) (\<lambda>d. Ret (d, isLast))))"

text \<open>The loop over the meta-blocks, with fuel; every header takes at least one bit.\<close>

fun metaLoop :: "nat \<Rightarrow> decT \<Rightarrow> decT dec" where
  "metaLoop 0 d = Stuck"
| "metaLoop (Suc f) d =
     bindD (decodeMetablockHeader (d_br d)) (\<lambda>(mh, b).
     bindD (metaBlock (d\<lparr>d_br := b\<rparr>) mh) (\<lambda>(d, fin). if fin then Ret d else metaLoop f d))"

definition newDec :: "brotliGlobals \<Rightarrow> bytes \<Rightarrow> bytes \<Rightarrow> decT" where
  "newDec g inp out =
     \<lparr>d_br = \<lparr>br_p = 0, br_in = inp, br_acc = 0, br_bits = 0\<rparr>, d_out = out, d_cap = length out, d_pos = 0, d_wsize = 0,
      d_distRb = [4, 11, 15, 16], d_npostfix = 0, d_ndirect = 0, d_nbl = [0, 0, 0], d_ntreesL = 0, d_ntreesD = 0, d_distAlph = 0,
      d_btype = [0, 0, 0], d_btypePrev = [0, 0, 0], d_blen = [0, 0, 0], d_hBt = [zeroHuff, zeroHuff, zeroHuff],
      d_hBl = [zeroHuff, zeroHuff, zeroHuff], d_hLit = zeroHuff, d_hCmd = zeroHuff, d_hDist = zeroHuff,
      d_litID = - 1, d_cmdID = - 1, d_distID = - 1, d_p1 = 0, d_p2 = 0, d_g = g\<rparr>"

text \<open>The result is the number of bytes written, with the decoder that holds the buffer.\<close>

definition BrotliL2Decompress :: "brotliGlobals \<Rightarrow> bytes \<Rightarrow> bytes \<Rightarrow> (nat \<times> decT) dec" where
  "BrotliL2Decompress g inp out =
     (let d = newDec g inp out
      in bindD (decodeWindowBits (d_br d)) (\<lambda>(wbits, b).
           if wbits < 10 \<or> wbits > 24 then Fail ErrBrotliWindow
           else
             bindD (metaLoop (8 * length inp + 1) (d\<lparr>d_br := b, d_wsize := push_bit (unat wbits) 1 - 16\<rparr>)) (\<lambda>d.
             Ret (d_pos d, d))))"

end
