(* ===== verification/Brotli_Safe.thy ===== *)
theory Brotli_Safe
  imports Brotli
begin

text \<open>
  The decoder on arbitrary input: no index is out of range and every loop ends. \<open>reads b b'\<close> is what every reading
  function promises of the reader it returns, \<open>huff_ok n h\<close> what \<open>huffBuild\<close> establishes of a code over the symbols
  below \<open>n\<close>, and \<open>base_ok\<close>, \<open>dec_ok\<close> are the invariants of the decoder before and after a compressed header.
\<close>

section \<open>Reading\<close>

definition reads :: "brT \<Rightarrow> brT \<Rightarrow> bool" where
  "reads b b' \<longleftrightarrow> br_ok b' \<and> br_in b' = br_in b \<and> remaining b' \<le> remaining b"

lemma reads_refl [simp]: "br_ok b \<Longrightarrow> reads b b"
  by (simp add: reads_def)

lemma reads_trans: "reads a b \<Longrightarrow> reads b c \<Longrightarrow> reads a c"
  by (auto simp: reads_def)

lemma reads_ok: "reads a b \<Longrightarrow> br_ok b"
  by (simp add: reads_def)

lemma brRead_ends:
  assumes "br_ok b"
  shows "ends (brRead b n) (\<lambda>(v, b'). reads b b' \<and> remaining b' + n = remaining b \<and> unat v < 2 ^ n \<and> n \<le> 24)"
proof (cases "n \<le> 24")
  case n: True
  show ?thesis
  proof (cases "n \<le> length (bitsLeft b)")
    case True
    then obtain b' where r: "brRead b n = Ret (bitsVal (take n (bitsLeft b)), b')" "br_ok b'" "br_in b' = br_in b"
      using brRead_spec [OF assms n] by auto
    then show ?thesis using brRead_remaining [OF r(1)] by (simp add: reads_def)
  next
    case False
    then show ?thesis using brRead_spec [OF assms n] by simp
  qed
qed (simp add: brRead_def)

lemma brPeek_ends:
  assumes "br_ok b" "n \<le> 24" "0 < n"
  shows "ends (brPeek b n) (\<lambda>(v, b'). reads b b' \<and> unat v < 2 ^ n \<and> n \<le> br_bits b')"
proof (cases "n \<le> length (bitsLeft b)")
  case True
  have "length (take n (bitsLeft b)) = n" using True by simp
  then have "unat (bitsVal (take n (bitsLeft b))) < 2 ^ n" using unat_bitsVal [of "take n (bitsLeft b)"] assms(2) by simp
  then show ?thesis using brPeek_spec [OF assms] True by (auto simp: reads_def remaining_def)
next
  case False
  then show ?thesis using brPeek_spec [OF assms] by simp
qed

lemma brDrop_reads: "br_ok b \<Longrightarrow> n \<le> br_bits b \<Longrightarrow> reads b (brDrop b n)"
  using brDrop_bits brDrop_remaining by (simp add: reads_def)

lemma brNeed_ends: "br_ok b \<Longrightarrow> n \<le> 57 \<Longrightarrow> ends (brNeed b n) (\<lambda>(b', r). reads b b' \<and> (r = None \<longrightarrow> n \<le> br_bits b'))"
  using brNeed_filled [of b n] by (auto simp: filled_def reads_def remaining_def)

text \<open>A read in the middle of a computation.\<close>

lemma ends_read:
  assumes "br_ok b" "\<And>v b'. reads b b' \<Longrightarrow> remaining b' + n = remaining b \<Longrightarrow> unat v < 2 ^ n \<Longrightarrow> n \<le> 24 \<Longrightarrow> ends (k (v, b')) P"
  shows "ends (bindD (brRead b n) k) P"
  by (rule ends_bindI [OF brRead_ends [OF assms(1)]]) (use assms(2) in auto)

section \<open>Prefix codes\<close>

definition huff_full :: "nat \<Rightarrow> huffT \<Rightarrow> bool" where
  "huff_full n h \<longleftrightarrow> length (h_count h) = 16 \<and> length (h_first h) = 16 \<and> length (h_pos h) = 16 \<and> length (h_symbols h) = 704 \<and>
     length (h_table h) = 256 \<and> (\<forall>s \<in> set (h_symbols h). unat s < n) \<and>
     (\<forall>e \<in> set (h_table h). unat (drop_bit 12 e) \<le> 8 \<and> unat (e AND 0x0fff) < n) \<and>
     (\<forall>L \<in> {1..<16}. unat (h_pos h ! L) + unat (h_count h ! L) \<le> 704)"

definition huff_ok :: "nat \<Rightarrow> huffT \<Rightarrow> bool" where
  "huff_ok n h \<longleftrightarrow> (if h_single h then unat (h_singleSym h) < n else huff_full n h)"

lemma unat_ucast_16_32 [simp]: "unat (ucast (x :: u16) :: u32) = unat x"
  using unsigned_less [of x, where ?'a = nat] by (simp add: unsigned_ucast_eq take_bit_nat_eq_self)

lemma huffDecodeSlow_loop_ends:
  "huff_full n h \<Longrightarrow> br_ok b \<Longrightarrow> 1 \<le> len \<Longrightarrow> len + k \<le> 16 \<Longrightarrow>
    ends (huffDecodeSlow_loop b h code len k) (\<lambda>(s, b'). reads b b' \<and> unat s < n)"
proof (induction k arbitrary: b code len)
  case (Suc k)
  let ?next = "\<lambda>b' code. ends (huffDecodeSlow_loop b' h code (len + 1) k) (\<lambda>(s, b'). reads b b' \<and> unat s < n)"
  have nxt: "?next b' code'" if "reads b b'" for b' code'
  proof -
    have "ends (huffDecodeSlow_loop b' h code' (len + 1) k) (\<lambda>(s, b''). reads b' b'' \<and> unat s < n)"
      using Suc.IH [of b' "len + 1" code'] Suc.prems that by (simp add: reads_ok)
    then show ?thesis by (rule ends_mono) (use that reads_trans in auto)
  qed
  have len: "len < 16" using Suc.prems by simp
  have h: "length (h_count h) = 16" "length (h_first h) = 16" "length (h_pos h) = 16" "length (h_symbols h) = 704"
    "unat (h_pos h ! len) + unat (h_count h ! len) \<le> 704" using Suc.prems by (auto simp: huff_full_def)
  have sym: "unat (h_symbols h ! i) < n" if "i < 704" for i using Suc.prems(1) that by (simp add: huff_full_def)
  have slot: "unat (h_pos h ! len + ucast (c :: u32)) < 704" if "c < ucast (h_count h ! len)" for c
  proof -
    have "unat c < unat (h_count h ! len)" using that by (simp add: word_less_nat_alt)
    then have "unat (h_pos h ! len) + unat c < 704" "unat (ucast c :: u16) = unat c" using h(5) by (simp_all add: unsigned_ucast_eq take_bit_nat_eq_self)
    then show ?thesis by (simp add: unat_word_ariths)
  qed
  show ?case using Suc.prems(2) h len nxt sym slot by (auto simp: Let_def intro!: ends_read)
qed simp

lemma huffDecodeSlow_ends: "huff_full n h \<Longrightarrow> br_ok b \<Longrightarrow> start \<le> 8 \<Longrightarrow>
    ends (huffDecodeSlow b h code start) (\<lambda>(s, b'). reads b b' \<and> unat s < n)"
  unfolding huffDecodeSlow_def by (rule huffDecodeSlow_loop_ends) simp_all

lemma huffDecodeFast_ends:
  assumes h: "huff_full n h" and b: "br_ok b" "8 \<le> br_bits b"
  shows "ends (huffDecodeFast b h) (\<lambda>(s, b'). reads b b' \<and> unat s < n)"
proof -
  let ?i = "unat (ucast (br_acc b) :: byte)"
  have i: "?i < length (h_table h)" using h unsigned_less [of "ucast (br_acc b) :: byte", where ?'a = nat] by (simp add: huff_full_def)
  have "h_table h ! ?i \<in> set (h_table h)" using i by simp
  then have e: "unat (drop_bit 12 (h_table h ! ?i)) \<le> 8" "unat (h_table h ! ?i AND 0x0fff) < n" using h unfolding huff_full_def by blast+
  have "reads b (brDrop b (unat (drop_bit 12 (h_table h ! ?i))))" using b e(1) by (intro brDrop_reads) simp_all
  moreover have "ends (huffDecodeSlow (brDrop b 8) h c 8) (\<lambda>(s, b'). reads b b' \<and> unat s < n)" for c
  proof (rule ends_mono)
    show "ends (huffDecodeSlow (brDrop b 8) h c 8) (\<lambda>(s, b'). reads (brDrop b 8) b' \<and> unat s < n)"
      using brDrop_reads [OF b] by (intro huffDecodeSlow_ends h) (simp_all add: reads_ok)
  qed (use brDrop_reads [OF b] reads_trans in auto)
  ultimately show ?thesis using i e(2) by (simp add: huffDecodeFast_def Let_def)
qed

lemma huffDecode_ends:
  assumes "huff_ok n h" "br_ok b"
  shows "ends (huffDecode b h) (\<lambda>(s, b'). reads b b' \<and> unat s < n)"
proof (cases "h_single h")
  case True
  then show ?thesis using assms by (simp add: huffDecode_def huff_ok_def)
next
  case False
  then have h: "huff_full n h" using assms(1) by (simp add: huff_ok_def)
  show ?thesis
  proof (cases "br_bits b < 8")
    case b8: True
    have "ends (brNeed b 8) (\<lambda>(b', r). reads b b' \<and> (r = None \<longrightarrow> 8 \<le> br_bits b'))" using brNeed_ends assms(2) by simp
    then have "ends (bindD (brNeed b 8) (\<lambda>(b, r). case r of Some _ \<Rightarrow> huffDecodeSlow b h 0 0 | None \<Rightarrow> huffDecodeFast b h))
        (\<lambda>(s, b'). reads b b' \<and> unat s < n)"
    proof (rule ends_bindI)
      fix x assume x: "case x of (b', r) \<Rightarrow> reads b b' \<and> (r = None \<longrightarrow> 8 \<le> br_bits b')"
      obtain b' r where "x = (b', r)" by fastforce
      then have b': "reads b b'" "r = None \<longrightarrow> 8 \<le> br_bits b'" using x by simp_all
      have "ends (case r of Some _ \<Rightarrow> huffDecodeSlow b' h 0 0 | None \<Rightarrow> huffDecodeFast b' h) (\<lambda>(s, b''). reads b' b'' \<and> unat s < n)"
        using b' huffDecodeSlow_ends [OF h] huffDecodeFast_ends [OF h] by (cases r) (simp_all add: reads_ok)
      then have "ends (case r of Some _ \<Rightarrow> huffDecodeSlow b' h 0 0 | None \<Rightarrow> huffDecodeFast b' h) (\<lambda>(s, b''). reads b b'' \<and> unat s < n)"
        by (rule ends_mono) (use b'(1) reads_trans in auto)
      then show "ends (case x of (b, r) \<Rightarrow> (case r of Some _ \<Rightarrow> huffDecodeSlow b h 0 0 | None \<Rightarrow> huffDecodeFast b h)) (\<lambda>(s, b'). reads b b' \<and> unat s < n)"
        by (simp add: \<open>x = (b', r)\<close>)
    qed
    then show ?thesis using False b8 by (simp add: huffDecode_def)
  next
    case b8: False
    then show ?thesis using False huffDecodeFast_ends [OF h assms(2)] by (simp add: huffDecode_def)
  qed
qed

lemma ends_symbol:
  assumes "huff_ok n h" "br_ok b" "\<And>s b'. reads b b' \<Longrightarrow> unat s < n \<Longrightarrow> ends (k (s, b')) P"
  shows "ends (bindD (huffDecode b h) k) P"
  by (rule ends_bindI [OF huffDecode_ends [OF assms(1,2)]]) (use assms(3) in auto)

section \<open>Building a code\<close>

text \<open>How many of the lengths are \<open>L\<close>.\<close>

definition lens :: "bytes \<Rightarrow> nat \<Rightarrow> nat" where
  "lens xs L = count_list (map unat xs) L"

lemma lens_snoc: "lens (xs @ [x]) L = lens xs L + (if unat x = L then 1 else 0)"
  by (simp add: lens_def)

lemma sum_count_list_le: "finite A \<Longrightarrow> (\<Sum>L\<in>A. count_list xs L) \<le> length xs"
proof (induction xs)
  case (Cons x xs)
  have "(\<Sum>L\<in>A. count_list (x # xs) L) = (\<Sum>L\<in>A. count_list xs L) + (\<Sum>L\<in>A. if x = L then 1 else 0)"
    by (subst sum.distrib [symmetric]) (auto intro: sum.cong)
  moreover have "(\<Sum>L\<in>A. if x = L then 1 else 0 :: nat) \<le> 1" using Cons.prems by simp
  ultimately show ?case using Cons by simp
qed simp

lemma sum_lens_le: "finite A \<Longrightarrow> (\<Sum>L\<in>A. lens xs L) \<le> length xs"
  using sum_count_list_le [of A "map unat xs"] by (simp add: lens_def)

definition counted :: "bytes \<Rightarrow> u16 list \<Rightarrow> bool" where
  "counted xs count \<longleftrightarrow> length count = 16 \<and> (\<forall>L \<in> {1..<16}. unat (count ! L) = lens xs L)"

lemma counted_snoc:
  assumes "counted xs count" "unat x < 16" "x \<noteq> 0" "length xs < 704"
  shows "counted (xs @ [x]) (count[unat x := count ! unat x + 1])"
proof -
  have "unat x \<noteq> 0" using assms(3) by (simp add: unat_eq_zero)
  then have "unat (count ! unat x) = lens xs (unat x)" using assms(1,2) by (simp add: counted_def)
  moreover have "lens xs (unat x) \<le> length xs" using sum_lens_le [of "{unat x}" xs] by simp
  ultimately have "unat (count ! unat x + 1) = lens xs (unat x) + 1" using assms(4) by (simp add: unat_word_ariths)
  then show ?thesis using assms by (auto simp: counted_def lens_snoc nth_list_update)
qed

lemma counted_zero: "counted xs count \<Longrightarrow> counted (xs @ [0]) count"
  by (simp add: counted_def lens_snoc)

lemma byte_le_15: "\<not> (x :: byte) > 15 \<Longrightarrow> unat x < 16"
  by (simp add: word_less_nat_alt not_less)

lemma unat_of_nat_u16: "i < 704 \<Longrightarrow> unat (of_nat i :: u16) = i"
  by (simp add: unat_of_nat)

definition same_rest :: "huffT \<Rightarrow> huffT \<Rightarrow> bool" where
  "same_rest h h' \<longleftrightarrow> h_first h' = h_first h \<and> h_pos h' = h_pos h \<and> h_symbols h' = h_symbols h \<and> h_table h' = h_table h"

lemma range_step: "P i \<Longrightarrow> \<forall>j \<in> {Suc i..<Suc i + k}. P j \<Longrightarrow> \<forall>j \<in> {i..<i + Suc k}. P j"
  by (metis Suc_le_eq add_Suc_shift atLeastLessThan_iff le_neq_implies_less)

lemma huffCount_ends:
  "\<lbrakk>i + k \<le> length len; i + k \<le> 704; counted (take i len) (h_count h); lst < max 1 i\<rbrakk> \<Longrightarrow>
    ends (huffCount len i k h nz lst) (\<lambda>(h', r). case r of
        None \<Rightarrow> h_single h' \<and> unat (h_singleSym h') < i + k
      | Some (nz', lst') \<Rightarrow> h_single h' = h_single h \<and> same_rest h h' \<and> counted (take (i + k) len) (h_count h') \<and>
          (\<forall>j \<in> {i..<i + k}. unat (len ! j) < 16) \<and> lst' < max 1 (i + k))"
proof (induction k arbitrary: i h nz lst)
  case 0
  then show ?case by (simp add: same_rest_def)
next
  case (Suc k)
  have i: "i < length len" using Suc.prems by simp
  have tk: "take (Suc i) len = take i len @ [len ! i]" using i by (rule take_Suc_conv_app_nth)
  have lc: "length (h_count h) = 16" using Suc.prems(3) by (simp add: counted_def)
  let ?post = "\<lambda>i k h (h', r). case r of
        None \<Rightarrow> h_single h' \<and> unat (h_singleSym h') < i + k
      | Some (nz', lst') \<Rightarrow> h_single h' = h_single h \<and> same_rest h h' \<and> counted (take (i + k) len) (h_count h') \<and>
          (\<forall>j \<in> {i..<i + k}. unat (len ! j) < 16) \<and> lst' < max 1 (i + k)"
  consider (single) "len ! i = 0xFF" | (bad) "len ! i \<noteq> 0xFF" "len ! i > 15" | (zero) "len ! i = 0" | (code) "\<not> len ! i > 15" "len ! i \<noteq> 0" "len ! i \<noteq> 0xFF"
    by auto
  then show ?case
  proof cases
    case single
    then show ?thesis using i Suc.prems(2) by (simp add: singleHuff_def unat_of_nat_u16)
  next
    case bad
    then show ?thesis using i by simp
  next
    case zero
    have "ends (huffCount len (Suc i) k h nz lst) (?post (Suc i) k h)"
      using Suc.prems counted_zero [of "take i len" "h_count h"] by (intro Suc.IH) (auto simp: tk zero)
    then have "ends (huffCount len (Suc i) k h nz lst) (?post i (Suc k) h)"
    proof (rule ends_mono)
      fix x assume "?post (Suc i) k h x"
      then show "?post i (Suc k) h x" using range_step [of "\<lambda>j. unat (len ! j) < 16" i k] zero by (auto split: option.splits)
    qed
    then show ?thesis using zero i by simp
  next
    case code
    have u: "unat (len ! i) < 16" using code(1) by (rule byte_le_15)
    let ?h = "h\<lparr>h_count := (h_count h)[unat (len ! i) := h_count h ! unat (len ! i) + 1]\<rparr>"
    have "counted (take (Suc i) len) (h_count ?h)" unfolding tk using Suc.prems u code(2) by (simp add: counted_snoc)
    then have "ends (huffCount len (Suc i) k ?h (nz + 1) i) (?post (Suc i) k ?h)"
      using Suc.prems by (intro Suc.IH) auto
    then have "ends (huffCount len (Suc i) k ?h (nz + 1) i) (?post i (Suc k) h)"
    proof (rule ends_mono)
      fix x assume "?post (Suc i) k ?h x"
      then show "?post i (Suc k) h x" using range_step [of "\<lambda>j. unat (len ! j) < 16" i k] u by (auto split: option.splits simp: same_rest_def)
    qed
    then show ?thesis using code i u lc by simp
  qed
qed

lemma huffPos_sums:
  assumes "(\<Sum>j\<in>{1..<16}. unat (count ! j)) \<le> 704" "length pos = 16" "huffPos count pos = (pos', space)"
  shows "length pos' = 16 \<and> (\<forall>L \<in> {1..<16}. unat (pos' ! L) = (\<Sum>j\<in>{1..<L}. unat (count ! j)))"
proof -
  define step where "step = (\<lambda>bits (acc :: u16, space :: u32, pos :: u16 list).
    (acc + count ! bits, if count ! bits \<noteq> 0 then space + push_bit (15 - bits) (ucast (count ! bits)) else space, pos[bits := acc]))"
  have "\<exists>acc space p. fold step [1..<m] (0, 0, pos) = (acc, space, p) \<and> unat acc = (\<Sum>j\<in>{1..<m}. unat (count ! j)) \<and> length p = 16 \<and>
      (\<forall>L \<in> {1..<m}. unat (p ! L) = (\<Sum>j\<in>{1..<L}. unat (count ! j)))" if "1 \<le> m" "m \<le> 16" for m
    using that
  proof (induction m rule: nat_induct_at_least)
    case base
    then show ?case using assms(2) by simp
  next
    case (Suc m)
    then obtain acc space p where f: "fold step [1..<m] (0, 0, pos) = (acc, space, p)" and acc: "unat acc = (\<Sum>j\<in>{1..<m}. unat (count ! j))"
      and p: "length p = 16" "\<forall>L \<in> {1..<m}. unat (p ! L) = (\<Sum>j\<in>{1..<L}. unat (count ! j))" by auto
    have up: "[1..<Suc m] = [1..<m] @ [m]" using Suc.hyps by simp
    have sm: "(\<Sum>j\<in>{1..<Suc m}. unat (count ! j)) = unat acc + unat (count ! m)" using Suc.hyps by (simp add: acc)
    have "(\<Sum>j\<in>{1..<Suc m}. unat (count ! j)) \<le> (\<Sum>j\<in>{1..<16}. unat (count ! j))"
      using Suc.prems by (intro sum_mono2) auto
    then have "unat (acc + count ! m) = unat acc + unat (count ! m)" using sm assms(1) by (simp add: unat_word_ariths)
    moreover have "unat (p[m := acc] ! L) = (\<Sum>j\<in>{1..<L}. unat (count ! j))" if "L \<in> {1..<Suc m}" for L
      using that p Suc.prems acc by (cases "L = m") auto
    ultimately show ?case unfolding up sm fold_append using f p(1) by (simp add: step_def)
  qed
  from this [of 16] show ?thesis using assms(3) by (auto simp: huffPos_def step_def)
qed

lemma length_huffFirst: "length first = 16 \<Longrightarrow> length (huffFirst count first) = 16"
proof -
  assume l: "length first = 16"
  have "length (snd (fold (\<lambda>bits (code, first). let code = push_bit 1 (code + count ! (bits - 1)) in (code, first[bits := code])) is cf)) = length (snd cf)"
    for "is" and cf :: "u16 \<times> u16 list" by (induction "is" arbitrary: cf) (auto simp: Let_def split: prod.splits)
  then show ?thesis using l by (simp add: huffFirst_def)
qed

lemma fillTable_props: "length (fillTable tab pack L idx) = length tab \<and> set (fillTable tab pack L idx) \<subseteq> insert pack (set tab)"
proof (induction tab pack L idx rule: fillTable.induct)
  case (1 tab pack L idx)
  show ?case
  proof (cases "idx < 256")
    case True
    then have "fillTable tab pack L idx = fillTable (tab[idx := pack]) pack L (idx + 2 ^ L)" by (subst fillTable.simps) simp
    then show ?thesis using 1 [OF True] set_update_subset_insert [of tab idx pack] by auto
  next
    case False
    then have "fillTable tab pack L idx = tab" by (subst fillTable.simps) simp
    then show ?thesis by auto
  qed
qed

text \<open>An entry of the table: symbol and length.\<close>

lemma table_entry:
  assumes "i < 704" "L \<le> 8"
  shows "unat (drop_bit 12 (of_nat i OR push_bit 12 (of_nat L) :: u16)) = L" "unat ((of_nat i OR push_bit 12 (of_nat L) :: u16) AND 0x0fff) = i"
proof -
  have i: "take_bit 12 (of_nat i :: u16) = of_nat i"
    using assms(1) by (intro unsigned_word_eqI [where ?'a = nat]) (simp add: unsigned_take_bit_eq unat_of_nat take_bit_nat_eq_self)
  have L: "take_bit 4 (of_nat L :: u16) = of_nat L"
    using assms(2) by (intro unsigned_word_eqI [where ?'a = nat]) (simp add: unsigned_take_bit_eq unat_of_nat take_bit_nat_eq_self)
  have bi: "\<not> bit (of_nat i :: u16) n" if "12 \<le> n" for n using i that by (metis bit_take_bit_iff leD)
  have bL: "\<not> bit (of_nat L :: u16) n" if "4 \<le> n" for n using L that by (metis bit_take_bit_iff leD)
  have "drop_bit 12 (of_nat i OR push_bit 12 (of_nat L) :: u16) = of_nat L"
  proof (rule bit_word_eqI)
    fix n :: nat assume n: "n < LENGTH(16)"
    show "bit (drop_bit 12 (of_nat i OR push_bit 12 (of_nat L) :: u16)) n \<longleftrightarrow> bit (of_nat L :: u16) n"
      using bi [of "12 + n"] bL [of n] n by (cases "4 \<le> n") (simp_all add: bit_simps)
  qed
  then show "unat (drop_bit 12 (of_nat i OR push_bit 12 (of_nat L) :: u16)) = L" using assms(2) by (simp add: unat_of_nat)
  have m: "(0x0fff :: u16) = mask 12" by (simp add: mask_eq_exp_minus_1)
  have "(of_nat i OR push_bit 12 (of_nat L) :: u16) AND 0x0fff = of_nat i"
  proof (rule bit_word_eqI)
    fix n :: nat assume n: "n < LENGTH(16)"
    show "bit ((of_nat i OR push_bit 12 (of_nat L) :: u16) AND 0x0fff) n \<longleftrightarrow> bit (of_nat i :: u16) n"
      unfolding m using bi [of n] by (cases "12 \<le> n") (simp_all add: bit_simps)
  qed
  then show "unat ((of_nat i OR push_bit 12 (of_nat L) :: u16) AND 0x0fff) = i" using assms(1) by (simp add: unat_of_nat)
qed

lemma lens_le: "lens (take i xs) L \<le> lens (take (i + k) xs) L"
  by (simp add: lens_def take_add)

lemma lens_at:
  assumes "i < N" "N \<le> length xs" "unat (xs ! i) = L"
  shows "lens (take i xs) L < lens (take N xs) L"
proof -
  have "lens (take (Suc i) xs) L = lens (take i xs) L + 1"
    using assms by (simp add: take_Suc_conv_app_nth lens_snoc)
  moreover have "lens (take (Suc i) xs) L \<le> lens (take N xs) L" using lens_le [of "Suc i" xs L "N - Suc i"] assms(1) by simp
  ultimately show ?thesis by simp
qed

lemma huffAssign_ends:
  "\<lbrakk>i + k = N; N \<le> length len; N \<le> 704; counted (take N len) (h_count h); huff_full N h; counted (take i len) seen;
    \<forall>j \<in> {i..<i + k}. unat (len ! j) < 16\<rbrakk> \<Longrightarrow>
    ends (huffAssign len i k h seen) (\<lambda>h'. huff_full N h' \<and> h_single h' = h_single h)"
proof (induction k arbitrary: i h seen)
  case (Suc k)
  let ?L = "unat (len ! i)"
  have i: "i < length len" "i < N" "i < 704" using Suc.prems by simp_all
  have tk: "take (Suc i) len = take i len @ [len ! i]" using i(1) by (rule take_Suc_conv_app_nth)
  have L16: "?L < 16" using Suc.prems(7) by simp
  note full = Suc.prems(5) [unfolded huff_full_def]
  show ?case
  proof (cases "?L = 0")
    case True
    then have "len ! i = 0" by (simp add: unat_eq_zero)
    then have "counted (take (Suc i) len) seen" unfolding tk using counted_zero [OF Suc.prems(6)] by simp
    then have "ends (huffAssign len (Suc i) k h seen) (\<lambda>h'. huff_full N h' \<and> h_single h' = h_single h)"
      using Suc.prems by (intro Suc.IH) auto
    then show ?thesis using True i by simp
  next
    case False
    then have Lr: "?L \<in> {1..<16}" using L16 by simp
    have len16: "length seen = 16" "length (h_pos h) = 16" "length (h_first h) = 16" using Suc.prems(6) full by (simp_all add: counted_def)
    have "unat (seen ! ?L) = lens (take i len) ?L" "unat (h_count h ! ?L) = lens (take N len) ?L"
      using Suc.prems(4,6) Lr unfolding counted_def by blast+
    moreover have "lens (take i len) ?L < lens (take N len) ?L" by (rule lens_at) (use i Suc.prems in simp_all)
    moreover have "unat (h_pos h ! ?L) + unat (h_count h ! ?L) \<le> 704" using full Lr by blast
    ultimately have slot: "unat (h_pos h ! ?L + seen ! ?L) < 704" by (simp add: unat_word_ariths)
    let ?pack = "of_nat i OR push_bit 12 (of_nat ?L) :: u16"
    let ?h1 = "h\<lparr>h_symbols := (h_symbols h)[unat (h_pos h ! ?L + seen ! ?L) := of_nat i]\<rparr>"
    let ?h2 = "if ?L \<le> 8 then ?h1\<lparr>h_table := fillTable (h_table ?h1) ?pack ?L (unat (bitRev8 (h_first h ! ?L + seen ! ?L) ?L))\<rparr> else ?h1"
    have sy: "\<forall>x \<in> set (h_symbols ?h1). unat x < N"
      using full i(2,3) set_update_subset_insert [of "h_symbols h" "unat (h_pos h ! ?L + seen ! ?L)" "of_nat i"] by (auto simp: unat_of_nat_u16)
    have f1: "huff_full N ?h1" using full sy by (auto simp: huff_full_def)
    have f2: "huff_full N ?h2 \<and> h_single ?h2 = h_single h \<and> h_count ?h2 = h_count h"
    proof (cases "?L \<le> 8")
      case True
      let ?t = "fillTable (h_table ?h1) ?pack ?L (unat (bitRev8 (h_first h ! ?L + seen ! ?L) ?L))"
      have "unat (drop_bit 12 e) \<le> 8 \<and> unat (e AND 0x0fff) < N" if "e \<in> set ?t" for e
      proof -
        have "e = ?pack \<or> e \<in> set (h_table h)" using that fillTable_props [of "h_table ?h1"] by auto
        then show ?thesis using full table_entry [OF i(3) True] True i(2) by auto
      qed
      moreover have "length ?t = 256" using fillTable_props full by auto
      ultimately show ?thesis using True f1 by (simp add: huff_full_def)
    next
      case False
      then show ?thesis using f1 by simp
    qed
    have "len ! i \<noteq> 0" using False by auto
    then have seen: "counted (take (Suc i) len) (seen[?L := seen ! ?L + 1])" unfolding tk using counted_snoc [OF Suc.prems(6) L16] i by simp
    have "ends (huffAssign len (Suc i) k ?h2 (seen[?L := seen ! ?L + 1])) (\<lambda>h'. huff_full N h' \<and> h_single h' = h_single ?h2)"
      using Suc.prems f2 seen by (intro Suc.IH) auto
    moreover have "huffAssign len i (Suc k) h seen = huffAssign len (Suc i) k ?h2 (seen[?L := seen ! ?L + 1])"
      using False i len16 slot L16 full by (simp add: Let_def)
    ultimately show ?thesis using f2 by simp
  qed
qed simp

lemma huff_full_zero: "0 < n \<Longrightarrow> huff_full n zeroHuff"
  by (simp add: huff_full_def zeroHuff_def)

lemma huff_ok_zero [simp]: "0 < n \<Longrightarrow> huff_ok n zeroHuff"
  by (simp add: huff_ok_def huff_full_zero) (simp add: zeroHuff_def)

lemma huff_ok_single: "unat s < n \<Longrightarrow> huff_ok n (singleHuff h s)"
  by (simp add: huff_ok_def singleHuff_def)

lemma huff_ok_mono: "huff_ok n h \<Longrightarrow> n \<le> m \<Longrightarrow> huff_ok m h"
  by (auto simp: huff_ok_def huff_full_def split: if_splits dest: order.strict_trans2)

lemma huffFill_ends:
  assumes len: "n \<le> length len" "n \<le> 704" and n0: "0 < n"
    and h: "\<not> h_single h" "same_rest zeroHuff h" "counted (take n len) (h_count h)" "\<forall>j \<in> {0..<n}. unat (len ! j) < 16"
  shows "ends (huffFill len n h) (huff_ok n)"
proof -
  let ?count = "(h_count h)[0 := 0]"
  let ?h = "h\<lparr>h_count := ?count, h_first := huffFirst ?count (h_first h)\<rparr>"
  obtain pos space where ps: "huffPos ?count (h_pos h) = (pos, space)" by fastforce
  have cnt: "counted (take n len) ?count" using h(3) by (simp add: counted_def nth_list_update)
  then have cs: "\<forall>L \<in> {1..<16}. unat (?count ! L) = lens (take n len) L" by (simp add: counted_def)
  have "(\<Sum>j\<in>{1..<16}. unat (?count ! j)) = (\<Sum>j\<in>{1..<16}. lens (take n len) j)" using cs by (intro sum.cong) simp_all
  then have tot: "(\<Sum>j\<in>{1..<16}. unat (?count ! j)) \<le> 704"
    using sum_lens_le [of "{1..<16}" "take n len"] len by simp
  have "length (h_pos h) = 16" using h(2) by (simp add: same_rest_def zeroHuff_def)
  note pos = huffPos_sums [OF tot this ps]
  have "unat (pos ! L) + unat (?count ! L) \<le> 704" if L: "L \<in> {1..<16}" for L
  proof -
    have "unat (pos ! L) + unat (?count ! L) = (\<Sum>j\<in>{1..<Suc L}. unat (?count ! j))" using pos L by simp
    also have "\<dots> \<le> (\<Sum>j\<in>{1..<16}. unat (?count ! j))" using L by (intro sum_mono2) auto
    finally show ?thesis using tot by simp
  qed
  then have full: "huff_full n (?h\<lparr>h_pos := pos\<rparr>)"
    using h(2) n0 pos cnt by (simp add: huff_full_def same_rest_def zeroHuff_def length_huffFirst counted_def)
  have "counted (take 0 len) (replicate 16 0)" by (simp add: counted_def lens_def)
  then have "ends (huffAssign len 0 n (?h\<lparr>h_pos := pos\<rparr>) (replicate 16 0)) (\<lambda>h'. huff_full n h' \<and> h_single h' = h_single (?h\<lparr>h_pos := pos\<rparr>))"
    using len cnt full h(4) by (intro huffAssign_ends) simp_all
  then have "ends (huffAssign len 0 n (?h\<lparr>h_pos := pos\<rparr>) (replicate 16 0)) (huff_ok n)"
    by (rule ends_mono) (use h(1) in \<open>simp add: huff_ok_def\<close>)
  then show ?thesis using ps by (simp add: huffFill_def Let_def)
qed

lemma huffBuild_ends:
  assumes "unat n \<le> length len"
  shows "ends (huffBuild len n) (huff_ok (unat n))"
proof (cases "n = 0 \<or> n > l2MaxAlph")
  case False
  then have n: "0 < unat n" "unat n \<le> 704" by (auto simp: l2MaxAlph_def word_le_nat_alt not_less unat_gt_0)
  have c0: "counted (take 0 len) (h_count zeroHuff)" by (simp add: counted_def zeroHuff_def lens_def)
  note cnt = huffCount_ends [of 0 "unat n" len zeroHuff 0 0]
  show ?thesis
  proof (cases "huffCount len 0 (unat n) zeroHuff 0 0")
    case (Ret x)
    obtain h r where xr: "x = (h, r)" by fastforce
    show ?thesis
    proof (cases r)
      case None
      then show ?thesis using cnt Ret False assms n c0 by (simp add: huffBuild_def xr huff_ok_def)
    next
      case (Some nl)
      obtain nz lst where nl: "nl = (nz, lst)" by fastforce
      have p: "\<not> h_single h" "same_rest zeroHuff h" "counted (take (unat n) len) (h_count h)" "\<forall>j \<in> {0..<unat n}. unat (len ! j) < 16"
        "lst < unat n" using cnt Ret assms n c0 by (auto simp: xr Some nl zeroHuff_def)
      have "unat (of_nat lst :: u16) < unat n" using p(5) n by (simp add: unat_of_nat_u16)
      then show ?thesis using Ret False huffFill_ends [OF assms n(2,1) p(1-4)] by (simp add: huffBuild_def xr Some nl huff_ok_single)
    qed
  qed (use cnt assms n c0 False in \<open>simp_all add: huffBuild_def\<close>)
qed (auto simp: huffBuild_def)

end
