(* ===== verification/Brotli_Total.thy ===== *)
theory Brotli_Total
  imports Brotli_Safe
begin

text \<open>
  Every function of the decoder, on top of the codes: code lengths, context maps, output, commands and headers
  neither panic nor run forever, and they keep the invariants \<open>base_ok\<close> and \<open>dec_ok\<close>.
\<close>

section \<open>Code lengths\<close>

text \<open>Reading on from a reader that comes from \<open>a\<close>.\<close>

lemma ends_readT:
  assumes "reads a b" "\<And>v b'. reads a b' \<Longrightarrow> remaining b' + n = remaining b \<Longrightarrow> unat v < 2 ^ n \<Longrightarrow> n \<le> 24 \<Longrightarrow> ends (k (v, b')) P"
  shows "ends (bindD (brRead b n) k) P"
  using assms(2) reads_trans [OF assms(1)] by (intro ends_read reads_ok [OF assms(1)]) blast

lemma brRead_endsT: "reads a b \<Longrightarrow> ends (brRead b n) (\<lambda>(v, b'). reads a b' \<and> unat v < 2 ^ n)"
  by (rule ends_mono [OF brRead_ends]) (auto intro: reads_ok reads_trans)

lemma ends_symbolT:
  assumes "huff_ok n h" "reads a b" "\<And>s b'. reads a b' \<Longrightarrow> unat s < n \<Longrightarrow> ends (k (s, b')) P"
  shows "ends (bindD (huffDecode b h) k) P"
  using assms(3) reads_trans [OF assms(2)] by (intro ends_symbol [OF assms(1)] reads_ok [OF assms(2)]) blast

lemma readSyms_ends: "br_ok b \<Longrightarrow> ends (readSyms b ab alph k) (\<lambda>(ss, b'). reads b b' \<and> length ss = k \<and> (\<forall>s \<in> set ss. s < alph))"
proof (induction k arbitrary: b)
  case (Suc k)
  have "ends (if v \<ge> alph then Fail ErrBrotliFormat else bindD (readSyms b' ab alph k) (\<lambda>(ss, b). Ret (v # ss, b)))
      (\<lambda>(ss, b'). reads b b' \<and> length ss = Suc k \<and> (\<forall>s \<in> set ss. s < alph))" if "reads b b'" for v b'
  proof (cases "v \<ge> alph")
    case False
    have "ends (bindD (readSyms b' ab alph k) (\<lambda>(ss, b). Ret (v # ss, b)))
      (\<lambda>(ss, b'). reads b b' \<and> length ss = Suc k \<and> (\<forall>s \<in> set ss. s < alph))"
      by (rule ends_bindI [OF Suc.IH [OF reads_ok [OF that]]]) (use False reads_trans [OF that] in auto)
    then show ?thesis using False by simp
  qed simp
  then show ?case using Suc.prems by (auto intro!: ends_read)
qed simp

lemma setLens_ends: "\<forall>s \<in> set ss. unat s < length len \<Longrightarrow> ends (setLens len ss ls) (\<lambda>l. length l = length len)"
  by (induction len ss ls rule: setLens.induct) auto

lemma readSimple_ends:
  assumes "br_ok b" "unat alph \<le> length len"
  shows "ends (readSimple b alph len) (\<lambda>(l, b'). reads b b' \<and> length l = length len)"
  unfolding readSimple_def
proof (rule ends_read [OF assms(1)], unfold prod.case Let_def)
  fix nsm1 b1 assume r1: "reads b b1"
  let ?nsym = "unat nsm1 + 1"
  show "ends (bindD (readSyms b1 (alphBits alph) alph ?nsym) (\<lambda>(syms, b).
          if \<not> distinct syms then Fail ErrBrotliFormat
          else
            bindD (if ?nsym = 4 then brRead b 1 else Ret (0, b)) (\<lambda>(treeSel, b).
              bindD (if ?nsym = 1 then putAt len (unat (syms ! 0)) 0xFF
                     else setLens len syms
                       (if ?nsym = 2 then [1, 1] else if ?nsym = 3 then [1, 2, 2] else if treeSel = 0 then [2, 2, 2, 2] else [1, 2, 3, 3]))
                (\<lambda>len. Ret (len, b))))) (\<lambda>(l, b'). reads b b' \<and> length l = length len)"
  proof (rule ends_bindI [OF readSyms_ends [OF reads_ok [OF r1]]], clarsimp split del: if_split)
    fix syms :: "u32 list" and b2
    assume r2: "reads b1 b2" and l: "length syms = Suc (unat nsm1)" and s: "\<forall>s \<in> set syms. s < alph"
    have sl: "\<forall>s \<in> set syms. unat s < length len" using s assms(2) by (auto simp: word_less_nat_alt)
    have "syms ! 0 \<in> set syms" using l by (intro nth_mem) simp
    then have s0: "unat (syms ! 0) < length len" using sl by blast
    have set: "ends (if c then putAt len (unat (syms ! 0)) 0xFF else setLens len syms ls) (\<lambda>l. length l = length len)" for ls c
      using setLens_ends [OF sl] s0 by simp
    have sel: "ends (if c then brRead b2 1 else Ret (0, b2)) (\<lambda>(v, b'). reads b b')" for c
      using brRead_endsT [OF reads_trans [OF r1 r2], of "Suc 0"] reads_trans [OF r1 r2] by (auto elim!: ends_mono)
    show "ends (if \<not> distinct syms then Fail ErrBrotliFormat
          else
            bindD (if ?nsym = 4 then brRead b2 1 else Ret (0, b2)) (\<lambda>(treeSel, b).
              bindD (if ?nsym = 1 then putAt len (unat (syms ! 0)) 0xFF
                     else setLens len syms
                       (if ?nsym = 2 then [1, 1] else if ?nsym = 3 then [1, 2, 2] else if treeSel = 0 then [2, 2, 2, 2] else [1, 2, 3, 3]))
                (\<lambda>len. Ret (len, b)))) (\<lambda>(l, b'). reads b b' \<and> length l = length len)"
    proof (cases "distinct syms")
      case True
      have "ends (bindD (if ?nsym = 4 then brRead b2 1 else Ret (0, b2)) (\<lambda>(treeSel, b).
              bindD (if ?nsym = 1 then putAt len (unat (syms ! 0)) 0xFF
                     else setLens len syms
                       (if ?nsym = 2 then [1, 1] else if ?nsym = 3 then [1, 2, 2] else if treeSel = 0 then [2, 2, 2, 2] else [1, 2, 3, 3]))
                (\<lambda>len. Ret (len, b)))) (\<lambda>(l, b'). reads b b' \<and> length l = length len)"
        by (rule ends_bindI [OF sel]) (clarify, rule ends_bindI [OF set], simp)
      then show ?thesis using True by simp
    qed simp
  qed
qed

lemma readClLens_ends:
  "br_ok b \<Longrightarrow> i + k \<le> 18 \<Longrightarrow> length cl = 18 \<Longrightarrow> ends (readClLens b i k cl space nc) (\<lambda>(cl, _, _, b'). reads b b' \<and> length cl = 18)"
proof (induction k arbitrary: b i cl space nc)
  case (Suc k)
  have tabs: "length kClPfxLen = 16" "length kClPfxVal = 16" "length kClOrder = 18" "\<forall>x \<in> set kClOrder. x < 18"
    "\<forall>x \<in> set kClPfxLen. x \<le> 4" by (simp_all add: kClPfxLen_def kClPfxVal_def kClOrder_def)
  have i: "i < 18" using Suc.prems by simp
  have o1: "kClOrder ! i < 18" using tabs i by (metis nth_mem)
  show ?case unfolding readClLens.simps
  proof (rule ends_bindI [OF brPeek_ends [OF Suc.prems(1), of 4]], simp, simp, clarify, unfold Let_def)
    fix ix b1 assume r: "reads b b1" and ix: "unat (ix :: u32) < 2 ^ 4" and b4: "4 \<le> br_bits b1"
    have drp: "kClPfxLen ! unat ix \<le> br_bits b1" using tabs ix b4 nth_mem [of "unat ix" kClPfxLen] by fastforce
    let ?b = "brDrop b1 (kClPfxLen ! unat ix)"
    have rb: "reads b ?b" using brDrop_reads [OF reads_ok [OF r] drp] r reads_trans by blast
    have nxt: "ends (readClLens ?b (i + 1) k (cl[kClOrder ! i := v]) sp n) (\<lambda>(cl, _, _, b'). reads b b' \<and> length cl = 18)" for v sp n
      by (rule ends_mono [OF Suc.IH]) (use rb Suc.prems reads_trans reads_ok in auto)
    show "ends (bindD (at kClPfxLen (unat ix)) (\<lambda>drp.
       if br_bits b1 < drp then Fail ErrBrotliTrunc
       else
         bindD (at kClPfxVal (unat ix)) (\<lambda>v.
         bindD (at kClOrder i) (\<lambda>o1.
         bindD (putAt cl o1 v) (\<lambda>cl.
           if v \<noteq> 0 then
                (if space - drop_bit (unat v) 32 = 0 \<or> space - drop_bit (unat v) 32 > 32
                 then Ret (cl, space - drop_bit (unat v) 32, nc + 1, brDrop b1 drp)
                 else readClLens (brDrop b1 drp) (i + 1) k cl (space - drop_bit (unat v) 32) (nc + 1))
              else readClLens (brDrop b1 drp) (i + 1) k cl space nc)))))
      (\<lambda>(cl, _, _, b'). reads b b' \<and> length cl = 18)"
      using tabs ix i o1 drp rb Suc.prems(3) nxt by simp
  qed
qed simp

lemma fillRun_ends: "unat si + k \<le> length xs \<Longrightarrow> length xs < 2 ^ 32 \<Longrightarrow> ends (fillRun xs si v k) (\<lambda>x. length x = length xs)"
proof (induction k arbitrary: xs si)
  case (Suc k)
  have "unat (si + 1) = unat si + 1" using Suc.prems by (simp add: unat_word_ariths)
  then have "ends (fillRun (xs[unat si := v]) (si + 1) v k) (\<lambda>x. length x = length (xs[unat si := v]))"
    using Suc.prems by (intro Suc.IH) simp_all
  then show ?case using Suc.prems by simp
qed simp

lemma nextRun_bounds:
  assumes "nextRun old n extra = (rep, reps)" "n = 2 \<or> n = 3" "unat extra < 2 ^ n" "unat old \<le> 704" "old = 0 \<or> 3 \<le> unat old"
  shows "unat rep = unat old + unat reps \<and> 3 \<le> unat rep \<and> unat reps \<le> 6000"
proof -
  have e: "unat (extra + 3) = unat extra + 3" using assms(2,3) by (auto simp: unat_word_ariths)
  show ?thesis
  proof (cases "old = 0")
    case True
    then have "rep = extra + 3" "reps = extra + 3" using assms(1) by (auto simp: nextRun_def Let_def)
    then show ?thesis using e True assms(2,3) by auto
  next
    case False
    then have o3: "3 \<le> unat old" using assms(5) by simp
    have "old > 0" using False by (simp add: word_gt_0)
    then have rep: "rep = push_bit n (old - 2) + (extra + 3)" and reps: "reps = rep - old" using assms(1)
      unfolding nextRun_def Let_def if_P [OF \<open>old > 0\<close>] prod.inject by metis+
    have o2: "unat (old - 2) = unat old - 2" using o3 by (subst unat_sub) (simp_all add: word_le_nat_alt)
    have "unat (push_bit n (old - 2)) = unat (old - 2) * 2 ^ n"
      using assms(2,4) o2 by (auto simp: push_bit_eq_mult unat_word_ariths)
    then have "unat rep = (unat old - 2) * 2 ^ n + unat extra + 3" using assms(2-4) e o2 by (auto simp: rep unat_word_ariths)
    moreover then have "unat old \<le> unat rep" using assms(2) o3 by auto
    moreover then have "unat reps = unat rep - unat old" unfolding reps by (simp add: unat_sub word_le_nat_alt)
    ultimately show ?thesis using assms(2-4) o3 by auto
  qed
qed

lemma ends_cases: "ends m P \<Longrightarrow> (\<exists>x. m = Ret x \<and> P x) \<or> (\<exists>e. m = Fail e)"
  by (cases m) simp_all

lemma readLens_ends:
  "\<lbrakk>br_ok b; huff_ok n h; unat alph \<le> 704; unat alph \<le> length len; length len < 2 ^ 32; si \<le> alph; unat rep \<le> unat si; rep = 0 \<or> 3 \<le> unat rep\<rbrakk> \<Longrightarrow>
    ends (readLens b h alph len si space prev rep repLen) (\<lambda>(l, _, b'). reads b b' \<and> length l = length len)"
proof (induction b h alph len si space prev rep repLen rule: readLens.induct)
  case (1 b h alph len si space prev rep repLen)
  let ?post = "\<lambda>(l, _, b'). reads b b' \<and> length l = length len"
  have weaken: "ends m ?post" if "ends m (\<lambda>(l, _, b'). reads b1 b' \<and> length l = length len)" "reads b b1" for m :: "(bytes \<times> u32 \<times> brT) dec" and b1
    using that(1) by (rule ends_mono) (use that(2) reads_trans in auto)
  show ?case
  proof (cases "si < alph \<and> space > 0")
    case go: True
    then have si: "unat si < unat alph" by (simp add: word_less_nat_alt)
    then have si1: "unat (si + 1) = unat si + 1" using "1.prems"(3) by (simp add: unat_word_ariths)
    then have le1: "si + 1 \<le> alph" using si by (simp add: word_le_nat_alt)
    consider (sym) code b1 where "huffDecode b h = Ret (code, b1)" "reads b b1" | (err) e where "huffDecode b h = Fail e"
      using ends_cases [OF huffDecode_ends [OF "1.prems"(2,1)]] by auto
    then show ?thesis
    proof cases
      case err
      then show ?thesis using go by (subst readLens.simps) simp
    next
      case sym
      have ok1: "br_ok b1" using sym(2) by (rule reads_ok)
      consider (lit) "code < 16" | (bad) "\<not> code < 16" "code \<noteq> 16 \<and> code \<noteq> 17" | (run) "\<not> code < 16" "\<not> (code \<noteq> 16 \<and> code \<noteq> 17)" by blast
      then show ?thesis
      proof cases
        case lit
        have putAt: "putAt len (unat si) (ucast code) = Ret (len[unat si := ucast code])" using si "1.prems"(4) by simp
        show ?thesis
        proof (cases "code = 0")
          case True
          have "ends (readLens b1 h alph (len[unat si := ucast code]) (si + 1) space prev 0 repLen)
              (\<lambda>(l, _, b'). reads b1 b' \<and> length l = length (len[unat si := ucast code]))"
            using "1.prems" ok1 le1 by (intro "1.IH"(2) [OF go sym(1) refl lit putAt]) (simp_all add: True)
          then show ?thesis using go sym lit putAt True weaken [OF _ sym(2)] by (subst readLens.simps) simp
        next
          case False
          have "ends (readLens b1 h alph (len[unat si := ucast code]) (si + 1) (space - drop_bit (unat code) 32768) code 0 repLen)
              (\<lambda>(l, _, b'). reads b1 b' \<and> length l = length (len[unat si := ucast code]))"
            using "1.prems" ok1 le1 by (intro "1.IH"(1) [OF go sym(1) refl lit putAt]) (simp_all add: False)
          then show ?thesis using go sym lit putAt False weaken [OF _ sym(2)] by (subst readLens.simps) simp
        qed
      next
        case bad
        then show ?thesis using go sym by (subst readLens.simps) simp
      next
        case run
        consider (ex) extra b2 where "brRead b1 (extraBits code) = Ret (extra, b2)" "reads b b2" "unat extra < 2 ^ extraBits code"
          | (err) e where "brRead b1 (extraBits code) = Fail e"
          using ends_cases [OF brRead_endsT [OF sym(2), of "extraBits code"]] by auto
        then show ?thesis
        proof cases
          case err
          then show ?thesis using go sym run by (subst readLens.simps) simp
        next
          case ex
          have c: "(code \<noteq> 16 \<and> code \<noteq> 17) = False" using run(2) by blast
          let ?newLen = "if code = 16 then prev else 0"
          let ?old = "if repLen \<noteq> ?newLen then 0 else rep"
          obtain rep' reps where nr: "nextRun ?old (extraBits code) extra = (rep', reps)" by fastforce
          have nb: "unat rep' = unat ?old + unat reps \<and> 3 \<le> unat rep' \<and> unat reps \<le> 6000"
          proof (rule nextRun_bounds [OF nr _ ex(3)])
            show "extraBits code = 2 \<or> extraBits code = 3" by (simp add: extraBits_def)
            show "unat ?old \<le> 704" "?old = 0 \<or> 3 \<le> unat ?old" using "1.prems"(3,7,8) si by auto
          qed
          show ?thesis
          proof (cases "alph < si + reps")
            case True
            then show ?thesis using go sym run ex nr by (subst readLens.simps) (simp add: Let_def c)
          next
            case False
            have sum: "unat (si + reps) = unat si + unat reps" using nb si "1.prems"(3) by (simp add: unat_word_ariths)
            then have le: "si + reps \<le> alph" "unat si + unat reps \<le> unat alph" using False by (simp_all add: not_less word_le_nat_alt)
            have rep': "unat rep' \<le> unat (si + reps)" using nb sum "1.prems"(7) by (auto split: if_splits)
            have ok2: "br_ok b2" using ex(2) by (rule reads_ok)
            show ?thesis
            proof (cases "?newLen = 0")
              case nz: True
              have "ends (readLens b2 h alph len (si + reps) space prev rep' ?newLen) (\<lambda>(l, _, b'). reads b2 b' \<and> length l = length len)"
                by (rule "1.IH"(4) [OF go sym(1) refl run ex(1) refl refl refl nr [symmetric] False]) (use nz ok2 "1.prems" le rep' nb in simp_all)
              then have "ends (readLens b2 h alph len (si + reps) space prev rep' ?newLen) ?post" by (rule weaken [OF _ ex(2)])
              moreover have "readLens b h alph len si space prev rep repLen = readLens b2 h alph len (si + reps) space prev rep' ?newLen"
                using go sym run ex nr False nz by (subst readLens.simps) (simp add: Let_def c)
              ultimately show ?thesis by simp
            next
              case nz: False
              consider (fill) len' where "fillRun len si (ucast ?newLen) (unat reps) = Ret len'" "length len' = length len"
                | (err) e where "fillRun len si (ucast ?newLen) (unat reps) = Fail e"
                using ends_cases [OF fillRun_ends [of si "unat reps" len]] le(2) "1.prems"(4,5) by fastforce
              then show ?thesis
              proof cases
                case err
                then have "readLens b h alph len si space prev rep repLen = Fail e"
                  using go sym run ex nr False nz by (subst readLens.simps) (simp add: Let_def c)
                then show ?thesis by simp
              next
                case fill
                have "ends (readLens b2 h alph len' (si + reps) (space - push_bit (unat (15 - ?newLen)) reps) prev rep' ?newLen)
                    (\<lambda>(l, _, b'). reads b2 b' \<and> length l = length len')"
                  by (rule "1.IH"(3) [OF go sym(1) refl run ex(1) refl refl refl nr [symmetric] False nz fill(1)]) (use ok2 "1.prems" le rep' nb fill(2) in simp_all)
                then have "ends (readLens b2 h alph len' (si + reps) (space - push_bit (unat (15 - ?newLen)) reps) prev rep' ?newLen) ?post"
                  unfolding fill(2) by (rule weaken [OF _ ex(2)])
                moreover have "readLens b h alph len si space prev rep repLen =
                    readLens b2 h alph len' (si + reps) (space - push_bit (unat (15 - ?newLen)) reps) prev rep' ?newLen"
                  using go sym run ex nr False nz fill(1) by (subst readLens.simps) (simp add: Let_def c)
                ultimately show ?thesis by simp
              qed
            qed
          qed
        qed
      qed
    qed
  next
    case False
    then have "readLens b h alph len si space prev rep repLen = Ret (len, space, b)" by (subst readLens.simps) auto
    then show ?thesis using "1.prems" by simp
  qed
qed

lemma readComplex_ends:
  assumes b: "reads a b" and alph: "unat alph \<le> 704" "unat alph \<le> length len" "length len < 2 ^ 32" and kind: "unat kind < 2 ^ 2"
  shows "ends (readComplex b kind alph len) (\<lambda>(l, b'). reads a b' \<and> length l = length len)"
  unfolding readComplex_def
proof (rule ends_bindI [OF readClLens_ends [OF reads_ok [OF b]]], use kind in simp, simp, clarify)
  fix cl :: bytes and space nc :: u32 and b2
  assume "reads b b2" and cl: "length cl = 18"
  then have rb: "reads a b2" using b by (blast intro: reads_trans)
  have h: "ends (if nc = 1 then Ret (singleHuff zeroHuff (of_nat (firstNonzero cl))) else huffBuild cl 18) (huff_ok (2 ^ 16))"
  proof (cases "nc = 1")
    case True
    have "unat (of_nat (firstNonzero cl) :: u16) < 2 ^ 16"
      using unsigned_less [of "of_nat (firstNonzero cl) :: u16", where ?'a = nat] by simp
    then show ?thesis using True by (simp add: huff_ok_single)
  next
    case False
    have "ends (huffBuild cl 18) (huff_ok (unat (18 :: u32)))" by (rule huffBuild_ends) (simp add: cl)
    then show ?thesis using False by (auto elim!: ends_mono huff_ok_mono)
  qed
  have fin: "ends (bindD (readLens b2 hcl alph len 0 32768 8 0 0xFFFFFFFF) (\<lambda>(len, space, b).
      if space \<noteq> 0 then Fail ErrBrotliFormat else Ret (len, b))) (\<lambda>(l, b'). reads a b' \<and> length l = length len)" if "huff_ok (2 ^ 16) hcl" for hcl
    by (rule ends_bindI [OF readLens_ends [OF reads_ok [OF rb] that]]) (use alph reads_trans [OF rb] in auto)
  show "ends (if \<not> (nc = 1 \<or> space = 0) then Fail ErrBrotliFormat
       else
         bindD (if nc = 1 then Ret (singleHuff zeroHuff (of_nat (firstNonzero cl))) else huffBuild cl 18) (\<lambda>hcl.
         bindD (readLens b2 hcl alph len 0 32768 8 0 0xFFFFFFFF) (\<lambda>(len, space, b).
           if space \<noteq> 0 then Fail ErrBrotliFormat else Ret (len, b)))) (\<lambda>(l, b'). reads a b' \<and> length l = length len)"
    using ends_bindI [OF h fin] by simp
qed

lemma readHuffmanLengths_ends:
  assumes b: "reads a b" and len: "unat alph \<le> length len" "length len < 2 ^ 32"
  shows "ends (readHuffmanLengths b alph len) (\<lambda>(l, b'). reads a b' \<and> length l = length len \<and> 0 < unat alph \<and> unat alph \<le> 704)"
proof (cases "alph = 0 \<or> alph > l2MaxAlph")
  case False
  then have alph: "0 < unat alph" "unat alph \<le> 704" by (auto simp: l2MaxAlph_def word_le_nat_alt not_less unat_gt_0)
  let ?len = "replicate (unat alph) 0 @ drop (unat alph) len"
  let ?P = "\<lambda>(l, b'). reads a b' \<and> length l = length len \<and> 0 < unat alph \<and> unat alph \<le> 704"
  have l: "length ?len = length len" using len by simp
  have simple: "ends (readSimple b1 alph ?len) ?P" if "reads a b1" for b1
    by (rule ends_mono [OF readSimple_ends [OF reads_ok [OF that]]]) (use len l alph that reads_trans in auto)
  have complex: "ends (readComplex b1 kind alph ?len) ?P" if "reads a b1" "unat kind < 2 ^ 2" for b1 and kind :: u32
    by (rule ends_mono [OF readComplex_ends [OF that(1) alph(2) _ _ that(2)]]) (use len l alph in auto)
  have "ends (bindD (brRead b 2) (\<lambda>(kind, b). if kind = 1 then readSimple b alph ?len else readComplex b kind alph ?len)) ?P"
    using simple complex by (intro ends_readT [OF b]) simp
  then show ?thesis using False len(1) by (simp add: readHuffmanLengths_def Let_def)
qed (auto simp: readHuffmanLengths_def)

lemma readHuff_ends:
  assumes "reads a b"
  shows "ends (readHuff b alph) (\<lambda>(h, b'). reads a b' \<and> huff_ok (unat alph) h)"
proof (cases "unat alph \<le> 704")
  case True
  have "ends (bindD (huffBuild len alph) (\<lambda>h. Ret (h, b1))) (\<lambda>(h, b'). reads a b' \<and> huff_ok (unat alph) h)"
    if "reads a b1" "length len = 704" for b1 len
    by (rule ends_bindI [OF huffBuild_ends]) (use that True in auto)
  then show ?thesis unfolding readHuff_def
    by (intro ends_bindI [OF readHuffmanLengths_ends [OF assms]]) (use True in auto)
next
  case False
  then have "readHuffmanLengths b alph (replicate 704 0) = Fail ErrBrotliFormat"
    by (simp add: readHuffmanLengths_def l2MaxAlph_def word_less_nat_alt)
  then show ?thesis by (simp add: readHuff_def)
qed

section \<open>Small codes and context maps\<close>

lemma varlen_value:
  assumes "unat (n :: u32) < 2 ^ 3" "unat (v :: u32) < 2 ^ unat n"
  shows "unat (v + push_bit (unat n) 1) \<le> 255"
proof -
  have p: "(2 :: nat) ^ unat n \<le> 2 ^ 7" using assms(1) by (intro power_increasing) simp_all
  have "unat (of_nat (2 ^ unat n) :: u32) = 2 ^ unat n" by (subst unat_of_nat) (use p in simp)
  then have "unat (push_bit (unat n) 1 :: u32) = 2 ^ unat n" by simp
  then show ?thesis using assms(2) p unat_word_ariths(1) [of v "push_bit (unat n) 1"] by simp
qed

lemma decodeVarlenU8_ends: "reads a b \<Longrightarrow> ends (decodeVarlenU8 b) (\<lambda>(v, b'). reads a b' \<and> unat v \<le> 255)"
  unfolding decodeVarlenU8_def by (intro ends_readT) (auto intro!: ends_readT varlen_value [simplified])

lemma decodeWindowBits_ends: "reads a b \<Longrightarrow> ends (decodeWindowBits b) (\<lambda>(v, b'). reads a b')"
  unfolding decodeWindowBits_def by (intro ends_readT) (auto intro!: ends_readT)

lemma readBlockCount_ends:
  assumes "huff_ok n h" "reads a b"
  shows "ends (readBlockCount b h) (\<lambda>(c, b'). reads a b')"
  unfolding readBlockCount_def
proof (rule ends_symbolT [OF assms])
  fix code :: u32 and b1 assume r: "reads a b1"
  have l: "length kBlkNbits = 26" "length kBlkBase = 26" by (simp_all add: kBlkNbits_def kBlkBase_def)
  show "ends (case (code, b1) of (code, b) \<Rightarrow> if code > 25 then Fail ErrBrotliFormat
       else bindD (at kBlkNbits (unat code)) (\<lambda>nb. bindD (brRead b nb) (\<lambda>(extra, b).
         bindD (at kBlkBase (unat code)) (\<lambda>base. Ret (base + extra, b))))) (\<lambda>(c, b'). reads a b')"
  proof (cases "code > 25")
    case False
    then have "unat code < 26" by (simp add: word_less_nat_alt not_less)
    then show ?thesis using False r l by (auto intro!: ends_readT)
  qed simp
qed

lemma imtf_loop_ends: "length mtf = 256 \<Longrightarrow> i + k \<le> length v \<Longrightarrow> ends (imtf_loop mtf v i k) (\<lambda>x. length x = length v)"
proof (induction k arbitrary: mtf v i)
  case (Suc k)
  have len: "length (xs ! x # take x xs @ drop (x + 1) xs) = length xs" if "x < length xs" for xs :: bytes and x using that by simp
  have x: "unat (v ! i) < length mtf" using unsigned_less [of "v ! i", where ?'a = nat] Suc.prems(1) by simp
  have "ends (imtf_loop (mtf ! unat (v ! i) # take (unat (v ! i)) mtf @ drop (unat (v ! i) + 1) mtf) (v[i := mtf ! unat (v ! i)]) (i + 1) k)
      (\<lambda>y. length y = length (v[i := mtf ! unat (v ! i)]))"
    by (rule Suc.IH) (use len [OF x] Suc.prems in simp_all)
  then show ?case using Suc.prems x by simp
qed simp

lemma imtf_ends: "unat n \<le> length v \<Longrightarrow> ends (imtf v n) (\<lambda>x. length x = length v)"
  unfolding imtf_def by (rule imtf_loop_ends) simp_all

lemma cmapLoop_ends:
  "\<lbrakk>br_ok b; huff_ok n h; unat mapSize \<le> length cmap; length cmap \<le> 16384; idx \<le> mapSize\<rbrakk> \<Longrightarrow>
    ends (cmapLoop b h mapSize rlemax idx cmap) (\<lambda>(c, b'). reads b b' \<and> length c = length cmap)"
proof (induction b h mapSize rlemax idx cmap rule: cmapLoop.induct)
  case (1 b h mapSize rlemax idx cmap)
  let ?post = "\<lambda>(c, b'). reads b b' \<and> length c = length cmap"
  have weaken: "ends m ?post" if "ends m (\<lambda>(c, b'). reads b1 b' \<and> length c = length cmap)" "reads b b1" for m :: "(bytes \<times> brT) dec" and b1
    using that(1) by (rule ends_mono) (use that(2) reads_trans in auto)
  show ?case
  proof (cases "idx < mapSize")
    case go: True
    then have idx: "unat idx < unat mapSize" "unat mapSize \<le> 16384" using "1.prems"(3,4) by (simp_all add: word_less_nat_alt)
    then have "unat (idx + 1) = unat idx + 1" by (simp add: unat_word_ariths)
    then have le1: "idx + 1 \<le> mapSize" using idx by (simp add: word_le_nat_alt)
    have putAt: "putAt cmap (unat idx) v = Ret (cmap[unat idx := v])" for v using idx "1.prems"(3) by simp
    consider (sym) code b1 where "huffDecode b h = Ret (code, b1)" "reads b b1" | (err) e where "huffDecode b h = Fail e"
      using ends_cases [OF huffDecode_ends [OF "1.prems"(2,1)]] by auto
    then show ?thesis
    proof cases
      case err
      then show ?thesis using go by (subst cmapLoop.simps) simp
    next
      case sym
      have ok1: "br_ok b1" using sym(2) by (rule reads_ok)
      consider (zero) "code = 0" | (lit) "code \<noteq> 0" "rlemax < code" | (run) "code \<noteq> 0" "\<not> rlemax < code" by blast
      then show ?thesis
      proof cases
        case zero
        have "ends (cmapLoop b1 h mapSize rlemax (idx + 1) (cmap[unat idx := 0])) (\<lambda>(c, b'). reads b1 b' \<and> length c = length (cmap[unat idx := 0]))"
          using "1.prems" ok1 le1 by (intro "1.IH"(1) [OF go sym(1) refl zero putAt]) simp_all
        then show ?thesis using go sym zero putAt weaken [OF _ sym(2)] by (subst cmapLoop.simps) simp
      next
        case lit
        have "ends (cmapLoop b1 h mapSize rlemax (idx + 1) (cmap[unat idx := ucast (code - rlemax)]))
            (\<lambda>(c, b'). reads b1 b' \<and> length c = length (cmap[unat idx := ucast (code - rlemax)]))"
          using "1.prems" ok1 le1 by (intro "1.IH"(2) [OF go sym(1) refl lit putAt]) simp_all
        then show ?thesis using go sym lit putAt weaken [OF _ sym(2)] by (subst cmapLoop.simps) simp
      next
        case run
        consider (ex) extra b2 where "brRead b1 (unat code) = Ret (extra, b2)" "reads b b2" "unat extra < 2 ^ unat code" "unat code \<le> 24"
          | (err) e where "brRead b1 (unat code) = Fail e"
          using ends_cases [OF brRead_endsT [OF sym(2), of "unat code"]] brRead_remaining(2) [of b1 "unat code"] by fastforce
        then show ?thesis
        proof cases
          case err
          then show ?thesis using go sym run by (subst cmapLoop.simps) simp
        next
          case ex
          let ?reps = "push_bit (unat code) 1 + extra :: u32"
          have p24: "(2 :: nat) ^ unat code \<le> 2 ^ 24" using ex(4) by (intro power_increasing) simp_all
          have reps: "unat ?reps \<le> 2 ^ 25"
          proof -
            have "unat (of_nat (2 ^ unat code) :: u32) = 2 ^ unat code" by (subst unat_of_nat) (use p24 in simp)
            then have "unat (push_bit (unat code) 1 :: u32) = 2 ^ unat code" by simp
            then show ?thesis using ex(3) p24 unat_word_ariths(1) [of "push_bit (unat code) 1" extra] by simp
          qed
          show ?thesis
          proof (cases "mapSize < idx + ?reps")
            case True
            then show ?thesis using go sym run ex by (subst cmapLoop.simps) (simp add: Let_def)
          next
            case False
            have "unat (idx + ?reps) = unat idx + unat ?reps" using reps idx unat_word_ariths(1) [of idx ?reps] by simp
            then have le: "idx + ?reps \<le> mapSize" "unat idx + unat ?reps \<le> unat mapSize" using False by (simp_all add: not_less word_le_nat_alt)
            consider (fill) c where "fillRun cmap idx 0 (unat ?reps) = Ret c" "length c = length cmap" | (err) e where "fillRun cmap idx 0 (unat ?reps) = Fail e"
              using ends_cases [OF fillRun_ends [of idx "unat ?reps" cmap]] le(2) "1.prems"(3,4) by fastforce
            then show ?thesis
            proof cases
              case err
              then show ?thesis using go sym run ex False by (subst cmapLoop.simps) (simp add: Let_def)
            next
              case fill
              have "ends (cmapLoop b2 h mapSize rlemax (idx + ?reps) c) (\<lambda>(x, b'). reads b2 b' \<and> length x = length c)"
                by (rule "1.IH"(3) [OF go sym(1) refl run ex(1) refl refl False fill(1)]) (use "1.prems" ex(2) le fill(2) reads_ok in auto)
              then have "ends (cmapLoop b2 h mapSize rlemax (idx + ?reps) c) ?post" unfolding fill(2) by (rule weaken [OF _ ex(2)])
              then show ?thesis using go sym run ex False fill(1) by (subst cmapLoop.simps) (simp add: Let_def)
            qed
          qed
        qed
      qed
    qed
  next
    case False
    then have "cmapLoop b h mapSize rlemax idx cmap = Ret (cmap, b)" by (subst cmapLoop.simps) simp
    then show ?thesis using "1.prems" by simp
  qed
qed

lemma readContextMap_ends:
  assumes b: "reads a b" and m: "unat mapSize \<le> length cmap" "length cmap \<le> 16384"
  shows "ends (readContextMap b ntrees mapSize cmap) (\<lambda>(c, b'). reads a b' \<and> length c = length cmap)"
proof -
  let ?P = "\<lambda>(c, b'). reads a b' \<and> length c = length cmap"
  have tail: "ends (bindD (brRead b1 1) (\<lambda>(bt, b). if bt \<noteq> 0 then bindD (imtf c mapSize) (\<lambda>cmap. Ret (cmap, b)) else Ret (c, b))) ?P"
    if "reads a b1" "length c = length cmap" for b1 c
  proof (rule ends_readT [OF that(1)])
    fix v :: u32 and b' assume "reads a b'"
    then have "ends (bindD (imtf c mapSize) (\<lambda>cmap. Ret (cmap, b'))) ?P"
      using that m by (intro ends_bindI [OF imtf_ends]) simp_all
    then show "ends (case (v, b') of (bt, b) \<Rightarrow> if bt \<noteq> 0 then bindD (imtf c mapSize) (\<lambda>cmap. Ret (cmap, b)) else Ret (c, b)) ?P"
      using \<open>reads a b'\<close> that(2) by simp
  qed
  have loop: "ends (bindD (cmapLoop b1 h mapSize rlemax 0 cmap) (\<lambda>(cmap, b).
      bindD (brRead b 1) (\<lambda>(bt, b). if bt \<noteq> 0 then bindD (imtf cmap mapSize) (\<lambda>cmap. Ret (cmap, b)) else Ret (cmap, b)))) ?P"
    if "reads a b1" "huff_ok n h" for b1 h n rlemax
    by (rule ends_bindI [OF cmapLoop_ends [OF reads_ok [OF that(1)] that(2)]]) (use m tail reads_trans [OF that(1)] in auto)
  have max: "ends (if c then bindD (brRead b1 4) (\<lambda>(r, b). Ret (r + 1, b)) else Ret (0, b1)) (\<lambda>(r, b'). reads a b')" if "reads a b1" for b1 c
    using that by (auto intro!: ends_readT)
  show ?thesis unfolding readContextMap_def
    by (rule ends_readT [OF b], unfold prod.case, rule ends_bindI [OF max], assumption, clarify, rule ends_bindI [OF readHuff_ends], assumption, clarify,
        rule loop)
qed

lemma decodeContextMap_ends:
  assumes b: "reads a b" and m: "unat mapSize \<le> length cmap" "length cmap \<le> 16384"
  shows "ends (decodeContextMap b mapSize cmap) (\<lambda>(n, c, b'). reads a b' \<and> length c = length cmap \<and> n \<le> 256)"
  unfolding decodeContextMap_def
proof (rule ends_bindI [OF decodeVarlenU8_ends [OF b]], clarify, unfold Let_def)
  fix n :: u32 and b1 assume b1: "reads a b1"
  let ?c = "replicate (unat mapSize) 0 @ drop (unat mapSize) cmap"
  have l: "length ?c = length cmap" using m by simp
  have "ends (bindD (readContextMap b1 (n + 1) mapSize ?c) (\<lambda>(cmap, b). Ret (n + 1, cmap, b)))
      (\<lambda>(n, c, b'). reads a b' \<and> length c = length cmap \<and> n \<le> 256)" if "\<not> n + 1 > 256"
    by (rule ends_bindI [OF readContextMap_ends [OF b1]]) (use m l that in auto)
  then show "ends (if n + 1 > 256 then Fail ErrBrotliFormat
      else if length cmap < unat mapSize then Crash
      else if n + 1 \<le> 1 then Ret (n + 1, ?c, b1)
      else bindD (readContextMap b1 (n + 1) mapSize ?c) (\<lambda>(cmap, b). Ret (n + 1, cmap, b)))
    (\<lambda>(n, c, b'). reads a b' \<and> length c = length cmap \<and> n \<le> 256)"
    using m b1 l by auto
qed

section \<open>The invariants of the decoder\<close>

definition globals_ok :: "brotliGlobals \<Rightarrow> bool" where
  "globals_ok g \<longleftrightarrow> length (gLitCl g) = 256 \<and> (\<forall>l \<in> set (gLitCl g). length l = 256) \<and>
     length (gCmdCl g) = 256 \<and> (\<forall>l \<in> set (gCmdCl g). length l = 704) \<and>
     length (gDistCl g) = 256 \<and> (\<forall>l \<in> set (gDistCl g). length l = 520) \<and>
     length (gLitMap g) = 16384 \<and> length (gDistMap g) = 1024 \<and> length (gCtxMode g) = 256"

definition base_ok :: "decT \<Rightarrow> bool" where
  "base_ok d \<longleftrightarrow> br_ok (d_br d) \<and> d_cap d = length (d_out d) \<and> d_pos d \<le> d_cap d \<and> length (d_distRb d) = 4 \<and>
     length (d_nbl d) = 3 \<and> length (d_btype d) = 3 \<and> length (d_btypePrev d) = 3 \<and> length (d_blen d) = 3 \<and>
     length (d_hBt d) = 3 \<and> length (d_hBl d) = 3 \<and>
     huff_ok (2 ^ 16) (d_hLit d) \<and> huff_ok (2 ^ 16) (d_hCmd d) \<and> huff_ok (2 ^ 16) (d_hDist d) \<and> globals_ok (d_g d)"

definition cat_ok :: "decT \<Rightarrow> nat \<Rightarrow> bool" where
  "cat_ok d c \<longleftrightarrow> d_btype d ! c < d_nbl d ! c \<and> d_nbl d ! c \<le> 256 \<and>
     (d_nbl d ! c > 1 \<longrightarrow> d_btypePrev d ! c < d_nbl d ! c \<and> huff_ok (unat (d_nbl d ! c) + 2) (d_hBt d ! c) \<and> huff_ok (2 ^ 16) (d_hBl d ! c))"

definition dec_ok :: "decT \<Rightarrow> bool" where
  "dec_ok d \<longleftrightarrow> base_ok d \<and> cat_ok d 0 \<and> cat_ok d 1 \<and> cat_ok d 2 \<and> d_ntreesL d \<le> 256 \<and> d_ntreesD d \<le> 256 \<and> d_distAlph d \<le> 520"

definition moves :: "decT \<Rightarrow> decT \<Rightarrow> bool" where
  "moves d d' \<longleftrightarrow> dec_ok d' \<and> reads (d_br d) (d_br d') \<and> d_cap d' = d_cap d"

lemma moves_trans: "moves a b \<Longrightarrow> moves b c \<Longrightarrow> moves a c"
  by (auto simp: moves_def intro: reads_trans)

lemma moves_ok: "moves a b \<Longrightarrow> dec_ok b"
  by (simp add: moves_def)

lemma dec_ok_br: "dec_ok d \<Longrightarrow> br_ok (d_br d)"
  by (simp add: dec_ok_def base_ok_def)

lemma moves_refl [simp]: "dec_ok d \<Longrightarrow> moves d d"
  by (simp add: moves_def dec_ok_br)

lemma moves_br: "dec_ok d \<Longrightarrow> reads (d_br d) b \<Longrightarrow> moves d (d\<lparr>d_br := b\<rparr>)"
  by (auto simp: moves_def dec_ok_def base_ok_def cat_ok_def reads_ok)

lemma ends_moves: "moves a b \<Longrightarrow> ends m (moves b) \<Longrightarrow> ends m (moves a)"
  by (erule ends_mono) (rule moves_trans)

text \<open>Output, and the reading of raw bytes, change only the reader, the buffer and the last two bytes.\<close>

definition wrote :: "decT \<Rightarrow> decT \<Rightarrow> bool" where
  "wrote d d' \<longleftrightarrow> (\<exists>out p p1 p2 b. d' = d\<lparr>d_br := b, d_out := out, d_pos := p, d_p1 := p1, d_p2 := p2\<rparr> \<and>
     length out = length (d_out d) \<and> p \<le> d_cap d \<and> d_pos d \<le> p \<and> reads (d_br d) b)"

lemma wrote_base: "base_ok d \<Longrightarrow> wrote d d' \<Longrightarrow> base_ok d'"
  by (auto simp: wrote_def base_ok_def reads_ok)

lemma wrote_moves: "dec_ok d \<Longrightarrow> wrote d d' \<Longrightarrow> moves d d'"
  using wrote_base [of d d'] by (auto simp: wrote_def moves_def dec_ok_def cat_ok_def)

lemma wrote_trans: "wrote a b \<Longrightarrow> wrote b c \<Longrightarrow> wrote a c"
proof -
  assume "wrote a b" "wrote b c"
  then obtain out p p1 p2 r out' p' p1' p2' r' where
    b: "b = a\<lparr>d_br := r, d_out := out, d_pos := p, d_p1 := p1, d_p2 := p2\<rparr>" "length out = length (d_out a)" "p \<le> d_cap a" "d_pos a \<le> p" "reads (d_br a) r" and
    c: "c = b\<lparr>d_br := r', d_out := out', d_pos := p', d_p1 := p1', d_p2 := p2'\<rparr>" "length out' = length (d_out b)" "p' \<le> d_cap b" "d_pos b \<le> p'" "reads (d_br b) r'"
    unfolding wrote_def by blast
  have "c = a\<lparr>d_br := r', d_out := out', d_pos := p', d_p1 := p1', d_p2 := p2'\<rparr>" by (simp add: b(1) c(1))
  moreover have "length out' = length (d_out a)" "p' \<le> d_cap a" "d_pos a \<le> p'" "reads (d_br a) r'"
    using b c reads_trans [of "d_br a" r r'] by simp_all
  ultimately show ?thesis unfolding wrote_def by blast
qed

lemma wrote_br: "base_ok d \<Longrightarrow> reads (d_br d) b \<Longrightarrow> wrote d (d\<lparr>d_br := b\<rparr>)"
  unfolding wrote_def by (intro exI [of _ "d_out d"] exI [of _ "d_pos d"] exI [of _ "d_p1 d"] exI [of _ "d_p2 d"] exI [of _ b]) (simp add: base_ok_def)

lemma wrote_refl: "base_ok d \<Longrightarrow> wrote d d"
  using wrote_br [of d "d_br d"] by (simp add: base_ok_def)

lemma emitByte_ends:
  assumes "base_ok d"
  shows "ends (emitByte d v) (\<lambda>d'. wrote d d' \<and> d_pos d' = d_pos d + 1 \<and> d_br d' = d_br d)"
proof (cases "d_pos d \<ge> d_cap d")
  case False
  then have "d_pos d < length (d_out d)" using assms by (simp add: base_ok_def)
  moreover have "wrote d (d\<lparr>d_out := (d_out d)[d_pos d := v], d_pos := d_pos d + 1, d_p2 := d_p1 d, d_p1 := v\<rparr>)"
    unfolding wrote_def
    by (intro exI [of _ "(d_out d)[d_pos d := v]"] exI [of _ "d_pos d + 1"] exI [of _ v] exI [of _ "d_p1 d"] exI [of _ "d_br d"])
      (use False assms in \<open>simp add: base_ok_def\<close>)
  ultimately show ?thesis using False by (simp add: emitByte_def)
qed (simp add: emitByte_def)

lemma emitCopy_loop_ends: "base_ok d \<Longrightarrow> 1 \<le> dist \<Longrightarrow> dist \<le> d_pos d \<Longrightarrow> ends (emitCopy_loop d dist k) (wrote d)"
proof (induction k arbitrary: d)
  case (Suc k)
  have i: "d_pos d - dist < length (d_out d)" using Suc.prems by (auto simp: base_ok_def)
  have "ends (bindD (emitByte d (d_out d ! (d_pos d - dist))) (\<lambda>d. emitCopy_loop d dist k)) (wrote d)"
  proof (rule ends_bindI [OF emitByte_ends [OF Suc.prems(1)]])
    fix d1 assume d1: "wrote d d1 \<and> d_pos d1 = d_pos d + 1 \<and> d_br d1 = d_br d"
    show "ends (emitCopy_loop d1 dist k) (wrote d)"
      by (rule ends_mono [OF Suc.IH]) (use d1 Suc.prems wrote_base wrote_trans in auto)
  qed
  then show ?case using i by simp
qed (simp add: wrote_refl)

lemma emitCopy_ends: "base_ok d \<Longrightarrow> ends (emitCopy d dist len) (wrote d)"
proof -
  assume b: "base_ok d"
  have "1 \<le> unat dist" if "dist \<noteq> 0" using that by (simp add: Suc_le_eq unat_gt_0)
  then show ?thesis using b emitCopy_loop_ends [OF b, of "unat dist"] by (auto simp: emitCopy_def wrote_refl not_less)
qed

lemma copyAcc_ends: "base_ok d \<Longrightarrow> ends (copyAcc d k) (\<lambda>(d', k'). wrote d d')"
proof (induction k arbitrary: d)
  case (Suc k)
  show ?case
  proof (cases "br_bits (d_br d) \<ge> 8")
    case True
    have "ends (bindD (emitByte d (ucast (br_acc (d_br d) AND 0xff))) (\<lambda>d. copyAcc (d\<lparr>d_br := brDrop (d_br d) 8\<rparr>) k)) (\<lambda>(d', k'). wrote d d')"
    proof (rule ends_bindI [OF emitByte_ends [OF Suc.prems]])
      fix d1 assume d1: "wrote d d1 \<and> d_pos d1 = d_pos d + 1 \<and> d_br d1 = d_br d"
      have b1: "base_ok d1" using d1 wrote_base Suc.prems by blast
      then have "reads (d_br d1) (brDrop (d_br d1) 8)" using True d1 by (intro brDrop_reads) (simp_all add: base_ok_def)
      then have w: "wrote d1 (d1\<lparr>d_br := brDrop (d_br d1) 8\<rparr>)" by (rule wrote_br [OF b1])
      show "ends (copyAcc (d1\<lparr>d_br := brDrop (d_br d1) 8\<rparr>) k) (\<lambda>(d', k'). wrote d d')"
        by (rule ends_mono [OF Suc.IH [OF wrote_base [OF b1 w]]]) (use wrote_trans w d1 in blast)
    qed
    then show ?thesis using True by simp
  next
    case False
    then show ?thesis using Suc.prems by (simp add: wrote_refl)
  qed
qed (simp add: wrote_refl)

lemma brSkip_reads: "br_ok b \<Longrightarrow> br_p b + k \<le> length (br_in b) \<Longrightarrow> reads b (b\<lparr>br_p := br_p b + k\<rparr>)"
  by (simp add: reads_def br_ok_def remaining_def length_bitsLeft)

lemma copyIn_ends: "base_ok d \<Longrightarrow> br_p (d_br d) + k \<le> length (br_in (d_br d)) \<Longrightarrow> ends (copyIn d k) (wrote d)"
proof (induction k arbitrary: d)
  case (Suc k)
  have "ends (bindD (emitByte d v) (\<lambda>d. copyIn (d\<lparr>d_br := (d_br d)\<lparr>br_p := br_p (d_br d) + 1\<rparr>\<rparr>) k)) (wrote d)" for v
  proof (rule ends_bindI [OF emitByte_ends [OF Suc.prems(1)]])
    fix d1 assume d1: "wrote d d1 \<and> d_pos d1 = d_pos d + 1 \<and> d_br d1 = d_br d"
    have b1: "base_ok d1" using d1 wrote_base Suc.prems by blast
    let ?b = "(d_br d1)\<lparr>br_p := br_p (d_br d1) + 1\<rparr>"
    have "reads (d_br d1) ?b" using Suc.prems d1 b1 by (intro brSkip_reads) (auto simp: base_ok_def)
    then have w: "wrote d1 (d1\<lparr>d_br := ?b\<rparr>)" by (rule wrote_br [OF b1])
    have "ends (copyIn (d1\<lparr>d_br := ?b\<rparr>) k) (wrote (d1\<lparr>d_br := ?b\<rparr>))"
      by (rule Suc.IH [OF wrote_base [OF b1 w]]) (use Suc.prems d1 in simp)
    then show "ends (copyIn (d1\<lparr>d_br := ?b\<rparr>) k) (wrote d)"
      by (rule ends_mono) (use wrote_trans w d1 in blast)
  qed
  then show ?case using Suc.prems by simp
qed (simp add: wrote_refl)

lemma brAlign_reads: "br_ok b \<Longrightarrow> reads b (brAlign b)"
  by (auto simp: brAlign_def Let_def intro!: brDrop_reads)

lemma copyRaw_ends: "base_ok d \<Longrightarrow> ends (copyRaw d mlen) (wrote d)"
proof -
  assume b: "base_ok d"
  let ?d = "d\<lparr>d_br := brAlign (d_br d)\<rparr>"
  have w: "wrote d ?d" using b by (intro wrote_br brAlign_reads) (simp_all add: base_ok_def)
  show ?thesis unfolding copyRaw_def
  proof (rule ends_bindI [OF copyAcc_ends [OF wrote_base [OF b w]]], clarify, unfold Let_def)
    fix d1 m assume "wrote ?d d1"
    then have w1: "wrote d d1" using w wrote_trans by blast
    have "ends (copyIn d1 m) (wrote d)" if "\<not> int m > int (length (br_in (d_br d1))) - int (br_p (d_br d1))"
      by (rule ends_mono [OF copyIn_ends [OF wrote_base [OF b w1]]]) (use that wrote_trans [OF w1] in auto)
    then show "ends (if int m > int (length (br_in (d_br d1))) - int (br_p (d_br d1)) then Fail ErrBrotliTrunc
        else if d_pos d1 > d_cap d1 \<or> int m > int (d_cap d1) - int (d_pos d1) then Fail ErrBrotliCapacity else copyIn d1 m) (wrote d)"
      by simp
  qed
qed

lemma skipAcc_reads: "br_ok b \<Longrightarrow> reads b (fst (skipAcc b k))"
proof (induction b k rule: skipAcc.induct)
  case (2 b k)
  then show ?case using brDrop_reads [of b 8] by (auto intro: reads_trans simp: reads_ok)
qed simp

lemma skipMeta_ends: "base_ok d \<Longrightarrow> ends (skipMeta d mlen) (wrote d)"
proof -
  assume b: "base_ok d"
  obtain b1 m where s: "skipAcc (brAlign (d_br d)) (unat mlen) = (b1, m)" by fastforce
  have "reads (d_br d) (brAlign (d_br d))" using b by (simp add: base_ok_def brAlign_reads)
  then have r: "reads (d_br d) b1" using skipAcc_reads [of "brAlign (d_br d)" "unat mlen"] s by (auto intro: reads_trans simp: reads_ok)
  have "reads (d_br d) (b1\<lparr>br_p := br_p b1 + m\<rparr>)" if "\<not> int m > int (length (br_in b1)) - int (br_p b1)"
    using brSkip_reads [OF reads_ok [OF r], of m] that r by (auto intro: reads_trans)
  then show ?thesis using b by (auto simp: skipMeta_def s intro!: wrote_br)
qed

section \<open>Commands\<close>

lemma dec_okD: "dec_ok d \<Longrightarrow> c < 3 \<Longrightarrow> cat_ok d c"
  by (auto simp: dec_ok_def less_Suc_eq numeral_3_eq_3 numeral_2_eq_2)

lemma dec_base: "dec_ok d \<Longrightarrow> base_ok d"
  by (simp add: dec_ok_def)

lemma loadLit_ends: "dec_ok d \<Longrightarrow> ends (loadLit d tree) (moves d)"
proof -
  assume d: "dec_ok d"
  show ?thesis
  proof (cases "d_litID d = int (unat tree) \<or> tree \<ge> d_ntreesL d")
    case False
    then have "tree < d_ntreesL d" by (auto simp: not_le)
    then have t: "unat tree < 256" using d by (simp add: dec_ok_def word_less_nat_alt word_le_nat_alt)
    then have l: "unat tree < length (gLitCl (d_g d))" "length (gLitCl (d_g d) ! unat tree) = 256"
      using d by (simp_all add: dec_ok_def base_ok_def globals_ok_def)
    have "ends (bindD (huffBuild (gLitCl (d_g d) ! unat tree) 256) (\<lambda>h. Ret (d\<lparr>d_hLit := h, d_litID := int (unat tree)\<rparr>))) (moves d)"
    proof (rule ends_bindI [OF huffBuild_ends])
      fix h assume "huff_ok (unat (256 :: u32)) h"
      then have "huff_ok (2 ^ 16) h" by (rule huff_ok_mono) simp
      then show "ends (Ret (d\<lparr>d_hLit := h, d_litID := int (unat tree)\<rparr>)) (moves d)"
        using d dec_ok_br [OF d] by (simp add: moves_def dec_ok_def base_ok_def cat_ok_def)
    qed (simp add: l)
    then show ?thesis using False l by (simp add: loadLit_def)
  qed (use d in \<open>auto simp: loadLit_def\<close>)
qed

lemma loadCmd_ends: "dec_ok d \<Longrightarrow> ends (loadCmd d tree) (moves d)"
proof -
  assume d: "dec_ok d"
  show ?thesis
  proof (cases "d_cmdID d = int (unat tree) \<or> tree \<ge> d_nbl d ! 1")
    case False
    then have "tree < d_nbl d ! 1" by (auto simp: not_le)
    then have t: "unat tree < 256" using dec_okD [OF d, of 1] by (simp add: cat_ok_def word_less_nat_alt word_le_nat_alt)
    then have l: "unat tree < length (gCmdCl (d_g d))" "length (gCmdCl (d_g d) ! unat tree) = 704"
      using d by (simp_all add: dec_ok_def base_ok_def globals_ok_def)
    have "ends (bindD (huffBuild (gCmdCl (d_g d) ! unat tree) 704) (\<lambda>h. Ret (d\<lparr>d_hCmd := h, d_cmdID := int (unat tree)\<rparr>))) (moves d)"
    proof (rule ends_bindI [OF huffBuild_ends])
      fix h assume "huff_ok (unat (704 :: u32)) h"
      then have "huff_ok (2 ^ 16) h" by (rule huff_ok_mono) simp
      then show "ends (Ret (d\<lparr>d_hCmd := h, d_cmdID := int (unat tree)\<rparr>)) (moves d)"
        using d dec_ok_br [OF d] by (simp add: moves_def dec_ok_def base_ok_def cat_ok_def)
    qed (simp add: l)
    then show ?thesis using False l by (simp add: loadCmd_def)
  qed (use d in \<open>auto simp: loadCmd_def\<close>)
qed

lemma loadDist_ends: "dec_ok d \<Longrightarrow> ends (loadDist d tree) (moves d)"
proof -
  assume d: "dec_ok d"
  show ?thesis
  proof (cases "d_distID d = int (unat tree) \<or> tree \<ge> d_ntreesD d")
    case False
    then have "tree < d_ntreesD d" by (auto simp: not_le)
    then have t: "unat tree < 256" using d by (simp add: dec_ok_def word_less_nat_alt word_le_nat_alt)
    have alph: "unat (d_distAlph d) \<le> 520" using d by (simp add: dec_ok_def word_le_nat_alt)
    have l: "unat tree < length (gDistCl (d_g d))" "length (gDistCl (d_g d) ! unat tree) = 520"
      using d t by (simp_all add: dec_ok_def base_ok_def globals_ok_def)
    have "ends (bindD (huffBuild (gDistCl (d_g d) ! unat tree) (d_distAlph d)) (\<lambda>h. Ret (d\<lparr>d_hDist := h, d_distID := int (unat tree)\<rparr>))) (moves d)"
    proof (rule ends_bindI [OF huffBuild_ends])
      fix h assume "huff_ok (unat (d_distAlph d)) h"
      then have "huff_ok (2 ^ 16) h" by (rule huff_ok_mono) (use alph in simp)
      then show "ends (Ret (d\<lparr>d_hDist := h, d_distID := int (unat tree)\<rparr>)) (moves d)"
        using d dec_ok_br [OF d] by (simp add: moves_def dec_ok_def base_ok_def cat_ok_def)
    qed (use alph l in simp)
    then show ?thesis using False l by (simp add: loadDist_def)
  qed (use d in \<open>auto simp: loadDist_def\<close>)
qed

text \<open>A new block type stays below the number of types.\<close>

lemma next_type:
  assumes n: "1 < (n :: u32)" "n \<le> 256" and old: "old < n" and prev: "prev < n" and code: "unat code < unat n + 2"
    and bt: "bt = (if code = 1 then old + 1 else if code = 0 then prev else code - 2)"
  shows "(if bt \<ge> n then bt - n else bt) < n"
proof -
  consider "code = 1" | "code = 0" | "code \<noteq> 0" "code \<noteq> 1" by blast
  then show ?thesis
  proof cases
    case 1
    have "unat (old + 1) = unat old + 1" using old n(2) by (simp add: unat_word_ariths word_less_nat_alt word_le_nat_alt)
    then have "bt \<le> n" using old 1 by (simp add: bt word_le_nat_alt word_less_nat_alt)
    then consider "bt = n" | "bt < n" by (auto simp: order_le_less)
    then show ?thesis using n(1) by cases (simp_all add: word_less_nat_alt word_le_nat_alt)
  next
    case 2
    then have "bt < n" using prev by (simp add: bt)
    then show ?thesis by (auto simp: leD)
  next
    case 3
    then have "unat code \<noteq> 0" by (simp add: unat_eq_zero)
    moreover have "unat code \<noteq> unat (1 :: u32)" using 3(2) by (metis unsigned_word_eqI)
    ultimately have "2 \<le> unat code" by simp
    then have "unat (code - 2) = unat code - 2" by (subst unat_sub) (simp_all add: word_le_nat_alt)
    then have "bt < n" using 3 code \<open>2 \<le> unat code\<close> by (simp add: bt word_less_nat_alt)
    then show ?thesis by (auto simp: leD)
  qed
qed

lemma cat_cases: "c < 3 \<Longrightarrow> c = 0 \<or> c = 1 \<or> c = (2 :: nat)"
  by auto

lemma dec_ok_cats: "dec_ok d \<longleftrightarrow> base_ok d \<and> (\<forall>c < 3. cat_ok d c) \<and> d_ntreesL d \<le> 256 \<and> d_ntreesD d \<le> 256 \<and> d_distAlph d \<le> 520"
  using cat_cases by (auto simp: dec_ok_def)

lemma switchBlock_ends:
  assumes d: "dec_ok d" and c: "cat < 3" and n: "d_nbl d ! cat > 1"
  shows "ends (switchBlock d cat) (moves d)"
proof -
  have ck: "cat_ok d cat" using d c by (rule dec_okD)
  then have h: "huff_ok (unat (d_nbl d ! cat) + 2) (d_hBt d ! cat)" "huff_ok (2 ^ 16) (d_hBl d ! cat)" using n by (simp_all add: cat_ok_def)
  show ?thesis unfolding switchBlock_def
  proof (rule ends_symbol [OF h(1) dec_ok_br [OF d]], unfold prod.case, rule ends_bindI [OF readBlockCount_ends [OF h(2)]], assumption, clarify, unfold Let_def)
    fix code :: u32 and b cnt b' assume code: "unat code < unat (d_nbl d ! cat) + 2" and b': "reads (d_br d) b'"
    let ?bt = "if code = 1 then d_btype d ! cat + 1 else if code = 0 then d_btypePrev d ! cat else code - 2"
    let ?t = "if ?bt \<ge> d_nbl d ! cat then ?bt - d_nbl d ! cat else ?bt"
    let ?d = "d\<lparr>d_br := b', d_blen := (d_blen d)[cat := cnt], d_btypePrev := (d_btypePrev d)[cat := d_btype d ! cat], d_btype := (d_btype d)[cat := ?t]\<rparr>"
    have t: "?t < d_nbl d ! cat" by (rule next_type [OF n _ _ _ code refl]) (use ck n in \<open>simp_all add: cat_ok_def\<close>)
    have base: "base_ok d" using d by (rule dec_base)
    have "cat_ok ?d c'" if "c' < 3" for c'
      using dec_okD [OF d that] t ck n base that by (cases "c' = cat") (simp_all add: cat_ok_def base_ok_def)
    moreover have "base_ok ?d" using base reads_ok [OF b'] by (simp add: base_ok_def)
    ultimately have "dec_ok ?d" using d by (simp add: dec_ok_cats)
    then show "ends (Ret ?d) (moves d)" using b' by (simp add: moves_def)
  qed
qed

lemma prepareCat_ends: "dec_ok d \<Longrightarrow> cat < 3 \<Longrightarrow> ends (prepareCat d cat) (moves d)"
  by (simp add: prepareCat_def switchBlock_ends)

lemma consumeCat_moves: "dec_ok d \<Longrightarrow> moves d (consumeCat d cat)"
  using dec_ok_br [of d] by (auto simp: consumeCat_def moves_def dec_ok_def base_ok_def cat_ok_def)

lemma ctx_entry: "\<forall>x \<in> set gCtx. x < 64"
proof -
  have "\<forall>x \<in> set kUtf8Signed. x < 64" by (simp add: kUtf8Signed_def)
  moreover have "(of_nat i AND 63 :: byte) < 64" for i
    using word_and_le1 [of "of_nat i :: byte" 63] by (simp add: word_less_nat_alt word_le_nat_alt)
  moreover have "(of_nat (i div 4) :: byte) < 64" if "i < 256" for i
    using that by (simp add: word_less_nat_alt unat_of_nat)
  ultimately show ?thesis by (auto simp: gCtx_def)
qed

lemma less_64_iff: "(x :: byte) < 64 \<longleftrightarrow> take_bit 6 x = x"
proof
  assume "x < 64"
  then show "take_bit 6 x = x" by (intro unsigned_word_eqI [where ?'a = nat]) (simp add: unsigned_take_bit_eq take_bit_nat_eq_self word_less_nat_alt)
next
  assume "take_bit 6 x = x"
  then have "unat x = take_bit 6 (unat x)" by (metis unsigned_take_bit_eq)
  also have "\<dots> < 2 ^ 6" by (rule take_bit_nat_less_exp)
  finally show "x < 64" by (simp add: word_less_nat_alt)
qed

lemma or_64: "x < 64 \<Longrightarrow> y < 64 \<Longrightarrow> (x OR y :: byte) < 64"
  by (simp add: less_64_iff)

lemma length_gCtx: "length gCtx = 2048"
  by (simp add: gCtx_def kUtf8Signed_def)

lemma byte_lt: "unat (x :: byte) < 256"
  using unsigned_less [of x, where ?'a = nat] by simp

lemma litContext_ends:
  assumes d: "dec_ok d"
  shows "ends (litContext d) (\<lambda>c. unat c < 64)"
proof -
  have bt: "unat (d_btype d ! 0) < length (gCtxMode (d_g d))"
    using dec_okD [OF d, of 0] d by (simp add: cat_ok_def dec_ok_def base_ok_def globals_ok_def word_less_nat_alt word_le_nat_alt)
  let ?m = "gCtxMode (d_g d) ! unat (d_btype d ! 0)"
  have m: "unat (?m AND 3) \<le> 3" using word_and_le1 [of ?m 3] by (simp add: word_le_nat_alt)
  have p1: "unat (?m AND 3) * 512 + unat (d_p1 d) < length gCtx" using m byte_lt [of "d_p1 d"] unfolding length_gCtx by linarith
  have p2: "unat (?m AND 3) * 512 + 256 + unat (d_p2 d) < length gCtx" using m byte_lt [of "d_p2 d"] unfolding length_gCtx by linarith
  have "gCtx ! i < 64" if "i < length gCtx" for i using ctx_entry that nth_mem by blast
  then have "gCtx ! (unat (?m AND 3) * 512 + unat (d_p1 d)) OR gCtx ! (unat (?m AND 3) * 512 + 256 + unat (d_p2 d)) < 64"
    using p1 p2 by (intro or_64) blast+
  then show ?thesis using bt p1 p2 by (simp add: litContext_def Let_def word_less_nat_alt unsigned_ucast_eq take_bit_nat_eq_self)
qed

lemma litMap_index: "(bt :: u32) < 256 \<Longrightarrow> unat (c :: u32) < 64 \<Longrightarrow> unat (push_bit 6 bt + c) < 16384"
  by (simp add: push_bit_eq_mult unat_word_ariths word_less_nat_alt)

lemma distMap_index: "(bt :: u32) < 256 \<Longrightarrow> unat (c :: u32) < 4 \<Longrightarrow> unat (push_bit 2 bt + c) < 1024"
  by (simp add: push_bit_eq_mult unat_word_ariths word_less_nat_alt)

lemma btype_small: "dec_ok d \<Longrightarrow> c < 3 \<Longrightarrow> d_btype d ! c < 256"
  using dec_okD [of d c] by (auto simp: cat_ok_def)

lemma emitByte_moves: "dec_ok d \<Longrightarrow> ends (emitByte d v) (moves d)"
  by (rule ends_mono [OF emitByte_ends]) (auto simp: dec_base wrote_moves)

lemma emitLit_ends: "dec_ok d \<Longrightarrow> ends (emitLit d tree) (moves d)"
  unfolding emitLit_def
proof (rule ends_bindI [OF loadLit_ends], assumption)
  fix d1 assume d1: "moves d d1"
  have h: "huff_ok (2 ^ 16) (d_hLit d1)" using moves_ok [OF d1] by (simp add: dec_ok_def base_ok_def)
  show "ends (bindD (huffDecode (d_br d1) (d_hLit d1)) (\<lambda>(lit, b).
     if lit > 255 then Fail ErrBrotliFormat
     else bindD (emitByte (d1\<lparr>d_br := b\<rparr>) (ucast lit)) (\<lambda>d. Ret (consumeCat d 0)))) (moves d)"
  proof (rule ends_symbol [OF h dec_ok_br [OF moves_ok [OF d1]]], unfold prod.case)
    fix lit b assume "reads (d_br d1) b"
    then have d2: "moves d (d1\<lparr>d_br := b\<rparr>)" using moves_br [OF moves_ok [OF d1]] d1 moves_trans by blast
    have "ends (bindD (emitByte (d1\<lparr>d_br := b\<rparr>) (ucast lit)) (\<lambda>d. Ret (consumeCat d 0))) (moves d)"
    proof (rule ends_bindI [OF emitByte_moves [OF moves_ok [OF d2]]])
      fix d3 assume "moves (d1\<lparr>d_br := b\<rparr>) d3"
      then have "moves d d3" using d2 moves_trans by blast
      then show "ends (Ret (consumeCat d3 0)) (moves d)" using moves_trans [OF _ consumeCat_moves [OF moves_ok]] by simp
    qed
    then show "ends (if lit > 255 then Fail ErrBrotliFormat
       else bindD (emitByte (d1\<lparr>d_br := b\<rparr>) (ucast lit)) (\<lambda>d. Ret (consumeCat d 0))) (moves d)" by simp
  qed
qed

lemma emitLits_ends: "dec_ok d \<Longrightarrow> ends (emitLits d k) (moves d)"
proof (induction k arbitrary: d)
  case (Suc k)
  show ?case unfolding emitLits.simps
  proof (rule ends_bindI [OF prepareCat_ends [OF Suc.prems]], simp, rule ends_bindI [OF litContext_ends [OF moves_ok]], assumption)
    fix d1 and ctx :: u32 assume d1: "moves d d1" and ctx: "unat ctx < 64"
    have i: "unat (push_bit 6 (d_btype d1 ! 0) + ctx) < length (gLitMap (d_g d1))"
      using litMap_index [OF btype_small [OF moves_ok [OF d1]] ctx, of 0] moves_ok [OF d1] by (simp add: dec_ok_def base_ok_def globals_ok_def)
    have "ends (bindD (emitLit d1 tree) (\<lambda>d. emitLits d k)) (moves d)" for tree
      by (rule ends_bindI [OF emitLit_ends [OF moves_ok [OF d1]]]) (use ends_moves Suc.IH d1 moves_trans moves_ok in blast)
    then show "ends (bindD (at (gLitMap (d_g d1)) (unat (push_bit 6 (d_btype d1 ! 0) + ctx))) (\<lambda>tree.
       bindD (emitLit d1 (ucast tree)) (\<lambda>d. emitLits d k))) (moves d)" using i by simp
  qed
qed simp

lemma readCommand_ends:
  assumes d: "dec_ok d"
  shows "ends (readCommand d) (\<lambda>(_, _, _, d'). moves d d')"
  unfolding readCommand_def
proof (rule ends_symbol [OF _ dec_ok_br [OF d]])
  show "huff_ok (2 ^ 16) (d_hCmd d)" using d by (simp add: dec_ok_def base_ok_def)
next
  fix icode b assume b: "reads (d_br d) b"
  have tabs: "length kInsNbits = 24" "length kInsBase = 24" "length kCpyNbits = 24" "length kCpyBase = 24"
    by (simp_all add: kInsNbits_def kInsBase_def kCpyNbits_def kCpyBase_def)
  let ?d = "consumeCat (d\<lparr>d_br := b\<rparr>) 1"
  have d1: "moves d ?d" using moves_br [OF d b] consumeCat_moves [OF moves_ok] moves_trans by blast
  have u: "unat insC < 24" if "\<not> insC > 23" for insC :: u32 using that by (simp add: word_less_nat_alt not_less)
  have rest: "ends (bindD (at kInsNbits (unat insC)) (\<lambda>nb.
      bindD (brRead (d_br ?d) nb) (\<lambda>(extra, b).
      bindD (at kInsBase (unat insC)) (\<lambda>base.
        let ins = base + extra
        in bindD (at kCpyNbits (unat cpyC)) (\<lambda>nb.
           bindD (brRead b nb) (\<lambda>(extra, b).
           bindD (at kCpyBase (unat cpyC)) (\<lambda>base.
           Ret (ins, base + extra, imp, ?d\<lparr>d_br := b\<rparr>)))))))) (\<lambda>(_, _, _, d'). moves d d')"
    if "\<not> (insC > 23 \<or> cpyC > 23)" for insC cpyC :: u32 and imp :: bool
    using that u tabs moves_trans [OF d1 moves_br [OF moves_ok [OF d1]]] dec_ok_br [OF moves_ok [OF d1]]
    by (auto simp: Let_def intro!: ends_readT [of "d_br ?d"])
  show "ends (case (icode, b) of (icode, b) \<Rightarrow>
       let d = consumeCat (d\<lparr>d_br := b\<rparr>) 1
       in if icode > 703 then Fail ErrBrotliFormat
          else
            (let (insC, cpyC, imp) = iacSplit icode
             in if insC > 23 \<or> cpyC > 23 then Fail ErrBrotliFormat
                else
                  bindD (at kInsNbits (unat insC)) (\<lambda>nb.
                  bindD (brRead (d_br d) nb) (\<lambda>(extra, b).
                  bindD (at kInsBase (unat insC)) (\<lambda>base.
                    let ins = base + extra
                    in bindD (at kCpyNbits (unat cpyC)) (\<lambda>nb.
                       bindD (brRead b nb) (\<lambda>(extra, b).
                       bindD (at kCpyBase (unat cpyC)) (\<lambda>base.
                       Ret (ins, base + extra, imp, d\<lparr>d_br := b\<rparr>))))))))) (\<lambda>(_, _, _, d'). moves d d')"
    using rest by (simp only: prod.case Let_def ends_simps simp_thms split: prod.splits if_splits) blast
qed

lemma resolveDistance_ends: "dec_ok d \<Longrightarrow> ends (resolveDistance d dcode extra) (\<lambda>_. True)"
proof -
  assume d: "dec_ok d"
  have rb: "length (d_distRb d) = 4" using d by (simp add: dec_ok_def base_ok_def)
  have tabs: "length kShortWhich = 16" "length kShortDelta = 16" "\<forall>x \<in> set kShortWhich. x < 4" by (simp_all add: kShortWhich_def kShortDelta_def)
  have "unat dcode < 16 \<and> kShortWhich ! unat dcode < 4" if "dcode < 16"
    using that tabs nth_mem [of "unat dcode" kShortWhich] by (simp add: word_less_nat_alt)
  then show ?thesis using rb tabs by (auto simp: resolveDistance_def Let_def)
qed

lemma readDistExtra_ends: "reads a b \<Longrightarrow> ends (readDistExtra d b dcode) (\<lambda>(v, b'). reads a b')"
proof -
  assume r: "reads a b"
  have "ends (brRead b n) (\<lambda>(v, b'). reads a b')" for n by (rule ends_mono [OF brRead_endsT [OF r]]) auto
  then show ?thesis using r by (simp add: readDistExtra_def Let_def)
qed

lemma distContext_small: "unat (distContext c) < 4"
  by (simp add: distContext_def)

lemma readDistance_ends:
  assumes "dec_ok d"
  shows "ends (readDistance d cpy) (\<lambda>(_, _, d'). moves d d')"
  unfolding readDistance_def
proof (rule ends_bindI [OF prepareCat_ends [OF assms]], simp)
  fix d1 assume d1: "moves d d1"
  have i: "unat (push_bit 2 (d_btype d1 ! 2) + distContext cpy) < length (gDistMap (d_g d1))"
    using distMap_index [OF btype_small [OF moves_ok [OF d1]] distContext_small, of 2] moves_ok [OF d1]
    by (simp add: dec_ok_def base_ok_def globals_ok_def)
  have "ends (bindD (loadDist d1 tree) (\<lambda>d.
     bindD (huffDecode (d_br d) (d_hDist d)) (\<lambda>(dcode, b).
       if dcode \<ge> d_distAlph d then Fail ErrBrotliFormat
       else
         bindD (readDistExtra d b dcode) (\<lambda>(dextra, b).
         bindD (resolveDistance d dcode dextra) (\<lambda>(dist, push).
         Ret (dist, push, consumeCat (d\<lparr>d_br := b\<rparr>) 2)))))) (\<lambda>(_, _, d'). moves d d')" for tree
  proof (rule ends_bindI [OF loadDist_ends [OF moves_ok [OF d1]]])
    fix d2 assume "moves d1 d2"
    then have d2: "moves d d2" using d1 moves_trans by blast
    have h: "huff_ok (2 ^ 16) (d_hDist d2)" using moves_ok [OF d2] by (simp add: dec_ok_def base_ok_def)
    show "ends (bindD (huffDecode (d_br d2) (d_hDist d2)) (\<lambda>(dcode, b).
       if dcode \<ge> d_distAlph d2 then Fail ErrBrotliFormat
       else
         bindD (readDistExtra d2 b dcode) (\<lambda>(dextra, b).
         bindD (resolveDistance d2 dcode dextra) (\<lambda>(dist, push).
         Ret (dist, push, consumeCat (d2\<lparr>d_br := b\<rparr>) 2))))) (\<lambda>(_, _, d'). moves d d')"
    proof (rule ends_symbol [OF h dec_ok_br [OF moves_ok [OF d2]]], unfold prod.case)
      fix dcode b assume b: "reads (d_br d2) b"
      have "ends (bindD (resolveDistance d2 dcode dextra) (\<lambda>(dist, push). Ret (dist, push, consumeCat (d2\<lparr>d_br := b'\<rparr>) 2))) (\<lambda>(_, _, d'). moves d d')"
        if "reads (d_br d2) b'" for b' dextra
      proof (rule ends_bindI [OF resolveDistance_ends [OF moves_ok [OF d2]]])
        have "moves d (d2\<lparr>d_br := b'\<rparr>)" using moves_br [OF moves_ok [OF d2] that] d2 moves_trans by blast
        then have "moves d (consumeCat (d2\<lparr>d_br := b'\<rparr>) 2)" using moves_trans [OF _ consumeCat_moves [OF moves_ok]] by blast
        then show "ends (case x of (dist, push) \<Rightarrow> Ret (dist, push, consumeCat (d2\<lparr>d_br := b'\<rparr>) 2)) (\<lambda>(_, _, d'). moves d d')" for x :: "u32 \<times> bool"
          by (cases x) simp
      qed
      then have "ends (bindD (readDistExtra d2 b dcode) (\<lambda>(dextra, b).
         bindD (resolveDistance d2 dcode dextra) (\<lambda>(dist, push). Ret (dist, push, consumeCat (d2\<lparr>d_br := b\<rparr>) 2)))) (\<lambda>(_, _, d'). moves d d')"
        by (intro ends_bindI [OF readDistExtra_ends [OF b]]) auto
      then show "ends (if dcode \<ge> d_distAlph d2 then Fail ErrBrotliFormat
       else
         bindD (readDistExtra d2 b dcode) (\<lambda>(dextra, b).
         bindD (resolveDistance d2 dcode dextra) (\<lambda>(dist, push).
         Ret (dist, push, consumeCat (d2\<lparr>d_br := b\<rparr>) 2)))) (\<lambda>(_, _, d'). moves d d')" by simp
    qed
  qed
  then show "ends (bindD (at (gDistMap (d_g d1)) (unat (push_bit 2 (d_btype d1 ! 2) + distContext cpy))) (\<lambda>tree.
     bindD (loadDist d1 (ucast tree)) (\<lambda>d.
     bindD (huffDecode (d_br d) (d_hDist d)) (\<lambda>(dcode, b).
       if dcode \<ge> d_distAlph d then Fail ErrBrotliFormat
       else
         bindD (readDistExtra d b dcode) (\<lambda>(dextra, b).
         bindD (resolveDistance d dcode dextra) (\<lambda>(dist, push).
         Ret (dist, push, consumeCat (d\<lparr>d_br := b\<rparr>) 2))))))) (\<lambda>(_, _, d'). moves d d')"
    using i by simp
qed

lemma pushDist_moves: "dec_ok d \<Longrightarrow> moves d (pushDist d dist)"
  using dec_ok_br [of d] by (simp add: pushDist_def moves_def dec_ok_def base_ok_def cat_ok_def)

lemma copyCommand_ends:
  assumes d: "dec_ok d"
  shows "ends (copyCommand d cpy imp) (moves d)"
  unfolding copyCommand_def
proof (rule ends_bindI)
  show "ends (if \<not> imp then readDistance d cpy else Ret (d_distRb d ! 0, False, d)) (\<lambda>(_, _, d'). moves d d')"
    using readDistance_ends [OF d] d by simp
next
  fix x :: "u32 \<times> bool \<times> decT" assume x: "case x of (_, _, d') \<Rightarrow> moves d d'"
  obtain dist push d1 where "x = (dist, push, d1)" by (metis surj_pair)
  then have d1: "moves d d1" and xe: "x = (dist, push, d1)" using x by simp_all
  have "ends (bindD (emitCopy d1 dist cpy) (\<lambda>d. Ret (if push then pushDist d dist else d))) (moves d)"
  proof (rule ends_bindI [OF emitCopy_ends [OF dec_base [OF moves_ok [OF d1]]]])
    fix d2 assume "wrote d1 d2"
    then have d2: "moves d d2" using wrote_moves [OF moves_ok [OF d1]] d1 moves_trans by blast
    then show "ends (Ret (if push then pushDist d2 dist else d2)) (moves d)"
      using moves_trans [OF d2 pushDist_moves [OF moves_ok [OF d2]]] by simp
  qed
  then show "ends (case x of (dist, push, d) \<Rightarrow> bindD (emitCopy d dist cpy) (\<lambda>d. Ret (if push then pushDist d dist else d))) (moves d)"
    by (simp add: xe)
qed

lemma processLoop_ends: "dec_ok d \<Longrightarrow> ends (processLoop d remain) (moves d)"
proof (induction d remain rule: processLoop.induct)
  case (1 d remain)
  note failed = processLoop.simps [of d remain]
  show ?case
  proof (cases "remain > 0")
    case r: True
    consider (ok) d1 where "prepareCat d 1 = Ret d1" "moves d d1" | (err) e where "prepareCat d 1 = Fail e"
      using ends_cases [OF prepareCat_ends [OF "1.prems", of 1]] by auto
    then show ?thesis
    proof cases
      case 1: ok
      consider (ok) d2 where "loadCmd d1 (d_btype d1 ! 1) = Ret d2" "moves d d2" | (err) e where "loadCmd d1 (d_btype d1 ! 1) = Fail e"
        using ends_cases [OF ends_moves [OF 1(2) loadCmd_ends [OF moves_ok [OF 1(2)]]]] by blast
      then show ?thesis
      proof cases
        case 2: ok
        consider (ok) ins cpy imp d3 where "readCommand d2 = Ret (ins, cpy, imp, d3)" "moves d2 d3" | (err) e where "readCommand d2 = Fail e"
          using ends_cases [OF readCommand_ends [OF moves_ok [OF 2(2)]]] by auto
        then show ?thesis
        proof cases
          case 3: ok
          have d3: "moves d d3" using 2(2) 3(2) by (rule moves_trans)
          consider (ok) d4 where "emitLits d3 (unat ins) = Ret d4" "moves d d4" | (err) e where "emitLits d3 (unat ins) = Fail e"
            using ends_cases [OF ends_moves [OF d3 emitLits_ends [OF moves_ok [OF d3]]]] by blast
          then show ?thesis
          proof cases
            case 4: ok
            consider (big) "ins > remain" | (fin) "\<not> ins > remain" "remain - ins = 0" | (far) "\<not> ins > remain" "remain - ins \<noteq> 0" "cpy > remain - ins"
              | (go) "\<not> ins > remain" "remain - ins \<noteq> 0" "\<not> cpy > remain - ins" by blast
            then show ?thesis
            proof cases
              case go
              consider (ok) d5 where "copyCommand d4 cpy imp = Ret d5" "moves d d5" | (err) e where "copyCommand d4 cpy imp = Fail e"
                using ends_cases [OF ends_moves [OF 4(2) copyCommand_ends [OF moves_ok [OF 4(2)]]]] by blast
              then show ?thesis
              proof cases
                case 5: ok
                have "ends (processLoop d5 (remain - ins - cpy)) (moves d5)"
                  by (rule "1.IH" [OF r 1(1) 2(1) 3(1) refl refl refl go(1) 4(1) go(2,3) 5(1) moves_ok [OF 5(2)]])
                then show ?thesis using failed r 1 2 3 4 5 go ends_moves [OF 5(2)] by simp
              qed (use failed r 1 2 3 4 go in simp)
            qed (use failed r 1 2 3 4 in simp_all)
          next
            case (err e)
            then show ?thesis using failed r 1 2 3 by simp
          qed
        qed (use failed r 1 2 in simp)
      qed (use failed r 1 in simp)
    qed (use failed r in simp)
  next
    case False
    then show ?thesis using "1.prems" by (subst processLoop.simps) simp
  qed
qed

lemma processCompressed_ends: "dec_ok d \<Longrightarrow> ends (processCompressed d mlen) (moves d)"
  unfolding processCompressed_def
  by (rule ends_bindI [OF loadCmd_ends], assumption) (rule ends_moves, assumption, rule processLoop_ends, rule moves_ok)

section \<open>Headers\<close>

text \<open>Before the compressed header is complete: \<open>base_ok\<close>, and the reader moves on.\<close>

definition heads :: "decT \<Rightarrow> decT \<Rightarrow> bool" where
  "heads d d' \<longleftrightarrow> base_ok d' \<and> reads (d_br d) (d_br d') \<and> d_cap d' = d_cap d"

lemma heads_trans: "heads a b \<Longrightarrow> heads b c \<Longrightarrow> heads a c"
  by (auto simp: heads_def intro: reads_trans)

lemma readBlockTypes_ends:
  assumes d: "base_ok d" and c: "cat < 3"
  shows "ends (readBlockTypes d cat) (\<lambda>d'. heads d d' \<and> cat_ok d' cat \<and> (\<forall>c < 3. c \<noteq> cat \<longrightarrow> cat_ok d c \<longrightarrow> cat_ok d' c))"
proof -
  let ?Q = "\<lambda>d'. heads d d' \<and> cat_ok d' cat \<and> (\<forall>c < 3. c \<noteq> cat \<longrightarrow> cat_ok d c \<longrightarrow> cat_ok d' c)"
  have b: "reads (d_br d) (d_br d)" using d by (simp add: base_ok_def)
  have "ends (if n + 1 > 256 then Fail ErrBrotliFormat
       else
         (let d = d\<lparr>d_br := b, d_nbl := (d_nbl d)[cat := n + 1], d_btype := (d_btype d)[cat := 0],
                d_btypePrev := (d_btypePrev d)[cat := 1], d_blen := (d_blen d)[cat := push_bit 24 1]\<rparr>
          in if n + 1 \<ge> 2 then readBlockCodes d cat else Ret d)) ?Q" if r: "reads (d_br d) b" and n255: "unat n \<le> 255" for n b
  proof -
    let ?d = "d\<lparr>d_br := b, d_nbl := (d_nbl d)[cat := n + 1], d_btype := (d_btype d)[cat := 0],
                d_btypePrev := (d_btypePrev d)[cat := 1], d_blen := (d_blen d)[cat := push_bit 24 1]\<rparr>"
    have "unat (n + 1) = unat n + 1" using n255 by (simp add: unat_word_ariths)
    then have n: "0 < n + 1" "n + 1 \<le> 256" using n255 by (simp_all add: word_less_nat_alt word_le_nat_alt)
    have base: "base_ok ?d" using d reads_ok [OF r] by (simp add: base_ok_def)
    have others: "c \<noteq> cat \<Longrightarrow> cat_ok d c \<Longrightarrow> cat_ok ?d c" for c by (simp add: cat_ok_def)
    show ?thesis
    proof (cases "n + 1 \<ge> 2")
      case False
      then have "cat_ok ?d cat" using c d n by (auto simp: cat_ok_def base_ok_def word_less_nat_alt word_le_nat_alt)
      then show ?thesis using False n base others r by (simp add: heads_def not_less)
    next
      case two: True
      have "ends (readBlockCodes ?d cat) ?Q" unfolding readBlockCodes_def
      proof (rule ends_bindI [OF readHuff_ends], simp, rule r, clarify, rule ends_bindI [OF readHuff_ends], assumption, clarify,
          rule ends_bindI [OF readBlockCount_ends], assumption, assumption, clarify)
        fix h1 b1 h2 b2 cnt b3
        assume h: "huff_ok (unat (d_nbl ?d ! cat + 2)) h1" "huff_ok (unat (26 :: u32)) h2" and b3: "reads (d_br d) b3"
        let ?d2 = "?d\<lparr>d_br := b3, d_hBt := (d_hBt ?d)[cat := h1], d_hBl := (d_hBl ?d)[cat := h2], d_blen := (d_blen ?d)[cat := cnt]\<rparr>"
        have nb: "d_nbl ?d ! cat = n + 1" using c d by (simp add: base_ok_def)
        have "unat (m + 2) = unat m + 2" if "m \<le> 256" for m :: u32 using that by (simp add: unat_word_ariths word_le_nat_alt)
        from this [OF n(2)] have "unat (n + 1 + 2) = unat (n + 1) + 2" .
        then have "huff_ok (unat (n + 1) + 2) h1" using h(1) nb by simp
        moreover have "huff_ok (2 ^ 16) h2" using h(2) by (rule huff_ok_mono) simp
        moreover have "1 < n + 1" "(1 :: u32) < n + 1" using two by (simp_all add: word_less_nat_alt word_le_nat_alt)
        ultimately have "cat_ok ?d2 cat" using c d n by (simp add: cat_ok_def base_ok_def)
        moreover have "base_ok ?d2" using d reads_ok [OF b3] by (simp add: base_ok_def)
        ultimately show "ends (Ret ?d2) ?Q" using b3 by (simp add: heads_def cat_ok_def)
      qed
      then show ?thesis using two n by (simp add: not_less)
    qed
  qed
  then show ?thesis unfolding readBlockTypes_def
    by (intro ends_bindI [OF decodeVarlenU8_ends [OF b]]) auto
qed

lemma readModes_ends: "reads a b \<Longrightarrow> i + k \<le> length modes \<Longrightarrow> ends (readModes b modes i k) (\<lambda>(m, b'). reads a b' \<and> length m = length modes)"
proof (induction k arbitrary: b modes i)
  case (Suc k)
  have "ends (readModes b' (modes[i := v]) (i + 1) k) (\<lambda>(m, b'). reads a b' \<and> length m = length modes)" if "reads a b'" for b' v
    using Suc.IH [OF that, of "i + 1" "modes[i := v]"] Suc.prems(2) by simp
  then show ?case using Suc.prems by (auto intro!: ends_readT)
qed simp

lemma length_copyInto: "length (copyInto dst src) = length dst"
  by (simp add: copyInto_def)

lemma readTrees_ends:
  "\<lbrakk>reads a b; unat alph \<le> 704; length len = 704; i + k \<le> length cls; \<forall>l \<in> set cls. length l = m\<rbrakk> \<Longrightarrow>
    ends (readTrees b alph len cls i k) (\<lambda>(c, l, b'). reads a b' \<and> length l = 704 \<and> length c = length cls \<and> (\<forall>l \<in> set c. length l = m))"
proof (induction k arbitrary: b len cls i)
  case (Suc k)
  have i: "i < length cls" using Suc.prems(4) by simp
  let ?P = "\<lambda>(c, l, b'). reads a b' \<and> length l = 704 \<and> length c = length cls \<and> (\<forall>l \<in> set c. length l = m)"
  have "ends (readHuffmanLengths b alph len) (\<lambda>(l, b'). reads a b' \<and> length l = length len \<and> 0 < unat alph \<and> unat alph \<le> 704)"
    using Suc.prems by (intro readHuffmanLengths_ends) simp_all
  then have "ends (bindD (readHuffmanLengths b alph len) (\<lambda>(len, b).
     bindD (at cls i) (\<lambda>dst.
     bindD (putAt cls i (copyInto dst (take (unat alph) len))) (\<lambda>cls. readTrees b alph len cls (i + 1) k)))) ?P"
  proof (rule ends_bindI, clarify)
    fix l :: bytes and b1 assume b1: "reads a b1" and l: "length l = length len"
    let ?cls = "cls[i := copyInto (cls ! i) (take (unat alph) l)]"
    have "\<forall>x \<in> set ?cls. length x = m"
      using Suc.prems(5) i set_update_subset_insert [of cls i "copyInto (cls ! i) (take (unat alph) l)"] by (auto simp: length_copyInto)
    then have "ends (readTrees b1 alph l ?cls (i + 1) k) ?P" using Suc.IH [OF b1, of l "i + 1" ?cls] Suc.prems l by simp
    then show "ends (bindD (at cls i) (\<lambda>dst.
     bindD (putAt cls i (copyInto dst (take (unat alph) l))) (\<lambda>cls. readTrees b1 alph l cls (i + 1) k))) ?P" using i by simp
  qed
  then show ?case by simp
qed simp

lemma readTables_ends:
  assumes d: "base_ok d" and cats: "\<forall>c < 3. cat_ok d c" and alph: "d_distAlph d \<le> 520"
  shows "ends (readTables d) (moves d)"
proof -
  have g: "globals_ok (d_g d)" and b: "reads (d_br d) (d_br d)" using d by (simp_all add: base_ok_def)
  note g' = g [unfolded globals_ok_def]
  have nbl: "unat (d_nbl d ! c) \<le> 256" if "c < 3" for c using cats that by (simp add: cat_ok_def word_le_nat_alt)
  have small: "unat (n * 64) = unat n * 64 \<and> unat (n * 4) = unat n * 4" if "unat n \<le> 256" for n :: u32 using that by (simp add: unat_word_ariths)
  have alph': "unat (d_distAlph d) \<le> 704" using alph by (simp add: word_le_nat_alt)
  show ?thesis unfolding readTables_def
  proof (rule ends_bindI [OF readModes_ends [OF b]], use nbl [of 0] g' in simp, clarify,
      rule ends_bindI [OF decodeContextMap_ends], assumption, use nbl [of 0] small [OF nbl [of 0]] g' in simp, use g' in simp, clarify,
      rule ends_bindI [OF decodeContextMap_ends], assumption, use nbl [of 2] small [OF nbl [of 2]] g' in simp, use g' in simp, clarify,
      rule ends_bindI [OF readTrees_ends [where m = 256]], assumption, simp, simp, use g' in \<open>simp add: word_le_nat_alt\<close>, use g' in simp, clarify,
      rule ends_bindI [OF readTrees_ends [where m = 704]], assumption, simp, simp, use g' nbl [of 1] in simp, use g' in simp, clarify,
      rule ends_bindI [OF readTrees_ends [where m = 520]], assumption, rule alph', simp, use g' in \<open>simp add: word_le_nat_alt\<close>, use g' in simp, clarify)
    fix modes litMap distMap :: bytes and ntreesL ntreesD :: u32 and litCl cmdCl distCl :: "bytes list" and b'
    assume "length modes = length (gCtxMode (d_g d))" "length litMap = length (gLitMap (d_g d))" "length distMap = length (gDistMap (d_g d))"
      "length litCl = length (gLitCl (d_g d))" "length cmdCl = length (gCmdCl (d_g d))" "length distCl = length (gDistCl (d_g d))"
      "\<forall>l \<in> set litCl. length l = 256" "\<forall>l \<in> set cmdCl. length l = 704" "\<forall>l \<in> set distCl. length l = 520"
    moreover assume n: "ntreesL \<le> 256" "ntreesD \<le> 256" and b': "reads (d_br d) b'"
    ultimately have "globals_ok \<lparr>gLitCl = litCl, gCmdCl = cmdCl, gDistCl = distCl, gLitMap = litMap, gDistMap = distMap, gCtxMode = modes\<rparr>"
      using g' by (simp add: globals_ok_def)
    then show "ends (Ret (d\<lparr>d_br := b', d_ntreesL := ntreesL, d_ntreesD := ntreesD, d_litID := - 1, d_cmdID := - 1, d_distID := - 1,
       d_g := \<lparr>gLitCl = litCl, gCmdCl = cmdCl, gDistCl = distCl, gLitMap = litMap, gDistMap = distMap, gCtxMode = modes\<rparr>\<rparr>)) (moves d)"
      using d cats alph n reads_ok [OF b'] b' by (simp add: moves_def dec_ok_def base_ok_def cat_ok_def)
  qed
qed

lemma heads_moves: "heads d d1 \<Longrightarrow> moves d1 d2 \<Longrightarrow> dec_ok d2 \<and> heads d d2"
  by (auto simp: heads_def moves_def dec_ok_def intro: reads_trans)

lemma readParams_ends:
  assumes d: "base_ok d" and cats: "\<forall>c<3. cat_ok d c"
  shows "ends (readParams d) (\<lambda>d'. dec_ok d' \<and> heads d d')"
proof -
  have tabs: "ends (readTables (d\<lparr>d_br := b, d_npostfix := np, d_ndirect := nd, d_distAlph := al\<rparr>)) (\<lambda>d'. dec_ok d' \<and> heads d d')"
    if r: "reads (d_br d) b" and al: "\<not> al > 520" for b np nd al
  proof -
    let ?d = "d\<lparr>d_br := b, d_npostfix := np, d_ndirect := nd, d_distAlph := al\<rparr>"
    have ok: "base_ok ?d" using d reads_ok [OF r] by (simp add: base_ok_def)
    then have hd: "heads d ?d" using r by (simp add: heads_def)
    have "\<forall>c<3. cat_ok ?d c" using cats by (simp add: cat_ok_def)
    then have "ends (readTables ?d) (moves ?d)" using ok al by (intro readTables_ends) (simp_all add: not_less)
    then show ?thesis by (rule ends_mono) (rule heads_moves [OF hd])
  qed
  have rb: "reads (d_br d) (d_br d)" using d by (simp add: base_ok_def)
  show ?thesis unfolding readParams_def
    by (rule ends_readT [OF rb], unfold prod.case, rule ends_readT, assumption, unfold prod.case Let_def) (simp add: tabs)
qed

lemma decodeCompressedHeader_ends:
  assumes d: "base_ok d"
  shows "ends (decodeCompressedHeader d) (\<lambda>d'. dec_ok d' \<and> heads d d')"
  unfolding decodeCompressedHeader_def
proof (rule ends_bindI [OF readBlockTypes_ends [OF d, of 0]], simp, elim conjE)
  fix d0 assume h0: "heads d d0" and c0: "cat_ok d0 0"
  then have b0: "base_ok d0" by (simp add: heads_def)
  show "ends (bindD (readBlockTypes d0 1) (\<lambda>d. bindD (readBlockTypes d 2) readParams)) (\<lambda>d'. dec_ok d' \<and> heads d d')"
  proof (rule ends_bindI [OF readBlockTypes_ends [OF b0, of 1]], simp, elim conjE)
    fix d1 assume h1: "heads d0 d1" and c1: "cat_ok d1 1" "\<forall>c<3. c \<noteq> 1 \<longrightarrow> cat_ok d0 c \<longrightarrow> cat_ok d1 c"
    then have b1: "base_ok d1" by (simp add: heads_def)
    have c01: "cat_ok d1 0" using c1(2) c0 by simp
    show "ends (bindD (readBlockTypes d1 2) readParams) (\<lambda>d'. dec_ok d' \<and> heads d d')"
    proof (rule ends_bindI [OF readBlockTypes_ends [OF b1, of 2]], simp, elim conjE)
      fix d2 assume h2: "heads d1 d2" and c2: "cat_ok d2 2" "\<forall>c<3. c \<noteq> 2 \<longrightarrow> cat_ok d1 c \<longrightarrow> cat_ok d2 c"
      have "\<forall>c<3. cat_ok d2 c" using c2 c1(1) c01 cat_cases by fastforce
      then have "ends (readParams d2) (\<lambda>d'. dec_ok d' \<and> heads d2 d')" using h2 by (intro readParams_ends) (simp_all add: heads_def)
      then show "ends (readParams d2) (\<lambda>d'. dec_ok d' \<and> heads d d')" by (rule ends_mono) (use h0 h1 h2 heads_trans in blast)
    qed
  qed
qed

lemma readSkip_ends: "reads a b \<Longrightarrow> ends (readSkip b n i k v) (\<lambda>(x, b'). reads a b')"
  by (induction k arbitrary: b i v) (auto intro!: ends_readT)

lemma readNibbles_ends: "reads a b \<Longrightarrow> ends (readNibbles b n i k v) (\<lambda>(x, b'). reads a b')"
  by (induction k arbitrary: b i v) (auto intro!: ends_readT)

lemma metaSkip_ends: "reads a b \<Longrightarrow> ends (metaSkip b l) (\<lambda>(mh, b'). reads a b')"
  unfolding metaSkip_def by (auto intro!: ends_readT ends_bindI [OF readSkip_ends])

lemma metaLength_ends: "reads a b \<Longrightarrow> ends (metaLength b l nib) (\<lambda>(mh, b'). reads a b')"
  unfolding metaLength_def by (rule ends_bindI [OF readNibbles_ends], assumption) (auto intro!: ends_readT)

lemma decodeMetablockHeader_ends:
  assumes b: "br_ok b"
  shows "ends (decodeMetablockHeader b) (\<lambda>(mh, b'). reads b b' \<and> remaining b' < remaining b)"
  unfolding decodeMetablockHeader_def
proof (rule ends_read [OF b], unfold prod.case Let_def)
  fix bt :: u32 and b1 assume r: "reads b b1" and less: "remaining b1 + 1 = remaining b"
  have rd: "ends (if c then brRead b1 1 else Ret (0, b1)) (\<lambda>(v, b'). reads b1 b')" for c
    using reads_ok [OF r] brRead_endsT [OF reads_refl [OF reads_ok [OF r]], of 1] by (auto elim!: ends_mono)
  have dispatch: "ends (bindD (brRead b2 2) (\<lambda>(nib, b). if nib = 3 then metaSkip b l else metaLength b l nib)) (\<lambda>(mh, b'). reads b1 b')"
    if "reads b1 b2" for b2 l
    by (rule ends_readT [OF that]) (simp add: metaSkip_ends metaLength_ends)
  have fin: "reads b b'" "remaining b' < remaining b" if "reads b1 b'" for b'
    using that r less reads_trans by (auto simp: reads_def)
  have "ends (bindD (if bt \<noteq> 0 then brRead b1 1 else Ret (0, b1)) (\<lambda>(empty, b).
      if bt \<noteq> 0 \<and> empty \<noteq> 0 then Ret (\<lparr>mb_mlen = 0, mb_isLast = bt \<noteq> 0, mb_isUncomp = False, mb_isMeta = False\<rparr>, b)
      else bindD (brRead b 2) (\<lambda>(nib, b). if nib = 3 then metaSkip b (bt \<noteq> 0) else metaLength b (bt \<noteq> 0) nib))) (\<lambda>(mh, b'). reads b1 b')"
    by (rule ends_bindI [OF rd], clarify) (use dispatch in simp)
  then show "ends (bindD (if bt \<noteq> 0 then brRead b1 1 else Ret (0, b1)) (\<lambda>(empty, b).
      if bt \<noteq> 0 \<and> empty \<noteq> 0 then Ret (\<lparr>mb_mlen = 0, mb_isLast = bt \<noteq> 0, mb_isUncomp = False, mb_isMeta = False\<rparr>, b)
      else bindD (brRead b 2) (\<lambda>(nib, b). if nib = 3 then metaSkip b (bt \<noteq> 0) else metaLength b (bt \<noteq> 0) nib)))
    (\<lambda>(mh, b'). reads b b' \<and> remaining b' < remaining b)"
    by (rule ends_mono) (use fin in auto)
qed

section \<open>The decoder\<close>

lemma metaBlock_ends:
  assumes d: "base_ok d"
  shows "ends (metaBlock d mh) (\<lambda>(d', fin). heads d d')"
proof -
  have refl: "heads d d" using d by (simp add: heads_def base_ok_def)
  have w: "heads d d'" if "wrote d d'" for d' using that wrote_base [OF d that] by (auto simp: heads_def wrote_def)
  have skip: "ends (bindD (skipMeta d n) (\<lambda>d. Ret (d, l))) (\<lambda>(d', fin). heads d d')" for n l
    by (rule ends_bindI [OF skipMeta_ends [OF d]]) (simp add: w)
  have raw: "ends (bindD (copyRaw d n) (\<lambda>d. Ret (d, l))) (\<lambda>(d', fin). heads d d')" for n l
    by (rule ends_bindI [OF copyRaw_ends [OF d]]) (simp add: w)
  have comp: "ends (bindD (decodeCompressedHeader d) (\<lambda>d. bindD (processCompressed d n) (\<lambda>d. Ret (d, l)))) (\<lambda>(d', fin). heads d d')" for n l
  proof (rule ends_bindI [OF decodeCompressedHeader_ends [OF d]], elim conjE)
    fix d1 assume "dec_ok d1" "heads d d1"
    then show "ends (bindD (processCompressed d1 n) (\<lambda>d. Ret (d, l))) (\<lambda>(d', fin). heads d d')"
      by (intro ends_bindI [OF processCompressed_ends]) (auto dest: heads_moves)
  qed
  show ?thesis by (simp add: skip raw comp refl metaBlock_def Let_def)
qed

lemma metaLoop_ends: "base_ok d \<Longrightarrow> remaining (d_br d) < f \<Longrightarrow> ends (metaLoop f d) (heads d)"
proof (induction f arbitrary: d)
  case (Suc f)
  have ok: "br_ok (d_br d)" using Suc.prems(1) by (simp add: base_ok_def)
  show ?case unfolding metaLoop.simps
  proof (rule ends_bindI [OF decodeMetablockHeader_ends [OF ok]], clarify)
    fix mh b assume r: "reads (d_br d) b" and less: "remaining b < remaining (d_br d)"
    have b1: "base_ok (d\<lparr>d_br := b\<rparr>)" using Suc.prems(1) reads_ok [OF r] by (simp add: base_ok_def)
    have h1: "heads d (d\<lparr>d_br := b\<rparr>)" using b1 r by (simp add: heads_def)
    show "ends (bindD (metaBlock (d\<lparr>d_br := b\<rparr>) mh) (\<lambda>(d, fin). if fin then Ret d else metaLoop f d)) (heads d)"
    proof (rule ends_bindI [OF metaBlock_ends [OF b1]], clarify)
      fix d2 fin assume h2: "heads (d\<lparr>d_br := b\<rparr>) d2"
      then have "base_ok d2" "remaining (d_br d2) < f" using less Suc.prems(2) by (auto simp: heads_def reads_def)
      then have "ends (metaLoop f d2) (heads d2)" by (rule Suc.IH)
      then have "ends (metaLoop f d2) (heads d)" by (rule ends_mono) (use heads_trans h1 h2 in blast)
      then show "ends (if fin then Ret d2 else metaLoop f d2) (heads d)" using heads_trans [OF h1 h2] by simp
    qed
  qed
qed simp

text \<open>The decoder on any input and any buffer: it ends, with an error or with at most as many bytes as the buffer has.\<close>

lemma BrotliL2Decompress_ends:
  assumes "globals_ok g"
  shows "ends (BrotliL2Decompress g inp out) (\<lambda>(n, d). n = d_pos d \<and> n \<le> length out \<and> length (d_out d) = length out \<and> globals_ok (d_g d))"
proof -
  let ?d = "newDec g inp out"
  have base: "base_ok ?d" using assms by (simp add: base_ok_def newDec_def br_ok_def)
  have rem: "remaining (d_br ?d) = 8 * length inp" by (simp add: newDec_def remaining_def length_bitsLeft)
  have fin: "n \<le> length out \<and> length (d_out d) = length out \<and> globals_ok (d_g d)" if "heads d0 d" "d_cap d0 = length out" "n = d_pos d" for d0 d n
    using that by (simp add: heads_def base_ok_def)
  show ?thesis unfolding BrotliL2Decompress_def Let_def
  proof (rule ends_bindI [OF decodeWindowBits_ends [OF reads_refl]])
    show "br_ok (d_br ?d)" using base by (simp add: base_ok_def)
  next
    fix x :: "u32 \<times> brT" assume x: "case x of (v, b') \<Rightarrow> reads (d_br ?d) b'"
    obtain w b where xe: "x = (w, b)" by fastforce
    let ?d1 = "?d\<lparr>d_br := b, d_wsize := push_bit (unat w) 1 - 16\<rparr>"
    have r: "reads (d_br ?d) b" using x xe by simp
    have "base_ok ?d1" using base reads_ok [OF r] by (simp add: base_ok_def)
    moreover have "remaining (d_br ?d1) < 8 * length inp + 1" using r rem by (simp add: reads_def)
    ultimately have loop: "ends (metaLoop (8 * length inp + 1) ?d1) (heads ?d1)" by (rule metaLoop_ends)
    have cap: "d_cap ?d1 = length out" by (simp add: newDec_def)
    have "ends (bindD (metaLoop (8 * length inp + 1) ?d1) (\<lambda>d. Ret (d_pos d, d)))
        (\<lambda>(n, d). n = d_pos d \<and> n \<le> length out \<and> length (d_out d) = length out \<and> globals_ok (d_g d))"
      by (rule ends_bindI [OF loop]) (use fin [OF _ cap] in simp)
    then show "ends (case x of (wbits, b) \<Rightarrow> if wbits < 10 \<or> wbits > 24 then Fail ErrBrotliWindow
        else bindD (metaLoop (8 * length inp + 1) (?d\<lparr>d_br := b, d_wsize := push_bit (unat wbits) 1 - 16\<rparr>)) (\<lambda>d. Ret (d_pos d, d)))
        (\<lambda>(n, d). n = d_pos d \<and> n \<le> length out \<and> length (d_out d) = length out \<and> globals_ok (d_g d))"
      by (simp add: xe)
  qed
qed

end
