(* ===== verification/Batch_Unpack.thy ===== *)
theory Batch_Unpack
  imports Brotli_Total Batch_Poster
begin

text \<open>
  \<open>Unpack\<close> of \<open>c2seq/batch_poster.go\<close> with the decoder it calls, and the round trip from \<open>Pack\<close> through the bits of
  an uncompressed meta-block back to the transactions.
\<close>

datatype unpack_error = BrotliError brotli_error | BatchError batch_error

definition Unpack :: "brotliGlobals \<Rightarrow> bytes \<Rightarrow> (unpack_error + Transaction list) outcome" where
  "Unpack g calldata =
     (case BrotliL2Decompress g calldata (replicate maxBatchPlain 0) of
        Crash \<Rightarrow> Panic
      | Stuck \<Rightarrow> NoFuel
      | Fail e \<Rightarrow> Done (Inl (BrotliError e))
      | Ret (n, d) \<Rightarrow>
          if n = 0 then Done (Inr [])
          else
            (case unpackPlain (take n (d_out d)) of
               Inl e \<Rightarrow> Done (Inl (BatchError e))
             | Inr txs \<Rightarrow> Done (Inr txs)))"

lemma Unpack_total: "globals_ok g \<Longrightarrow> \<exists>r. Unpack g calldata = Done r"
  using BrotliL2Decompress_ends [of g calldata "replicate maxBatchPlain 0"]
  by (cases "BrotliL2Decompress g calldata (replicate maxBatchPlain 0)") (auto simp: Unpack_def split: sum.splits)

section \<open>Reading known bits\<close>

lemma read_known:
  assumes "br_ok b" "bitsLeft b = xs @ ys" "length xs = n" "n \<le> 24"
  shows "\<exists>b'. brRead b n = Ret (bitsVal xs, b') \<and> br_ok b' \<and> bitsLeft b' = ys \<and> br_in b' = br_in b"
  using brRead_spec [OF assms(1,4)] assms(2,3) by auto

lemma bitsVal_bit: "bitsVal [x] = (if x then 1 else 0)"
  by (simp add: bitsVal_def)

lemma bitsVal_two: "bitsVal [x, y] = (if x then 1 else 0) + (if y then 2 else 0)"
  by (simp add: bitsVal_def)

lemma bitsVal_map: "bitsVal (map (bit (w :: u32)) [i..<i + n]) = take_bit n (drop_bit i w)"
proof -
  have "map (bit w) [i..<i + n] = map (bit (drop_bit i w)) [0..<n]"
    by (intro nth_equalityI) (simp_all add: bit_drop_bit_eq add.commute)
  then show ?thesis by (simp only: bitsVal_def horner_sum_bit_eq_take_bit)
qed

lemma take_bit_step: "take_bit i w OR push_bit i (take_bit n (drop_bit i w)) = take_bit (i + n) (w :: u32)"
  by (rule bit_word_eqI) (auto simp: bit_simps)

text \<open>The nibbles of a length.\<close>

lemma readNibbles_known:
  assumes "br_ok b" "bitsLeft b = map (bit (w :: u32)) [4 * i..<4 * (i + k)] @ ys" "i + k = nn"
    and "nn > 4 \<longrightarrow> take_bit 4 (drop_bit (4 * (nn - 1)) w) \<noteq> 0"
  shows "\<exists>b'. readNibbles b nn i k (take_bit (4 * i) w) = Ret (take_bit (4 * nn) w, b') \<and> br_ok b' \<and> bitsLeft b' = ys \<and> br_in b' = br_in b"
  using assms
proof (induction k arbitrary: b i)
  case (Suc k)
  have sp: "map (bit w) [4 * i..<4 * (i + Suc k)] = map (bit w) [4 * i..<4 * i + 4] @ map (bit w) [4 * Suc i..<4 * (Suc i + k)]"
    using upt_add_eq_append [of "4 * i" "4 * i + 4" "4 * k"] by (simp add: algebra_simps flip: map_append)
  obtain b1 where r: "brRead b 4 = Ret (bitsVal (map (bit w) [4 * i..<4 * i + 4]), b1)" "br_ok b1"
    "bitsLeft b1 = map (bit w) [4 * Suc i..<4 * (Suc i + k)] @ ys" "br_in b1 = br_in b"
    using read_known [OF Suc.prems(1), of "map (bit w) [4 * i..<4 * i + 4]" "map (bit w) [4 * Suc i..<4 * (Suc i + k)] @ ys" 4] Suc.prems(2) sp by auto
  obtain b2 where b2: "readNibbles b1 nn (Suc i) k (take_bit (4 * Suc i) w) = Ret (take_bit (4 * nn) w, b2)" "br_ok b2" "bitsLeft b2 = ys" "br_in b2 = br_in b1"
    using Suc.IH [OF r(2,3)] Suc.prems(3,4) by auto
  have "\<not> (i + 1 = nn \<and> nn > 4 \<and> bitsVal (map (bit w) [4 * i..<4 * i + 4]) = 0)"
    using Suc.prems(4) by (auto simp: bitsVal_map)
  moreover have "take_bit (4 * i) w OR push_bit (4 * i) (bitsVal (map (bit w) [4 * i..<4 * i + 4])) = take_bit (4 * Suc i) w"
    unfolding bitsVal_map take_bit_step by (simp add: add.commute)
  ultimately show ?case using r b2 by auto
qed simp

section \<open>The header of an uncompressed block\<close>

lemma bytes_of_bits: "8 * k \<le> 64 \<Longrightarrow> concat (map byteBits (map (\<lambda>i. ucast (drop_bit (8 * i) (acc :: u64))) [0..<k])) = map (bit acc) [0..<8 * k]"
proof (induction k)
  case (Suc k)
  have "byteBits (ucast (drop_bit (8 * k) acc)) = map (bit acc) [8 * k..<8 * k + 8]"
    by (intro nth_equalityI) (auto simp: byteBits_def bit_simps add.commute)
  moreover have "[0..<8 * Suc k] = [0..<8 * k] @ [8 * k..<8 * k + 8]" using upt_add_eq_append [of 0 "8 * k" 8] by (simp add: add.commute)
  ultimately show ?case using Suc by simp
qed simp

text \<open>The bits that \<open>put\<close> collects: window, last block, number of nibbles, length, uncompressed, padding.\<close>

definition headerBits :: "nat \<Rightarrow> u64 \<Rightarrow> nat \<Rightarrow> bool list" where
  "headerBits nib m1 nbits = [False, False] @ map (bit (of_nat nib :: u64)) [0..<2] @ map (bit m1) [0..<nbits] @ [True]"

lemma four: "Suc (Suc (Suc (Suc 0))) = 4" "Suc (Suc 2) = 4"
  by simp_all

lemma brotliHeader_bits:
  assumes "unat m1 < 2 ^ nbits" "nib < 4" "nbits = 16 \<or> nbits = 20"
  shows "\<exists>pad < 8. concat (map byteBits (brotliHeader nib m1 nbits)) = headerBits nib m1 nbits @ replicate pad False"
proof -
  let ?acc = "push_bit 2 (of_nat nib) OR push_bit 4 m1 OR push_bit (4 + nbits) (1 :: u64)"
  have m: "\<not> bit m1 i" if "nbits \<le> i" for i
  proof -
    have "take_bit nbits m1 = m1" using assms(1)
      by (intro unsigned_word_eqI [where ?'a = nat]) (simp add: unsigned_take_bit_eq take_bit_nat_eq_self)
    then show ?thesis using that by (metis bit_take_bit_iff leD)
  qed
  have n: "\<not> bit (of_nat nib :: u64) i" if "2 \<le> i" for i
  proof -
    have "take_bit 2 (of_nat nib :: u64) = of_nat nib" using assms(2)
      by (intro unsigned_word_eqI [where ?'a = nat]) (simp add: unsigned_take_bit_eq unat_of_nat take_bit_nat_eq_self)
    then show ?thesis using that by (metis bit_take_bit_iff leD)
  qed
  have pad: "map (bit ?acc) [0..<5 + nbits + pad] = headerBits nib m1 nbits @ replicate pad False" if "5 + nbits + pad \<le> 64" for pad
  proof (rule nth_equalityI)
    fix i assume "i < length (map (bit ?acc) [0..<5 + nbits + pad])"
    then have i: "i < 5 + nbits + pad" by simp
    consider "i < 2" | "2 \<le> i" "i < 4" | "4 \<le> i" "i < 4 + nbits" | "i = 4 + nbits" | "4 + nbits < i" by linarith
    then show "map (bit ?acc) [0..<5 + nbits + pad] ! i = (headerBits nib m1 nbits @ replicate pad False) ! i"
      using i that m n by cases (auto simp: headerBits_def nth_append nth_Cons' bit_simps numeral_2_eq_2 [symmetric] four)
  qed (simp add: headerBits_def)
  show ?thesis
  proof (cases "nbits = 16")
    case True
    have hd: "brotliHeader nib m1 nbits = map (\<lambda>i. ucast (drop_bit (8 * i) ?acc)) [0..<3]"
      by (simp add: brotliHeader_def put_bits_def Let_def True push_bit_eq_mult ac_simps)
    show ?thesis using pad [of 3] bytes_of_bits [of 3 ?acc] True unfolding hd by (intro exI [of _ 3]) simp
  next
    case False
    then have 20: "nbits = 20" using assms(3) by simp
    have hd: "brotliHeader nib m1 nbits = map (\<lambda>i. ucast (drop_bit (8 * i) ?acc)) [0..<4]"
      by (simp add: brotliHeader_def put_bits_def Let_def 20 push_bit_eq_mult ac_simps)
    show ?thesis using pad [of 7] bytes_of_bits [of 4 ?acc] 20 unfolding hd by (intro exI [of _ 7]) simp
  qed
qed

lemma length_bits_u64: "take_bit n (ucast m1 :: u32) = ucast m1" if "unat (m1 :: u64) < 2 ^ n" "n \<le> 24"
proof -
  have "(2 :: nat) ^ n \<le> 2 ^ 24" using that(2) by (intro power_increasing) simp_all
  then have "unat (ucast m1 :: u32) = unat m1" using that(1) by (simp add: unsigned_ucast_eq take_bit_nat_eq_self)
  then show ?thesis using that(1) by (intro unsigned_word_eqI [where ?'a = nat]) (simp add: unsigned_take_bit_eq take_bit_nat_eq_self)
qed

text \<open>The decoder reads the header that \<open>brotliHeader\<close> wrote (after the bit for the window).\<close>

lemma decodeMetablockHeader_known:
  assumes b: "br_ok b" "bitsLeft b = drop 1 (headerBits nib m1 nbits) @ ys" and nib: "nib < 2" "nbits = 4 * (nib + 4)"
    and m1: "unat m1 < 2 ^ nbits" "nib = 1 \<longrightarrow> 2 ^ 16 \<le> unat m1"
  shows "\<exists>b'. decodeMetablockHeader b = Ret (\<lparr>mb_mlen = ucast m1 + 1, mb_isLast = False, mb_isUncomp = True, mb_isMeta = False\<rparr>, b') \<and>
    br_ok b' \<and> bitsLeft b' = ys \<and> br_in b' = br_in b"
proof -
  let ?w = "ucast m1 :: u32" and ?nn = "nib + 4"
  have nb: "nbits \<le> 24" using nib by simp
  have "nib = 0 \<or> nib = 1" using nib(1) by auto
  have w: "map (bit m1) [0..<nbits] = map (bit ?w) [0..<nbits]" using nb by (simp add: bit_simps)
  have bits: "bitsLeft b = [False] @ (map (bit (of_nat nib :: u64)) [0..<2] @ map (bit ?w) [4 * 0..<4 * (0 + ?nn)] @ [True] @ ys)"
    using b(2) nib(2) w by (simp add: headerBits_def mult.commute)
  obtain b1 where b1: "brRead b 1 = Ret (0, b1)" "br_ok b1" "bitsLeft b1 = map (bit (of_nat nib :: u64)) [0..<2] @ map (bit ?w) [4 * 0..<4 * (0 + ?nn)] @ [True] @ ys"
      "br_in b1 = br_in b"
    using read_known [OF b(1) bits, of 1] by (auto simp: bitsVal_bit)
  have nv: "bitsVal (map (bit (of_nat nib :: u64)) [0..<2]) = of_nat nib"
    using nib(1) by (auto simp: bitsVal_two numeral_2_eq_2 less_Suc_eq)
  obtain b2 where b2: "brRead b1 2 = Ret (of_nat nib, b2)" "br_ok b2" "bitsLeft b2 = map (bit ?w) [4 * 0..<4 * (0 + ?nn)] @ [True] @ ys" "br_in b2 = br_in b1"
    using read_known [OF b1(2,3), of 2] nv by auto
  have nz: "?nn > 4 \<longrightarrow> take_bit 4 (drop_bit (4 * (?nn - 1)) ?w) \<noteq> 0"
  proof
    assume "?nn > 4"
    then have n1: "nib = 1" using nib(1) by simp
    have "unat m1 < 2 ^ 20" using m1(1) nib(2) n1 by simp
    then have "unat ?w = unat m1" by (simp add: unsigned_ucast_eq take_bit_nat_eq_self)
    then have "unat (take_bit 4 (drop_bit 16 ?w)) = take_bit 4 (unat m1 div 2 ^ 16)"
      by (simp add: unsigned_take_bit_eq drop_bit_eq_div unat_div)
    moreover have "1 \<le> unat m1 div 2 ^ 16" "unat m1 div 2 ^ 16 < 2 ^ 4" using m1(2) n1 \<open>unat m1 < 2 ^ 20\<close> by (simp_all add: div_le_mono less_mult_imp_div_less div_greater_zero_iff Suc_le_eq)
    ultimately have "unat (take_bit 4 (drop_bit 16 ?w)) \<noteq> 0" by (simp add: take_bit_nat_eq_self)
    then show "take_bit 4 (drop_bit (4 * (?nn - 1)) ?w) \<noteq> 0" using n1 by auto
  qed
  obtain b3 where b3: "readNibbles b2 ?nn 0 ?nn (take_bit (4 * 0) ?w) = Ret (take_bit (4 * ?nn) ?w, b3)" "br_ok b3" "bitsLeft b3 = [True] @ ys" "br_in b3 = br_in b2"
    using readNibbles_known [OF b2(2,3) _ nz] by auto
  obtain b4 where b4: "brRead b3 1 = Ret (1, b4)" "br_ok b4" "bitsLeft b4 = ys" "br_in b4 = br_in b3"
    using read_known [OF b3(2,3), of 1] by (auto simp: bitsVal_bit)
  have n3: "unat (of_nat nib :: u32) = nib" "(of_nat nib :: u32) \<noteq> 3" using \<open>nib = 0 \<or> nib = 1\<close> by auto
  have "take_bit (4 * ?nn) ?w = ?w" using length_bits_u64 [OF m1(1) nb] nib(2) by simp
  then have "metaLength b2 False (of_nat nib) = Ret (\<lparr>mb_mlen = ?w + 1, mb_isLast = False, mb_isUncomp = True, mb_isMeta = False\<rparr>, b4)"
    using b3(1) b4(1) n3(1) by (simp add: metaLength_def)
  then have "decodeMetablockHeader b = Ret (\<lparr>mb_mlen = ?w + 1, mb_isLast = False, mb_isUncomp = True, mb_isMeta = False\<rparr>, b4)"
    using b1(1) b2(1) n3(2) by (simp add: decodeMetablockHeader_def Let_def)
  then show ?thesis using b1(4) b2(4) b3(4) b4 by simp
qed

section \<open>Raw bytes\<close>

text \<open>What has been written when \<open>xs\<close> was appended.\<close>

definition emits :: "decT \<Rightarrow> bytes \<Rightarrow> decT \<Rightarrow> bool" where
  "emits d xs d' \<longleftrightarrow> base_ok d' \<and> d_cap d' = d_cap d \<and> d_pos d' = d_pos d + length xs \<and>
     take (d_pos d + length xs) (d_out d') = take (d_pos d) (d_out d) @ xs"

lemma emits_trans: "emits a xs b \<Longrightarrow> emits b ys c \<Longrightarrow> emits a (xs @ ys) c"
  by (auto simp: emits_def add.assoc)

lemma emits_br: "emits d xs d' \<Longrightarrow> br_ok b \<Longrightarrow> emits d xs (d'\<lparr>d_br := b\<rparr>)"
  by (simp add: emits_def base_ok_def)

lemma emitByte_emits:
  assumes "base_ok d" "d_pos d < d_cap d"
  shows "\<exists>d'. emitByte d v = Ret d' \<and> emits d [v] d' \<and> d_br d' = d_br d"
proof -
  have p: "d_pos d < length (d_out d)" using assms by (simp add: base_ok_def)
  let ?d = "d\<lparr>d_out := (d_out d)[d_pos d := v], d_pos := d_pos d + 1, d_p2 := d_p1 d, d_p1 := v\<rparr>"
  have "emitByte d v = Ret ?d" using assms p by (simp add: emitByte_def)
  moreover have "emits d [v] ?d" using assms p by (simp add: emits_def base_ok_def take_Suc_conv_app_nth)
  ultimately show ?thesis by auto
qed

lemma concat_byteBits_Cons: "concat (map byteBits (x # xs)) = byteBits x @ concat (map byteBits xs)"
  by simp

lemma byteBits_inj: "byteBits x = byteBits y \<Longrightarrow> x = y"
  by (rule bit_word_eqI) (auto simp: byteBits_def)

lemma concat_byteBits_inj: "concat (map byteBits xs) = concat (map byteBits ys) \<Longrightarrow> xs = ys"
proof (induction xs arbitrary: ys)
  case (Cons x xs)
  have "length xs + 1 = length ys" using arg_cong [OF Cons.prems, of length] by simp
  then obtain y zs where y: "ys = y # zs" by (cases ys) auto
  then have "byteBits x = byteBits y \<and> concat (map byteBits xs) = concat (map byteBits zs)" using Cons.prems by (simp add: append_eq_append_conv)
  then show ?case using Cons.IH byteBits_inj y by blast
qed (use length_concat_byteBits in \<open>metis length_0_conv length_map list.size(3) concat.simps(1) list.map(1) mult_is_0 zero_neq_numeral\<close>)

text \<open>The low byte of the accumulator is the next byte.\<close>

lemma acc_byte:
  assumes "8 \<le> br_bits b" "bitsLeft b = byteBits x @ ys"
  shows "ucast (br_acc b AND 0xff) = x"
proof (rule bit_word_eqI)
  fix i :: nat assume "i < LENGTH(8)"
  then have i: "i < 8" by simp
  have "bitsLeft b ! i = bit (br_acc b) i" using assms(1) i by (simp add: bitsLeft_def accBits_def nth_append)
  moreover have "bitsLeft b ! i = bit x i" using assms(2) i by (simp add: nth_append byteBits_def)
  moreover have m: "(0xff :: u64) = mask 8" by (simp add: mask_eq_exp_minus_1)
  ultimately show "bit (ucast (br_acc b AND 0xff) :: byte) i \<longleftrightarrow> bit x i" unfolding m using i by (simp add: bit_simps)
qed

lemma emits_refl: "base_ok d \<Longrightarrow> emits d [] d"
  by (simp add: emits_def)

lemma copyAcc_known:
  "\<lbrakk>base_ok d; bitsLeft (d_br d) = concat (map byteBits (xs @ ys)); d_pos d + length xs \<le> d_cap d\<rbrakk> \<Longrightarrow>
    \<exists>d' us vs. xs = us @ vs \<and> copyAcc d (length xs) = Ret (d', length vs) \<and> emits d us d' \<and>
      bitsLeft (d_br d') = concat (map byteBits (vs @ ys)) \<and> (vs \<noteq> [] \<longrightarrow> br_bits (d_br d') < 8)"
proof (induction xs arbitrary: d)
  case Nil
  then show ?case using emits_refl by force
next
  case (Cons x xs)
  show ?case
  proof (cases "8 \<le> br_bits (d_br d)")
    case True
    have v: "ucast (br_acc (d_br d) AND 0xff) = x" using acc_byte [OF True] Cons.prems(2) by simp
    obtain d1 where d1: "emitByte d x = Ret d1" "emits d [x] d1" "d_br d1 = d_br d" using emitByte_emits [OF Cons.prems(1), of x] Cons.prems(3) by auto
    have ok: "br_ok (d_br d)" using Cons.prems(1) by (simp add: base_ok_def)
    note drp = brDrop_bits [OF ok True]
    let ?d = "d1\<lparr>d_br := brDrop (d_br d) 8\<rparr>"
    have e: "emits d [x] ?d" using emits_br [OF d1(2)] drp by simp
    then have "base_ok ?d" "d_pos ?d + length xs \<le> d_cap ?d" using Cons.prems(3) by (simp_all add: emits_def)
    moreover have "bitsLeft (d_br ?d) = concat (map byteBits (xs @ ys))" using drp Cons.prems(2) by simp
    ultimately obtain d' us vs where r: "xs = us @ vs" "copyAcc ?d (length xs) = Ret (d', length vs)" "emits ?d us d'"
      "bitsLeft (d_br d') = concat (map byteBits (vs @ ys))" "vs \<noteq> [] \<longrightarrow> br_bits (d_br d') < 8" using Cons.IH by blast
    have "copyAcc d (length (x # xs)) = Ret (d', length vs)" using True v d1(1,3) r(2) by simp
    moreover have "emits d (x # us) d'" using emits_trans [OF e r(3)] by simp
    ultimately show ?thesis using r by (intro exI [of _ d'] exI [of _ "x # us"] exI [of _ vs]) simp
  next
    case False
    then have "copyAcc d (length (x # xs)) = Ret (d, length (x # xs))" by simp
    then show ?thesis using False Cons.prems emits_refl by (intro exI [of _ d] exI [of _ "[]"] exI [of _ "x # xs"]) simp
  qed
qed

lemma copyIn_known:
  "\<lbrakk>base_ok d; drop (br_p (d_br d)) (br_in (d_br d)) = xs @ ys; d_pos d + length xs \<le> d_cap d\<rbrakk> \<Longrightarrow>
    \<exists>d'. copyIn d (length xs) = Ret d' \<and> emits d xs d' \<and> d_br d' = (d_br d)\<lparr>br_p := br_p (d_br d) + length xs\<rparr>"
proof (induction xs arbitrary: d)
  case Nil
  then show ?case using emits_refl by simp
next
  case (Cons x xs)
  let ?b = "d_br d"
  have i: "br_p ?b < length (br_in ?b)" using Cons.prems(2) by (metis Cons_eq_appendI drop_all list.distinct(1) not_le)
  have x: "br_in ?b ! br_p ?b = x" using Cons.prems(2) i by (metis Cons_eq_appendI Cons_nth_drop_Suc list.inject)
  obtain d1 where d1: "emitByte d x = Ret d1" "emits d [x] d1" "d_br d1 = ?b" using emitByte_emits [OF Cons.prems(1), of x] Cons.prems(3) by auto
  let ?d = "d1\<lparr>d_br := ?b\<lparr>br_p := br_p ?b + 1\<rparr>\<rparr>"
  have "br_ok (?b\<lparr>br_p := br_p ?b + 1\<rparr>)" using Cons.prems(1) i by (simp add: base_ok_def br_ok_def)
  then have e: "emits d [x] ?d" using emits_br [OF d1(2)] by simp
  then have "base_ok ?d" "d_pos ?d + length xs \<le> d_cap ?d" using Cons.prems(3) by (simp_all add: emits_def)
  moreover have "drop (br_p (d_br ?d)) (br_in (d_br ?d)) = xs @ ys" using Cons.prems(2) i by (simp add: drop_Suc flip: tl_drop)
  ultimately obtain d' where r: "copyIn ?d (length xs) = Ret d'" "emits ?d xs d'" "d_br d' = (d_br ?d)\<lparr>br_p := br_p (d_br ?d) + length xs\<rparr>"
    using Cons.IH by blast
  have "copyIn d (length (x # xs)) = Ret d'" using i x d1(1,3) r(1) by simp
  moreover have "emits d (x # xs) d'" using emits_trans [OF e r(2)] by simp
  ultimately show ?case using r(3) by simp
qed

lemma copyRaw_known:
  assumes d: "base_ok d" and bits: "bitsLeft (d_br d) = replicate pad False @ concat (map byteBits (xs @ ys))" "pad < 8"
    and n: "unat mlen = length xs" "d_pos d + length xs \<le> d_cap d"
  shows "\<exists>d'. copyRaw d mlen = Ret d' \<and> emits d xs d' \<and> bitsLeft (d_br d') = concat (map byteBits ys)"
proof -
  let ?b = "d_br d"
  have ok: "br_ok ?b" using d by (simp add: base_ok_def)
  have "br_bits ?b + 8 * (length (br_in ?b) - br_p ?b) = pad + 8 * length (xs @ ys)"
    using arg_cong [OF bits(1), of length] unfolding length_bitsLeft length_append length_concat_byteBits by simp
  then have "br_bits ?b mod 8 = pad" using bits(2) by (metis mod_less mod_mult_self2)
  then have al: "brAlign ?b = brDrop ?b pad" "pad \<le> br_bits ?b"
    by (auto simp: brAlign_def Let_def brDrop_def)
  let ?d = "d\<lparr>d_br := brAlign ?b\<rparr>"
  have ab: "br_ok (brAlign ?b)" "bitsLeft (brAlign ?b) = concat (map byteBits (xs @ ys))"
    using brDrop_bits [OF ok al(2)] bits(1) by (simp_all add: al(1))
  have e0: "emits d [] ?d" using emits_br [OF emits_refl [OF d] ab(1)] .
  then have b0: "base_ok ?d" by (simp add: emits_def)
  have pre: "bitsLeft (d_br ?d) = concat (map byteBits (xs @ ys))" "d_pos ?d + length xs \<le> d_cap ?d" using ab(2) n(2) by simp_all
  obtain d1 us vs where c: "xs = us @ vs" "copyAcc ?d (length xs) = Ret (d1, length vs)" "emits ?d us d1"
    "bitsLeft (d_br d1) = concat (map byteBits (vs @ ys))" "vs \<noteq> [] \<longrightarrow> br_bits (d_br d1) < 8"
    using copyAcc_known [OF b0 pre] by blast
  have e1: "emits d us d1" using emits_trans [OF e0 c(3)] by simp
  then have b1: "base_ok d1" "d_pos d1 + length vs \<le> d_cap d1" using n(2) c(1) by (simp_all add: emits_def)
  have p1: "br_p (d_br d1) \<le> length (br_in (d_br d1))" using b1 by (simp add: base_ok_def br_ok_def)
  show ?thesis
  proof (cases "vs = []")
    case True
    then have "copyRaw d mlen = Ret d1" using c(2) n(1) b1(2) p1 by (simp add: copyRaw_def)
    then show ?thesis using e1 c(1,4) True by simp
  next
    case False
    have "br_bits (d_br d1) + 8 * (length (br_in (d_br d1)) - br_p (d_br d1)) = 8 * length (vs @ ys)"
      using arg_cong [OF c(4), of length] unfolding length_bitsLeft length_concat_byteBits by simp
    then have "br_bits (d_br d1) mod 8 = 0" by (metis mod_mult_self2 mod_mult_self1_is_0)
    then have z: "br_bits (d_br d1) = 0" using c(5) False by simp
    then have "concat (map byteBits (drop (br_p (d_br d1)) (br_in (d_br d1)))) = concat (map byteBits (vs @ ys))"
      using c(4) by (simp add: bitsLeft_def accBits_def)
    then have inp: "drop (br_p (d_br d1)) (br_in (d_br d1)) = vs @ ys" by (rule concat_byteBits_inj)
    obtain d2 where r: "copyIn d1 (length vs) = Ret d2" "emits d1 vs d2" "d_br d2 = (d_br d1)\<lparr>br_p := br_p (d_br d1) + length vs\<rparr>"
      using copyIn_known [OF b1(1) inp b1(2)] by blast
    have "length vs \<le> length (br_in (d_br d1)) - br_p (d_br d1)" using arg_cong [OF inp, of length] by simp
    then have "copyRaw d mlen = Ret d2" using c(2) n(1) b1(2) p1 r(1) by (simp add: copyRaw_def Let_def)
    moreover have "drop (br_p (d_br d2)) (br_in (d_br d2)) = ys" using inp r(3) by (simp add: add.commute flip: drop_drop)
    then have "bitsLeft (d_br d2) = concat (map byteBits ys)" using z r(3) by (simp add: bitsLeft_def accBits_def)
    moreover have "emits d xs d2" using emits_trans [OF e1 r(2)] c(1) by simp
    ultimately show ?thesis by blast
  qed
qed

section \<open>A stream of one uncompressed meta-block\<close>

lemma metaLoop_step:
  assumes "decodeMetablockHeader (d_br d) = Ret (mh, b)" "metaBlock (d\<lparr>d_br := b\<rparr>) mh = Ret (d', fin)"
  shows "metaLoop (Suc f) d = (if fin then Ret d' else metaLoop f d')"
  using assms by simp

text \<open>The byte that follows the payload is the empty last meta-block.\<close>

lemma lastBlock_known:
  assumes "br_ok b" "bitsLeft b = byteBits 3"
  shows "\<exists>b'. decodeMetablockHeader b = Ret (\<lparr>mb_mlen = 0, mb_isLast = True, mb_isUncomp = False, mb_isMeta = False\<rparr>, b')"
proof -
  have e: "byteBits 3 = [True] @ [True] @ replicate 6 False"
    by code_simp
  obtain b1 where b1: "brRead b 1 = Ret (1, b1)" "br_ok b1" "bitsLeft b1 = [True] @ replicate 6 False"
    using read_known [OF assms(1), of "[True]" "[True] @ replicate 6 False" 1] assms(2) e by (auto simp: bitsVal_bit)
  obtain b2 where b2: "brRead b1 1 = Ret (1, b2)"
    using read_known [OF b1(2,3), of 1] by (auto simp: bitsVal_bit)
  show ?thesis using b1(1) b2 by (simp add: decodeMetablockHeader_def Let_def)
qed

lemma metaBlock_last [simp]:
  "metaBlock d \<lparr>mb_mlen = 0, mb_isLast = True, mb_isUncomp = False, mb_isMeta = False\<rparr> = Ret (d, True)"
  by (simp add: metaBlock_def)

lemma newDec_ok: "globals_ok g \<Longrightarrow> base_ok (newDec g inp out)"
  by (simp add: base_ok_def newDec_def br_ok_def)

lemma bitsLeft_newDec: "bitsLeft (d_br (newDec g inp out)) = concat (map byteBits inp)"
  by (simp add: newDec_def bitsLeft_def accBits_def)

text \<open>The decoder on the bytes of one uncompressed meta-block.\<close>

lemma decode_uncompressed:
  assumes g: "globals_ok g" and nib: "nib < 2" "nbits = 4 * (nib + 4)"
    and m1: "unat m1 < 2 ^ nbits" "nib = 1 \<longrightarrow> 2 ^ 16 \<le> unat m1" "length xs = unat m1 + 1" and n: "length xs \<le> length out"
  shows "\<exists>d. BrotliL2Decompress g (brotliHeader nib m1 nbits @ xs @ [3]) out = Ret (length xs, d) \<and> take (length xs) (d_out d) = xs"
proof -
  let ?inp = "brotliHeader nib m1 nbits @ xs @ [3]"
  let ?d = "newDec g ?inp out"
  let ?mh = "\<lparr>mb_mlen = ucast m1 + 1, mb_isLast = False, mb_isUncomp = True, mb_isMeta = False\<rparr> :: metaHeader"
  have b0: "base_ok ?d" using newDec_ok [OF g] .
  then have br0: "br_ok (d_br ?d)" unfolding base_ok_def by blast
  have nb: "nbits = 16 \<or> nbits = 20" "nib < 4" "nbits \<le> 24" using nib by (auto simp: less_Suc_eq numeral_2_eq_2)
  obtain pad where pad: "pad < 8" "concat (map byteBits (brotliHeader nib m1 nbits)) = headerBits nib m1 nbits @ replicate pad False"
    using brotliHeader_bits [OF m1(1) nb(2,1)] by blast
  have bits: "bitsLeft (d_br ?d) = [False] @ (drop 1 (headerBits nib m1 nbits) @ (replicate pad False @ concat (map byteBits (xs @ [3]))))"
    using pad(2) by (simp add: bitsLeft_newDec headerBits_def)
  obtain b1 where b1: "brRead (d_br ?d) 1 = Ret (0, b1)" "br_ok b1"
    "bitsLeft b1 = drop 1 (headerBits nib m1 nbits) @ (replicate pad False @ concat (map byteBits (xs @ [3])))"
    using read_known [OF br0 bits, of 1] by (auto simp: bitsVal_bit)
  have win: "decodeWindowBits (d_br ?d) = Ret (16, b1)" using b1(1) by (simp add: decodeWindowBits_def)
  let ?d1 = "?d\<lparr>d_br := b1, d_wsize := push_bit (unat (16 :: u32)) 1 - 16\<rparr>"
  obtain b2 where b2: "decodeMetablockHeader b1 = Ret (?mh, b2)" "br_ok b2" "bitsLeft b2 = replicate pad False @ concat (map byteBits (xs @ [3]))"
    using decodeMetablockHeader_known [OF b1(2,3) nib m1(1,2)] by blast
  let ?d2 = "?d1\<lparr>d_br := b2\<rparr>"
  have ok2: "base_ok ?d2" using b0 b2(2) by (simp add: base_ok_def)
  have pos: "d_pos ?d2 = 0" "d_cap ?d2 = length out" by (simp_all add: newDec_def)
  have len: "unat (ucast m1 + 1 :: u32) = length xs"
  proof -
    have "unat m1 < 2 ^ 24" using m1(1) power_increasing [OF nb(3), of "2 :: nat"] by linarith
    then have "unat (ucast m1 :: u32) = unat m1" by (simp add: unsigned_ucast_eq take_bit_nat_eq_self)
    then show ?thesis using m1(3) \<open>unat m1 < 2 ^ 24\<close> by (simp add: unat_word_ariths)
  qed
  have "bitsLeft (d_br ?d2) = replicate pad False @ concat (map byteBits (xs @ [3]))" using b2(3) by simp
  moreover have "d_pos ?d2 + length xs \<le> d_cap ?d2" using n pos by linarith
  ultimately obtain d3 where d3: "copyRaw ?d2 (ucast m1 + 1) = Ret d3" "emits ?d2 xs d3" "bitsLeft (d_br d3) = concat (map byteBits [3])"
    using copyRaw_known [OF ok2 _ pad(1) len] by blast
  have "\<not> int (d_cap ?d2) - int (d_pos ?d2) < int (unat (ucast m1 + 1 :: u32))" using n pos unfolding len by linarith
  then have mb: "metaBlock ?d2 ?mh = Ret (d3, False)" unfolding metaBlock_def Let_def using d3(1) pos by (simp del: of_nat_unat)
  have "br_ok (d_br d3)" using d3(2) by (simp add: emits_def base_ok_def)
  then obtain b4 where b4: "decodeMetablockHeader (d_br d3) = Ret (\<lparr>mb_mlen = 0, mb_isLast = True, mb_isUncomp = False, mb_isMeta = False\<rparr>, b4)"
    using lastBlock_known d3(3) by auto
  have "metaLoop (Suc (Suc f)) ?d1 = Ret (d3\<lparr>d_br := b4\<rparr>)" for f
    using metaLoop_step [of ?d1 ?mh b2 d3 False "Suc f"] metaLoop_step [OF b4 metaBlock_last, of f] b2(1) mb by simp
  moreover have "\<exists>f. 8 * length ?inp + 1 = Suc (Suc f)" by simp
  ultimately have "metaLoop (8 * length ?inp + 1) ?d1 = Ret (d3\<lparr>d_br := b4\<rparr>)" by metis
  then have "BrotliL2Decompress g ?inp out = Ret (d_pos d3, d3\<lparr>d_br := b4\<rparr>)"
    using win unfolding BrotliL2Decompress_def Let_def by simp
  moreover have "d_pos d3 = length xs" "take (length xs) (d_out d3) = xs" using d3(2) pos(1) by (simp_all add: emits_def)
  ultimately show ?thesis by auto
qed

text \<open>What \<open>brotliUncompressed\<close> writes, the decoder reads back.\<close>

lemma brotliUncompressed_Inr:
  assumes "brotliUncompressed payload = Inr packed" "payload \<noteq> []"
  shows "length payload \<le> maxBatchPlain \<and> (\<exists>m :: u64. unat m + 1 = length payload \<and>
    (if m < 2 ^ 16 then packed = brotliHeader 0 m 16 @ payload @ [3] else packed = brotliHeader 1 m 20 @ payload @ [3]))"
proof -
  define m :: u64 where "m = of_nat (length payload - 1)"
  have l: "length payload \<le> maxBatchPlain" "0 < length payload"
    using assms by (auto simp: brotliUncompressed_def Let_def split: if_splits)
  then have u: "unat m + 1 = length payload" by (simp add: m_def unat_of_nat maxBatchPlain_def)
  then have "unat m < 2 ^ 20" using l(1) by (simp add: maxBatchPlain_def)
  then have "m < 2 ^ 20" unfolding word_less_nat_alt by simp
  then have "if m < 2 ^ 16 then packed = brotliHeader 0 m 16 @ payload @ [3] else packed = brotliHeader 1 m 20 @ payload @ [3]"
    using assms(1) l unfolding brotliUncompressed_def Let_def m_def [symmetric] by (simp split: if_splits)
  then show ?thesis using u l(1) by blast
qed

lemma brotli_roundtrip:
  assumes "brotliUncompressed payload = Inr packed" "globals_ok g" "payload \<noteq> []" "length payload \<le> length out"
  shows "\<exists>d. BrotliL2Decompress g packed out = Ret (length payload, d) \<and> take (length payload) (d_out d) = payload"
proof -
  obtain m :: u64 where l: "length payload \<le> maxBatchPlain" and u: "unat m + 1 = length payload"
    and p: "if m < 2 ^ 16 then packed = brotliHeader 0 m 16 @ payload @ [3] else packed = brotliHeader 1 m 20 @ payload @ [3]"
    using brotliUncompressed_Inr [OF assms(1,3)] by blast
  show ?thesis
  proof (cases "m < 2 ^ 16")
    case True
    then have "unat m < 2 ^ 16" by (simp add: word_less_nat_alt)
    then show ?thesis using decode_uncompressed [OF assms(2), of 0 16 m payload out] u p True assms(4) by simp
  next
    case False
    then have "2 ^ 16 \<le> unat m" "unat m < 2 ^ 20" using l u by (simp_all add: word_less_nat_alt maxBatchPlain_def)
    then show ?thesis using decode_uncompressed [OF assms(2), of 1 20 m payload out] u p False assms(4) by simp
  qed
qed

text \<open>From the transactions to the posted batch and back.\<close>

lemma Pack_posted:
  assumes "Pack (map Some ts) = Inr packed" "globals_ok g"
  shows "\<exists>plain. packPlain (map Some ts) = Inr plain \<and>
    Unpack g packed = Done (case unpackPlain plain of Inl e \<Rightarrow> Inl (BatchError e) | Inr txs \<Rightarrow> Inr txs)"
proof -
  obtain plain where q: "packPlain (map Some ts) = Inr plain" "brotliUncompressed plain = Inr packed"
    using assms(1) by (auto simp: Pack_def split: sum.splits)
  have e: "plain = rlp_enc (RList (map txVal ts))" and l: "length plain \<le> maxBatchPlain"
    using packPlain_enc [OF q(1)] by (metis map_injective option.inject injI)+
  have ne: "plain \<noteq> []" unfolding e by (simp add: rlpList_def RlpEncodeListHeader_def Let_def)
  obtain d where "BrotliL2Decompress g packed (replicate maxBatchPlain 0) = Ret (length plain, d)" "take (length plain) (d_out d) = plain"
    using brotli_roundtrip [OF q(2) assms(2) ne] l by (metis length_replicate)
  then show ?thesis using q(1) ne by (auto simp: Unpack_def split: sum.splits)
qed

lemma Unpack_Pack:
  assumes p: "Pack (map Some ts) = Inr packed" and ok: "\<forall>tx \<in> set ts. tx_ok tx" and g: "globals_ok g"
  shows "Unpack g packed = Done (if length ts \<le> 4096 then Inr (map carried ts) else Inl (BatchError ErrBatchTooLarge))"
  using Pack_posted [OF p g] unpack_pack [OF _ ok] unpack_over [of ts] by fastforce

text \<open>\<open>Pack\<close> does not fail on the plain batch: it is never above the size of the header.\<close>

lemma Pack_succeeds:
  assumes "packPlain txs = Inr plain"
  shows "\<exists>packed. Pack txs = Inr packed"
proof -
  have l: "length plain \<le> maxBatchPlain" using assms by (auto simp: packPlain_def Let_def split: sum.splits if_splits)
  show ?thesis
  proof (cases "plain = []")
    case True
    then show ?thesis using assms by (simp add: Pack_def brotliUncompressed_def)
  next
    case False
    define m :: u64 where "m = of_nat (length plain - 1)"
    have "unat m < 2 ^ 20" using l by (simp add: m_def unat_of_nat maxBatchPlain_def)
    then have "m < 2 ^ 20" unfolding word_less_nat_alt by simp
    moreover have "m < 2 ^ 24" using \<open>unat m < 2 ^ 20\<close> unfolding word_less_nat_alt by simp
    moreover have "length plain \<noteq> 0" "\<not> maxBatchPlain < length plain" using False l by simp_all
    ultimately have "\<exists>packed. brotliUncompressed plain = Inr packed"
      unfolding brotliUncompressed_def Let_def m_def [symmetric] by (simp only: if_False if_True) (simp split: if_split)
    then show ?thesis using assms by (auto simp: Pack_def)
  qed
qed

lemma zeroGlobals_ok [simp]: "globals_ok zeroGlobals"
  by (simp add: globals_ok_def zeroGlobals_def)

end
