(* ===== verification/Log_Example.thy ===== *)
theory Log_Example
  imports Block_Processor
begin

text \<open>
  A contract of five bytes, executed by the model: \<open>PUSH2 0x0801, PUSH0, LOG0\<close> logs 2049 bytes of the empty memory. Each
  instruction is one lemma over an arbitrary frame; \<open>loud_run\<close> is the call of the contract. The block that contains such a
  transaction is the instance of \<open>receipt_overflow\<close> in the root theory.
\<close>

section \<open>The instructions\<close>

definition loud_code :: bytes where
  "loud_code = [0x61, 0x08, 0x01, 0x5f, 0xa0]"

lemma loud_size: "FromBytesBE (replicate 30 0 @ [8, 1]) = FromU64 2049"
  by code_simp

lemma chargeMem_2049: "hostChargeMem f 0 2049 = (if Gas f < 203 then None else Some (f\<lparr>Gas := Gas f - 203, MemorySize := 2080\<rparr>))" if "MemorySize f = 0"
  using that by (simp add: hostChargeMem_def Let_def)

lemma stepBound_own:
  assumes "StateDB f = Some b" "bs_trie b = e_state e"
  shows "stepBound e f code = map_option (\<lambda>f'. (case StateDB f' of None \<Rightarrow> e | Some b \<Rightarrow> e\<lparr>e_state := bs_trie b\<rparr>, f')) (StepOne boundGet boundSet code f)"
proof -
  have "b\<lparr>bs_trie := e_state e\<rparr> = b" using assms(2) by (cases b) simp
  then have "f\<lparr>StateDB := map_option (\<lambda>b. b\<lparr>bs_trie := e_state e\<rparr>) (StateDB f)\<rparr> = f" using assms(1) by (cases f) simp
  then show ?thesis unfolding stepBound_def by (simp only:)
qed

lemma loud_gas: "opGas 0x61 = 3" "opGas 0x5f = 2" "gasInvalid \<noteq> 3" "gasInvalid \<noteq> 2"
  by code_simp+

lemma loud_dispatch: "dispatch get put 0x61 code f = execPush f code 2" "dispatch get put 0x5f code f = pushValue f zero256"
  by (simp_all add: dispatch_def)

lemma loud_push:
  assumes "PC f = 1" "SP f = 0"
  shows "execPush f loud_code 2 = Some (f\<lparr>PC := 3, Stack := (Stack f)(0 := FromU64 2049), SP := 1\<rparr>)"
proof -
  have "push_bytes loud_code 1 2 = ([8, 1], 3)" by code_simp
  then show ?thesis using assms loud_size by (simp add: execPush_def orElse_def requireRoom_def setStack_def Let_def)
qed

lemma loud_code_at: "loud_code ! 0 = 0x61" "loud_code ! 3 = 0x5f" "loud_code ! 4 = 0xa0" "length loud_code = 5"
  by (simp_all add: loud_code_def)

lemma loud_step1:
  assumes "Status f = StatusRunning" "PC f = 0" "SP f = 0" "3 \<le> Gas f"
  shows "StepOne get put loud_code f = Some (f\<lparr>Gas := Gas f - 3, PC := 3, Stack := (Stack f)(0 := FromU64 2049), SP := 1\<rparr>)"
proof -
  have "execPush (f\<lparr>Gas := Gas f - 3, PC := 1\<rparr>) loud_code 2 =
      Some (f\<lparr>Gas := Gas f - 3, PC := 3, Stack := (Stack f)(0 := FromU64 2049), SP := 1\<rparr>)"
    using loud_push [of "f\<lparr>Gas := Gas f - 3, PC := 1\<rparr>"] assms(3) by simp
  then show ?thesis using assms loud_code_at loud_gas by (simp add: StepOne_def Let_def loud_dispatch not_less)
qed

lemma loud_step2:
  assumes "Status f = StatusRunning" "PC f = 3" "SP f = 1" "2 \<le> Gas f"
  shows "StepOne get put loud_code f = Some (f\<lparr>Gas := Gas f - 2, PC := 4, Stack := (Stack f)(1 := zero256), SP := 2\<rparr>)"
  using assms loud_code_at loud_gas by (simp add: StepOne_def Let_def loud_dispatch not_less pushValue_def orElse_def requireRoom_def setStack_def)

lemma asU64_values: "asU64 zero256 = Some 0" "asU64 (FromU64 x) = Some x"
  by (simp_all add: asU64_def FromU64_def zero256_def)

lemma loud_log:
  assumes "SP f = 2" "Stack f 1 = zero256" "Stack f 0 = FromU64 2049" "MemorySize f = 0" "20000 \<le> Gas f" "PC f = 4"
  shows "\<exists>g. execHost rec so e f p code 0xa0 =
    Done (e\<lparr>e_logs := e_logs e @ [\<lparr>l_Address = cp_addr p, l_Topics = [], l_Data = map (Memory f) [0..<2049]\<rparr>]\<rparr>,
      f\<lparr>Gas := g, PC := 5, MemorySize := 2080, SP := 0\<rparr>)"
proof -
  let ?f = "f\<lparr>Gas := Gas f - 375, PC := 5\<rparr>"
  have g: "unat (Gas f - 375) = unat (Gas f) - 375" "20000 \<le> unat (Gas f)"
    using assms(5) by (simp_all add: unat_sub word_le_nat_alt)
  have g1: "\<not> Gas f < 375" "\<not> Gas f - 375 < 203" using g by (simp_all add: word_less_nat_alt)
  have "unat (Gas f - 375 - 203) = unat (Gas f) - 375 - 203" using g g1 by (simp add: unat_sub word_le_nat_alt not_less)
  then have g2: "\<not> Gas f - 375 - 203 < 2049 * 8" using g by (simp add: word_less_nat_alt)
  have mem: "hostChargeMem ?f 0 2049 = Some (?f\<lparr>Gas := Gas f - 375 - 203, MemorySize := 2080\<rparr>)" using chargeMem_2049 [of ?f] assms(4) g1(2) by simp
  have "opLog e ?f (cp_addr p) 0 = Some (e\<lparr>e_logs := e_logs e @ [\<lparr>l_Address = cp_addr p, l_Topics = [], l_Data = map (Memory f) [0..<2049]\<rparr>]\<rparr>,
      f\<lparr>Gas := Gas f - 375 - 203 - 2049 * 8, PC := 5, MemorySize := 2080, SP := 0\<rparr>)"
    using assms mem g2 by (simp add: opLog_def hostRequireStack_def stackAt_def asU64_values memSlice_def gasLogData_def Let_def)
  then show ?thesis using assms(6) g1(1)
    by (intro exI [of _ "Gas f - 375 - 203 - 2049 * 8"]) (simp add: execHost_def hostGas_def gasLog_def)
qed

section \<open>The frame and the call\<close>

lemma loud_frame:
  assumes "\<not> cp_readOnly p" "30000 \<le> cp_gas p"
  shows "\<exists>f2. execFrame (Suc (Suc (Suc (Suc n)))) so e (newFrame e p) p loud_code =
      Done (e\<lparr>e_logs := e_logs e @ [\<lparr>l_Address = cp_addr p, l_Topics = [], l_Data = replicate 2049 0\<rparr>]\<rparr>, f2) \<and>
    Status f2 = StatusSuccess \<and> ReturnDataSize f2 = 0 \<and> (\<exists>b. StateDB f2 = Some b \<and> \<not> bs_wrote b)"
proof -
  let ?f = "newFrame e p" and ?l = "\<lparr>l_Address = cp_addr p, l_Topics = [], l_Data = replicate 2049 0\<rparr>"
  let ?f1 = "?f\<lparr>Gas := cp_gas p - 3, PC := 3, Stack := (\<lambda>_. zero256)(0 := FromU64 2049), SP := 1\<rparr>"
  let ?f2 = "?f1\<lparr>Gas := cp_gas p - 3 - 2, PC := 4, Stack := (\<lambda>_. zero256)(0 := FromU64 2049, 1 := zero256), SP := 2\<rparr>"
  have u: "unat (cp_gas p - 3) = unat (cp_gas p) - 3" "30000 \<le> unat (cp_gas p)" using assms(2) by (simp_all add: unat_sub word_le_nat_alt)
  then have u2: "unat (cp_gas p - 3 - 2) = unat (cp_gas p) - 3 - 2" by (simp add: unat_sub word_le_nat_alt)
  have g: "3 \<le> cp_gas p" "2 \<le> cp_gas p - 3" "20000 \<le> cp_gas p - 3 - 2" unfolding word_le_nat_alt u u2 using u(2) by simp_all
  let ?b = "\<lparr>bs_trie = e_state e, bs_addr = addrToU256 (cp_addr p), bs_readOnly = cp_readOnly p, bs_wrote = False\<rparr>"
  have own: "stepBound e f loud_code =
      map_option (\<lambda>f'. (case StateDB f' of None \<Rightarrow> e | Some b \<Rightarrow> e\<lparr>e_state := bs_trie b\<rparr>, f')) (StepOne boundGet boundSet loud_code f)"
    if "StateDB f = Some ?b" for f by (rule stepBound_own [OF that]) simp
  have s1: "stepBound e ?f loud_code = Some (e, ?f1)"
    using g(1) loud_step1 [of ?f boundGet boundSet] own [of ?f] by (simp add: newFrame_def)
  have s2: "stepBound e ?f1 loud_code = Some (e, ?f2)"
    using g(2) loud_step2 [of ?f1 boundGet boundSet] own [of ?f1] by (simp add: newFrame_def)
  obtain g3 where s3: "execHost (\<lambda>e p. run (Suc n) so e p) so e ?f2 p loud_code 0xa0 =
      Done (e\<lparr>e_logs := e_logs e @ [\<lparr>l_Address = cp_addr p, l_Topics = [], l_Data = map (Memory ?f2) [0..<2049]\<rparr>]\<rparr>,
        ?f2\<lparr>Gas := g3, PC := 5, MemorySize := 2080, SP := 0\<rparr>)"
    using loud_log [of ?f2 "\<lambda>e p. run (Suc n) so e p" so e p loud_code] g(3) by (auto simp: newFrame_def)
  let ?f3 = "?f2\<lparr>Gas := g3, PC := 5, MemorySize := 2080, SP := 0\<rparr>"
  have m: "map (Memory ?f2) [0..<2049] = replicate 2049 0" by (simp add: newFrame_def map_replicate_const)
  have host: "isHostOp 0xa0" "\<not> isHostOp 0x61" "\<not> isHostOp 0x5f" by (simp_all add: isHostOp_def)
  have st: "Status ?f = StatusRunning" "PC ?f = 0" by (simp_all add: newFrame_def)
  have "execFrame (Suc n) so (e\<lparr>e_logs := e_logs e @ [?l]\<rparr>) ?f3 p loud_code = Done (e\<lparr>e_logs := e_logs e @ [?l]\<rparr>, ?f3\<lparr>Status := StatusSuccess\<rparr>)"
    using st(1) by (simp add: loud_code_at)
  then have "execFrame (Suc (Suc n)) so e ?f2 p loud_code = Done (e\<lparr>e_logs := e_logs e @ [?l]\<rparr>, ?f3\<lparr>Status := StatusSuccess\<rparr>)"
    using s3 [unfolded m] host(1) st(1) assms(1) by (simp add: loud_code_at Let_def del: execFrame.simps(2)) (simp add: loud_code_at Let_def)
  then have "execFrame (Suc (Suc (Suc n))) so e ?f1 p loud_code = Done (e\<lparr>e_logs := e_logs e @ [?l]\<rparr>, ?f3\<lparr>Status := StatusSuccess\<rparr>)"
    using s2 host(3) st(1) assms(1) by (subst execFrame.simps) (simp add: loud_code_at Let_def del: execFrame.simps)
  then have "execFrame (Suc (Suc (Suc (Suc n)))) so e ?f p loud_code = Done (e\<lparr>e_logs := e_logs e @ [?l]\<rparr>, ?f3\<lparr>Status := StatusSuccess\<rparr>)"
    using s1 host(2) st assms(1) by (subst execFrame.simps) (simp add: loud_code_at Let_def del: execFrame.simps)
  then show ?thesis by (simp add: newFrame_def)
qed

lemma clean_keeps_logs: "e_logs (cleanTouchedEmptyAccounts so ts ss e) = e_logs e"
proof -
  have "e_logs (cleanTouched so ts e) = e_logs e" by (induction so ts e rule: cleanTouched.induct) auto
  moreover have "e_logs (cleanSuicided so ss e) = e_logs e" for e by (induction so ss e rule: cleanSuicided.induct) auto
  ultimately show ?thesis by (simp add: cleanTouchedEmptyAccounts_def)
qed

lemma loud_run:
  assumes "cp_kind p = 0xf1" "IsZero (cp_callVal p)" "cp_codeAddr p = zeroAddress" "isPrecompile (cp_addr p) = None" "\<not> cp_readOnly p"
    and "Code (accountOf e (cp_addr p)) = loud_code" "e_depth e < maxCallDepth" "30000 \<le> cp_gas p"
  shows "\<exists>e' g. run 5 so e p = Done ([], g, True, e') \<and>
    e_logs e' = e_logs e @ [\<lparr>l_Address = cp_addr p, l_Topics = [], l_Data = replicate 2049 0\<rparr>]"
proof -
  let ?e = "e\<lparr>e_depth := e_depth e + 1\<rparr>" and ?l = "\<lparr>l_Address = cp_addr p, l_Topics = [], l_Data = replicate 2049 0\<rparr>"
  obtain e1 m where en: "enterCall ?e p = (e1, m, None)" "accounts (e_state e1) = accounts (e_state e)" "e_logs e1 = e_logs e"
    using assms(1,2) by (simp add: enterCall_def takeMarks_def transfer_def Let_def isCreate_def Snapshot_def touch_def)
  have "Code (accountOf e1 (cp_addr p)) = loud_code"
    using assms(6) en(2) by (simp add: accountOf_def GetAccount_def del: normalizeAddr.simps)
  then have code: "codeOf e1 (cp_addr p) = loud_code" using assms(4) by (simp add: codeOf_def)
  obtain f2 b where f2: "execFrame 4 so e1 (newFrame e1 p) p loud_code = Done (e1\<lparr>e_logs := e_logs e1 @ [?l]\<rparr>, f2)"
    "Status f2 = StatusSuccess" "ReturnDataSize f2 = 0" "StateDB f2 = Some b" "\<not> bs_wrote b"
    using loud_frame [OF assms(5,8), of 0 so e1] by (auto simp: numeral_eq_Suc)
  have lv: "leaveCall e2 f2 p m = Done ([], Gas f2, True, e2\<lparr>e_refund := e_refund e2 + Refund f2, e_retData := []\<rparr>)" for e2
    using f2(2-5) assms(1) by (simp add: leaveCall_def frameResult_def isCreate_def Let_def)
  have "runBody 4 so ?e p = Done ([], Gas f2, True, e1\<lparr>e_logs := e_logs e1 @ [?l], e_refund := e_refund e1 + Refund f2, e_retData := []\<rparr>)"
    using en(1) code f2(1) lv assms(1,3,4) loud_code_at(4) by (auto simp: runBody_def isCreate_def Let_def)
  then show ?thesis using assms(7) en(3) run_Suc [of 4 so e p] by (simp add: leaveDepth_def not_le)
qed

end
