(* ===== verification/Spec2Isabelle.thy ===== *)
theory Spec2Isabelle
  imports Instructions Sequencer Batch_Unpack Log_Example
begin

text \<open>
  This development models the roll-up node under src/pkg: its 256-bit arithmetic, its
  hash, the EVM stepper, the journaled state, the RLP batch format and the sequencer's
  components, function by function, and proves them correct. Every definition carries
  the name of the Go function it translates.

  Theories, in the order of the calls:

  \<^item> \<open>Prelude\<close>: bytes and machine words, the carry functions of \<open>math/bits\<close>, big-endian
    bytes, values of limb lists, the error monad \<open>andThen\<close>/\<open>guard\<close>.
  \<^item> \<open>Uint256\<close> (\<open>evm256/uint256.go\<close>, \<open>bitwise.go\<close>, the first half of \<open>arith.go\<close>): a
    \<open>Uint256\<close> is four 64-bit limbs; \<open>uval\<close> is its value and \<open>word_of\<close> the 256-bit word it
    stands for. Each operation is proved to refine the word operation.
  \<^item> \<open>Division\<close>, \<open>Division_Correct\<close> (\<open>arith.go\<close>): reciprocals, quotient digits and the loop of
    \<open>udivrem\<close>, and the exactness of quotient and remainder for every operand.
  \<^item> \<open>Keccak\<close> (\<open>c2crypto/keccak.go\<close>): the unrolled permutation and the sponge, equal to the
    step-wise definition of Keccak.
  \<^item> \<open>Stepper\<close>, \<open>Stepper_Correct\<close>, \<open>Instructions\<close> (\<open>c2evm\<close>): the frame and \<open>StepOne\<close>. An index out of
    range, a panic in Go, is the result \<open>None\<close>. The contract of the arithmetic with the
    stepper is the pair of locales \<open>word_binop\<close>/\<open>word_cmp\<close>, interpreted on every operation;
    the contract of the storage is the locale \<open>state_accessor\<close>, interpreted on the trie.
  \<^item> \<open>State_Trie\<close> (\<open>statetrie/state_trie.go\<close>): accounts, storage, journal, snapshots. The locale
    \<open>journaled\<close> is what every mutation promises to the journal.
  \<^item> \<open>Rlp\<close>, \<open>Batch_Poster\<close> (\<open>c2crypto/mpt.go\<close>, \<open>c2seq/batch_poster.go\<close>): RLP, its decoder, and
    the batches of transactions.
  \<^item> \<open>Brotli_Reader\<close>, \<open>Brotli\<close> (\<open>c2crypto/brotli.go\<close>): the decompressor of posted batches: the bit reader, whose meaning is
    the list \<open>bitsLeft\<close> of the bits to come, prefix codes, block types, commands and the loop over the meta-blocks. The global
    arrays of the package are the record \<open>brotliGlobals\<close>, an argument and part of the result. \<open>Brotli_Safe\<close> and
    \<open>Brotli_Total\<close> show with the predicate \<open>ends\<close> that it neither panics nor runs out of fuel on any input.
  \<^item> \<open>Batch_Unpack\<close> (\<open>c2seq/batch_poster.go\<close>): \<open>Unpack\<close> with that decoder, and the round trip with \<open>Pack\<close>.
  \<^item> \<open>Patricia\<close> (\<open>c2crypto/mpt.go\<close>, the trie of \<open>c2block/block_processor.go\<close>): node encoders and the Merkle
    Patricia trie, its meaning as a map (\<open>node_get\<close>) and its canonical shape (\<open>canon\<close>).
  \<^item> \<open>Arena\<close> (\<open>statetrie/arena.go\<close>, the root computation of \<open>state_trie.go\<close>): the same insertion with nodes and
    bytes from a bounded arena. The orders in which Go iterates the two maps are arguments.
  \<^item> \<open>Secp256k1\<close> (\<open>c2crypto/secp256k1.go\<close>): the field on limbs, points in Jacobian coordinates, recovery of public
    keys. The field operations are exact, the group operations stay on the curve.
  \<^item> \<open>Hashes\<close>, \<open>Curves\<close>, \<open>Precompiles\<close> (\<open>c2block/precompiles.go\<close>): RIPEMD-160, BLAKE2b and, from the standard
    library, SHA-256; alt_bn128 with its pairing and G1 of BLS12-381 over \<open>math/big\<close>; the ten contracts and their
    gas.
  \<^item> \<open>Call_Context\<close>, \<open>Call_Correct\<close> (\<open>c2block/call_context.go\<close>): the environment of a transaction, message calls and
    contract creation. \<open>run\<close> and \<open>execFrame\<close> are mutually recursive as in the code, \<open>run\<close> calls \<open>RunPrecompile\<close> and
    \<open>execFrame\<close> lends the state to \<open>StepOne\<close>. The locale \<open>call_runner\<close> is what an instruction that starts a call relies on:
    a failed call restores the state, gas never grows, and half of the fuel is enough; it is interpreted on \<open>run\<close> itself.
  \<^item> \<open>Block_Processor\<close> (\<open>c2block/block_processor.go\<close>): fees, transactions, blocks, blooms and receipts.
  \<^item> \<open>Log_Example\<close>: a contract that logs 2049 bytes, run by the model, for the block that panics on its receipt.
  \<^item> \<open>Mempool\<close> (\<open>c2seq/mempool.go\<close>): the pool, its invariant and the selection of a batch.
  \<^item> \<open>Retryable\<close> (\<open>c2seq/retryable.go\<close>): checked gas arithmetic and the life of tickets.
  \<^item> \<open>Sequencer\<close> (\<open>c2seq/sequencer.go\<close>, \<open>timeboost.go\<close>): the express lane, the delayed inbox, and \<open>ProduceBlock\<close>, which
    selects the batch, has it processed as a block and packs it.

  Panics and errors: an error that the code returns is a value of a sum type; a Go panic is \<open>None\<close>, or \<open>Panic\<close>
  of the type \<open>outcome\<close> where fuel is also needed.

  Fuel: \<open>run_for\<close> is the caller's loop over \<open>StepOne\<close>, cut after \<open>n\<close> steps; \<open>Gas + 1\<close> steps are
  proved enough. \<open>rlpDecode\<close> runs its recursion with \<open>2 * length + 1\<close>, proved enough for every
  input. \<open>PopBatch\<close> runs its outer loop once more than there are transactions, proved enough. \<open>run\<close> needs
  \<open>2 * gas + 3\<close>: every pass of a frame costs gas and a call gets less gas than its caller has. The loop over the
  meta-blocks runs with \<open>8 * length + 1\<close>, since every header takes a bit. All other loops are structural or carry a
  measure.

  Not modelled: mutexes (every exported operation holds one lock for its whole body, so operations are atomic), the
  network and web servers and the test runners; storage proofs, which only read the modelled tries; the decoder of raw
  transactions, since the modelled components take transactions as records; and the one-step witness, its
  serialisation and verification, around the execution of a step by \<open>StepOne\<close>.
\<close>

section \<open>The EVM stepper\<close>

lemma frame_ok_frame0: "length st \<le> 1024 \<Longrightarrow> frame_ok (frame0 db gas st)"
  by (simp add: frame_ok_def frame0_def)

text \<open>C1: on a well-formed frame (stack pointer within the stack, memory size a multiple of 32 up to 65536)
  \<open>StepOne\<close> never panics and leaves a well-formed frame; gas never grows, an exceptional halt leaves no gas,
  and an instruction after which the frame still runs has cost gas.\<close>

theorem step_safe:
  assumes "frame_ok f"
  shows "\<exists>f'. StepOne get put code f = Some f' \<and> frame_ok f' \<and> Gas f' \<le> Gas f \<and>
    (Status f = StatusRunning \<and> exceptional (Status f') \<longrightarrow> Gas f' = 0) \<and>
    (Status f = StatusRunning \<and> Status f' = StatusRunning \<longrightarrow> Gas f' < Gas f)"
  using StepOne_good [OF assms, of get put code] by metis

theorem step_safe_witness:
  "\<exists>f'. StepOne GetStorage SetStorage [0x01] (frame0 (Some NewStateTrie) 100 [FromU64 1, FromU64 2]) = Some f' \<and> frame_ok f'"
  using step_safe [OF frame_ok_frame0, of "[FromU64 1, FromU64 2]" GetStorage SetStorage "[0x01]" "Some NewStateTrie" 100] by auto

text \<open>C2: the loop that calls \<open>StepOne\<close> while the frame runs ends within \<open>Gas + 1\<close> steps, without a panic.\<close>

theorem run_terminates:
  assumes "frame_ok f" "unat (Gas f) < n"
  shows "\<exists>h. run_for get put code n f = Some h \<and> Status h \<noteq> StatusRunning \<and> frame_ok h \<and> Gas h \<le> Gas f"
  using run_for_halts [OF assms] .

theorem run_terminates_witness:
  "\<exists>h. run_for GetStorage SetStorage [0x5b, 0x60, 0x00, 0x56] 101 (frame0 (Some NewStateTrie) 100 []) = Some h \<and>
     Status h \<noteq> StatusRunning"
  using run_terminates [OF frame_ok_frame0, of "[]" "Some NewStateTrie" 100 101] by (simp add: frame0_def) blast

text \<open>C3: a whole step on one of the opcodes ADD, MUL, SUB, DIV, SDIV, MOD, SMOD, AND, OR, XOR, SHL, SHR, SAR,
  LT, GT, SLT, SGT and EQ replaces the two topmost words of the stack by the result of the operation on 256-bit
  words (the topmost word is the first operand), keeps the rest of the stack, and charges the gas of the opcode.\<close>

theorem step_computes:
  assumes "stack_op op = Some g" "frame_ok f" "2 \<le> SP f" "Status f = StatusRunning"
    and "unat (PC f) < length code" "code ! unat (PC f) = op" "opGas op \<le> Gas f"
  shows "\<exists>f'. StepOne get put code f = Some f' \<and> SP f' = SP f - 1 \<and>
    word_of (Stack f' (nat (SP f - 2))) = g (word_of (Stack f (nat (SP f - 1)))) (word_of (Stack f (nat (SP f - 2)))) \<and>
    (\<forall>i. i \<noteq> nat (SP f - 2) \<longrightarrow> Stack f' i = Stack f i) \<and> Gas f' = Gas f - opGas op \<and> Status f' = StatusRunning"
  using StepOne_stack_op [OF assms] assms(4) by (simp add: replaces_two_def)

theorem step_computes_witness:
  "\<exists>f'. StepOne GetStorage SetStorage [0x03] (frame0 (Some NewStateTrie) 100 [FromU64 3, FromU64 2]) = Some f' \<and>
     word_of (Stack f' 0) = - 1 \<and> Gas f' = 97"
proof -
  have o: "stack_op 0x03 = Some (-)" "opGas 0x03 = 3" by (simp_all add: stack_op_def word_op_def opGas_def)
  show ?thesis
    using step_computes [OF o(1), of "frame0 (Some NewStateTrie) 100 [FromU64 3, FromU64 2]" "[0x03]" GetStorage SetStorage]
    by (auto simp: frame_ok_frame0 o(2)) (auto simp: frame0_def word_of_FromU64)
qed

text \<open>C4: memory expansion over natural numbers. No intermediate 64-bit value wraps: \<open>chargeMem\<close> fails exactly when
  the range ends above 65536 or the gas does not cover the difference of the quadratic costs, and otherwise charges
  that difference and grows the memory to the next multiple of 32.\<close>

theorem memory_charge:
  fixes off sz :: u64 and f :: "'db ExecutionFrame"
  assumes "frame_ok f"
  shows "chargeMem f off sz =
    (let need = (unat off + unat sz + 31) div 32; old = unat (MemorySize f) div 32
     in if sz = 0 then Some f
        else if 65536 < unat off + unat sz then None
        else if need \<le> old then Some f
        else if unat (Gas f) < mem_cost need - mem_cost old then None
        else Some (f\<lparr>Gas := Gas f - of_nat (mem_cost need - mem_cost old), MemorySize := of_nat (32 * need)\<rparr>))"
  using chargeMem_eq [of f off sz] assms unfolding frame_ok_def Let_def by blast

theorem memory_charge_witness:
  "chargeMem (frame0 (None :: StateTrie option) 100 []) 32 1 = Some ((frame0 None 94 [])\<lparr>MemorySize := 64\<rparr>)"
  using memory_charge [OF frame_ok_frame0, of "[]" "None :: StateTrie option" 100 32 1]
  by (simp add: frame0_def mem_cost_def)

text \<open>C5: a jump target is accepted exactly when it is a JUMPDEST byte at the start of an instruction, never inside
  the immediate bytes of a PUSH.\<close>

theorem jump_targets:
  "jumpdestOK code dest \<longleftrightarrow>
     unat dest < length code \<and> code ! unat dest = 0x5b \<and> instr_start code (unat dest)"
  by (rule jumpdestOK_iff)

text \<open>The word stored by MSTORE is the word MLOAD reads back at the same offset, for no further gas, and the
  bytes outside the 32 written are kept.\<close>

lemma mstore_mload:
  assumes "frame_ok f" "2 \<le> SP f" "u256AsU64 (Stack f (nat (SP f - 1))) = Some off" "chargeMem f off 32 = Some g"
  shows "\<exists>f1. step_mstore f = Some f1 \<and> SP f1 = SP f - 2 \<and> Gas f1 = Gas g \<and>
     (\<forall>i. i < unat off \<or> unat off + 32 \<le> i \<longrightarrow> Memory f1 i = Memory f i) \<and>
     (\<forall>h. h = f1\<lparr>Stack := (Stack f1)(nat (SP f1) := Stack f (nat (SP f - 1))), SP := SP f1 + 1\<rparr> \<longrightarrow>
       step_mload h = Some (h\<lparr>Stack := (Stack h)(nat (SP f1) := Stack f (nat (SP f - 2)))\<rparr>))"
  using mstore_then_mload [OF assms] .

text \<open>On a \<open>StateTrie\<close>, SSTORE writes the slot that SLOAD then reads, and keeps every other slot.\<close>

lemma sstore_sload_trie:
  assumes "frame_ok f" "2 \<le> SP f" "StateDB f = Some db"
  shows "\<exists>f1 db1. step_sstore GetStorage SetStorage f = Some f1 \<and> StateDB f1 = Some db1 \<and>
     (\<forall>k. GetStorage db1 zeroAddr k =
        (if k = Stack f (nat (SP f - 1)) then Stack f (nat (SP f - 2)) else GetStorage db zeroAddr k)) \<and>
     (\<forall>h. frame_ok h \<and> 1 \<le> SP h \<and> StateDB h = Some db1 \<and> Stack h (nat (SP h - 1)) = Stack f (nat (SP f - 1)) \<longrightarrow>
       step_sload GetStorage h = Some (h\<lparr>Stack := (Stack h)(nat (SP h - 1) := Stack f (nat (SP f - 2)))\<rparr>))"
  using trie_accessor.sstore_sload [OF assms] by (auto simp: GetStorage_SetStorage)

section \<open>256-bit arithmetic\<close>

text \<open>C6: the division of up to eight limbs by a non-zero divisor, by Knuth's algorithm with precomputed
  reciprocals, yields the exact quotient and remainder.\<close>

theorem division_exact:
  assumes "length u = 8" "k \<le> 8" "d \<noteq> zero256" "udivrem (replicate 8 0) u k d = (quot, r)"
  shows "length quot = 8 \<and> lval quot = lval (take k u) div uval d \<and> uval r = lval (take k u) mod uval d"
  using udivrem_exact [OF assms] .

theorem division_exact_witness:
  "lval (fst (udivrem (replicate 8 0) (replicate 8 5) 8 (FromU64 3))) = lval (replicate 8 5) div 3"
  using division_exact [of "replicate 8 5" 8 "FromU64 3"]
  by (cases "udivrem (replicate 8 0) (replicate 8 5) 8 (FromU64 3)") (simp add: FromU64_def zero256_def uval_U256)

text \<open>ADDMOD and MULMOD reduce the full sum and the full 512-bit product, and yield 0 for a zero modulus.\<close>

lemma modular_ops:
  "uval (AddMod256 a b m) = (if m = zero256 then 0 else (uval a + uval b) mod uval m) \<and>
   uval (MulMod256 a b m) = (if m = zero256 then 0 else (uval a * uval b) mod uval m)"
  by (simp add: uval_AddMod256 uval_MulMod256)

text \<open>EXP by squaring, SIGNEXTEND, BYTE, and the negation and shift of one bit that they and the signed
  operations rest on, are the operations on 256-bit words.\<close>

lemma word_functions:
  "word_of (Exp256 x e) = word_of x ^ uval e \<and>
   word_of (SignExtend256 b x) = (if b < 31 then signed_take_bit (8 * unat b + 7) (word_of x) else word_of x) \<and>
   word_of (Byte256 b x) = (if b < 32 then drop_bit (8 * (31 - unat b)) (word_of x) AND 0xff else 0) \<and>
   word_of (neg256 x) = - word_of x \<and> word_of (shr1 x) = drop_bit 1 (word_of x)"
  by (simp add: word_of_Exp256 word_of_SignExtend256 word_of_Byte256 word_of_neg256 word_of_shr1)

text \<open>The 32-byte big-endian form and its parser are inverse to each other, and the parser of up to 32 bytes
  yields the big-endian value.\<close>

lemma bytes_roundtrip:
  "FromBytesBE (BytesBE z) = z \<and> (length b = 32 \<longrightarrow> BytesBE (FromBytesBE b) = b) \<and>
   (length b \<le> 32 \<longrightarrow> uval (FromBytesBE b) = be_val b)"
  by (simp add: BytesBE_FromBytesBE uval_FromBytesBE)

section \<open>Keccak\<close>

text \<open>The unrolled permutation with its rotation table and its 24 round constants is Keccak-f[1600] as its
  steps theta, rho, pi, chi and iota and the round constants of the shift register define it.\<close>

lemma keccak_permutation: "KeccakF1600 (flat A) = flat (ref_permutation A)"
  by (rule KeccakF1600_ref)

text \<open>C7: the sponge is the sponge of Keccak. With a rate of 1 to 200 bytes, \<open>keccakSponge\<close> - which absorbs whole
  blocks lane by lane, pads the tail in place and squeezes block by block - returns the bytes of the reference sponge,
  which is stated on the five by five array of lanes with the step-wise permutation and shares only the rotation of
  \<open>math/bits\<close> with the code; with any other rate it has no result. So \<open>Keccak256\<close> and \<open>Keccak512\<close> are the reference with 136 and 72.\<close>

theorem keccak_sponge:
  "keccakSponge inp outLen rate = (if 0 < rate \<and> rate \<le> 200 then Some (ref_sponge inp outLen rate) else None) \<and>
   Keccak256 inp = ref_sponge inp 32 136 \<and> Keccak512 inp = ref_sponge inp 64 72"
  using keccakSponge_ref Keccak256_ref Keccak512_ref by blast

section \<open>The state\<close>

text \<open>C8: reverting to a snapshot restores the whole state - accounts, storage, journal and open snapshots - as it
  was when the snapshot was taken, whatever mutations, nested snapshots, reverts and discards happened since.\<close>

theorem snapshot_revert_restores:
  assumes "trie_reachable t" "Snapshot t = (t1, rv)" "(trie_step (int rv))\<^sup>*\<^sup>* t1 t2"
  shows "RevertToSnapshot t2 (int rv) = Some t"
  using snapshot_revert [OF reachable_journal_ok [OF assms(1)] assms(2,3)] .

theorem snapshot_revert_restores_witness:
  "RevertToSnapshot (AddBalance (fst (Snapshot NewStateTrie)) (FromU64 1) (FromU64 5)) 0 = Some NewStateTrie"
  using snapshot_revert_restores [OF trie_reachable.new, of "fst (Snapshot NewStateTrie)" 0]
    trie_step.add_balance [of 0 "fst (Snapshot NewStateTrie)" "FromU64 1" "FromU64 5"]
  by (auto simp: Snapshot_def NewStateTrie_def)

text \<open>In every reachable state the open snapshots are ordered positions of the journal, so that reverting to
  any open revision succeeds and reverting to any other panics.\<close>

lemma journal_invariant:
  assumes "trie_reachable t"
  shows "journal_ok t \<and> (RevertToSnapshot t rv \<noteq> None \<longleftrightarrow> 0 \<le> rv \<and> rv < int (length (reverts t)))"
  using reachable_journal_ok [OF assms] by (auto simp: RevertToSnapshot_def Let_def)

text \<open>A debit fails exactly when the balance is too small, and otherwise lowers that balance alone by the
  exact amount; a credit raises that balance alone, modulo \<open>2 ^ 256\<close>.\<close>

lemma balances:
  "(SubBalance t a d = Inl ErrInsufficientBalance \<longleftrightarrow> uval (GetBalance t a) < uval d) \<and>
   (SubBalance t a d = Inr t' \<longrightarrow>
     uval (GetBalance t' b) = uval (GetBalance t b) - (if normalizeAddr (Some a) = normalizeAddr (Some b) then uval d else 0)) \<and>
   word_of (GetBalance (AddBalance t a d) b) =
     word_of (GetBalance t b) + (if normalizeAddr (Some a) = normalizeAddr (Some b) then word_of d else 0)"
  using SubBalance_spec [of t a d] by (auto simp: GetBalance_AddBalance word_of_Add256)

text \<open>Insertion into a trie in canonical shape (also the receipts' trie) succeeds, keeps the shape, and changes
  the map the trie stands for at the inserted key alone.\<close>

lemma trie_insert:
  assumes "pred_option canon n" "nibs key" "v \<noteq> []"
  shows "\<exists>n'. mptInsert n key v = Some n' \<and> canon n' \<and>
    (\<forall>k. node_get (Some n') k = (if k = key then Some v else node_get n k))"
  using mptInsert_spec [OF assms] by blast

text \<open>C9: the trie is canonical: two sequences of insertions that define the same map build the same trie, whatever
  their order, and hence the same root.\<close>

theorem trie_canonical:
  assumes "entries_ok kvs" "entries_ok kvs'" "map_of (rev kvs) = map_of (rev kvs')"
  shows "insertAll None kvs = insertAll None kvs'"
  using insertAll_order [OF assms] .

theorem trie_canonical_witness:
  "insertAll None [([1, 2], [7]), ([1, 3], [8])] = insertAll None [([1, 3], [8]), ([1, 2], [7])]"
  by (rule trie_canonical) (auto simp: entries_ok_def)

text \<open>The arena version of the insertion builds the same trie with at most four new nodes, and never saturates an
  arena with four free nodes.\<close>

lemma arena_insert:
  shows "(insertNode a n key v = Some (a', n') \<longrightarrow> mptInsert n key v = Some n' \<and> nodesLen a' = nodesLen a \<and>
      nodeCount a' \<le> nodeCount a + 4) \<and>
    (mptInsert n key v = Some n' \<and> nodeCount a + 4 \<le> nodesLen a \<longrightarrow> (\<exists>a'. insertNode a n key v = Some (a', n')))"
proof -
  note al = allocatesD [OF insertNode_allocates [of a n key v]]
  show ?thesis using al(1,2) [of a' n'] al(3) [of n'] unfolding within_def by blast
qed

text \<open>C10: the state root is computed without a panic - the reserved arena and the buffers are always large enough -
  and does not depend on the order in which the two Go maps are iterated, nor on what the arena was used for before.\<close>

theorem root_deterministic:
  assumes "iteration sorder aorder t" "iteration sorder' aorder' t" "codes_ok t"
  shows "\<exists>h a1 a2. ComputeRoot sorder aorder a t = Some (a1, h) \<and> ComputeRoot sorder' aorder' a' t = Some (a2, h)"
  using ComputeRoot_deterministic [OF assms] .

text \<open>A state with one account.\<close>

definition state1 :: StateTrie where
  "state1 = AddBalance NewStateTrie (FromU64 1) (FromU64 5)"

lemma normalize_one: "normalizeAddr (Some (FromU64 1)) = FromU64 1"
  by (simp add: FromU64_def)

lemma state1_ok: "iteration [] [FromU64 1] state1" "codes_ok state1" "stateAddrs state1 = {FromU64 1}"
proof -
  have "\<not> IsZero (FromU64 5)" by (simp add: IsZero_def FromU64_def zero256_def)
  then have a: "dom (accounts state1) = {FromU64 1}" "storage state1 = Map.empty"
    "accounts state1 (FromU64 1) = Some \<lparr>Nonce = 0, Balance = Add256 zero256 (FromU64 5), StorageRoot = replicate 32 0,
       CodeHash = emptyCodeHash, Code = []\<rparr>"
    by (auto simp: state1_def AddBalance_def ensureAccount_def NewStateTrie_def normalize_one Let_def simp del: normalizeAddr.simps)
  then have "ran (accounts state1) = {\<lparr>Nonce = 0, Balance = Add256 zero256 (FromU64 5), StorageRoot = replicate 32 0,
       CodeHash = emptyCodeHash, Code = []\<rparr>}" by (auto simp: ran_def split: if_splits) (metis domI insertE empty_iff option.inject)
  then show "iteration [] [FromU64 1] state1" "codes_ok state1" "stateAddrs state1 = {FromU64 1}"
    using a by (simp_all add: iteration_def codes_ok_def stateAddrs_def emptyCodeHash_def)
qed

theorem root_deterministic_witness:
  "\<exists>h a1 a2. ComputeRoot [] [FromU64 1] \<lparr>nodesLen = 0, nodeCount = 0, bytesLen = 0, byteCount = 0\<rparr> state1 = Some (a1, h) \<and>
     ComputeRoot [] [FromU64 1] \<lparr>nodesLen = 300, nodeCount = 300, bytesLen = 0, byteCount = 0\<rparr> state1 = Some (a2, h)"
  using root_deterministic [OF state1_ok(1) state1_ok(1,2)] .

text \<open>C11: the trie of a state holds, under the hash of every address with an account or with storage, the encoding of
  its nonce, balance, storage root and code hash, and nothing else, provided that no two of these addresses collide.\<close>

theorem root_commits:
  assumes "iteration sorder aorder t" "codes_ok t" "inj_on addrNib (stateAddrs t)"
  shows "\<exists>a1 a2 n h. buildAccountTrie sorder aorder a t = Some (a1, n) \<and> ComputeRoot sorder aorder a t = Some (a2, h) \<and>
    hashRoot n = Some h \<and> pred_option canon n \<and>
    (\<forall>ad \<in> stateAddrs t. node_get n (addrNib ad) = Some (snd (stateLeaf sorder t ad))) \<and>
    (\<forall>k. k \<notin> addrNib ` stateAddrs t \<longrightarrow> node_get n k = None)"
proof -
  obtain a1 n h where b: "buildAccountTrie sorder aorder a t = Some (a1, n)" "state_trie sorder t n" "hashRoot n = Some h"
    "insertAll None (mergeKV (accountEntries aorder t) (storageEntries sorder t)) = Some n"
    using buildAccountTrie_spec [OF assms(1,2)] by blast
  obtain a2 where "ComputeRoot sorder aorder a t = Some (a2, h)" using ComputeRoot_eq [OF assms(1,2), of a] b(3,4) by auto
  then show ?thesis using b assms(3) by (auto simp: state_trie_def)
qed

theorem root_commits_witness:
  "\<exists>a1 n. buildAccountTrie [] [FromU64 1] \<lparr>nodesLen = 0, nodeCount = 0, bytesLen = 0, byteCount = 0\<rparr> state1 = Some (a1, n) \<and>
     node_get n (addrNib (FromU64 1)) = Some (snd (stateLeaf [] state1 (FromU64 1)))"
  using root_commits [OF state1_ok(1,2), of "\<lparr>nodesLen = 0, nodeCount = 0, bytesLen = 0, byteCount = 0\<rparr>"] by (auto simp: state1_ok(3))

text \<open>C12: \<open>GenerateProof\<close> on a state whose code hashes have 32 bytes, with the iteration orders of its maps: it never
  panics, and its proof is empty on the state without accounts and storage and else begins with a node that hashes to the
  state root. It reports success exactly if the address has the same hash as an address with an account or with storage; if the
  hashes of the address and of the addresses of the state do not collide, exactly for an address with an account or with
  storage.\<close>

theorem account_proof:
  assumes "iteration sorder aorder t" "codes_ok t"
  shows "\<exists>a' pf err. GenerateProof sorder aorder a t addr = Some (a', pf, err) \<and>
    (err = None \<longleftrightarrow> addrNib (normalizeAddr (Some addr)) \<in> addrNib ` stateAddrs t) \<and>
    (inj_on addrNib (insert (normalizeAddr (Some addr)) (stateAddrs t)) \<longrightarrow>
       (err = None \<longleftrightarrow> normalizeAddr (Some addr) \<in> stateAddrs t)) \<and>
    (if stateAddrs t = {} then pf = []
     else pf \<noteq> [] \<and> (\<exists>a''. ComputeRoot sorder aorder a t = Some (a'', Keccak256 (hd pf))))"
proof -
  have "addrNib x \<in> addrNib ` A \<longleftrightarrow> x \<in> A" if "inj_on addrNib (insert x A)" for x A
    using that by (auto dest: inj_onD)
  then show ?thesis using GenerateProof_spec [OF assms, of a addr] by metis
qed

theorem account_proof_witness:
  "\<exists>a' pf. GenerateProof [] [FromU64 1] \<lparr>nodesLen = 0, nodeCount = 0, bytesLen = 0, byteCount = 0\<rparr> state1 (FromU64 1) = Some (a', pf, None)"
  using account_proof [OF state1_ok(1,2), of "\<lparr>nodesLen = 0, nodeCount = 0, bytesLen = 0, byteCount = 0\<rparr>" "FromU64 1"]
  by (auto simp: state1_ok(3) normalize_one simp del: normalizeAddr.simps)

section \<open>Precompiled contracts\<close>

text \<open>C13: The field arithmetic of secp256k1 is exact. On limb integers, \<open>feMul\<close> (schoolbook product and two
  folds by \<open>2^32 + 977\<close>), \<open>feAdd\<close>, \<open>feSub\<close> with a reduced subtrahend, and the square-and-multiply loop \<open>fePow\<close> return
  the residue modulo the field prime, from 0 to the prime less 1, and \<open>scInv\<close> the power \<open>n - 2\<close> modulo the group order.\<close>

theorem field_exact:
  assumes "uval b < prime_p"
  shows "uval (feMul a b) = uval a * uval b mod prime_p \<and>
    uval (feAdd a b) = (uval a + uval b) mod prime_p \<and>
    int (uval (feSub a b)) = (int (uval a) - int (uval b)) mod int prime_p \<and>
    uval (fePow a e) = uval a ^ uval e mod prime_p \<and>
    uval (scInv a) = uval a ^ (order_n - 2) mod order_n"
  using fe_sub [of b a] assms by (simp add: reduced_def fe_def uval_feMul uval_feAdd uval_fePow uval_scInv)

theorem field_exact_witness: "uval (feMul (FromU64 5) (FromU64 7)) = 35"
proof -
  have "uval (FromU64 7) < prime_p" by (simp add: prime_p_def)
  from field_exact [OF this, of "FromU64 5"] show ?thesis by (simp add: prime_p_def)
qed

text \<open>C14: The group operations of secp256k1 stay on the curve. If two Jacobian points are reduced and are
  at infinity or satisfy \<open>Y\<^sup>2 = X\<^sup>3 + 7 Z\<^sup>6\<close>, then so do their sum, the double and every multiple, through
  all the masked selections between the generic sum, the double and the point at infinity.\<close>

theorem points_on_curve:
  assumes "onJac p" "onJac q"
  shows "onJac (secp256k1JacAdd p q) \<and> onJac (secp256k1JacDouble p) \<and> onJac (secp256k1JacMul p k)"
  using assms by (simp add: secp256k1JacAdd_curve secp256k1JacDouble_curve secp256k1JacMul_curve)

theorem points_on_curve_witness: "onJac (secp256k1JacAdd gjac jacInf)"
  using points_on_curve [OF onJac_gjac onJac_inf] by blast

text \<open>C15: Key recovery and key derivation fail with their error or return the 64 bytes of the affine form of a
  finite point of the curve; a signature with \<open>s\<close> above half of the group order is always refused. The precompiled contract
  1 shares this: what it returns is empty or the padded end of the hash of such a point, and with a large \<open>s\<close> it
  charges its 3000 gas, if there are as many, and returns nothing.\<close>

theorem recovered_keys:
  "(EcRecover hash v r s = Inl ErrInvalidSignature \<or>
     (\<exists>q. onJac q \<and> jz q \<noteq> zero256 \<and> EcRecover hash v r s = Inr (pubkey_of q))) \<and>
   (Secp256k1PubkeyFromSeckey k = Inl ErrInvalidPrivateKey \<or>
     (\<exists>q. onJac q \<and> jz q \<noteq> zero256 \<and> Secp256k1PubkeyFromSeckey k = Inr (pubkey_of q))) \<and>
   (uval secpNHalf < uval (FromBytesBE s) \<longrightarrow> EcRecover hash v r s = Inl ErrInvalidSignature) \<and>
   (RunPrecompile 1 inp gas = Done (out, left, err) \<and> out \<noteq> [] \<longrightarrow>
     (\<exists>q. onJac q \<and> jz q \<noteq> zero256 \<and> out = replicate 12 0 @ drop 12 (Keccak256 (pubkey_of q)))) \<and>
   (uval secpNHalf < uval (FromBytesBE (take 32 (drop 96 (pad32 inp 128)))) \<longrightarrow>
     RunPrecompile 1 inp gas = (if gas < 3000 then Done ([], 0, Some ErrPrecompileOOG) else Done ([], gas - 3000, None)))"
proof -
  have run: "RunPrecompile 1 inp gas = pcEcrecover inp gas" by (simp add: RunPrecompile_def)
  show ?thesis unfolding run
    using EcRecover_cases pubkey_cases EcRecover_high_s pcEcrecover_output [of inp gas out left err] pcEcrecover_high_s by blast
qed

theorem recovered_keys_witness:
  "EcRecover (replicate 32 0) 27 (replicate 31 0 @ [1])
     (BytesBE (U256 0xbfd25e8cd0364140 0xbaaedce6af48a03b 0xfffffffffffffffe 0xffffffffffffffff)) = Inl ErrInvalidSignature \<and>
   RunPrecompile 1 (replicate 96 0 @ BytesBE (U256 0xbfd25e8cd0364140 0xbaaedce6af48a03b 0xfffffffffffffffe 0xffffffffffffffff)) 4000 =
     Done ([], 1000, None)"
proof -
  let ?s = "U256 0xbfd25e8cd0364140 0xbaaedce6af48a03b 0xfffffffffffffffe 0xffffffffffffffff"
  have s: "uval secpNHalf < uval (FromBytesBE (BytesBE ?s))"
    unfolding FromBytesBE_BytesBE by (simp add: secpNHalf_def uval_U256 B64_def)
  have "take 32 (drop 96 (pad32 (replicate 96 0 @ BytesBE ?s) 128)) = BytesBE ?s" by (simp add: pad32_def)
  then show ?thesis
    using s recovered_keys [of "replicate 32 0" 27 "replicate 31 0 @ [1]" "BytesBE ?s" _ "replicate 96 0 @ BytesBE ?s" 4000]
    by simp
qed

text \<open>C16: Every precompiled contract returns at most the gas it was given, and the length of its output is
  fixed by the address and the input: 32 bytes for the hashes and the pairing, 64 for the curve operations, the
  compression function and the point evaluation, the input's length for the identity, the modulus' length for the
  exponentiation, and 32 or none for the recovery of an address.\<close>

theorem precompile_output:
  assumes "RunPrecompile addr inp gas = Done (out, left, None)"
  shows "left \<le> gas \<and> length out \<in> pc_outLens addr inp"
  using RunPrecompile_fine [of gas addr inp] assms by (auto simp: pc_fine_def)

theorem precompile_output_witness: "length ([1, 2, 3] :: bytes) \<in> pc_outLens 4 [1, 2, 3]"
proof -
  have "RunPrecompile 4 [1, 2, 3] 20 = Done ([1, 2, 3], 2, None)"
    by (simp add: RunPrecompile_def pcIdentity_def charged_def chargePC_def words32_def)
  from precompile_output [OF this] show ?thesis by blast
qed

text \<open>C17: The exponentiation contract computes the power. Of each of the three lengths, 32-byte numbers, it takes the
  low 64 bits (a length of \<open>2 ^ 64\<close> counts as 0). If one of these is above 1024 it fails, and else it charges \<open>modexpGas\<close> and returns
  \<open>base ^ exponent mod modulus\<close>, big-endian in as many bytes as the modulus has (0 if the modulus is 0), where the operands are
  read from the input extended by zeros.\<close>

theorem modexp_exact:
  "unat (mx_len inp i) = be_val (take 32 (drop (32 * i) (pad32 inp 96))) mod 2 ^ 64 \<and>
   RunPrecompile 5 inp gas =
     (if mx_len inp 0 \<le> 1024 \<and> mx_len inp 1 \<le> 1024 \<and> mx_len inp 2 \<le> 1024 then
        charged gas (mx_cost inp) (\<lambda>left.
          Done (be_bytes (unat (mx_len inp 2)) (if mx_mod inp = 0 then 0 else mx_base inp ^ be_val (mx_exp inp) mod mx_mod inp),
                left, None))
      else pcFail)"
  using mx_len_value by (simp add: RunPrecompile_def pcModexp_eq mx_ok_def)

text \<open>C18: What the addition and multiplication contracts of alt_bn128 return is the encoding of a point of the
  curve with reduced coordinates, or of the point at infinity, and decodes to it again. (A division by a
  number that has no inverse would panic; the operations never leave the curve without it.)\<close>

theorem curve_output:
  assumes "addr \<in> {6, 7}" "RunPrecompile addr inp gas = Done (out, left, None)"
  shows "\<exists>p. g1_ok p \<and> out = g1Marshal p \<and> g1Unmarshal out = Some p"
proof -
  have "\<exists>p. g1_ok p \<and> out = g1Marshal p"
    using assms by (auto simp: RunPrecompile_def pcEcAdd_def pcEcMul_def charged_def pcFail_def Let_def
        split: option.splits dest: curve_results)
  then show ?thesis using g1Unmarshal_Marshal by blast
qed

theorem curve_output_witness: "\<exists>p. g1Unmarshal (replicate 64 0) = Some p"
proof -
  have z: "g1Unmarshal (replicate 64 0) = Some g1Inf" using g1Unmarshal_Marshal [OF g1_ok_Inf] by (simp add: g1Marshal_def g1Inf_def)
  have "RunPrecompile 6 [] 150 = Done (replicate 64 0, 0, None)"
    using z by (simp add: RunPrecompile_def pcEcAdd_def charged_def chargePC_def pad32_def g1Add_def g1Marshal_def g1Inf_def)
  from curve_output [OF _ this] show ?thesis by auto
qed

text \<open>C19: The pairing contract refuses the group it is for. Its test \<open>g2OnCurve\<close> compares with \<open>3 (9 + i)\<close>, but the
  constant of the twist is \<open>3 / (9 + i)\<close>: no finite point of the twist passes the test, \<open>g2Unmarshal\<close> refuses the encoding of
  every such point by coordinates below the field prime, and contract 8 never succeeds on an input in which one of the pairs has such a point.\<close>

theorem twist_refused:
  assumes "on_twist x y"
  shows "\<not> g2OnCurve \<lparr>g2x = x, g2y = y, g2inf = False\<rparr> \<and>
    (f2_reduced x \<and> f2_reduced y \<longrightarrow> g2Unmarshal (g2Encode x y) = None \<and>
       (i < length inp div 192 \<and> take 128 (drop (192 * i + 64) inp) = g2Encode x y \<longrightarrow>
          RunPrecompile 8 inp gas \<noteq> Done (out, left, None)))"
  using twist_rejected [of "\<lparr>g2x = x, g2y = y, g2inf = False\<rparr>"] g2Unmarshal_twist [OF assms]
    pairing_refuses [OF assms, of i inp gas out left] assms by auto

text \<open>The ordinate of a point of the twist with abscissa \<open>i\<close>.\<close>

definition twist_y :: f2 where
  "twist_y = F2 5857410223677516958241855868975604786906559121396168184066542210254491971240
    3499505209057624827709920819629410982529044040404494099368353913743455207650"

lemma twist_point: "on_twist (F2 0 1) twist_y"
proof -
  have "9 * twist_re (F2 0 1) twist_y - twist_im (F2 0 1) twist_y - 3 =
      bnP * 7198768129807845435343840937035461097598800257294779929578755117465228042312"
    "9 * twist_im (F2 0 1) twist_y + twist_re (F2 0 1) twist_y =
      bnP * 17864722934500486484483132884881485563397211296039668840086384252654174727923"
    by (simp_all add: twist_re_def twist_im_def twist_y_def bnP_def)
  then show ?thesis unfolding on_twist_def by (metis dvd_triv_left)
qed

theorem twist_refused_witness:
  "g2Unmarshal (g2Encode (F2 0 1) twist_y) = None \<and>
   RunPrecompile 8 (replicate 64 0 @ g2Encode (F2 0 1) twist_y) 79000 \<noteq> Done (replicate 31 0 @ [1], 0, None)"
proof -
  have r: "f2_reduced (F2 0 1)" "f2_reduced twist_y" by (simp_all add: f2_reduced_def twist_y_def bnP_def)
  have l: "length (g2Encode (F2 0 1) twist_y) = 128" using r by (simp add: g2Encode_def f2_reduced_def length_fpToBytes)
  show ?thesis
    using twist_refused [OF twist_point, of 0 "replicate 64 0 @ g2Encode (F2 0 1) twist_y" 79000 "replicate 31 0 @ [1]" 0] r l by simp
qed

text \<open>C20: The point evaluation contract does not check the proof. \<open>verifyKZG\<close> performs no pairing: with a finite
  proof point it never answers that the proof is wrong, whatever the commitment, the point and the claimed value are.\<close>

theorem kzg_unchecked:
  assumes "\<not> blsinf pi"
  shows "verifyKZG c z y pi \<noteq> Some False"
  using verifyKZG_finite [OF assms, of c z y] by auto

theorem kzg_unchecked_witness: "verifyKZG blsInf [1] [2] blsG1Gen \<noteq> Some False"
  using kzg_unchecked [of blsG1Gen] by (simp add: blsG1Gen_def)

section \<open>Message calls\<close>

text \<open>An environment over an empty state, and a call of a contract without code.\<close>

definition header0 :: BlockHeader where
  "header0 =
     \<lparr>h_ParentHash = replicate 32 0, h_Coinbase = replicate 20 7, h_StateRoot = replicate 32 0, h_ReceiptsRoot = replicate 32 0,
      h_Bloom = replicate 256 0, h_Number = 1, h_GasLimit = 0, h_GasUsed = 0, h_Timestamp = 0, h_Extra = [],
      h_MixDigest = replicate 32 0, h_Nonce = 0, h_BaseFee = zero256, h_BlobGasUsed = 0, h_ExcessBlobGas = 0,
      h_Difficulty = zero256, h_ChainID = zero256\<rparr>"

definition env0 :: vmEnv where
  "env0 =
     \<lparr>e_state = NewStateTrie, e_header = header0, e_origin = replicate 20 1, e_gasPrice = zero256, e_logs = [], e_retData = [],
      e_depth = 0, e_refund = 0, e_touched = {}, e_touchJournal = [], e_createdInTx = {}, e_createJournal = [], e_suicided = {},
      e_suicideJournal = []\<rparr>"

definition call0 :: "bool \<Rightarrow> Uint256 \<Rightarrow> callParams" where
  "call0 ro v =
     \<lparr>cp_caller = replicate 20 1, cp_addr = replicate 20 2, cp_codeAddr = zeroAddress, cp_origin = replicate 20 1, cp_value = v,
      cp_callVal = v, cp_data = [], cp_code = [], cp_gas = 100, cp_readOnly = ro, cp_kind = 0xf1\<rparr>"

lemma env0_ok: "env_ok env0"
  by (simp add: env_ok_def env0_def tracked_def journal_ok_def NewStateTrie_def)

lemma supply0: "totalSupply NewStateTrie = 0"
  by (simp add: totalSupply_def NewStateTrie_def)

text \<open>A message call, with all the calls and creations it makes, ends within \<open>2 * gas + 3\<close> units of fuel - whatever
  the code does - and returns at most the gas it was given.\<close>

lemma call_terminates:
  assumes "env_ok e" "2 * unat (cp_gas p) + 2 < n"
  shows "run n so e p \<noteq> NoFuel \<and> (\<forall>ret left ok e'. run n so e p = Done (ret, left, ok, e') \<longrightarrow> left \<le> cp_gas p)"
proof -
  have "unat (cp_gas p) < (n - 1) div 2" using assms(2) by linarith
  then show ?thesis
    using machine.fuel [OF assms(1)] machine.returns [OF assms(1), of "- 1"]
    by (auto simp: call_result_def)
qed

text \<open>C21: a call that fails, for whatever reason and at whatever depth, leaves the environment as it found it - accounts,
  storage, journal, snapshots, logs, touched, created and destroyed accounts - but for the return data and the
  refund counter.\<close>

theorem failed_call_reverts:
  assumes "env_ok e" "run n so e p = Done (ret, left, False, e')"
  shows "\<exists>d r. e' = e\<lparr>e_retData := d, e_refund := r\<rparr>"
  using machine.returns [OF assms(1) _ assms(2), of "- 1"] by (simp add: call_result_def)

lemma call0_unfunded:
  "\<exists>d r. run 1 (\<lambda>_. []) env0 (call0 False (FromU64 1)) = Done ([], 100, False, env0\<lparr>e_retData := d, e_refund := r\<rparr>)"
proof -
  let ?p = "call0 False (FromU64 1)"
  let ?e = "env0\<lparr>e_depth := e_depth env0 + 1\<rparr>"
  have ok: "env_ok ?e" using env0_ok by (simp add: env_ok_def tracked_def)
  have sup: "totalSupply (e_state g) = 0" if "evolves ro b ?e g" for ro b g
    using that by (simp add: evolves_def env0_def supply0)
  obtain e2 m err where en: "enterCall ?e ?p = (e2, m, err)" by (metis surj_pair)
  obtain e1 where e1: "takeMarks ?e = (e1, m)" "env_ok e1" "\<And>b. evolves (static ?p) b e1 e2" using enterCall_spec [OF ok en] by blast
  have "one": "FromU64 1 \<noteq> zero256" "uval (FromU64 1) = 1" by (simp add: FromU64_def zero256_def, simp)
  have err: "err = Some ErrInsufficientBalance"
  proof -
    have st: "accounts (e_state g) = Map.empty" if "e_state g = fst (Snapshot NewStateTrie)" for g :: vmEnv
      using that by (simp add: Snapshot_def NewStateTrie_def)
    have "SubBalance (fst (Snapshot NewStateTrie)) a (FromU64 1) = Inl ErrInsufficientBalance" for a
      unfolding SubBalance_spec(1) using "one"(2) by (simp add: GetBalance_def Snapshot_def NewStateTrie_def)
    then show ?thesis using en "one"(1)
      by (auto simp: enterCall_def takeMarks_def call0_def transfer_def Let_def env0_def touch_def isCreate_def split: prod.splits if_splits)
  qed
  have "\<exists>e'. refuse e2 m 100 = Done ([], 100, False, e') \<and> call_result (static ?p) (- 1) ?e 100 100 False e'"
    by (rule refuse_spec [OF ok e1(1) e1(3)]) simp
  then obtain d r where rf: "refuse e2 m 100 = Done ([], 100, False, ?e\<lparr>e_retData := d, e_refund := r\<rparr>)"
    by (auto simp: call_result_def)
  have g: "cp_gas ?p = 100" by (simp add: call0_def)
  have "run (Suc 0) (\<lambda>_. []) env0 ?p = Done ([], 100, False, env0\<lparr>e_retData := d, e_refund := r\<rparr>)"
    unfolding run_Suc runBody_def Let_def en prod.case g using rf err
    by (simp add: env0_def maxCallDepth_def leaveDepth_def)
  then show ?thesis by (simp only: One_nat_def) blast
qed

theorem failed_call_reverts_witness:
  "\<exists>e' d r. run 1 (\<lambda>_. []) env0 (call0 False (FromU64 1)) = Done ([], 100, False, e') \<and> e' = env0\<lparr>e_retData := d, e_refund := r\<rparr>"
proof -
  obtain e' where e': "run 1 (\<lambda>_. []) env0 (call0 False (FromU64 1)) = Done ([], 100, False, e')" using call0_unfunded by blast
  from failed_call_reverts [OF env0_ok e'] e' show ?thesis by blast
qed

text \<open>C22: a static call changes no account, no storage and no log, also through the calls its code makes.\<close>

theorem static_call:
  assumes "env_ok e" "cp_readOnly p" "cp_kind p \<in> {0xf1, 0xf2, 0xfa} \<and> IsZero (cp_callVal p) \<or> cp_kind p = 0xf4"
    and "run n so e p = Done (ret, left, ok, e')"
  shows "accounts (e_state e') = accounts (e_state e) \<and> storage (e_state e') = storage (e_state e) \<and> e_logs e' = e_logs e"
proof -
  have "static p" using assms(2,3) by (auto simp: static_def isCreate_def)
  then show ?thesis
    using machine.returns [OF assms(1) _ assms(4), of "- 1"]
    by (auto simp: call_result_def evolves_def world_def)
qed

lemma call0_empty: "\<exists>e'. run 1 (\<lambda>_. []) env0 (call0 ro zero256) = Done ([], 100, True, e')"
proof -
  have "isPrecompile (replicate 20 2) = None" by (simp add: isPrecompile_def) (intro exI [of _ 0], simp)
  moreover have "Code (accountOf e (replicate 20 2)) = []" if "accounts (e_state e) = Map.empty" for e
    using that by (simp add: accountOf_def GetAccount_def zeroAccount_def)
  ultimately have "\<exists>e'. run (Suc 0) (\<lambda>_. []) env0 (call0 ro zero256) = Done ([], 100, True, e')"
    unfolding run_Suc runBody_def
    by (simp add: enterCall_def takeMarks_def call0_def transfer_def Let_def env0_def touch_def isCreate_def codeOf_def
        maxCallDepth_def leaveDepth_def Snapshot_def NewStateTrie_def)
  then show ?thesis by simp
qed

theorem static_call_witness:
  "\<exists>e'. run 1 (\<lambda>_. []) env0 (call0 True zero256) = Done ([], 100, True, e') \<and> accounts (e_state e') = Map.empty"
proof -
  obtain e' where e': "run 1 (\<lambda>_. []) env0 (call0 True zero256) = Done ([], 100, True, e')" using call0_empty by blast
  have "cp_readOnly (call0 True zero256)" "cp_kind (call0 True zero256) \<in> {0xf1, 0xf2, 0xfa} \<and> IsZero (cp_callVal (call0 True zero256)) \<or>
      cp_kind (call0 True zero256) = 0xf4" by (simp_all add: call0_def)
  from static_call [OF env0_ok this e'] e' show ?thesis by (simp add: env0_def NewStateTrie_def)
qed

text \<open>C23: LOG0 with an empty range of memory at an offset above 65536 passes the charge for memory and then slices the
  memory out of its bounds: the node panics. (CALL and CREATE slice in the same way.)\<close>

theorem log_offset_panics:
  assumes "frame_ok f" "2 \<le> SP f" "Stack f (nat (SP f - 1)) = FromU64 off" "65536 < off" "Stack f (nat (SP f - 2)) = zero256"
  shows "opLog e f addr 0 = None"
proof -
  have "stackAt f (SP f - 1) = Some (FromU64 off)" "stackAt f (SP f - 2) = Some zero256"
    using assms by (simp_all add: stackAt_ok)
  moreover have "asU64 (FromU64 off) = Some off" "asU64 zero256 = Some 0" by (simp_all add: asU64_def FromU64_def zero256_def)
  moreover have "hostChargeMem f off 0 = Some f" by (simp add: hostChargeMem_def)
  ultimately show ?thesis using assms(2,4)
    by (simp add: opLog_def hostRequireStack_def Let_def memSlice_def not_le)
qed

theorem log_offset_panics_witness:
  "opLog env0 (newFrame env0 (call0 False zero256)\<lparr>Stack := (\<lambda>i. if i = 1 then FromU64 65537 else zero256), SP := 2\<rparr>) (replicate 20 2) 0 = None"
  by (rule log_offset_panics [where off = 65537]) (simp_all add: frame_ok_def newFrame_def)

section \<open>Transactions and blocks\<close>

text \<open>A transaction pays per unit of gas the base fee and a tip: a legacy transaction its gas price, the others the
  smaller of the fee cap and the base fee plus the tip cap. A cap below the base fee is refused.\<close>

lemma effective_fees:
  "(effectiveFees header tx = Inr (eff, tip) \<longrightarrow> uval eff = uval (h_BaseFee header) + uval tip \<and>
      uval eff = (if tx_Type tx \<in> {2, 3} then min (uval (tx_GasFeeCap tx)) (uval (h_BaseFee header) + uval (tx_GasTipCap tx))
        else uval (tx_GasPrice tx))) \<and>
   (effectiveFees header tx = Inl ErrFeeCap \<longleftrightarrow>
      (if tx_Type tx \<in> {2, 3} then uval (tx_GasFeeCap tx) else uval (tx_GasPrice tx)) < uval (h_BaseFee header))"
  using effectiveFees_spec [where header = header and tx = tx] effectiveFees_tip [where header = header and tx = tx and eff = eff and tip = tip]
  by (auto split: sum.splits)

text \<open>A transaction without value from an account that does not exist to another one; at a price for which the
  product with 21008 wraps to 0 it is accepted.\<close>

definition probe_tx :: "Uint256 \<Rightarrow> Transaction" where
  "probe_tx price = newTransaction\<lparr>tx_From := replicate 20 1, tx_To := Some (replicate 20 2), tx_Gas := 21008, tx_GasPrice := price\<rparr>"

lemma probe_fields:
  "tx_Gas (probe_tx price) = 21008" "tx_GasPrice (probe_tx price) = price" "tx_Type (probe_tx price) = 0" "tx_Nonce (probe_tx price) = 0"
  "tx_Value (probe_tx price) = zero256" "tx_From (probe_tx price) = replicate 20 1" "tx_To (probe_tx price) = Some (replicate 20 2)"
  "intrinsicGas (probe_tx price) = 21000" "tx_Data (probe_tx price) = []"
  by (simp_all add: probe_tx_def newTransaction_def intrinsicGas_def)

lemma probe_runs:
  assumes zero: "u256MulU64 price 21008 = zero256"
  obtains rec e3 ts where
    "ProcessTransaction (Suc n) sch NewStateTrie header0 (probe_tx price) =
       Done (e_state (cleanTouched (sch_storage sch) ts (e3\<lparr>e_state := addNonZero (addNonZero (e_state e3)
         (addrToU256 (replicate 20 1)) (u256MulU64 price 8)) (addrToU256 (replicate 20 7)) (u256MulU64 price 21000)\<rparr>)), Inr rec)"
    "accounts (e_state e3) = [normalizeAddr (Some (addrToU256 (replicate 20 1))) \<mapsto> zeroAccount\<lparr>Nonce := 1\<rparr>]"
proof -
  let ?tx = "probe_tx price"
  define t2 where "t2 = bpSetNonce NewStateTrie (replicate 20 1) 1"
  have hd: "h_GasLimit header0 = 0" "h_Coinbase header0 = replicate 20 7" by (simp_all add: header0_def)
  have fees: "effectiveFees header0 ?tx = Inr (price, price)" by (simp add: effectiveFees_def probe_fields header0_def)
  have acc: "accepted NewStateTrie header0 ?tx price price NewStateTrie"
    by (simp add: accepted_def probe_fields fees nonceOf_def GetAccount_def GetBalance_def NewStateTrie_def SubBalance_def Cmp_less
        Let_def zero uval_Add256 hd)
  obtain e m where st: "startTransaction t2 header0 ?tx price = (e, m)" by fastforce
  have touch: "e_state (touch e a) = e_state e" "e_createdInTx (touch e a) = e_createdInTx e" "e_refund (touch e a) = e_refund e"
    "e_depth (touch e a) = e_depth e" for e a by (simp_all add: touch_def)
  have e: "accounts (e_state e) = accounts t2" "e_createdInTx e = {}" "e_refund e = 0" "e_depth e = 0"
    using st by (auto simp: startTransaction_def takeMarks_def Snapshot_def touch newEnv_def probe_fields Let_def)
  have acc2: "accounts t2 = [normalizeAddr (Some (addrToU256 (replicate 20 1))) \<mapsto> zeroAccount\<lparr>Nonce := 1\<rparr>]"
    by (simp add: t2_def bpSetNonce_def GetAccount_def NewStateTrie_def accounts_SetAccount del: normalizeAddr.simps)
  have "isPrecompile (replicate 20 2) = None" by (simp add: isPrecompile_def) (intro exI [of _ 0], simp)
  moreover have "Code (accountOf e (replicate 20 2)) = []"
    using e(1) by (simp add: accountOf_def GetAccount_def acc2 zeroAccount_def del: normalizeAddr.simps)
  ultimately obtain e3 where e3: "run (Suc n) (sch_storage sch) e (txParams ?tx 8) = Done ([], 8, True, e3)"
    "accounts (e_state e3) = accounts t2" "e_createdInTx e3 = {}" "e_refund e3 = 0"
    using run_codeless [of "txParams ?tx 8" e n "sch_storage sch"] e by (auto simp: txParams_def probe_fields maxCallDepth_def)
  have "settleGas 21008 8 0 = (21000, 8)" by (simp add: settleGas_def)
  then have "\<exists>rec ts. finishTransaction sch header0 ?tx price price m [] 8 True e3 =
      Some (e_state (cleanTouched (sch_storage sch) ts (e3\<lparr>e_state := addNonZero (addNonZero (e_state e3)
         (addrToU256 (replicate 20 1)) (u256MulU64 price 8)) (addrToU256 (replicate 20 7)) (u256MulU64 price 21000)\<rparr>)), rec)"
    using e3(3,4) by (auto simp: cleanSuicided_none created_cleanTouched finishTransaction_def probe_fields hd
        cleanTouchedEmptyAccounts_def Let_def)
  moreover have "ProcessTransaction (Suc n) sch NewStateTrie header0 ?tx =
      seq (lift (finishTransaction sch header0 ?tx price price m [] 8 True e3)) (\<lambda>(t, rec). Done (t, Inr rec))"
    using ProcessTransaction_accepted [OF acc, of e m] st e3(1) by (simp add: probe_fields t2_def)
  ultimately show ?thesis using that e3(2) acc2 by auto
qed

lemma price0: "u256MulU64 zero256 n = zero256"
  using uval_u256MulU64 [of zero256 n] by simp

text \<open>C24: a transaction mints nothing, on a state with a sound journal: if the sum of all balances before it and the
  product of its gas price and its gas are below \<open>2 ^ 256\<close>, then the sum of all balances afterwards and the base fee of
  the gas used make up at most the sum before. Without these two conditions: the gas used is at most the gas of the
  transaction, a failed transaction has no logs, and a refused one leaves the state as it was.\<close>

theorem transaction_supply:
  assumes "state_ok t" "ProcessTransaction n sch t header tx = Done (t', r)"
  shows "case r of Inl _ \<Rightarrow> t' = t
    | Inr rec \<Rightarrow> r_GasUsed rec \<le> tx_Gas tx \<and> (r_Status rec \<noteq> 1 \<longrightarrow> r_Logs rec = []) \<and>
       (\<exists>eff tip. effectiveFees header tx = Inr (eff, tip) \<and>
         (totalSupply t < 2 ^ 256 \<and> uval eff * unat (tx_Gas tx) < 2 ^ 256 \<longrightarrow>
            totalSupply t' + uval (h_BaseFee header) * unat (r_GasUsed rec) \<le> totalSupply t))"
  using ProcessTransaction_effect [OF assms(1) _ assms(2), of "- 1"] by (auto simp: tx_effect_def accepted_def split: sum.splits)

definition sch0 :: schedule where
  "sch0 = \<lparr>sch_storage = (\<lambda>_. []), sch_accounts = (\<lambda>_. []), sch_addrs = (\<lambda>_. [])\<rparr>"

lemma new_ok: "state_ok NewStateTrie"
  by (simp add: state_ok_def journal_ok_def NewStateTrie_def)

theorem transaction_supply_witness:
  "\<exists>t' rec. ProcessTransaction 1 sch0 NewStateTrie header0 (probe_tx zero256) = Done (t', Inr rec) \<and> r_GasUsed rec \<le> 21008"
proof -
  obtain t' rec where d: "ProcessTransaction (Suc 0) sch0 NewStateTrie header0 (probe_tx zero256) = Done (t', Inr rec)"
    using probe_runs [OF price0] by metis
  then show ?thesis using transaction_supply [OF new_ok d] by (auto simp: probe_fields)
qed

definition overflow_price :: Uint256 where
  "overflow_price = U256 0 0 0 (2 ^ 60)"

lemma overflow_products:
  "uval (u256MulU64 overflow_price 21008) = 0" "uval (u256MulU64 overflow_price 8) = 2 ^ 255"
  "uval (u256MulU64 overflow_price 21000) = 2 ^ 255"
proof -
  have e: "uval overflow_price = 2 ^ 252" by (simp add: overflow_price_def uval_U256 B64_def)
  show "uval (u256MulU64 overflow_price 21008) = 0" "uval (u256MulU64 overflow_price 8) = 2 ^ 255"
    "uval (u256MulU64 overflow_price 21000) = 2 ^ 255"
    unfolding uval_u256MulU64 e by simp_all
qed

text \<open>C25: the fee of a transaction is computed modulo \<open>2 ^ 256\<close>: with a gas price of \<open>2 ^ 252\<close> and 21008 gas it is 0, so an
  account without funds passes the check, and the refund for the 8 unused units credits it with \<open>2 ^ 255\<close>.\<close>

theorem fee_overflow_mints:
  "\<exists>t' rec. ProcessTransaction (Suc n) sch NewStateTrie header0 (probe_tx overflow_price) = Done (t', Inr rec) \<and>
     totalSupply NewStateTrie = 0 \<and> uval (GetBalance t' (addrToU256 (tx_From (probe_tx overflow_price)))) = 2 ^ 255"
proof -
  let ?p = "overflow_price" and ?A = "addrToU256 (replicate 20 1)" and ?C = "addrToU256 (replicate 20 7)"
  let ?acc = "zeroAccount\<lparr>Nonce := 1\<rparr>"
  have "u256MulU64 ?p 21008 = zero256" using overflow_products(1) by simp
  then obtain rec e3 ts where d: "ProcessTransaction (Suc n) sch NewStateTrie header0 (probe_tx ?p) =
       Done (e_state (cleanTouched (sch_storage sch) ts (e3\<lparr>e_state := addNonZero (addNonZero (e_state e3)
         ?A (u256MulU64 ?p 8)) ?C (u256MulU64 ?p 21000)\<rparr>)), Inr rec)"
    "accounts (e_state e3) = [normalizeAddr (Some ?A) \<mapsto> ?acc]" using probe_runs by metis
  define t4 where "t4 = addNonZero (addNonZero (e_state e3) ?A (u256MulU64 ?p 8)) ?C (u256MulU64 ?p 21000)"
  have nz: "u256MulU64 ?p 8 \<noteq> zero256" "u256MulU64 ?p 21000 \<noteq> zero256" using overflow_products by auto
  have ne: "normalizeAddr (Some ?C) \<noteq> normalizeAddr (Some ?A)" by (subst addrToU256_inj) simp_all
  have "accounts t4 (normalizeAddr (Some ?A)) = Some (?acc\<lparr>Balance := Add256 zero256 (u256MulU64 ?p 8)\<rparr>)"
    unfolding t4_def using nz d(2) accounts_AddBalance_other [OF ne] accounts_AddBalance_Some [of "e_state e3" ?A ?acc]
    by (simp add: addNonZero_def zeroAccount_def del: normalizeAddr.simps)
  then have "accounts (e_state (cleanTouched (sch_storage sch) ts (e3\<lparr>e_state := t4\<rparr>))) (normalizeAddr (Some ?A)) =
      Some (?acc\<lparr>Balance := Add256 zero256 (u256MulU64 ?p 8)\<rparr>)"
    by (intro cleanTouched_keeps) simp_all
  then have "uval (GetBalance (e_state (cleanTouched (sch_storage sch) ts (e3\<lparr>e_state := t4\<rparr>))) ?A) = 2 ^ 255"
    using overflow_products(2) by (simp add: GetBalance_def uval_Add256 del: normalizeAddr.simps)
  then show ?thesis using d(1) by (auto simp: probe_fields t4_def supply0 simp del: normalizeAddr.simps)
qed

text \<open>C26: a block is all or nothing: if any of its transactions is refused, or the gas limit is exceeded, then state,
  journal, snapshots and header are as before the block.\<close>

theorem block_atomic:
  assumes "state_ok t" "ProcessBlock n sch a t header txs = Done (a', t', header', Inl err)"
  shows "a' = a \<and> t' = t \<and> header' = header"
  by (rule ProcessBlock_error [OF assms])

definition arena0 :: mptArena where
  "arena0 = \<lparr>nodesLen = 0, nodeCount = 0, bytesLen = 0, byteCount = 0\<rparr>"

theorem block_atomic_witness:
  "\<exists>err t'. ProcessBlock 1 sch0 arena0 NewStateTrie header0 [newTransaction] = Done (arena0, t', header0, Inl err) \<and> t' = NewStateTrie"
proof -
  have i: "intrinsicGas newTransaction = 53000" by (simp add: intrinsicGas_def newTransaction_def words32_def)
  have g: "tx_Gas newTransaction = 0" by (simp add: newTransaction_def)
  have "ProcessBlock 1 sch0 arena0 NewStateTrie header0 [newTransaction] = Done (arena0, NewStateTrie, header0, Inl ErrIntrinsicGas)"
    by (simp add: ProcessBlock_def Snapshot_def ProcessTransaction_def i g RevertToSnapshot_def NewStateTrie_def)
  then show ?thesis using block_atomic [OF new_ok] by blast
qed

text \<open>C27: the receipts of an accepted block, on a state with a sound journal, whose transactions have less than \<open>2 ^ 64\<close> gas together: one per transaction,
  each with the sum of the gas used so far; their total is the gas used by the block, and within its limit if it sets one
  and has transactions. The journal and the snapshots are empty afterwards. If the sum of all balances before and, for
  every transaction, the product of its gas price and its gas are below \<open>2 ^ 256\<close>, the sum of all balances has not grown.\<close>

theorem block_receipts:
  assumes "state_ok t" "ProcessBlock n sch a t header txs = Done (a', t', header', Inr res)"
    and "sum_list (map (\<lambda>tx. unat (tx_Gas tx)) txs) < 2 ^ 64"
  shows "receipts_ok 0 txs (b_Receipts res) \<and> unat (b_GasUsed res) = sum_list (map (\<lambda>r. unat (r_GasUsed r)) (b_Receipts res)) \<and>
    (txs \<noteq> [] \<and> h_GasLimit header \<noteq> 0 \<longrightarrow> b_GasUsed res \<le> h_GasLimit header) \<and> journal t' = [] \<and> reverts t' = [] \<and>
    (totalSupply t < 2 ^ 256 \<and> (\<forall>tx \<in> set txs. \<forall>eff tip. effectiveFees header tx = Inr (eff, tip) \<longrightarrow> uval eff * unat (tx_Gas tx) < 2 ^ 256) \<longrightarrow>
       totalSupply t' \<le> totalSupply t)"
proof -
  obtain t0 rv t1 cum recs rr sr where b: "Snapshot t = (t0, rv)" "processTxs n sch header t0 0 [] txs = Done (t1, Inr (cum, recs))"
    "t' = Commit t1" "b_Receipts res = recs" "b_GasUsed res = cum" using ProcessBlock_Inr [OF assms(2)] by (metis BlockResult.select_convs(1,2))
  have "trie_step 0 t t0" by (rule trie_step.snapshot [OF b(1)])
  then have ok0: "state_ok t0" by (intro state_ok_steps [OF r_into_rtranclp assms(1)])
  have "totalSupply t0 = totalSupply t" using b(1) by (intro supply_cong) (auto simp: Snapshot_def)
  moreover have "totalSupply t' = totalSupply t1" unfolding b(3) by (rule supply_cong) (simp add: Commit_def)
  ultimately show ?thesis
    using processTxs_receipts [OF ok0 b(2)] processTxs_supply [OF ok0 b(2)] assms(3) b(3-5)
    by (auto simp: B64_def Commit_def)
qed

theorem block_receipts_witness:
  "\<exists>a' t' header' res. ProcessBlock 1 sch0 arena0 NewStateTrie header0 [] = Done (a', t', header', Inr res) \<and> b_Receipts res = []"
proof -
  obtain a' t' header' res where d: "ProcessBlock 1 sch0 arena0 NewStateTrie header0 [] = Done (a', t', header', Inr res)"
    by (simp add: ProcessBlock_def Snapshot_def receiptsRoot_def ComputeRoot_def sch0_def Let_def)
  from block_receipts [OF new_ok this] d show ?thesis by (auto simp: receipts_ok_def)
qed

text \<open>C28: processing a block always ends: fuel beyond twice the gas of every transaction is enough.\<close>

theorem block_terminates:
  assumes "state_ok t" "\<forall>tx \<in> set txs. 2 * unat (tx_Gas tx) + 2 < n"
  shows "ProcessBlock n sch a t header txs \<noteq> NoFuel"
  by (rule ProcessBlock_fuel [OF assms])

theorem block_terminates_witness: "ProcessBlock 43000 sch0 arena0 NewStateTrie header0 [probe_tx zero256] \<noteq> NoFuel"
  by (rule block_terminates [OF new_ok]) (simp add: probe_fields)

text \<open>C29: a block with one transaction panics if the transaction is executed on the state of the block, within the gas
  limit of the block, and its logs hold more than 2048 bytes of data together: the receipt does not fit the buffer in
  which the root of the receipts is computed.\<close>

theorem receipt_overflow:
  assumes "ProcessTransaction n sch (fst (Snapshot t)) header tx = Done (t', Inr rec)"
    and "h_GasLimit header = 0 \<or> r_GasUsed rec \<le> h_GasLimit header"
    and "2048 < sum_list (map (\<lambda>l. length (l_Data l)) (r_Logs rec))"
  shows "ProcessBlock n sch a t header [tx] = Panic"
  using ProcessBlock_overflow [OF assms] .

text \<open>A call of the contract of \<open>Log_Example\<close>, which costs 37975 gas.\<close>

definition loud_tx :: Transaction where
  "loud_tx = newTransaction\<lparr>tx_From := replicate 20 1, tx_To := Some (replicate 20 2), tx_Gas := 60000\<rparr>"

definition loud_state :: StateTrie where
  "loud_state = NewStateTrie\<lparr>accounts := [normalizeAddr (Some (addrToU256 (replicate 20 2))) \<mapsto> zeroAccount\<lparr>Nonce := 1, Code := loud_code\<rparr>]\<rparr>"

lemma loud_runs:
  "\<exists>t' rec. ProcessTransaction 5 sch0 (fst (Snapshot loud_state)) header0 loud_tx = Done (t', Inr rec) \<and>
     sum_list (map (\<lambda>l. length (l_Data l)) (r_Logs rec)) = 2049"
proof -
  let ?t = "fst (Snapshot loud_state)" and ?A = "addrToU256 (replicate 20 1)" and ?B = "addrToU256 (replicate 20 2)"
  have tx: "tx_Gas loud_tx = 60000" "tx_GasPrice loud_tx = zero256" "tx_Type loud_tx = 0" "tx_Nonce loud_tx = 0"
    "tx_Value loud_tx = zero256" "tx_From loud_tx = replicate 20 1" "tx_To loud_tx = Some (replicate 20 2)"
    "intrinsicGas loud_tx = 21000" "tx_Data loud_tx = []"
    by (simp_all add: loud_tx_def newTransaction_def intrinsicGas_def)
  have ne: "normalizeAddr (Some ?A) \<noteq> normalizeAddr (Some ?B)" by (subst addrToU256_inj) simp_all
  have ac: "accounts ?t = [normalizeAddr (Some ?B) \<mapsto> zeroAccount\<lparr>Nonce := 1, Code := loud_code\<rparr>]"
    by (simp add: Snapshot_def loud_state_def del: normalizeAddr.simps)
  have no: "accounts ?t (normalizeAddr (Some ?A)) = None" using ne by (simp add: ac del: normalizeAddr.simps)
  then have none: "GetAccount ?t ?A = None" by (simp add: GetAccount_def del: normalizeAddr.simps)
  have z: "u256MulU64 zero256 n = zero256" for n using uval_u256MulU64 [of zero256 n] by simp
  have hd: "h_GasLimit header0 = 0" by (simp add: header0_def)
  have fees: "effectiveFees header0 loud_tx = Inr (zero256, zero256)" by (simp add: effectiveFees_def tx header0_def)
  have acc: "accepted ?t header0 loud_tx zero256 zero256 ?t"
    using none no by (simp add: accepted_def tx fees nonceOf_def GetBalance_def SubBalance_def Cmp_less Let_def z uval_Add256 hd del: normalizeAddr.simps)
  define t2 where "t2 = bpSetNonce ?t (replicate 20 1) 1"
  have ac2: "accounts t2 (normalizeAddr (Some ?B)) = Some (zeroAccount\<lparr>Nonce := 1, Code := loud_code\<rparr>)"
    using ne none ac by (simp add: t2_def bpSetNonce_def accounts_SetAccount del: normalizeAddr.simps)
  obtain e m where st: "startTransaction t2 header0 loud_tx zero256 = (e, m)" by fastforce
  have e: "accounts (e_state e) = accounts t2" "e_logs e = []" "e_depth e = 0"
    using st by (auto simp: startTransaction_def takeMarks_def Snapshot_def touch_def newEnv_def tx Let_def split: if_splits)
  have "isPrecompile (replicate 20 2) = None" by (simp add: isPrecompile_def) (intro exI [of _ 0], simp)
  moreover have "Code (accountOf e (replicate 20 2)) = loud_code"
    using e(1) ac2 by (simp add: accountOf_def GetAccount_def del: normalizeAddr.simps)
  ultimately obtain e3 g where e3: "run 5 (sch_storage sch0) e (txParams loud_tx 39000) = Done ([], g, True, e3)"
    "e_logs e3 = [\<lparr>l_Address = replicate 20 2, l_Topics = [], l_Data = replicate 2049 0\<rparr>]"
    using loud_run [of "txParams loud_tx 39000" e "sch_storage sch0"] e by (auto simp: txParams_def tx maxCallDepth_def)
  have "\<exists>t' rec. finishTransaction sch0 header0 loud_tx zero256 zero256 m [] g True e3 = Some (t', rec) \<and> r_Logs rec = e_logs e3"
    by (simp add: finishTransaction_def tx clean_keeps_logs split_beta Let_def)
  then obtain t' rec where "finishTransaction sch0 header0 loud_tx zero256 zero256 m [] g True e3 = Some (t', rec)" "r_Logs rec = e_logs e3" by blast
  moreover have "ProcessTransaction 5 sch0 ?t header0 loud_tx =
      seq (lift (finishTransaction sch0 header0 loud_tx zero256 zero256 m [] g True e3)) (\<lambda>(t, rec). Done (t, Inr rec))"
    using ProcessTransaction_accepted [OF acc, of e m] st e3(1) by (simp add: tx t2_def)
  ultimately show ?thesis using e3(2) by simp
qed

theorem receipt_overflow_witness: "ProcessBlock 5 sch0 arena0 loud_state header0 [loud_tx] = Panic"
proof -
  obtain t' rec where r: "ProcessTransaction 5 sch0 (fst (Snapshot loud_state)) header0 loud_tx = Done (t', Inr rec)"
    "sum_list (map (\<lambda>l. length (l_Data l)) (r_Logs rec)) = 2049" using loud_runs by blast
  have "h_GasLimit header0 = 0" by (simp add: header0_def)
  then show ?thesis using r by (intro receipt_overflow [OF r(1)]) simp_all
qed

section \<open>Encodings\<close>

text \<open>C30: decoding the RLP encoding of a value with lists of at most 4096 elements yields the value and the rest
  of the input.\<close>

theorem rlp_roundtrip:
  assumes "rlp_short v" "length (rlp_enc v) < 2 ^ 63"
  shows "rlpDecode (rlp_enc v @ rest) = Inr (v, rest)"
  using rlpDecode_enc [OF assms] .

theorem rlp_roundtrip_witness: "rlpDecode (rlp_enc (RList [RBytes [1], RBytes []]) @ [9]) = Inr (RList [RBytes [1], RBytes []], [9])"
  by (rule rlp_roundtrip) (simp_all add: rlpList_def rlpBytes_def RlpEncodeBytes_def RlpEncodeListHeader_def Let_def)

text \<open>The RLP decoder returns a value or an error on every input: its recursion ends within \<open>2 * length + 1\<close>
  calls in depth.\<close>

lemma rlp_decoder_total: "rlpDecode_fuel (2 * length buf + 1) buf = Some (rlpDecode buf)"
  by (rule rlpDecode_total)

text \<open>C31: the Brotli decoder is safe on every input: whatever bytes it is given, whatever the buffer, and whatever
  earlier calls have left in its global arrays, it ends without a panic, with an error or with at most as many bytes as
  the buffer has, and leaves arrays of the same shape. So \<open>Unpack\<close> returns on every posted batch.\<close>

theorem decoder_safe:
  assumes "globals_ok g"
  shows "(case BrotliL2Decompress g calldata out of
      Ret (n, d) \<Rightarrow> n = d_pos d \<and> n \<le> length out \<and> length (d_out d) = length out \<and> globals_ok (d_g d)
    | Fail e \<Rightarrow> True
    | Crash \<Rightarrow> False
    | Stuck \<Rightarrow> False) \<and>
    (\<exists>r. Unpack g calldata = Done r)"
  using BrotliL2Decompress_ends [OF assms] Unpack_total [OF assms] by (simp add: ends_def split: dec.splits)

theorem decoder_safe_witness:
  "globals_ok zeroGlobals \<and> (\<exists>r. Unpack zeroGlobals [0x1b, 0x13, 0x00, 0x00, 0xa4, 0xb0, 0xb2, 0xea, 0x81, 0x47] = Done r)"
  using decoder_safe [OF zeroGlobals_ok] by simp

text \<open>C32: what \<open>Pack\<close> posts, \<open>Unpack\<close> reads back, through RLP and through the bits of the Brotli stream: the
  transactions, on the fields that the batch format carries, if they are at most 4096. A larger batch, which
  \<open>Pack\<close> accepts too, is refused.\<close>

theorem pack_unpack:
  assumes "Pack (map Some ts) = Inr packed" "\<forall>tx \<in> set ts. tx_ok tx" "globals_ok g"
  shows "Unpack g packed = Done (if length ts \<le> 4096 then Inr (map carried ts) else Inl (BatchError ErrBatchTooLarge))"
  using Unpack_Pack [OF assms] .

text \<open>A batch of copies of the empty transaction.\<close>

lemma packPlain_replicate:
  assumes "n * 65 \<le> 524000"
  shows "packPlain (map Some (replicate n newTransaction)) = Inr (rlpList (replicate n (encodeTx newTransaction)))"
proof -
  have "packItems (replicate n (Some newTransaction)) 0 = Inr (replicate n (encodeTx newTransaction))"
    using assms by (intro packItems_replicate) (simp add: length_encodeTx_new maxBatchPlain_def)
  moreover have "length (rlpList (replicate n (encodeTx newTransaction))) \<le> 9 + n * 65"
    using assms rlpIntLen_le [of "n * 65" 8]
    by (simp add: rlpList_def RlpEncodeListHeader_def Let_def length_encodeTx_new length_concat sum_list_replicate)
  ultimately show ?thesis using assms by (simp add: packPlain_def maxBatchPlain_def)
qed

theorem pack_unpack_witness:
  "(\<exists>packed. Pack (map Some [newTransaction]) = Inr packed \<and> Unpack zeroGlobals packed = Done (Inr [carried newTransaction])) \<and>
   (\<exists>packed. Pack (map Some (replicate 5000 newTransaction)) = Inr packed \<and>
      Unpack zeroGlobals packed = Done (Inl (BatchError ErrBatchTooLarge)))"
proof -
  have ok: "tx_ok newTransaction" by (simp add: tx_ok_def) (simp add: newTransaction_def)
  obtain p1 p2 where p: "Pack (map Some [newTransaction]) = Inr p1" "Pack (map Some (replicate 5000 newTransaction)) = Inr p2"
    using Pack_succeeds [OF packPlain_replicate, of 1] Pack_succeeds [OF packPlain_replicate, of 5000] by auto
  show ?thesis using pack_unpack [OF p(1) _ zeroGlobals_ok] pack_unpack [OF p(2) _ zeroGlobals_ok] p ok by simp
qed

section \<open>Retryable tickets\<close>

text \<open>Parameters of a small ticket, and its quote.\<close>

definition sample_params :: "u64 \<Rightarrow> RetryableParams" where
  "sample_params provided =
     \<lparr>p_From = replicate 20 1, p_To = None, p_CallValue = zero256, p_Deposit = FromU64 5000, p_MaxSubmissionFee = FromU64 2000,
      p_ExcessFeeRefundTo = replicate 20 1, p_CallValueRefundTo = replicate 20 1, p_GasLimit = 100,
      p_MaxFeePerGas = FromU64 1, p_Data = [], p_L1BaseFee = FromU64 1, p_GasProvided = provided\<rparr>"

lemma mulU256U64Checked_small:
  assumes "unat a * unat n < B64"
  shows "mulU256U64Checked (FromU64 a) n = Inr (FromU64 (a * n))"
proof (cases "mulU256U64Checked (FromU64 a) n")
  case (Inl e)
  then show ?thesis using mulU256U64Checked_iff(2) [OF Inl] assms by (simp add: B64_def)
next
  case (Inr out)
  have "uval out = uval (FromU64 (a * n))"
    using mulU256U64Checked_iff(1) [OF Inr] assms by (simp add: unat_mult_small)
  then show ?thesis using Inr by (simp only: uval_inj)
qed

lemma addU256Checked_small:
  assumes "unat a + unat n < B64"
  shows "addU256Checked (FromU64 a) (FromU64 n) = Inr (FromU64 (a + n))"
proof -
  have "uval (Add256 (FromU64 a) (FromU64 n)) = uval (FromU64 (a + n))"
    using assms by (simp add: uval_Add256 unat_add_small B64_def)
  then have "Add256 (FromU64 a) (FromU64 n) = FromU64 (a + n)" by (simp only: uval_inj)
  then show ?thesis using assms by (simp add: addU256Checked_iff B64_def)
qed

lemma sample_quote:
  assumes "1400 \<le> provided"
  shows "quoteRetryable (sample_params provided) = Inr (1400, FromU64 1400, FromU64 100, FromU64 1500)"
proof -
  have m: "mulU256U64Checked (FromU64 1) 1400 = Inr (FromU64 1400)" "mulU256U64Checked (FromU64 1) 100 = Inr (FromU64 100)"
    by (simp_all add: mulU256U64Checked_small B64_def)
  have a: "addU256Checked (FromU64 1400) (FromU64 100) = Inr (FromU64 1500)"
    "addU256Checked (FromU64 1500) (FromU64 0) = Inr (FromU64 1500)"
    by (simp_all add: addU256Checked_small B64_def)
  have c: "\<not> Cmp (FromU64 1400) (FromU64 2000) > 0" "\<not> Cmp (FromU64 5000) (FromU64 1500) < 0"
    by (simp_all add: Cmp_signs)
  have s: "submissionGas 0 = Inr 1400"
    by (simp add: submissionGas_def SafeMulGas_iff SafeAddGas_iff andThen_def B64_def)
  have z: "zero256 = FromU64 0" by (simp add: zero256_def FromU64_def)
  show ?thesis using assms m a c s
    by (simp add: quoteRetryable_def sample_params_def andThen_def guard_def SafeSubGas_iff z)
qed

text \<open>C33: an accepted quote is exact: the submission gas is 1400 plus 6 per byte of data, no sum or product
  wrapped, the fee is within the limit, and the deposit covers fee, execution and call value.\<close>

theorem quote_exact:
  assumes "quoteRetryable p = Inr (subGas, subFee, exec, tot)"
  shows "unat subGas = 1400 + 6 * unat (of_nat (length (p_Data p)) :: u64) \<and>
    uval subFee = uval (p_L1BaseFee p) * unat subGas \<and> uval subFee \<le> uval (p_MaxSubmissionFee p) \<and>
    uval exec = uval (p_MaxFeePerGas p) * unat (p_GasLimit p) \<and>
    uval tot = uval subFee + uval exec + uval (p_CallValue p) \<and> uval tot \<le> uval (p_Deposit p) \<and>
    subGas \<le> p_GasProvided p"
  using quoteRetryable_funded [OF assms] by blast

theorem quote_exact_witness: "uval (FromU64 1500) \<le> uval (p_Deposit (sample_params 1400))"
  using quote_exact [OF sample_quote, of 1400] by simp

text \<open>Checked multiplication and addition are exact or report the overflow.\<close>

lemma checked_arithmetic:
  "addU256Checked a b = (if uval a + uval b < 2 ^ 256 then Inr (Add256 a b) else Inl ErrGasOverflow) \<and>
   (case mulU256U64Checked a n of
      Inr out \<Rightarrow> uval out = uval a * unat n
    | Inl e \<Rightarrow> e = ErrGasOverflow \<and> 2 ^ 256 \<le> uval a * unat n)"
  using mulU256U64Checked_iff [of a n] by (auto simp: addU256Checked_iff split: sum.splits)

text \<open>C34: a ticket is redeemed at most once: redeeming takes a ticket in state Created to a redeemed state, keeps
  every other ticket, and a redeemed ticket refuses both ways of redeeming.\<close>

theorem ticket_redeemed_once:
  assumes "redeem_step e i e'"
  shows "(\<exists>t t'. e i = Some t \<and> t_Status t = RetryableCreated \<and> e' i = Some t' \<and> t_Status t' \<noteq> RetryableCreated) \<and>
    (\<forall>j. j \<noteq> i \<longrightarrow> e' j = e j) \<and> (\<nexists>e''. redeem_step e' i e'')"
  using redeem_once [OF assms] redeemed_stays(2) [of e' i] by auto

lemma sample_create:
  "\<exists>t. Create e (sample_params 1400) = Inr (e(ticketID (sample_params 1400) \<mapsto> t), t, None) \<and>
     t_Status t = RetryableCreated \<and> t_GasLimit t = 100"
  using sample_quote [of 1400]
  by (auto simp: Create_def andThen_def SafeSubGas_iff sample_params_def Let_def)

theorem ticket_redeemed_once_witness:
  "\<exists>e e'. redeem_step e (ticketID (sample_params 1400)) e' \<and> (\<nexists>e''. redeem_step e' (ticketID (sample_params 1400)) e'')"
proof -
  obtain t :: RetryableTicket where t: "t_Status t = RetryableCreated" "t_GasLimit t = 100" using sample_create [of Map.empty] by blast
  define e where "e = [ticketID (sample_params 1400) \<mapsto> t]"
  obtain e' tx where "AutoRedeem e (ticketID (sample_params 1400)) = Inr (e', tx)"
    using t by (auto simp: e_def AutoRedeem_def Let_def)
  then have "redeem_step e (ticketID (sample_params 1400)) e'" by (rule redeem_step.auto)
  then show ?thesis using ticket_redeemed_once by blast
qed

text \<open>C35: creating a ticket whose parameters give the identifier of a redeemed ticket replaces that ticket, which
  itself could not be redeemed any more, and redeems it a second time: if the gas provided is enough, \<open>Create\<close> itself issues the redeeming
  transaction again; if not, the new ticket can be redeemed again, by hand with any gas above 0 and any fee whose product with it does not
  overflow, and automatically unless its gas limit is 0. Every other ticket is kept.\<close>

theorem create_revives:
  assumes "Create e p = Inr (e', t', otx)" "e (ticketID p) = Some t" "t_Status t \<noteq> RetryableCreated"
  shows "AutoRedeem e (ticketID p) = Inl ErrTicketState \<and> (\<nexists>e1. redeem_step e (ticketID p) e1) \<and>
    e' (ticketID p) = Some t' \<and> (\<forall>i. i \<noteq> ticketID p \<longrightarrow> e' i = e i) \<and>
    (case otx of
       Some tx \<Rightarrow> t_Status t' = RetryableAutoRedeemed \<and> tx = ticketToTx t' 0
     | None \<Rightarrow> (p_GasLimit p \<noteq> 0 \<longrightarrow> (\<exists>e'' tx. AutoRedeem e' (ticketID p) = Inr (e'', tx))) \<and>
         (\<forall>gl fee. gl \<noteq> 0 \<and> uval fee * unat gl < 2 ^ 256 \<longrightarrow> (\<exists>e'' tx. ManualRedeem e' (ticketID p) gl fee = Inr (e'', tx))))"
  using Create_overwrites [OF assms(1)] Create_others [OF assms(1)] redeemed_stays [of e "ticketID p" t] assms(2,3)
    AutoRedeem_created [of e' "ticketID p" t'] ManualRedeem_created [of e' "ticketID p" t'] by (simp split: option.splits)

theorem create_revives_witness:
  "\<exists>e e' t'. Create e (sample_params 1400) = Inr (e', t', None) \<and> AutoRedeem e (ticketID (sample_params 1400)) = Inl ErrTicketState \<and>
     (\<exists>e'' tx. AutoRedeem e' (ticketID (sample_params 1400)) = Inr (e'', tx))"
proof -
  obtain t :: RetryableTicket where t: "t_Status t = RetryableCreated" using sample_create [of Map.empty] by blast
  define e where "e = [ticketID (sample_params 1400) \<mapsto> t\<lparr>t_Status := RetryableAutoRedeemed\<rparr>]"
  obtain e' t' where c: "Create e (sample_params 1400) = Inr (e', t', None)" using sample_create by blast
  have "p_GasLimit (sample_params 1400) \<noteq> 0" by (simp add: sample_params_def)
  then show ?thesis
    using create_revives [OF c, of "t\<lparr>t_Status := RetryableAutoRedeemed\<rparr>"] c by (auto simp: e_def)
qed

section \<open>The mempool\<close>

text \<open>C36: in every reachable pool the index by hash and the lists by sender hold the same transactions, each list is
  non-empty, belongs to its sender and is strictly ordered by nonce.\<close>

theorem pool_invariant:
  assumes "pool_step\<^sup>*\<^sup>* NewMempool m"
  shows "(\<forall>h tx. byHash m h = Some tx \<longrightarrow> tx_Hash tx = h \<and> tx \<in> set (senderList m (tx_From tx))) \<and>
    (\<forall>a l. bySender m a = Some l \<longrightarrow> l \<noteq> [] \<and> sorted_wrt (<) (map tx_Nonce l) \<and>
       (\<forall>tx \<in> set l. tx_From tx = a \<and> byHash m (tx_Hash tx) = Some tx))"
  using pool_reachable_ok [OF assms] by (simp add: pool_ok_def)

text \<open>A pool with one transaction.\<close>

definition pool1 :: Mempool where
  "pool1 = \<lparr>byHash = [tx_Hash newTransaction \<mapsto> newTransaction], bySender = [tx_From newTransaction \<mapsto> [newTransaction]]\<rparr>"

lemma AddTx_pool1: "AddTx NewMempool (Some newTransaction) = Inr pool1"
  by (simp add: AddTx_def NewMempool_def senderList_def pool1_def Let_def)

lemma pool1_reachable: "pool_step\<^sup>*\<^sup>* NewMempool pool1"
  using pool_step.add [OF AddTx_pool1] by blast

theorem pool_invariant_witness: "newTransaction \<in> set (senderList pool1 (tx_From newTransaction))"
proof -
  have "byHash pool1 (tx_Hash newTransaction) = Some newTransaction" by (simp add: pool1_def)
  then show ?thesis using pool_invariant [OF pool1_reachable] by blast
qed

text \<open>C37: \<open>PopBatch\<close> on a reachable pool ends (within one pass more than there are transactions), whatever order each
  pass visits the senders in. It takes from every sender a prefix of the list, in nonce order, keeps the rest,
  stays within the limits on gas and count, and, when every pass visits all senders, stops below the limit on
  the count only if no remaining head fits the remaining gas.\<close>

theorem pop_batch:
  assumes "pool_step\<^sup>*\<^sup>* NewMempool m" "Count m < f" "maxCount \<noteq> 0" "maxGas \<noteq> 0"
  shows "\<exists>m' out. PopBatch f order m maxGas maxCount = Some (m', out) \<and> pool_ok m' \<and>
     (\<forall>a. senderList m a = filter (\<lambda>t. tx_From t = a) out @ senderList m' a) \<and>
     byHash m' = (byHash m) |` (- tx_Hash ` set out) \<and>
     gasOf out \<le> unat maxGas \<and> (0 < maxCount \<longrightarrow> int (length out) \<le> maxCount) \<and>
     ((\<forall>i a. bySender m a \<noteq> None \<longrightarrow> a \<in> set (order i)) \<longrightarrow>
        0 < maxCount \<and> maxCount \<le> int (length out) \<or>
        (\<forall>a tx rest. senderList m' a = tx # rest \<longrightarrow> unat maxGas < gasOf out + unat (tx_Gas tx)))"
  using PopBatch_popped [of m f order maxGas maxCount] pool_reachable_ok [OF assms(1)] assms(2-4)
  by (simp add: popped_def)

theorem pop_batch_witness:
  "\<exists>m' out. PopBatch 2 (\<lambda>_. [tx_From newTransaction]) pool1 30000000 (- 1) = Some (m', out) \<and>
     senderList pool1 (tx_From newTransaction) = filter (\<lambda>t. tx_From t = tx_From newTransaction) out @ senderList m' (tx_From newTransaction)"
proof -
  have "Count pool1 < 2" by (simp add: Count_def pool1_def)
  moreover have "(- 1 :: int) \<noteq> 0" "(30000000 :: u64) \<noteq> 0" by simp_all
  ultimately show ?thesis
    using pop_batch [OF pool1_reachable, of 2 "- 1" 30000000 "\<lambda>_. [tx_From newTransaction]"] by blast
qed

text \<open>A new transaction with the sender and nonce of a pending one is refused unless its tip is strictly higher,
  and then takes its place in the list and in the index.\<close>

lemma replacement:
  assumes "pool_step\<^sup>*\<^sup>* NewMempool m" "old \<in> set (senderList m (tx_From tx))" "tx_Nonce old = tx_Nonce tx"
    and "byHash m (tx_Hash tx) = None"
  shows "(uval (txTip tx) \<le> uval (txTip old) \<longrightarrow> AddTx m (Some tx) = Inl ErrUnderpriced) \<and>
    (uval (txTip old) < uval (txTip tx) \<longrightarrow> (\<exists>m'. AddTx m (Some tx) = Inr m' \<and> byHash m' (tx_Hash old) = None \<and>
       byHash m' (tx_Hash tx) = Some tx \<and>
       senderList m' (tx_From tx) = map (\<lambda>t. if t = old then tx else t) (senderList m (tx_From tx))))"
  using AddTx_replaces [of m old tx] pool_reachable_ok [OF assms(1)] assms(2-4) by blast

section \<open>The sequencer\<close>

text \<open>C38: the block that the sequencer produces, on a state with a sound journal: its number follows the last one, the nonces of every sender in its
  batch count up from the account's nonce, gas and number of transactions are within the limits where these are set, there is one
  receipt per transaction. If the batch has at most 4096 transactions, with addresses of 20 and hashes of 32 bytes (\<open>tx_ok\<close>),
  whoever unpacks the posted batch, with any contents of the decoder's arrays, obtains the transactions of the block on the fields that the format carries (\<open>carried\<close>:
  all but the access list, the blob fields, the chain identifier and the signature); a longer one is refused by \<open>Unpack\<close>.\<close>

theorem sequenced_block:
  assumes "state_ok (s_State s)" "ProduceBlock n sch order s timestamp = Done (s', Inr res)" "globals_ok g"
  shows "unat (h_Number (s_Header s')) = unat (h_Number (s_Header s)) + 1 \<and> h_Timestamp (s_Header s') = timestamp \<and>
    h_ParentHash (s_Header s') = h_StateRoot (s_Header s) \<and> h_StateRoot (s_Header s') = b_StateRoot res \<and>
    selected (s_State s) (h_GasLimit (s_Header s)) (s_maxTxs s) (s_LastTxs s') \<and>
    receipts_ok 0 (s_LastTxs s') (b_Receipts res) \<and> state_ok (s_State s') \<and>
    ((\<forall>tx \<in> set (s_LastTxs s'). tx_ok tx) \<longrightarrow>
       Unpack g (s_LastBatch s') = Done (if length (s_LastTxs s') \<le> 4096 then Inr (map carried (s_LastTxs s'))
         else Inl (BatchError ErrBatchTooLarge)))"
proof -
  obtain s1 cands a t header where p: "produced order s timestamp = Some (s1, cands)"
    "ProcessBlock n sch (s_arena s1) (s_State s1) (s_Header s1) (s_LastTxs s') = Done (a, t, header, Inr res)"
    "s_State s' = t" "s_Header s' = header" "Pack (map Some (s_LastTxs s')) = Inr (s_LastBatch s')"
    "s_LastTxs s' = selectTxs (s_State s1) (h_GasLimit (s_Header s1)) (s_maxTxs s1) [] 0 Map.empty cands"
    using ProduceBlock_Inr [OF assms(2)] by metis
  note k = produced_keeps [OF p(1)]
  have ok1: "state_ok (s_State s1)" using state_ok_steps [OF k(3) assms(1)] .
  have sel: "selected (s_State s1) (h_GasLimit (s_Header s1)) (s_maxTxs s1) (s_LastTxs s')" unfolding p(6) by (rule selectTxs_selected)
  then have sel': "selected (s_State s) (h_GasLimit (s_Header s)) (s_maxTxs s) (s_LastTxs s')"
    using nonces_due_cong [of "s_State s1" "s_State s", OF k(4)] by (simp add: selected_def k(1,2) nextHeader_def)
  then have rec: "receipts_ok 0 (s_LastTxs s') (b_Receipts res)" using block_receipts_ok [OF ok1 p(2)] sel by (simp add: selected_def)
  have "h_Number (s_Header s) \<noteq> - 1" using assms(2) by (auto simp: ProduceBlock_eq)
  then have num: "unat (h_Number (s_Header s) + 1) = unat (h_Number (s_Header s)) + 1" by (rule unat_next)
  show ?thesis
    using ProcessBlock_header [OF p(2)] ProcessBlock_state_ok [OF ok1 p(2)] sel' rec num Unpack_Pack [OF p(5) _ assms(3)]
    by (auto simp: p(3,4) k(1) nextHeader_def)
qed

text \<open>A new sequencer produces an empty block.\<close>

lemma first_block:
  "\<exists>s' res. ProduceBlock 1 sch0 (\<lambda>_. []) (NewSequencer arena0 None) 7 = Done (s', Inr res)"
proof -
  let ?s = "NewSequencer arena0 None"
  have c: "\<exists>s1. produced (\<lambda>_. []) ?s 7 = Some (s1, []) \<and> s_State s1 = NewStateTrie \<and> s_arena s1 = arena0"
    by (simp add: produced_def collect_def collectInbox_def PopReady_def NewSequencer_def NewDelayedInbox_def collectExpress_def
        NewTimeboost_def Drain_def collectPool_def NewMempool_def Count_def PopBatch_def Let_def)
  have b: "\<exists>a' t' header' res. ProcessBlock 1 sch0 arena0 NewStateTrie header [] = Done (a', t', header', Inr res)" for header
    by (simp add: ProcessBlock_def Snapshot_def receiptsRoot_def ComputeRoot_def sch0_def Let_def)
  have n: "h_Number (s_Header ?s) \<noteq> - 1" by (simp add: NewSequencer_def zeroHeader_def)
  obtain packed where p: "Pack [] = Inr packed"
    by (simp add: Pack_def packPlain_def rlpList_def RlpEncodeListHeader_def brotliUncompressed_def brotliHeader_def maxBatchPlain_def)
  obtain s1 where s1: "produced (\<lambda>_. []) ?s 7 = Some (s1, [])" "s_State s1 = NewStateTrie" "s_arena s1 = arena0" using c by blast
  obtain a' t' header' res where r: "ProcessBlock 1 sch0 arena0 NewStateTrie (s_Header s1) [] = Done (a', t', header', Inr res)"
    using b by blast
  show ?thesis using n p s1 r by (simp add: ProduceBlock_eq Let_def)
qed

theorem sequenced_block_witness:
  "\<exists>s' res. ProduceBlock 1 sch0 (\<lambda>_. []) (NewSequencer arena0 None) 7 = Done (s', Inr res) \<and>
     unat (h_Number (s_Header s')) = 1 \<and> h_Timestamp (s_Header s') = 7 \<and> length (s_LastTxs s') \<le> 128"
proof -
  obtain s' res where d: "ProduceBlock 1 sch0 (\<lambda>_. []) (NewSequencer arena0 None) 7 = Done (s', Inr res)" using first_block by blast
  have "state_ok (s_State (NewSequencer arena0 None))" using new_ok by (simp add: NewSequencer_def)
  from sequenced_block [OF this d zeroGlobals_ok]
  have "unat (h_Number (s_Header s')) = 1" "h_Timestamp (s_Header s') = 7" "length (s_LastTxs s') \<le> 128"
    by (simp_all add: NewSequencer_def zeroHeader_def selected_def)
  then show ?thesis using d by blast
qed

text \<open>C39: all tickets of one sender that become ready together get the same nonce, and a batch holds at most one
  transaction with that sender and nonce: every ticket but one is lost.\<close>

theorem second_ticket_lost:
  assumes "collectInbox s now = (s1, tickets)" "length (tickets @ others) < 2 ^ 64"
  shows "(\<forall>tx \<in> set tickets. tx_Nonce tx = nonceOf (s_State s1) (tx_From tx)) \<and>
    length (filter (\<lambda>tx. tx_From tx = a \<and> tx_Nonce tx = nonceOf (s_State s1) a)
      (selectTxs (s_State s1) lim maxTxs [] 0 Map.empty (tickets @ others))) \<le> 1"
proof -
  have "tickets_due (s_State s) (s1, tickets)" using collectInbox_due [of s now] by (simp add: assms(1))
  then have "\<forall>tx \<in> set tickets. tx_Nonce tx = nonceOf (s_State s1) (tx_From tx)" by (simp add: tickets_due_def)
  moreover have "length (selectTxs (s_State s1) lim maxTxs [] 0 Map.empty (tickets @ others)) < 2 ^ 64"
    using list_emb_length [OF selectTxs_subseq] assms(2) by (rule le_less_trans)
  moreover have "nonces_due (s_State s1) (selectTxs (s_State s1) lim maxTxs [] 0 Map.empty (tickets @ others))"
    using selectTxs_selected unfolding selected_def by blast
  ultimately show ?thesis using nonces_due_distinct by blast
qed

text \<open>Two tickets of one sender, posted to a new sequencer: both are redeemed, one is executed.\<close>

definition ticket_msg :: DelayedMessage where
  "ticket_msg =
     \<lparr>m_Kind = MsgRetryable, m_From = replicate 20 1, m_To = None, m_Value = zero256, m_Data = [], m_GasLimit = 100,
      m_MaxFeePerGas = FromU64 1, m_Deposit = FromU64 5000, m_MaxSubmissionFee = FromU64 2000, m_L1BaseFee = FromU64 1,
      m_GasProvided = 2000, m_PostedAt = 1\<rparr>"

definition two_tickets :: Sequencer where
  "two_tickets = (NewSequencer arena0 None)\<lparr>s_DelayedInbox := Some (Enqueue (Enqueue (NewDelayedInbox 1) ticket_msg) ticket_msg)\<rparr>"

lemma ticket_created:
  "\<exists>e' t tx. Create e (msgParams ticket_msg) = Inr (e', t, Some tx) \<and> tx_From tx = replicate 20 1 \<and> t_Status t = RetryableAutoRedeemed"
proof -
  have "msgParams ticket_msg = sample_params 2000" by (simp add: msgParams_def ticket_msg_def sample_params_def)
  then show ?thesis
    using sample_quote [of 2000]
    by (auto simp: Create_def andThen_def SafeSubGas_iff sample_params_def ticketToTx_def Let_def)
qed

lemma two_tickets_collected: "\<exists>s1 tx1 tx2. collectInbox two_tickets 7 = (s1, [tx1, tx2]) \<and> tx_From tx1 = replicate 20 1 \<and> tx_From tx2 = replicate 20 1"
proof -
  obtain e1 t1 tx1 where 1: "Create Map.empty (msgParams ticket_msg) = Inr (e1, t1, Some tx1)" "tx_From tx1 = replicate 20 1" using ticket_created by blast
  obtain e2 t2 tx2 where 2: "Create e1 (msgParams ticket_msg) = Inr (e2, t2, Some tx2)" "tx_From tx2 = replicate 20 1" using ticket_created by blast
  have k: "m_Kind ticket_msg = MsgRetryable" "msgReady 1 7 ticket_msg" by (simp_all add: ticket_msg_def msgReady_iff)
  show ?thesis
    by (simp add: collectInbox_def two_tickets_def PopReady_def NewSequencer_def NewDelayedInbox_def Enqueue_def k collectMsg_def 1 2 Let_def)
qed

theorem second_ticket_lost_witness:
  "\<exists>s1 tickets. collectInbox two_tickets 7 = (s1, tickets) \<and> length tickets = 2 \<and>
     length (selectTxs (s_State s1) 30000000 128 [] 0 Map.empty tickets) \<le> 1"
proof -
  obtain s1 tx1 tx2 where c: "collectInbox two_tickets 7 = (s1, [tx1, tx2])" "tx_From tx1 = replicate 20 1" "tx_From tx2 = replicate 20 1"
    using two_tickets_collected by blast
  let ?b = "selectTxs (s_State s1) 30000000 128 [] 0 Map.empty [tx1, tx2]"
  note l = second_ticket_lost [OF c(1), of "[]" "replicate 20 1" 30000000 128]
  have "set ?b \<subseteq> {tx1, tx2}" 
    using subseq_set [OF selectTxs_subseq] by (metis list.simps(15) list.set(1))
  then have "filter (\<lambda>tx. tx_From tx = replicate 20 1 \<and> tx_Nonce tx = nonceOf (s_State s1) (replicate 20 1)) ?b = ?b"
    using l c(2,3) by (intro filter_True) auto
  then show ?thesis using l c(1) by auto
qed

text \<open>C40: when the block is refused, for any one transaction, everything that was collected for it is lost: the state
  of the sequencer is the one after the collection, with an empty express lane and the next block number.\<close>

theorem refused_block_drops:
  assumes "state_ok (s_State s)" "ProduceBlock n sch order s timestamp = Done (s', Inl (BlockErr err))"
  shows "(\<exists>cands. produced order s timestamp = Some (s', cands)) \<and> s_Header s' = nextHeader (s_Header s) timestamp \<and>
    s_LastBatch s' = s_LastBatch s \<and> (\<forall>t. s_Timeboost s' = Some t \<longrightarrow> tb_items t = [])"
proof -
  obtain s1 cands a t header where p: "produced order s timestamp = Some (s1, cands)"
    "ProcessBlock n sch (s_arena s1) (s_State s1) (s_Header s1)
       (selectTxs (s_State s1) (h_GasLimit (s_Header s1)) (s_maxTxs s1) [] 0 Map.empty cands) = Done (a, t, header, Inl err)"
    "s' = s1\<lparr>s_arena := a, s_State := t, s_Header := header\<rparr>"
    using ProduceBlock_refused [OF assms(2)] by metis
  note k = produced_keeps [OF p(1)]
  have "a = s_arena s1 \<and> t = s_State s1 \<and> header = s_Header s1"
    using ProcessBlock_error [OF state_ok_steps [OF k(3) assms(1)] p(2)] by blast
  then have "s' = s1" using p(3) by simp
  then show ?thesis using p(1) k(1,5,7) by blast
qed

text \<open>A sequencer whose express lane holds a transaction without gas.\<close>

definition poor_express :: Sequencer where
  "poor_express = (NewSequencer arena0 None)\<lparr>s_Timeboost := Some \<lparr>tb_window = 60, tb_items = [\<lparr>ei_tx = newTransaction, ei_deadline = 60\<rparr>]\<rparr>\<rparr>"

lemma poor_refused: "\<exists>s'. ProduceBlock 1 sch0 (\<lambda>_. []) poor_express 7 = Done (s', Inl (BlockErr ErrIntrinsicGas))"
proof -
  have c: "\<exists>s1. produced (\<lambda>_. []) poor_express 7 = Some (s1, [newTransaction]) \<and> s_State s1 = NewStateTrie \<and> h_GasLimit (s_Header s1) = 30000000 \<and> s_maxTxs s1 = 128"
    by (simp add: produced_def collect_def collectInbox_def PopReady_def NewSequencer_def NewDelayedInbox_def collectExpress_def
        poor_express_def Drain_def collectPool_def NewMempool_def Count_def PopBatch_def nextHeader_def zeroHeader_def Let_def)
  have s: "selectTxs NewStateTrie 30000000 128 [] 0 Map.empty [newTransaction] = [newTransaction]"
    by (simp add: newTransaction_def nonceOf_def GetAccount_def NewStateTrie_def SafeAddGas_iff Let_def B64_def)
  have i: "intrinsicGas newTransaction = 53000" by (simp add: intrinsicGas_def newTransaction_def words32_def)
  have g: "tx_Gas newTransaction = 0" by (simp add: newTransaction_def)
  have b: "ProcessBlock 1 sch0 ar NewStateTrie header [newTransaction] = Done (ar, NewStateTrie, header, Inl ErrIntrinsicGas)" for ar header
    by (simp add: ProcessBlock_def Snapshot_def ProcessTransaction_def i g RevertToSnapshot_def NewStateTrie_def)
  have "h_Number (s_Header poor_express) \<noteq> - 1" by (simp add: poor_express_def NewSequencer_def zeroHeader_def)
  then show ?thesis using c s b by (auto simp: ProduceBlock_eq Let_def)
qed

theorem refused_block_drops_witness:
  "\<exists>s'. ProduceBlock 1 sch0 (\<lambda>_. []) poor_express 7 = Done (s', Inl (BlockErr ErrIntrinsicGas)) \<and> h_Number (s_Header s') = 1 \<and>
     (\<forall>t. s_Timeboost s' = Some t \<longrightarrow> tb_items t = [])"
proof -
  obtain s' where d: "ProduceBlock 1 sch0 (\<lambda>_. []) poor_express 7 = Done (s', Inl (BlockErr ErrIntrinsicGas))" using poor_refused by blast
  have "state_ok (s_State poor_express)" using new_ok by (simp add: poor_express_def NewSequencer_def)
  from refused_block_drops [OF this d] d show ?thesis by (auto simp: poor_express_def NewSequencer_def zeroHeader_def nextHeader_def)
qed

end
